(* ===== verification/Prelude.thy ===== *)
theory Prelude
  imports Main "HOL-Library.Word"
begin

unbundle bit_operations_syntax

text \<open>
  Shared vocabulary of the tthread development: the machine integers of the C++ code, the
  faults a call can end in, the constants of \<^verbatim>\<open>src/include/xdefines.h\<close>, and the generic
  lemmas on lists and words the component theories use.

  \<^item> \<open>size_t\<close>, \<open>unsigned long\<close> and addresses are \<open>64 word\<close>s, so every \<open>+\<close>, \<open>-\<close> and shift wraps as
    on x86_64; \<open>unsigned int\<close> and \<open>unsigned short\<close> are \<open>32 word\<close> and \<open>16 word\<close>.
  \<^item> A call that aborts, exits or dereferences \<open>NULL\<close> is \<open>Inl\<close> of a \<open>fault\<close>; a call that returns
    is \<open>Inr\<close>. The library is built with \<^verbatim>\<open>NDEBUG\<close> and without \<^verbatim>\<open>DEBUG_ENABLED\<close>, so \<open>assert\<close> and
    \<open>ASSERT\<close> test nothing and are not branches of the model.
\<close>

named_theorems step_simps \<open>equations that evaluate one operation of a component\<close>
named_theorems frame_simps \<open>what an operation leaves unchanged\<close>

type_synonym u8 = "8 word"
type_synonym u16 = "16 word"
type_synonym u32 = "32 word"
type_synonym u64 = "64 word"

datatype fault =
    Abort          \<comment> \<open>\<open>::abort()\<close>\<close>
  | Exit           \<comment> \<open>\<open>exit(...)\<close>\<close>
  | Segv           \<comment> \<open>an access through a null pointer\<close>
  | OutOfRange     \<comment> \<open>\<open>std::out_of_range\<close>\<close>
  | RuntimeError   \<comment> \<open>\<open>std::runtime_error\<close>\<close>
  | Undefined      \<comment> \<open>an uninitialized value is used, or a buffer overflows\<close>

type_synonym 'a res = "fault + 'a"

fun rbind :: "'a res \<Rightarrow> ('a \<Rightarrow> 'b res) \<Rightarrow> 'b res" where
  "rbind (Inl e) f = Inl e"
| "rbind (Inr x) f = f x"

lemma rbind_Inr_iff: "rbind m f = Inr y \<longleftrightarrow> (\<exists>x. m = Inr x \<and> f x = Inr y)"
  by (cases m) auto

text \<open>A loop over the elements of a list whose body may fail.\<close>

fun rfold :: "('a \<Rightarrow> 's \<Rightarrow> 's res) \<Rightarrow> 'a list \<Rightarrow> 's \<Rightarrow> 's res" where
  "rfold f [] s = Inr s"
| "rfold f (x # xs) s = rbind (f x s) (rfold f xs)"

lemma rbind_assoc: "rbind (rbind m f) g = rbind m (\<lambda>x. rbind (f x) g)"
  by (cases m) auto

subsection \<open>Constants of xdefines.h\<close>

definition PROTECTEDHEAP_SIZE :: u64 where "PROTECTEDHEAP_SIZE = 1048576 * 4096"
definition PROTECTEDHEAP_CHUNK :: u64 where "PROTECTEDHEAP_CHUNK = 10485760"
definition MAX_GLOBALS_SIZE :: u64 where "MAX_GLOBALS_SIZE = 1048576 * 40"
definition INTERNALHEAP_SIZE :: u64 where "INTERNALHEAP_SIZE = 1048576 * 100"
definition PageSize :: u64 where "PageSize = 4096"
definition PageShift :: nat where "PageShift = 12"
definition PAGE_SIZE_MASK :: u64 where "PAGE_SIZE_MASK = PageSize - 1"
definition NUM_HEAPS :: u64 where "NUM_HEAPS = 32"
definition LOCK_OWNER_BUDGET :: int where "LOCK_OWNER_BUDGET = 10"

definition PAGE_ALIGN_DOWN :: "u64 \<Rightarrow> u64" where
  "PAGE_ALIGN_DOWN x = x AND NOT PAGE_SIZE_MASK"

definition PAGE_ALIGN_UP :: "u64 \<Rightarrow> u64" where
  "PAGE_ALIGN_UP x = (x + PAGE_SIZE_MASK) AND NOT PAGE_SIZE_MASK"

subsection \<open>Words\<close>

lemma unat_take_bit_mod: "unat (take_bit n x) = unat x mod 2 ^ n"
  for x :: "'a::len word"
  by (subst unsigned_take_bit_eq) (rule take_bit_eq_mod)

lemma unat_and_not_mask:
  fixes x :: "'a::len word"
  shows "unat (x AND NOT (mask n)) = unat x - unat x mod 2 ^ n"
proof -
  have "take_bit n x AND (x AND NOT (mask n)) = 0"
    by (rule bit_eqI) (auto simp: bit_simps)
  then have "take_bit n x + (x AND NOT (mask n)) = take_bit n x OR (x AND NOT (mask n))"
    by (rule disjunctive_add_eq_or)
  also have "\<dots> = x"
    by (rule bit_eqI) (auto simp: bit_simps)
  finally have "take_bit n x + (x AND NOT (mask n)) = x" .
  then have "x AND NOT (mask n) = x - take_bit n x"
    by (metis add_diff_cancel_left')
  moreover have "take_bit n x \<le> x"
    by (simp add: word_le_nat_alt unat_take_bit_mod)
  ultimately show ?thesis
    by (simp add: unat_sub unat_take_bit_mod)
qed

text \<open>Counters below \<open>2^64\<close> compare as numbers.\<close>

lemma of_nat_le_u64: "m < 2 ^ 64 \<Longrightarrow> n < 2 ^ 64 \<Longrightarrow> (of_nat m :: u64) \<le> of_nat n \<longleftrightarrow> m \<le> n"
  by (simp add: word_of_nat_less_eq_iff take_bit_nat_eq_self)

lemma of_nat_eq_u64: "m < 2 ^ 64 \<Longrightarrow> n < 2 ^ 64 \<Longrightarrow> (of_nat m :: u64) = of_nat n \<longleftrightarrow> m = n"
  by (metis of_nat_le_u64 order.antisym order_refl)

lemma unat_of_nat_u64: "n < 2 ^ 64 \<Longrightarrow> unat (of_nat n :: u64) = n"
  by (simp add: unsigned_of_nat take_bit_nat_eq_self)

subsection \<open>Page alignment\<close>

lemma PAGE_SIZE_MASK_mask: "PAGE_SIZE_MASK = mask 12"
  by (simp add: PAGE_SIZE_MASK_def PageSize_def mask_eq_exp_minus_1)

lemma unat_PAGE_ALIGN_DOWN: "unat (PAGE_ALIGN_DOWN x) = unat x - unat x mod 4096"
  using unat_and_not_mask [of x 12] by (simp add: PAGE_ALIGN_DOWN_def PAGE_SIZE_MASK_mask)

lemma unat_PAGE_ALIGN_UP:
  assumes "unat x + 4095 < 2 ^ 64"
  shows "unat (PAGE_ALIGN_UP x) = (unat x + 4095) - (unat x + 4095) mod 4096"
proof -
  have "unat (x + PAGE_SIZE_MASK) = unat x + 4095"
    using assms by (simp add: PAGE_SIZE_MASK_def PageSize_def unat_word_ariths)
  then show ?thesis
    using unat_and_not_mask [of "x + PAGE_SIZE_MASK" 12]
    by (simp add: PAGE_ALIGN_UP_def PAGE_SIZE_MASK_mask)
qed

lemma PAGE_ALIGN_DOWN_le: "PAGE_ALIGN_DOWN x \<le> x"
  by (simp add: word_le_nat_alt unat_PAGE_ALIGN_DOWN)

lemma PAGE_ALIGN_DOWN_idem: "PAGE_ALIGN_DOWN (PAGE_ALIGN_DOWN x) = PAGE_ALIGN_DOWN x"
  by (simp add: PAGE_ALIGN_DOWN_def and.assoc)

end
