(* ===== verification/Size_Class.thy ===== *)
theory Size_Class
  imports Prelude
begin

text \<open>
  The Kingsley size classes of \<^verbatim>\<open>src/include/heaplayers/kingsleyheap.h\<close>: \<open>size2Class\<close> with its
  table for small sizes and its shift loop for large ones, \<open>class2Size\<close>, and the proof that
  together they pick the least power-of-two class that fits.
\<close>

definition NUMBINS :: nat where "NUMBINS = 29"

definition class2Size :: "nat \<Rightarrow> u64" where
  "class2Size i = push_bit (i + 3) 1"

definition cl :: "nat list" where
  "cl = [0, 1, 2, 2, 3, 3, 3, 3, 4, 4, 4, 4, 4, 4, 4, 4]"

lemma unat_drop_bit: "unat (drop_bit n x) = unat x div 2 ^ n" for x :: u64
proof -
  have "unat (drop_bit n x) = drop_bit n (take_bit 64 (unat x))"
    by (subst unsigned_drop_bit_eq) simp
  moreover have "take_bit 64 (unat x) = unat x"
    using unsigned_less [of x, where 'a = nat] by (simp add: take_bit_nat_eq_self)
  ultimately show ?thesis by (simp add: drop_bit_eq_div)
qed

function size2Class_loop :: "u64 \<Rightarrow> nat \<Rightarrow> nat" where
  "size2Class_loop sz1 c = (if 7 < sz1 then size2Class_loop (drop_bit 1 sz1) (c + 1) else c)"
  by pat_completeness auto

termination
  by (relation "measure (\<lambda>(s, c). unat s)") (auto simp: unat_drop_bit word_less_nat_alt)

declare size2Class_loop.simps [simp del]

definition size2Class :: "u64 \<Rightarrow> nat" where
  "size2Class sz0 =
     (let sz = (if sz0 < 8 then 8 else sz0) in
      if sz \<le> 128 then cl ! unat (drop_bit 3 (sz - 1))
      else size2Class_loop (drop_bit 5 (sz - 1)) 5)"

lemma size2Class_loop_spec:
  "\<exists>k. size2Class_loop s c = c + k \<and> unat s < 2 ^ (k + 3) \<and> (k = 0 \<or> 2 ^ (k + 2) \<le> unat s)"
proof (induction s c rule: size2Class_loop.induct)
  case (1 s c)
  show ?case
  proof (cases "7 < s")
    case True
    then have u: "7 < unat s" by (simp add: word_less_nat_alt)
    from "1"[OF True] obtain k where k: "size2Class_loop (drop_bit 1 s) (c + 1) = c + 1 + k"
      "unat s div 2 < 2 ^ (k + 3)" "k = 0 \<or> 2 ^ (k + 2) \<le> unat s div 2"
      by (auto simp: unat_drop_bit)
    have "unat s < 2 ^ (Suc k + 3)" using k(2) by (simp add: power_add)
    moreover have "2 ^ (Suc k + 2) \<le> unat s" using k(3) u by auto
    ultimately show ?thesis
      using True k(1) by (subst size2Class_loop.simps) (intro exI [of _ "Suc k"], auto)
  next
    case False
    then have "unat s < 8" by (simp add: word_less_nat_alt)
    with False show ?thesis by (subst size2Class_loop.simps) auto
  qed
qed

definition fits :: "u64 \<Rightarrow> nat \<Rightarrow> bool" where
  "fits sz c = (unat sz \<le> 2 ^ (c + 3))"

lemma cl_table:
  assumes "n < 128" "7 \<le> n"
  shows "n < 2 ^ (cl ! (n div 8) + 3) \<and> (cl ! (n div 8) = 0 \<or> 2 ^ (cl ! (n div 8) + 2) \<le> n)"
proof -
  have "\<forall>n<128. 7 \<le> n \<longrightarrow>
      n < 2 ^ (cl ! (n div 8) + 3) \<and> (cl ! (n div 8) = 0 \<or> 2 ^ (cl ! (n div 8) + 2) \<le> n)"
    by code_simp
  with assms show ?thesis by blast
qed

lemma size2Class_bounds:
  "fits sz (size2Class sz) \<and> (size2Class sz = 0 \<or> 2 ^ (size2Class sz + 2) < unat sz)"
proof -
  define s where "s = (if sz < 8 then 8 else sz)"
  have s8: "8 \<le> unat s" and le: "unat sz \<le> unat s"
    by (auto simp: s_def word_less_nat_alt)
  have m1: "unat (s - 1) = unat s - 1"
    using s8 by (subst unat_sub) (auto simp: word_le_nat_alt)
  obtain c where c: "size2Class sz = c" "unat s - 1 < 2 ^ (c + 3)"
    "c = 0 \<or> 2 ^ (c + 2) \<le> unat s - 1"
  proof (cases "s \<le> 128")
    case True
    then have "unat s - 1 < 128" "7 \<le> unat s - 1"
      using s8 by (auto simp: word_le_nat_alt)
    from cl_table [OF this] show ?thesis
      using True that [of "cl ! ((unat s - 1) div 8)"]
      by (simp add: size2Class_def s_def [symmetric] unat_drop_bit m1)
  next
    case False
    then have gt: "128 < unat s" by (auto simp: word_le_nat_alt)
    obtain k where k: "size2Class_loop (drop_bit 5 (s - 1)) 5 = 5 + k"
      "(unat s - 1) div 32 < 2 ^ (k + 3)" "k = 0 \<or> 2 ^ (k + 2) \<le> (unat s - 1) div 32"
      using size2Class_loop_spec [of "drop_bit 5 (s - 1)" 5] by (auto simp: unat_drop_bit m1)
    have "unat s - 1 < 2 ^ (k + 3) * 32" using k(2) by (simp add: div_less_iff_less_mult)
    moreover have "2 ^ (k + 2) * 32 \<le> unat s - 1"
      using k(3) gt by (auto simp: less_eq_div_iff_mult_less_eq)
    ultimately show ?thesis
      using False k(1) that [of "5 + k"]
      by (simp add: size2Class_def s_def [symmetric] power_add)
  qed
  have "unat sz = unat s" if "c \<noteq> 0"
  proof -
    have "(8::nat) \<le> 2 ^ (c + 2)" using that by (cases c) auto
    then show ?thesis using that c(3) by (cases "sz < 8") (auto simp: s_def)
  qed
  then have "c = 0 \<or> 2 ^ (c + 2) < unat sz"
    using c(3) s8 by (cases "c = 0") auto
  moreover have "fits sz c"
    using c(2) le by (simp add: fits_def)
  ultimately show ?thesis by (simp add: c(1))
qed

lemma unat_class2Size: "i < 61 \<Longrightarrow> unat (class2Size i) = 2 ^ (i + 3)"
proof -
  assume "i < 61"
  then have "(2::nat) ^ (i + 3) < 2 ^ 64" by (intro power_strict_increasing) auto
  with \<open>i < 61\<close> show ?thesis
    unfolding class2Size_def
    by (subst unsigned_push_bit_eq) (simp add: push_bit_eq_mult take_bit_nat_eq_self)
qed

lemma fits_class2Size: "c < 61 \<Longrightarrow> fits sz c = (sz \<le> class2Size c)"
  by (simp add: fits_def word_le_nat_alt unat_class2Size)

lemma size2Class_le: "unat sz \<le> 2 ^ (c + 3) \<Longrightarrow> size2Class sz \<le> c"
proof (rule ccontr)
  assume le: "unat sz \<le> 2 ^ (c + 3)" and "\<not> size2Class sz \<le> c"
  then have "(2::nat) ^ (c + 3) \<le> 2 ^ (size2Class sz + 2)" and "size2Class sz \<noteq> 0"
    using power_increasing [of "c + 3" "size2Class sz + 2" "2::nat"] by auto
  with size2Class_bounds [of sz] le show False by auto
qed

lemma size2Class_less: "sz \<le> class2Size c \<Longrightarrow> c < 61 \<Longrightarrow> size2Class sz \<le> c"
  by (rule size2Class_le) (simp add: word_le_nat_alt unat_class2Size)

lemma size2Class_bin: "sz \<le> class2Size (NUMBINS - 1) \<Longrightarrow> size2Class sz < NUMBINS"
  using size2Class_less [of sz 28] by (simp add: NUMBINS_def)

lemma le_class2Size: "sz \<le> class2Size (NUMBINS - 1) \<Longrightarrow> sz \<le> class2Size (size2Class sz)"
  using size2Class_bounds [of sz] size2Class_bin [of sz]
  by (simp add: fits_class2Size NUMBINS_def)

text \<open>
  C36: \<open>size2Class\<close> returns, for every request, the least class whose power-of-two size fits it: the
  lookup table for requests up to 128 bytes and the shift loop above agree with this specification.
\<close>

theorem size2Class_least: "size2Class sz = (LEAST c. unat sz \<le> 2 ^ (c + 3))"
proof (rule Least_equality [symmetric])
  show "unat sz \<le> 2 ^ (size2Class sz + 3)"
    using size2Class_bounds [of sz] by (simp add: fits_def)
qed (rule size2Class_le)

lemma size2Class_class2Size: "i < NUMBINS \<Longrightarrow> size2Class (class2Size i) = i"
proof (rule antisym)
  assume i: "i < NUMBINS"
  then show "size2Class (class2Size i) \<le> i" by (intro size2Class_less) (auto simp: NUMBINS_def)
  show "i \<le> size2Class (class2Size i)"
    using size2Class_bounds [of "class2Size i"] i
    by (simp add: fits_def unat_class2Size NUMBINS_def)
qed

end
