(* ===== verification/Heap_Layers.thy ===== *)
theory Heap_Layers
  imports Size_Class
begin

text \<open>
  The allocator that \<^verbatim>\<open>warpheap.h\<close> assembles from the Heap Layers templates, bottom up:
  \<open>SLList\<close> (\<^verbatim>\<open>util/sllist.h\<close>) under \<open>AdaptHeap\<close> (\<^verbatim>\<open>adapt.h\<close>), the bump arenas of \<open>ZoneHeap\<close>
  (\<^verbatim>\<open>zoneheap.h\<close>), object headers (\<^verbatim>\<open>objectheader.h\<close> and \<open>NewSourceHeap\<close>), the strict segregated
  fit \<open>StrictSegHeap\<close> (\<^verbatim>\<open>segheap.h\<close>), \<open>ANSIWrapper\<close> and the per-thread \<open>PPHeap\<close>. Template
  parameters that are heaps are function arguments: \<open>smalloc\<close> is the source heap's \<open>malloc\<close>, over
  its own state \<open>'s\<close>, returning \<open>0\<close> for \<open>NULL\<close>.

  Memory is a store of 8-byte cells indexed by byte address; all metadata (list links, arena
  fields, object headers) lives in it at the offsets of the C++ layout.
\<close>

type_synonym mem = "u64 \<Rightarrow> u64"

subsection \<open>SLList and AdaptHeap: the free lists\<close>

definition sll_clear :: "u64 \<times> mem \<Rightarrow> u64 \<times> mem" where
  "sll_clear d = (0, snd d)"

definition sll_get :: "u64 \<times> mem \<Rightarrow> u64 \<times> (u64 \<times> mem)" where
  "sll_get d = (case d of (head, m) \<Rightarrow> if head = 0 then (0, d) else (head, (m head, m)))"

definition sll_insert :: "u64 \<Rightarrow> u64 \<times> mem \<Rightarrow> u64 \<times> mem" where
  "sll_insert e d = (case d of (head, m) \<Rightarrow> (e, m(e := head)))"

definition adapt_malloc :: "('d \<Rightarrow> u64 \<times> 'd) \<Rightarrow> u64 \<Rightarrow> 'd \<Rightarrow> u64 \<times> 'd" where
  "adapt_malloc dget sz dict = dget dict"

definition adapt_free :: "(u64 \<Rightarrow> 'd \<Rightarrow> 'd) \<Rightarrow> u64 \<Rightarrow> 'd \<Rightarrow> 'd" where
  "adapt_free dinsert ptr dict = dinsert ptr dict"

subsection \<open>ZoneHeap\<close>

definition zone_align :: "u64 \<Rightarrow> u64" where
  "zone_align sz = (sz + (8 - 1)) AND NOT (8 - 1)"

definition sizeof_Arena :: u64 where "sizeof_Arena = 32"

text \<open>\<open>Arena\<close>: \<open>_remaining\<close> at offset 0, \<open>_nextArena\<close> at 8, \<open>_arenaSpace\<close> at 16.\<close>

definition arena_init :: "u64 \<Rightarrow> u64 \<Rightarrow> mem \<Rightarrow> mem" where
  "arena_init a sz m = m(a := sz, a + 8 := 0, a + 16 := a + sizeof_Arena)"

definition arena_malloc :: "u64 \<Rightarrow> u64 \<Rightarrow> mem \<Rightarrow> u64 \<times> mem" where
  "arena_malloc a sz m =
     (if m a < sz then (0, m)
      else let m1 = m(a := m a - sz); ptr = m1 (a + 16) in (ptr, m1(a + 16 := ptr + sz)))"

definition arena_setNextArena :: "u64 \<Rightarrow> u64 \<Rightarrow> mem \<Rightarrow> mem" where
  "arena_setNextArena a n m = m(a + 8 := n)"

record zone =
  currentArena :: u64
  pastArenas :: u64

record 's store =
  cells :: mem
  source :: 's

type_synonym 's malloc_fn = "'s \<Rightarrow> u64 \<Rightarrow> (u64 \<times> 's) res"

definition zone_init :: zone where
  "zone_init = \<lparr>currentArena = 0, pastArenas = 0\<rparr>"

definition zone_slowMalloc ::
  "'s malloc_fn \<Rightarrow> u64 \<Rightarrow> u64 \<Rightarrow> zone \<times> 's store \<Rightarrow> (u64 \<times> (zone \<times> 's store)) res" where
  "zone_slowMalloc smalloc ChunkSize sz zs = (case zs of (z, st) \<Rightarrow>
     let (z1, m1) =
       (if currentArena z \<noteq> 0
        then (z\<lparr>pastArenas := currentArena z, currentArena := 0\<rparr>,
              arena_setNextArena (currentArena z) (pastArenas z) (cells st))
        else (z, cells st));
       allocSize = (if ChunkSize < sz then sz else ChunkSize) in
     rbind (smalloc (source st) (sizeof_Arena + allocSize)) (\<lambda>(buf, s').
       if buf = 0 then Inr (0, (z1, \<lparr>cells = m1, source = s'\<rparr>))
       else
         let m2 = arena_init buf allocSize m1; (ptr, m3) = arena_malloc buf sz m2 in
         Inr (ptr, (z1\<lparr>currentArena := buf\<rparr>, \<lparr>cells = m3, source = s'\<rparr>))))"

definition zone_malloc ::
  "'s malloc_fn \<Rightarrow> u64 \<Rightarrow> u64 \<Rightarrow> zone \<times> 's store \<Rightarrow> (u64 \<times> (zone \<times> 's store)) res" where
  "zone_malloc smalloc ChunkSize sz0 zs = (case zs of (z, st) \<Rightarrow>
     let sz = zone_align sz0 in
     if currentArena z \<noteq> 0 \<and> sz \<le> cells st (currentArena z)
     then let (ptr, m') = arena_malloc (currentArena z) sz (cells st) in
          Inr (ptr, (z, st\<lparr>cells := m'\<rparr>))
     else zone_slowMalloc smalloc ChunkSize sz zs)"

definition zone_free :: "u64 \<Rightarrow> zone \<times> 's store \<Rightarrow> zone \<times> 's store" where
  "zone_free ptr zs = zs"

subsection \<open>Object headers and NewSourceHeap\<close>

definition MAGIC :: u64 where "MAGIC = 0xCAFEBABE"
definition sizeof_objectHeader :: u64 where "sizeof_objectHeader = 16"

definition objectHeader_init :: "u64 \<Rightarrow> u64 \<Rightarrow> mem \<Rightarrow> mem" where
  "objectHeader_init hdr sz m = m(hdr := sz, hdr + 8 := MAGIC)"

definition objectHeader_sanityCheck :: "u64 \<Rightarrow> mem \<Rightarrow> unit res" where
  "objectHeader_sanityCheck hdr m = (if m (hdr + 8) \<noteq> MAGIC then Inl Abort else Inr ())"

definition objectHeader_getSize :: "u64 \<Rightarrow> mem \<Rightarrow> u64 res" where
  "objectHeader_getSize hdr m = rbind (objectHeader_sanityCheck hdr m) (\<lambda>_. Inr (m hdr))"

definition objectHeader_isValidObject :: "u64 \<Rightarrow> mem \<Rightarrow> bool res" where
  "objectHeader_isValidObject hdr m =
     rbind (objectHeader_sanityCheck hdr m) (\<lambda>_. Inr (m hdr mod 8 = 0))"

definition getObject :: "u64 \<Rightarrow> u64" where
  "getObject ptr = ptr - sizeof_objectHeader"

definition newsource_malloc ::
  "'s malloc_fn \<Rightarrow> u64 \<Rightarrow> u64 \<Rightarrow> zone \<times> 's store \<Rightarrow> (u64 \<times> (zone \<times> 's store)) res" where
  "newsource_malloc smalloc ChunkSize sz zs =
     rbind (zone_malloc smalloc ChunkSize (sz + sizeof_objectHeader) zs) (\<lambda>(ptr, (z, st)).
       if ptr = 0 then Inr (0, (z, st))
       else Inr (ptr + sizeof_objectHeader, (z, st\<lparr>cells := objectHeader_init ptr sz (cells st)\<rparr>)))"

definition newsource_free :: "u64 \<Rightarrow> zone \<times> 's store \<Rightarrow> zone \<times> 's store" where
  "newsource_free ptr zs = zone_free (getObject ptr) zs"

definition newsource_getSize :: "u64 \<Rightarrow> mem \<Rightarrow> u64 res" where
  "newsource_getSize ptr m = objectHeader_getSize (getObject ptr) m"

subsection \<open>StrictSegHeap\<close>

record kheap =
  myLittleHeap :: "nat \<Rightarrow> u64"   \<comment> \<open>the \<open>head.next\<close> of each class's \<open>SLList\<close>\<close>
  memoryHeld :: u64
  bigheap :: zone

definition maxObjectSize :: u64 where "maxObjectSize = class2Size (NUMBINS - 1)"

definition kheap_init :: kheap where
  "kheap_init = \<lparr>myLittleHeap = (\<lambda>_. 0), memoryHeld = 0, bigheap = zone_init\<rparr>"

definition seg_big ::
  "'s malloc_fn \<Rightarrow> u64 \<Rightarrow> u64 \<Rightarrow> kheap \<times> 's store \<Rightarrow> (u64 \<times> (kheap \<times> 's store)) res" where
  "seg_big smalloc ChunkSize sz ks = (case ks of (k, st) \<Rightarrow>
     rbind (newsource_malloc smalloc ChunkSize sz (bigheap k, st)) (\<lambda>(ptr, (z, st')).
       Inr (ptr, (k\<lparr>bigheap := z\<rparr>, st'))))"

definition seg_malloc ::
  "'s malloc_fn \<Rightarrow> u64 \<Rightarrow> u64 \<Rightarrow> kheap \<times> 's store \<Rightarrow> (u64 \<times> (kheap \<times> 's store)) res" where
  "seg_malloc smalloc ChunkSize sz ks = (case ks of (k, st) \<Rightarrow>
     if sz \<le> maxObjectSize then
       let sizeClass = size2Class sz; objectSize = class2Size sizeClass;
           (ptr, (head, m)) =
             adapt_malloc sll_get objectSize (myLittleHeap k sizeClass, cells st);
           k1 = k\<lparr>myLittleHeap := (myLittleHeap k)(sizeClass := head)\<rparr>;
           st1 = st\<lparr>cells := m\<rparr> in
       if ptr = 0 then seg_big smalloc ChunkSize objectSize (k1, st1)
       else Inr (ptr, (k1, st1))
     else seg_big smalloc ChunkSize sz ks)"

text \<open>
  The loop of \<open>free\<close> that lowers the class while it is larger than the object; a class below 0
  would index the array of little heaps out of bounds.
\<close>

fun seg_lower :: "u64 \<Rightarrow> nat \<Rightarrow> nat res" where
  "seg_lower objectSize 0 = (if objectSize < class2Size 0 then Inl Segv else Inr 0)"
| "seg_lower objectSize (Suc c) =
     (if objectSize < class2Size (Suc c) then seg_lower objectSize c else Inr (Suc c))"

definition seg_free :: "u64 \<Rightarrow> kheap \<times> 's store \<Rightarrow> (kheap \<times> 's store) res" where
  "seg_free ptr ks = (case ks of (k, st) \<Rightarrow>
     rbind (newsource_getSize ptr (cells st)) (\<lambda>objectSize.
       if objectSize = 0 then Inr (k, st)
       else if maxObjectSize < objectSize then
         (case newsource_free ptr (bigheap k, st) of (z, st') \<Rightarrow> Inr (k\<lparr>bigheap := z\<rparr>, st'))
       else
         rbind (seg_lower objectSize (size2Class objectSize)) (\<lambda>c.
         case adapt_free sll_insert ptr (myLittleHeap k c, cells st) of (head, m) \<Rightarrow>
           Inr (k\<lparr>myLittleHeap := (myLittleHeap k)(c := head),
                  memoryHeld := memoryHeld k + objectSize\<rparr>,
                st\<lparr>cells := m\<rparr>))))"

subsection \<open>ANSIWrapper\<close>

definition ansi_align :: "u64 \<Rightarrow> u64" where
  "ansi_align sz = (sz + (8 - 1)) AND NOT (8 - 1)"

definition ansi_malloc ::
  "'s malloc_fn \<Rightarrow> u64 \<Rightarrow> u64 \<Rightarrow> kheap \<times> 's store \<Rightarrow> (u64 \<times> (kheap \<times> 's store)) res" where
  "ansi_malloc smalloc ChunkSize sz0 ks =
     (let sz = (if sz0 < 2 * 8 then 2 * 8 else sz0) in
      seg_malloc smalloc ChunkSize (ansi_align sz) ks)"

definition ansi_free :: "u64 \<Rightarrow> kheap \<times> 's store \<Rightarrow> (kheap \<times> 's store) res" where
  "ansi_free ptr ks = (if ptr \<noteq> 0 then seg_free ptr ks else Inr ks)"

definition ansi_getSize :: "u64 \<Rightarrow> mem \<Rightarrow> u64 res" where
  "ansi_getSize ptr m = (if ptr \<noteq> 0 then newsource_getSize ptr m else Inr 0)"

subsection \<open>PPHeap: one Kingsley heap per heap index\<close>

record 's ppheap =
  heaps :: "nat \<Rightarrow> kheap"
  stored :: "'s store"

definition pp_malloc ::
  "'s malloc_fn \<Rightarrow> u64 \<Rightarrow> nat \<Rightarrow> u64 \<Rightarrow> 's ppheap \<Rightarrow> (u64 \<times> 's ppheap) res" where
  "pp_malloc smalloc ChunkSize ind sz p =
     rbind (ansi_malloc smalloc ChunkSize sz (heaps p ind, stored p)) (\<lambda>(ptr, (k, st)).
       Inr (ptr, \<lparr>heaps = (heaps p)(ind := k), stored = st\<rparr>))"

definition pp_free :: "nat \<Rightarrow> u64 \<Rightarrow> 's ppheap \<Rightarrow> 's ppheap res" where
  "pp_free ind ptr p =
     rbind (ansi_free ptr (heaps p ind, stored p)) (\<lambda>(k, st).
       Inr \<lparr>heaps = (heaps p)(ind := k), stored = st\<rparr>)"

definition pp_getSize :: "u64 \<Rightarrow> 's ppheap \<Rightarrow> u64 res" where
  "pp_getSize ptr p = ansi_getSize ptr (cells (stored p))"

subsection \<open>The two source heaps\<close>

text \<open>
  \<open>xheap\<close> (\<^verbatim>\<open>xheap.h\<close>): a bump pointer over the protected region, in whole pages. The second
  component of \<open>xheap_malloc\<close>'s result carries the page-rounded size to \<open>setOwnedPage\<close>.
\<close>

record xheap =
  start :: u64
  endp :: u64
  position :: u64
  remaining :: u64
  magic :: u64

definition xheap_init :: "u64 \<Rightarrow> u64 \<Rightarrow> xheap" where
  "xheap_init base sz =
     \<lparr>start = base, endp = base + sz, position = base, remaining = sz, magic = 0xCAFEBABE\<rparr>"

definition xheap_sanityCheck :: "xheap \<Rightarrow> unit res" where
  "xheap_sanityCheck x = (if magic x \<noteq> 0xCAFEBABE then Inl Abort else Inr ())"

definition page_round :: "u64 \<Rightarrow> u64" where
  "page_round sz = PageSize * ((sz + PageSize - 1) div PageSize)"

definition xheap_malloc :: "xheap \<Rightarrow> u64 \<Rightarrow> (u64 \<times> xheap) res" where
  "xheap_malloc x sz0 =
     rbind (xheap_sanityCheck x) (\<lambda>_.
       let sz = page_round sz0 in
       if remaining x = 0 then Inl Exit
       else if remaining x < sz then Inl Exit
       else Inr (position x, x\<lparr>remaining := remaining x - sz, position := position x + sz\<rparr>))"

definition xheap_getend :: "xheap \<Rightarrow> u64" where
  "xheap_getend x = position x"

text \<open>
  \<open>SourceInternalHeap\<close> (\<^verbatim>\<open>internalheap.h\<close>): hands out one mapping once. \<open>mapped\<close> is what
  \<open>mmap\<close> returns, a parameter of the model.
\<close>

record isource =
  alreadyMalloced :: bool
  mapped :: u64

definition isource_malloc :: "isource \<Rightarrow> u64 \<Rightarrow> (u64 \<times> isource) res" where
  "isource_malloc s sz =
     (if alreadyMalloced s then Inr (0, s)
      else if mapped s = 0 then Inl Exit
      else Inr (mapped s, s\<lparr>alreadyMalloced := True\<rparr>))"

definition internalheap_malloc ::
  "u64 \<Rightarrow> kheap \<times> isource store \<Rightarrow> (u64 \<times> (kheap \<times> isource store)) res" where
  "internalheap_malloc sz ks =
     rbind (ansi_malloc isource_malloc INTERNALHEAP_SIZE sz ks) (\<lambda>(ptr, ks').
       if ptr = 0 then Inl Abort else Inr (ptr, ks'))"

definition internalheap_free ::
  "u64 \<Rightarrow> kheap \<times> isource store \<Rightarrow> (kheap \<times> isource store) res" where
  "internalheap_free ptr ks = ansi_free ptr ks"

definition internalheap_initialize :: "u64 \<Rightarrow> mem \<Rightarrow> (kheap \<times> isource store) res" where
  "internalheap_initialize base m =
     rbind (internalheap_malloc 8
       (kheap_init, \<lparr>cells = m, source = \<lparr>alreadyMalloced = False, mapped = base\<rparr>\<rparr>))
       (\<lambda>(_, ks). Inr ks)"

end
