(* ===== verification/Heap_Safety.thy ===== *)
theory Heap_Safety
  imports Heap_Layers
begin

text \<open>
  Memory safety of the allocator of \<^verbatim>\<open>warpheap.h\<close>. The locale \<open>source_heap\<close> is the contract of the
  \<open>SourceHeap\<close> template parameter: fresh memory, disjoint from all handed out before. Inside it the
  invariant \<open>heap_inv\<close> ties the cells of the store to the carved objects \<open>C\<close> (a map from an object to
  its size), the free lists \<open>F\<close> of every heap and class, and the live objects \<open>L\<close>.
\<close>

subsection \<open>Address ranges\<close>

definition region :: "u64 \<Rightarrow> u64 \<Rightarrow> nat set" where
  "region p n = {unat p ..< unat p + unat n}"

lemma unat_plus: "unat a + unat b < 2 ^ 64 \<Longrightarrow> unat (a + b) = unat a + unat b" for a b :: u64
  by (simp add: unat_word_ariths)

lemma unat_minus: "unat b \<le> unat a \<Longrightarrow> unat (a - b) = unat a - unat b" for a b :: u64
  by (simp add: unat_sub word_le_nat_alt)

lemma not_7_mask: "NOT (8 - 1) = (NOT (mask 3) :: u64)"
  by (simp add: mask_eq_exp_minus_1)

lemma unat_align8:
  assumes "unat sz + 7 < 2 ^ 64"
  shows "unat (zone_align sz) = (unat sz + 7) - (unat sz + 7) mod 8"
proof -
  have "unat (sz + (8 - 1)) = unat sz + 7" using assms by (subst unat_plus) auto
  then show ?thesis
    using unat_and_not_mask [of "sz + (8 - 1)" 3] unfolding zone_align_def not_7_mask by simp
qed

lemma align8_props:
  assumes "unat sz + 7 < 2 ^ 64"
  shows "sz \<le> zone_align sz" "unat (zone_align sz) \<le> unat sz + 7" "8 dvd unat (zone_align sz)"
proof -
  show "8 dvd unat (zone_align sz)"
    by (simp add: unat_align8 [OF assms] dvd_minus_mod)
  show "sz \<le> zone_align sz"
    unfolding word_le_nat_alt unat_align8 [OF assms] by linarith
  show "unat (zone_align sz) \<le> unat sz + 7"
    by (simp add: unat_align8 [OF assms])
qed

subsection \<open>Free lists in memory\<close>

fun sll :: "mem \<Rightarrow> u64 \<Rightarrow> u64 list \<Rightarrow> bool" where
  "sll m h [] = (h = 0)"
| "sll m h (x # xs) = (h = x \<and> x \<noteq> 0 \<and> sll m (m x) xs)"

lemma sll_cong: "(\<And>x. x \<in> set xs \<Longrightarrow> m' x = m x) \<Longrightarrow> sll m' h xs = sll m h xs"
  by (induction m h xs rule: sll.induct) auto

lemma sll_head: "sll m h xs \<Longrightarrow> (h = 0) = (xs = [])"
  by (cases xs) auto

text \<open>
  The contract a dictionary of free objects has to meet (the \<open>Dictionary\<close> parameter of
  \<open>AdaptHeap\<close>): a stack of objects, last freed first reused.
\<close>

locale free_dictionary =
  fixes holds :: "'d \<Rightarrow> u64 list \<Rightarrow> bool"
    and get_entry :: "'d \<Rightarrow> u64 \<times> 'd"
    and put_entry :: "u64 \<Rightarrow> 'd \<Rightarrow> 'd"
  assumes get_empty: "holds d [] \<Longrightarrow> get_entry d = (0, d)"
    and get_cons: "holds d (x # xs) \<Longrightarrow> \<exists>d'. get_entry d = (x, d') \<and> holds d' xs"
    and put_law: "holds d xs \<Longrightarrow> x \<noteq> 0 \<Longrightarrow> x \<notin> set xs \<Longrightarrow> holds (put_entry x d) (x # xs)"
begin

lemma reuse_last_freed:
  assumes "holds d xs" "x \<noteq> 0" "x \<notin> set xs"
  shows "\<exists>d'. adapt_malloc get_entry sz (adapt_free put_entry x d) = (x, d') \<and> holds d' xs"
  unfolding adapt_malloc_def adapt_free_def by (rule get_cons [OF put_law [OF assms]])

end

interpretation sd: free_dictionary "\<lambda>(h, m). sll m h" sll_get sll_insert
proof (unfold_locales, goal_cases)
  case (3 d xs x)
  obtain h m where d: "d = (h, m)" by (cases d)
  have "sll (m(x := h)) h xs = sll m h xs" using 3(3) by (intro sll_cong) auto
  then show ?case using 3 by (simp add: d sll_insert_def)
qed (auto simp: sll_get_def split: prod.splits)

subsection \<open>Arenas\<close>

definition hdr :: "zone \<Rightarrow> nat set" where
  "hdr z = (if currentArena z = 0 then {} else region (currentArena z) 32)"

definition space :: "mem \<Rightarrow> zone \<Rightarrow> nat set" where
  "space m z = (if currentArena z = 0 then {}
     else region (m (currentArena z + 16)) (m (currentArena z)))"

definition extent :: "mem \<Rightarrow> zone \<Rightarrow> nat set" where
  "extent m z = hdr z \<union> space m z"

definition zone_ok :: "mem \<Rightarrow> nat set \<Rightarrow> zone \<Rightarrow> bool" where
  "zone_ok m Own z \<longleftrightarrow> (currentArena z \<noteq> 0 \<longrightarrow>
     unat (currentArena z) + 32 < 2 ^ 64 \<and> 8 dvd unat (currentArena z) \<and>
     32 \<le> unat (m (currentArena z + 16)) \<and> 8 dvd unat (m (currentArena z + 16)) \<and>
     unat (m (currentArena z + 16)) + unat (m (currentArena z)) < 2 ^ 64 \<and>
     hdr z \<union> space m z \<subseteq> Own \<and> hdr z \<inter> space m z = {})"

definition zones_ok :: "mem \<Rightarrow> nat set \<Rightarrow> (nat \<Rightarrow> zone) \<Rightarrow> nat set \<Rightarrow> bool" where
  "zones_ok m Own zs U \<longleftrightarrow>
     (\<forall>i. zone_ok m Own (zs i)) \<and> U \<subseteq> Own \<and>
     (\<forall>i. U \<inter> extent m (zs i) = {}) \<and>
     (\<forall>i j. i \<noteq> j \<longrightarrow> extent m (zs i) \<inter> extent m (zs j) = {})"

lemma zones_okD:
  assumes "zones_ok m Own zs U"
  shows "zone_ok m Own (zs i)" "U \<subseteq> Own" "U \<inter> extent m (zs i) = {}" "U \<inter> hdr (zs i) = {}"
    "extent m (zs i) \<subseteq> Own"
    "i \<noteq> j \<Longrightarrow> extent m (zs i) \<inter> extent m (zs j) = {}"
    "i \<noteq> j \<Longrightarrow> hdr (zs i) \<inter> hdr (zs j) = {}"
proof -
  note z = assms [unfolded zones_ok_def]
  show "zone_ok m Own (zs i)" "U \<subseteq> Own" and u: "U \<inter> extent m (zs i) = {}"
    using z by simp_all
  show "U \<inter> hdr (zs i) = {}" using u by (auto simp: extent_def)
  have "zone_ok m Own (zs i)" using z by simp
  then show "extent m (zs i) \<subseteq> Own"
    by (cases "currentArena (zs i) = 0") (simp_all add: extent_def zone_ok_def hdr_def space_def)
  show d: "extent m (zs i) \<inter> extent m (zs j) = {}" if "i \<noteq> j" using z that by simp
  show "hdr (zs i) \<inter> hdr (zs j) = {}" if "i \<noteq> j"
    using d [OF that] by (auto simp: extent_def)
qed

lemma hdr_cells:
  assumes "zone_ok m Own z" "currentArena z \<noteq> 0"
  shows "unat (currentArena z) \<in> hdr z" "unat (currentArena z + 16) \<in> hdr z"
    "unat (currentArena z + 8) \<in> hdr z"
    "unat (currentArena z + 16) = unat (currentArena z) + 16"
    "unat (currentArena z + 8) = unat (currentArena z) + 8"
proof -
  have b: "unat (currentArena z) + 32 < 2 ^ 64" using assms by (simp add: zone_ok_def)
  show a: "unat (currentArena z + 16) = unat (currentArena z) + 16"
    "unat (currentArena z + 8) = unat (currentArena z) + 8"
    using b by (subst unat_plus; simp)+
  show "unat (currentArena z) \<in> hdr z" "unat (currentArena z + 16) \<in> hdr z"
    "unat (currentArena z + 8) \<in> hdr z"
    using assms(2) by (auto simp: hdr_def region_def a)
qed

lemma zone_frame:
  assumes "zone_ok m Own z"
    and "\<And>a. unat a \<in> hdr z \<Longrightarrow> m' a = m a"
    and "Own \<subseteq> Own'"
  shows "zone_ok m' Own' z \<and> space m' z = space m z"
  using assms hdr_cells [OF assms(1)] by (auto simp: zone_ok_def space_def)

lemma arena_malloc_spec:
  assumes z: "zone_ok m Own z" "currentArena z \<noteq> 0" and sz: "sz \<le> m (currentArena z)" "8 dvd unat sz"
  shows "\<exists>ptr m'. arena_malloc (currentArena z) sz m = (ptr, m') \<and> zone_ok m' Own z \<and>
    region ptr sz \<union> space m' z \<subseteq> space m z \<and> region ptr sz \<inter> space m' z = {} \<and>
    32 \<le> unat ptr \<and> 8 dvd unat ptr \<and> unat ptr + unat sz < 2 ^ 64 \<and>
    (\<forall>a. unat a \<notin> hdr z \<longrightarrow> m' a = m a)"
proof -
  let ?a = "currentArena z"
  let ?p = "m (?a + 16)"
  let ?m' = "m(?a := m ?a - sz, ?a + 16 := ?p + sz)"
  note c = hdr_cells [OF z]
  have ne: "?a + 16 \<noteq> ?a" by simp
  have b: "32 \<le> unat ?p" "8 dvd unat ?p" "unat ?p + unat (m ?a) < 2 ^ 64"
    "hdr z \<union> space m z \<subseteq> Own" "hdr z \<inter> space m z = {}"
    "unat ?a + 32 < 2 ^ 64" "8 dvd unat ?a"
    using z by (auto simp: zone_ok_def)
  have le: "unat sz \<le> unat (m ?a)" using sz(1) by (simp add: word_le_nat_alt)
  have u: "unat (?p + sz) = unat ?p + unat sz" "unat (m ?a - sz) = unat (m ?a) - unat sz"
    using b(3) le by (auto intro: unat_plus unat_minus)
  have eq: "arena_malloc ?a sz m = (?p, ?m')"
    using sz(1) by (auto simp: arena_malloc_def Let_def dest: leD)
  have sub: "region ?p sz \<union> space ?m' z \<subseteq> space m z" and dj: "region ?p sz \<inter> space ?m' z = {}"
    using z(2) ne le u by (auto simp: space_def region_def)
  have "zone_ok ?m' Own z"
    using b sub z(2) ne le u sz(2) unfolding zone_ok_def by auto
  moreover have "\<forall>a. unat a \<notin> hdr z \<longrightarrow> ?m' a = m a" using c by auto
  ultimately show ?thesis using eq sub dj b le by (intro exI [of _ ?p] exI [of _ ?m']) auto
qed

lemma zones_replace:
  assumes zs: "zones_ok m Own zs U" and own: "Own \<subseteq> Own'"
    and z': "zone_ok m' Own' z'" "extent m' z' \<union> R \<subseteq> X" "R \<inter> extent m' z' = {}" "R \<subseteq> Own'"
    and X: "X \<inter> U = {}" "\<And>j. j \<noteq> i \<Longrightarrow> X \<inter> extent m (zs j) = {}"
    and m': "\<And>j a. j \<noteq> i \<Longrightarrow> unat a \<in> hdr (zs j) \<Longrightarrow> m' a = m a"
  shows "zones_ok m' Own' (zs(i := z')) (U \<union> R)"
proof -
  have fr: "zone_ok m' Own' (zs j)" "extent m' (zs j) = extent m (zs j)" if "j \<noteq> i" for j
    using zone_frame [OF zones_okD(1) [OF zs] m' own, of j] that by (auto simp: extent_def)
  have Ei: "extent m' z' \<subseteq> X" "R \<subseteq> X" using z'(2) by auto
  have pair: "extent m' ((zs(i := z')) j) \<inter> extent m' ((zs(i := z')) k) = {}"
    if jk: "j \<noteq> k" for j k
  proof (cases "j = i")
    case True
    then show ?thesis using jk Ei(1) X(2) [of k] fr(2) [of k] by auto
  next
    case False
    then show ?thesis
      using jk Ei(1) X(2) [of j] fr(2) [of j] fr(2) [of k] zones_okD(6) [OF zs jk]
      by (cases "k = i") auto
  qed
  have one: "(U \<union> R) \<inter> extent m' ((zs(i := z')) j) = {}" for j
    using Ei X z'(3) fr(2) [of j] zones_okD(3) [OF zs, of j] by (cases "j = i") fastforce+
  have ok: "zone_ok m' Own' ((zs(i := z')) j)" for j using fr(1) [of j] z'(1) by auto
  have "U \<union> R \<subseteq> Own'" using zones_okD(2) [OF zs] own z'(4) by auto
  then show ?thesis unfolding zones_ok_def using pair one ok by blast
qed

subsection \<open>Objects, free lists, and the invariant\<close>

definition blk :: "u64 \<Rightarrow> u64 \<Rightarrow> nat set" where
  "blk p s = {unat p - 16 ..< unat p + unat s}"

definition used :: "(u64 \<rightharpoonup> u64) \<Rightarrow> nat set" where
  "used C = {a. \<exists>p s. C p = Some s \<and> a \<in> blk p s}"

record ghost =
  carved :: "u64 \<rightharpoonup> u64"               \<comment> \<open>every object carved so far and its size\<close>
  freel :: "nat \<Rightarrow> nat \<Rightarrow> u64 list"     \<comment> \<open>the free list of each heap and class\<close>
  live :: "u64 set"                   \<comment> \<open>objects a client holds\<close>

definition objs_ok :: "mem \<Rightarrow> (u64 \<rightharpoonup> u64) \<Rightarrow> bool" where
  "objs_ok m C \<longleftrightarrow> (\<forall>p s. C p = Some s \<longrightarrow>
     32 \<le> unat p \<and> 8 dvd unat p \<and> 8 \<le> unat s \<and> unat p + unat s < 2 ^ 64 \<and>
     m (p - 16) = s \<and> m (p - 8) = MAGIC \<and>
     (s \<le> maxObjectSize \<longrightarrow> (\<exists>c<NUMBINS. s = class2Size c)))"

definition objs_disj :: "(u64 \<rightharpoonup> u64) \<Rightarrow> bool" where
  "objs_disj C \<longleftrightarrow> (\<forall>p s q t. C p = Some s \<longrightarrow> C q = Some t \<longrightarrow> p \<noteq> q \<longrightarrow> blk p s \<inter> blk q t = {})"

definition lists_ok :: "mem \<Rightarrow> (nat \<Rightarrow> kheap) \<Rightarrow> ghost \<Rightarrow> bool" where
  "lists_ok m ks G \<longleftrightarrow> (\<forall>i c. sll m (myLittleHeap (ks i) c) (freel G i c) \<and> distinct (freel G i c) \<and>
     (\<forall>p\<in>set (freel G i c). c < NUMBINS \<and> carved G p = Some (class2Size c) \<and> p \<notin> live G)) \<and>
   (\<forall>i c j d. (i, c) \<noteq> (j, d) \<longrightarrow> set (freel G i c) \<inter> set (freel G j d) = {})"

definition heap_inv :: "('s \<Rightarrow> bool) \<Rightarrow> ('s \<Rightarrow> nat set) \<Rightarrow> 's ppheap \<Rightarrow> ghost \<Rightarrow> bool" where
  "heap_inv sinv owned P G \<longleftrightarrow>
     sinv (source (stored P)) \<and>
     zones_ok (cells (stored P)) (owned (source (stored P))) (\<lambda>i. bigheap (heaps P i)) (used (carved G)) \<and>
     objs_ok (cells (stored P)) (carved G) \<and> objs_disj (carved G) \<and>
     lists_ok (cells (stored P)) (heaps P) G \<and> live G \<subseteq> dom (carved G)"

definition payload :: "ghost \<Rightarrow> nat set" where
  "payload G = (\<Union>p\<in>live G. region p (the (carved G p)))"

definition malloc_post :: "ghost \<Rightarrow> ghost \<Rightarrow> u64 \<Rightarrow> u64 \<Rightarrow> bool" where
  "malloc_post G G' ptr sz \<longleftrightarrow>
     ptr \<notin> live G \<and> live G' = insert ptr (live G) \<and>
     (\<exists>s. carved G' ptr = Some s \<and> sz \<le> s) \<and> (\<forall>q\<in>live G. carved G' q = carved G q)"

lemma zones_frame:
  assumes z: "zones_ok m Own zs U" and m: "\<And>j a. unat a \<in> hdr (zs j) \<Longrightarrow> m' a = m a"
  shows "zones_ok m' Own zs U"
proof -
  have fr: "zone_ok m' Own (zs j)" "extent m' (zs j) = extent m (zs j)" for j
    using zone_frame [OF zones_okD(1) [OF z] m subset_refl, of j] by (auto simp: extent_def)
  show ?thesis using z unfolding zones_ok_def fr(2) by (simp add: fr(1))
qed

lemma zones_ok_mono: "zones_ok m Own zs U \<Longrightarrow> V \<subseteq> U \<Longrightarrow> zones_ok m Own zs V"
  unfolding zones_ok_def by blast

lemma payload_used: "live G \<subseteq> dom (carved G) \<Longrightarrow> payload G \<subseteq> used (carved G)"
proof
  fix a assume d: "live G \<subseteq> dom (carved G)" and "a \<in> payload G"
  then obtain p where p: "p \<in> live G" "a \<in> region p (the (carved G p))"
    by (auto simp: payload_def)
  with d obtain s where s: "carved G p = Some s" by auto
  then have "a \<in> blk p s" using p(2) by (auto simp: region_def blk_def)
  with s show "a \<in> used (carved G)" unfolding used_def by blast
qed

lemma used_upd:
  assumes "C p = None"
  shows "used (C(p \<mapsto> s)) = used C \<union> blk p s"
proof -
  have "a \<in> used (C(p \<mapsto> s))" if "C q = Some t" "a \<in> blk q t" for a q t
    using that assms unfolding used_def by (intro CollectI exI [of _ q] exI [of _ t]) auto
  moreover have "blk p s \<subseteq> used (C(p \<mapsto> s))"
    unfolding used_def by (intro subsetI CollectI exI [of _ p] exI [of _ s]) auto
  ultimately show ?thesis by (fastforce simp: used_def split: if_splits)
qed

lemma lists_okD:
  assumes "lists_ok m ks G"
  shows "sll m (myLittleHeap (ks i) c) (freel G i c)" "distinct (freel G i c)"
    "p \<in> set (freel G i c) \<Longrightarrow> c < NUMBINS \<and> carved G p = Some (class2Size c) \<and> p \<notin> live G"
    "(i, c) \<noteq> (j, d) \<Longrightarrow> set (freel G i c) \<inter> set (freel G j d) = {}"
  using assms unfolding lists_ok_def by blast+

lemma blk_cells:
  assumes "32 \<le> unat p" "8 \<le> unat s" "unat p + unat s < 2 ^ 64"
  shows "unat (p - 16) = unat p - 16" "unat (p - 8) = unat p - 8"
    "unat (p - 16) \<in> blk p s" "unat (p - 8) \<in> blk p s" "unat p \<in> blk p s"
proof -
  show a: "unat (p - 16) = unat p - 16" "unat (p - 8) = unat p - 8"
    using assms(1) by (subst unat_minus; simp)+
  show "unat (p - 16) \<in> blk p s" "unat (p - 8) \<in> blk p s" "unat p \<in> blk p s"
    using assms(1,2) by (auto simp: a blk_def)
qed

lemma class2Size_lt_double:
  assumes a16: "16 \<le> unat a" and c61: "size2Class a < 61"
  shows "unat (class2Size (size2Class a)) < 2 * unat a"
proof (cases "size2Class a")
  case 0
  then show ?thesis using size2Class_bounds [of a] a16 by (simp add: fits_def)
next
  case (Suc c)
  have "\<not> unat a \<le> 2 ^ (c + 3)" using size2Class_le [of a c] Suc by auto
  moreover have "unat (class2Size (size2Class a)) = 2 * 2 ^ (c + 3)"
    using unat_class2Size [OF c61] Suc by (simp add: power_add)
  ultimately show ?thesis by linarith
qed

subsection \<open>The contract of a source heap\<close>

text \<open>
  \<open>owned s\<close> are the byte addresses the source has handed out. A request of at most \<open>cap\<close> bytes
  that succeeds returns a range disjoint from all of them. \<open>cap\<close> is where the source's own size
  arithmetic stays below \<open>2^64\<close> (\<open>xheap\<close>) or where its single mapping ends (\<open>SourceInternalHeap\<close>).
\<close>

locale source_heap =
  fixes smalloc :: "'s \<Rightarrow> u64 \<Rightarrow> (u64 \<times> 's) res"
    and sinv :: "'s \<Rightarrow> bool"
    and owned :: "'s \<Rightarrow> nat set"
    and cap :: u64
  assumes source_keeps: "sinv s \<Longrightarrow> n \<le> cap \<Longrightarrow> smalloc s n = Inr (p, s') \<Longrightarrow>
      sinv s' \<and> owned s \<subseteq> owned s'"
    and source_fresh: "sinv s \<Longrightarrow> n \<le> cap \<Longrightarrow> smalloc s n = Inr (p, s') \<Longrightarrow> p \<noteq> 0 \<Longrightarrow>
      region p n \<subseteq> owned s' \<and> region p n \<inter> owned s = {} \<and>
      unat p + unat n < 2 ^ 64 \<and> 8 dvd unat p"
begin

lemma zone_slowMalloc_spec:
  assumes inv: "sinv (source st)" "zones_ok (cells st) (owned (source st)) zs U"
    and r: "zone_slowMalloc smalloc chunk sz (zs i, st) = Inr (ptr, (z', st'))"
    and sz: "8 dvd unat sz" "32 + unat sz \<le> unat cap" "32 + unat chunk \<le> unat cap"
  shows "sinv (source st') \<and> owned (source st) \<subseteq> owned (source st') \<and>
    (\<forall>a. unat a \<in> U \<longrightarrow> cells st' a = cells st a) \<and>
    zones_ok (cells st') (owned (source st')) (zs(i := z')) (if ptr = 0 then U else U \<union> region ptr sz) \<and>
    (ptr \<noteq> 0 \<longrightarrow> region ptr sz \<inter> U = {} \<and> 32 \<le> unat ptr \<and> 8 dvd unat ptr \<and>
       unat ptr + unat sz < 2 ^ 64)"
proof -
  define al where "al = (if chunk < sz then sz else chunk)"
  define m1 where "m1 = (if currentArena (zs i) \<noteq> 0
    then arena_setNextArena (currentArena (zs i)) (pastArenas (zs i)) (cells st) else cells st)"
  define z1 where "z1 = (if currentArena (zs i) \<noteq> 0
    then (zs i)\<lparr>pastArenas := currentArena (zs i), currentArena := 0\<rparr> else zs i)"
  have c1: "currentArena z1 = 0" by (simp add: z1_def)
  have al: "unat sz \<le> unat al" "32 + unat al \<le> unat cap"
    using sz by (auto simp: al_def word_less_nat_alt)
  have cap: "unat cap < 2 ^ 64" using unsigned_less [of cap, where 'a = nat] by simp
  have n: "unat (32 + al) = 32 + unat al" using al(2) cap by (subst unat_plus) auto
  have zi: "zone_ok (cells st) (owned (source st)) (zs i)" using inv(2) by (simp add: zones_ok_def)
  have m1: "m1 a = cells st a" if "unat a \<notin> hdr (zs i)" for a
    using that hdr_cells(3) [OF zi] by (auto simp: m1_def arena_setNextArena_def)
  obtain buf s' where b: "smalloc (source st) (32 + al) = Inr (buf, s')"
    and res: "(if buf = 0 then Inr (0, (z1, \<lparr>cells = m1, source = s'\<rparr>))
      else (case arena_malloc buf sz (arena_init buf al m1) of (p, m3) \<Rightarrow>
        Inr (p, (z1\<lparr>currentArena := buf\<rparr>, \<lparr>cells = m3, source = s'\<rparr>))))
      = (Inr (ptr, (z', st')) :: (u64 \<times> zone \<times> 's store) res)"
    using r unfolding zone_slowMalloc_def
    by (auto simp: Let_def rbind_Inr_iff al_def m1_def z1_def sizeof_Arena_def split: if_splits)
  have le: "32 + al \<le> cap" using n al(2) by (simp add: word_le_nat_alt)
  have keep: "sinv s'" "owned (source st) \<subseteq> owned s'"
    using source_keeps [OF inv(1) le b] by auto
  note U = zones_okD(4) [OF inv(2), of i] zones_okD(2) [OF inv(2)]
  have others: "m1 a = cells st a" if "j \<noteq> i" "unat a \<in> hdr (zs j)" for j a
  proof -
    have "hdr (zs j) \<inter> hdr (zs i) = {}" by (rule zones_okD(7) [OF inv(2) that(1)])
    with that(2) show ?thesis by (intro m1) auto
  qed
  show ?thesis
  proof (cases "buf = 0")
    case True
    then have e: "ptr = 0" "z' = z1" "st' = \<lparr>cells = m1, source = s'\<rparr>" using res by auto
    have "zones_ok m1 (owned s') (zs(i := z1)) (U \<union> {})"
      by (rule zones_replace [where X = "{}", OF inv(2) keep(2)])
        (use others c1 in \<open>auto simp: zone_ok_def extent_def hdr_def space_def\<close>)
    then show ?thesis using e keep m1 U by auto
  next
    case False
    let ?z = "z1\<lparr>currentArena := buf\<rparr>"
    let ?m2 = "arena_init buf al m1"
    have f: "region buf (32 + al) \<subseteq> owned s'" "region buf (32 + al) \<inter> owned (source st) = {}"
      "unat buf + unat (32 + al) < 2 ^ 64" "8 dvd unat buf"
      using source_fresh [OF inv(1) le b False] by auto
    have ub: "unat (buf + 32) = unat buf + 32" using f(3) n by (subst unat_plus) auto
    have m2: "?m2 buf = al" "?m2 (buf + 16) = buf + 32"
      by (auto simp: arena_init_def sizeof_Arena_def)
    have reg: "hdr ?z \<union> space ?m2 ?z = region buf (32 + al)" "hdr ?z \<inter> space ?m2 ?z = {}"
      using False m2 ub n by (auto simp: hdr_def space_def region_def)
    have zok: "zone_ok ?m2 (owned s') ?z"
      using f n ub reg m2 False unfolding zone_ok_def by auto
    obtain p m3 where am: "arena_malloc buf sz ?m2 = (p, m3)" "zone_ok m3 (owned s') ?z"
      "region p sz \<union> space m3 ?z \<subseteq> space ?m2 ?z" "region p sz \<inter> space m3 ?z = {}"
      "32 \<le> unat p" "8 dvd unat p" "unat p + unat sz < 2 ^ 64"
      "\<forall>a. unat a \<notin> hdr ?z \<longrightarrow> m3 a = ?m2 a"
      using arena_malloc_spec [OF zok, of sz] False m2(1) al(1) sz(1)
      by (auto simp: word_le_nat_alt)
    have e: "ptr = p" "z' = ?z" "st' = \<lparr>cells = m3, source = s'\<rparr>" using res am(1) False by auto
    have m3: "m3 a = m1 a" if "unat a \<notin> hdr ?z" for a
      using am(8) that hdr_cells [OF zok] False by (auto simp: arena_init_def)
    have "zones_ok m3 (owned s') (zs(i := ?z)) (U \<union> region p sz)"
    proof (rule zones_replace [where X = "region buf (32 + al)", OF inv(2) keep(2) am(2)])
      show "extent m3 ?z \<union> region p sz \<subseteq> region buf (32 + al)"
        using am(3) reg(1) by (auto simp: extent_def)
      show "region p sz \<inter> extent m3 ?z = {}" using am(3,4) reg(2) by (auto simp: extent_def)
      show "region p sz \<subseteq> owned s'" using am(3) reg(1) f(1) by auto
      show "region buf (32 + al) \<inter> U = {}" using f(2) U(2) by auto
      show "region buf (32 + al) \<inter> extent (cells st) (zs j) = {}" if "j \<noteq> i" for j
        using f(2) zones_okD(5) [OF inv(2), of j] by auto
      show "m3 a = cells st a" if "j \<noteq> i" "unat a \<in> hdr (zs j)" for j a
      proof -
        have "hdr (zs j) \<subseteq> owned (source st)"
          using zones_okD(5) [OF inv(2), of j] by (auto simp: extent_def)
        then have "unat a \<notin> hdr ?z" using that(2) f(2) reg(1) by auto
        then show ?thesis using m3 others [OF that] by simp
      qed
    qed
    moreover have "m3 a = cells st a" if "unat a \<in> U" for a
    proof -
      have "unat a \<notin> hdr ?z" "unat a \<notin> hdr (zs i)" using that U f(2) reg(1) by auto
      then show ?thesis using m3 m1 by simp
    qed
    moreover have "region p sz \<inter> U = {}" using am(3) reg(1) f(2) U(2) by auto
    ultimately show ?thesis using e keep am(5-7) by auto
  qed
qed

lemma zone_malloc_spec:
  assumes inv: "sinv (source st)" "zones_ok (cells st) (owned (source st)) zs U"
    and r: "zone_malloc smalloc chunk sz (zs i, st) = Inr (ptr, (z', st'))"
    and sz: "39 + unat sz \<le> unat cap" "32 + unat chunk \<le> unat cap"
  shows "sinv (source st') \<and> owned (source st) \<subseteq> owned (source st') \<and>
    (\<forall>a. unat a \<in> U \<longrightarrow> cells st' a = cells st a) \<and>
    zones_ok (cells st') (owned (source st')) (zs(i := z'))
      (if ptr = 0 then U else U \<union> region ptr (zone_align sz)) \<and>
    (ptr \<noteq> 0 \<longrightarrow> region ptr (zone_align sz) \<inter> U = {} \<and> 32 \<le> unat ptr \<and> 8 dvd unat ptr \<and>
       unat ptr + unat (zone_align sz) < 2 ^ 64)"
proof -
  have cap: "unat cap < 2 ^ 64" using unsigned_less [of cap, where 'a = nat] by simp
  let ?n = "zone_align sz"
  have n: "unat ?n \<le> unat sz + 7" "8 dvd unat ?n" using align8_props [of sz] sz(1) cap by auto
  show ?thesis
  proof (cases "currentArena (zs i) \<noteq> 0 \<and> ?n \<le> cells st (currentArena (zs i))")
    case False
    then have "zone_slowMalloc smalloc chunk ?n (zs i, st) = Inr (ptr, (z', st'))"
      using r by (auto simp: zone_malloc_def Let_def)
    then show ?thesis
      using n sz by (intro zone_slowMalloc_spec [OF inv]) auto
  next
    case True
    let ?z = "zs i"
    have zi: "zone_ok (cells st) (owned (source st)) ?z" by (rule zones_okD(1) [OF inv(2)])
    obtain p m' where am: "arena_malloc (currentArena ?z) ?n (cells st) = (p, m')"
      "zone_ok m' (owned (source st)) ?z" "region p ?n \<union> space m' ?z \<subseteq> space (cells st) ?z"
      "region p ?n \<inter> space m' ?z = {}" "32 \<le> unat p" "8 dvd unat p" "unat p + unat ?n < 2 ^ 64"
      "\<forall>a. unat a \<notin> hdr ?z \<longrightarrow> m' a = cells st a"
      using arena_malloc_spec [OF zi, of ?n] True n(2) by auto
    have e: "ptr = p" "z' = ?z" "st' = st\<lparr>cells := m'\<rparr>"
      using r True am(1) by (auto simp: zone_malloc_def Let_def)
    have "ptr \<noteq> 0" using am(5) e by auto
    have hs: "hdr ?z \<inter> space (cells st) ?z = {}" using zi True by (simp add: zone_ok_def)
    have sub: "region p ?n \<subseteq> extent (cells st) ?z" using am(3) by (auto simp: extent_def)
    have "zones_ok m' (owned (source st)) (zs(i := ?z)) (U \<union> region p ?n)"
    proof (rule zones_replace [where X = "extent (cells st) ?z", OF inv(2) subset_refl am(2)])
      show "extent m' ?z \<union> region p ?n \<subseteq> extent (cells st) ?z" using am(3) by (auto simp: extent_def)
      show "region p ?n \<inter> extent m' ?z = {}" using am(3,4) hs by (auto simp: extent_def)
      show "region p ?n \<subseteq> owned (source st)" using sub zones_okD(5) [OF inv(2), of i] by auto
      show "extent (cells st) ?z \<inter> U = {}" using zones_okD(3) [OF inv(2), of i] by auto
      show "extent (cells st) ?z \<inter> extent (cells st) (zs j) = {}" if "j \<noteq> i" for j
        using zones_okD(6) [OF inv(2), of i j] that by auto
      show "m' a = cells st a" if "j \<noteq> i" "unat a \<in> hdr (zs j)" for j a
        using zones_okD(7) [OF inv(2) that(1)] that(2) am(8) by auto
    qed
    moreover have "m' a = cells st a" if "unat a \<in> U" for a
      using that zones_okD(4) [OF inv(2), of i] am(8) by auto
    moreover have "region p ?n \<inter> U = {}" using sub zones_okD(3) [OF inv(2), of i] by auto
    ultimately show ?thesis using e am(5-7) inv(1) \<open>ptr \<noteq> 0\<close> by auto
  qed
qed

lemma newsource_malloc_spec:
  assumes inv: "sinv (source st)" "zones_ok (cells st) (owned (source st)) zs U"
    and r: "newsource_malloc smalloc chunk sz (zs i, st) = Inr (ptr, (z', st'))"
    and sz: "55 + unat sz \<le> unat cap" "32 + unat chunk \<le> unat cap" "8 \<le> unat sz"
  shows "sinv (source st') \<and>
    (\<forall>a. unat a \<in> U \<longrightarrow> cells st' a = cells st a) \<and>
    zones_ok (cells st') (owned (source st')) (zs(i := z')) (if ptr = 0 then U else U \<union> blk ptr sz) \<and>
    (ptr \<noteq> 0 \<longrightarrow> blk ptr sz \<inter> U = {} \<and> 32 \<le> unat ptr \<and> 8 dvd unat ptr \<and>
       unat ptr + unat sz < 2 ^ 64 \<and> cells st' (ptr - 16) = sz \<and> cells st' (ptr - 8) = MAGIC)"
proof -
  have cap: "unat cap < 2 ^ 64" using unsigned_less [of cap, where 'a = nat] by simp
  let ?n = "sz + 16"
  have n: "unat ?n = unat sz + 16" using sz(1) cap by (subst unat_plus) auto
  have al: "unat sz + 16 \<le> unat (zone_align ?n)"
    using align8_props(1) [of ?n] n sz(1) cap by (simp add: word_le_nat_alt)
  obtain p z1 st1 where zm: "zone_malloc smalloc chunk ?n (zs i, st) = Inr (p, (z1, st1))"
    and res: "(if p = 0 then Inr (0, (z1, st1)) else Inr (p + 16, (z1, st1\<lparr>cells :=
      objectHeader_init p sz (cells st1)\<rparr>))) = (Inr (ptr, (z', st')) :: (u64 \<times> zone \<times> 's store) res)"
    using r unfolding newsource_malloc_def sizeof_objectHeader_def
    by (auto simp: rbind_Inr_iff split: if_splits)
  have "39 + unat ?n \<le> unat cap" using sz(1) n by simp
  note zs = zone_malloc_spec [OF inv zm this sz(2)]
  show ?thesis
  proof (cases "p = 0")
    case True
    then show ?thesis using zs res by auto
  next
    case False
    have p: "32 \<le> unat p" "8 dvd unat p" "unat p + unat (zone_align ?n) < 2 ^ 64"
      "region p (zone_align ?n) \<inter> U = {}" using zs False by auto
    have e: "ptr = p + 16" "z' = z1" "st' = st1\<lparr>cells := objectHeader_init p sz (cells st1)\<rparr>"
      using res False by auto
    have up: "unat ptr = unat p + 16" using p(3) al unfolding e(1) by (subst unat_plus) auto
    have b: "32 \<le> unat ptr" "unat ptr + unat sz < 2 ^ 64" "8 dvd unat ptr"
      using p al up by auto
    have sub: "blk ptr sz \<subseteq> region p (zone_align ?n)" using al up by (auto simp: blk_def region_def)
    have hd: "ptr - 16 = p" "ptr - 8 = p + 8" using e(1) by auto
    have in1: "unat p \<in> blk ptr sz" "unat (p + 8) \<in> blk ptr sz"
      using blk_cells(3,4) [OF b(1) sz(3) b(2)] by (auto simp: hd)
    have m: "cells st' a = cells st1 a" if "unat a \<notin> blk ptr sz" for a
      using that in1 by (auto simp: e(3) objectHeader_init_def)
    have z1: "zones_ok (cells st1) (owned (source st1)) (zs(i := z1)) (U \<union> blk ptr sz)"
      using zs False sub by (auto intro: zones_ok_mono)
    have "zones_ok (cells st') (owned (source st1)) (zs(i := z1)) (U \<union> blk ptr sz)"
    proof (rule zones_frame [OF z1])
      fix j and a :: u64 assume "unat a \<in> hdr ((zs(i := z1)) j)"
      then show "cells st' a = cells st1 a"
        using zones_okD(4) [OF z1, of j] by (intro m) blast
    qed
    moreover have "cells st' a = cells st a" if "unat a \<in> U" for a
      using zs that m [of a] sub p(4) by auto
    moreover have "ptr \<noteq> 0" using b(1) by auto
    ultimately show ?thesis
      using zs e b sub p(4) hd by (auto simp: objectHeader_init_def)
  qed
qed

text \<open>A new object carved from the big heap of heap \<open>i\<close>.\<close>

lemma seg_big_spec:
  assumes inv: "heap_inv sinv owned P G"
    and r: "seg_big smalloc chunk sz (heaps P i, stored P) = Inr (ptr, (k, st))"
    and sz: "55 + unat sz \<le> unat cap" "32 + unat chunk \<le> unat cap" "8 \<le> unat sz"
      "sz \<le> maxObjectSize \<longrightarrow> (\<exists>c<NUMBINS. sz = class2Size c)"
  shows "\<exists>G'. heap_inv sinv owned \<lparr>heaps = (heaps P)(i := k), stored = st\<rparr> G' \<and>
    (if ptr = 0 then G' = G else malloc_post G G' ptr sz) \<and>
    (\<forall>a. unat a \<in> payload G \<longrightarrow> cells st a = cells (stored P) a)"
proof -
  let ?zs = "\<lambda>j. bigheap (heaps P j)" and ?C = "carved G" and ?m = "cells (stored P)"
  have i: "sinv (source (stored P))" "zones_ok ?m (owned (source (stored P))) ?zs (used ?C)"
    "objs_ok ?m ?C" "objs_disj ?C" "lists_ok ?m (heaps P) G" "live G \<subseteq> dom ?C"
    using inv by (auto simp: heap_inv_def)
  obtain z where ns: "newsource_malloc smalloc chunk sz (?zs i, stored P) = Inr (ptr, (z, st))"
    and k: "k = (heaps P i)\<lparr>bigheap := z\<rparr>"
    using r by (auto simp: seg_big_def rbind_Inr_iff split: prod.splits)
  note N = newsource_malloc_spec [OF i(1,2) ns sz(1-3)]
  have zs': "(\<lambda>j. bigheap (((heaps P)(i := k)) j)) = ?zs(i := z)" by (auto simp: k)
  have ll: "myLittleHeap (((heaps P)(i := k)) j) = myLittleHeap (heaps P j)" for j by (simp add: k)
  have same: "cells st a = ?m a" if "unat a \<in> used ?C" for a using N that by blast
  have inC: "unat (p - 16) \<in> used ?C" "unat (p - 8) \<in> used ?C" "unat p \<in> used ?C"
    if "?C p = Some s" for p s
    using that i(3) blk_cells(3-5) [of p s] by (auto simp: used_def objs_ok_def)
  have pay: "cells st a = ?m a" if "unat a \<in> payload G" for a
    using that payload_used [OF i(6)] by (intro same) auto
  have oo: "objs_ok (cells st) ?C"
    using i(3) same [OF inC(1)] same [OF inC(2)] by (simp add: objs_ok_def)
  have sl: "sll (cells st) h (freel G j c) = sll ?m h (freel G j c)" for h j c
    using i(5) same [OF inC(3)] by (intro sll_cong) (auto simp: lists_ok_def)
  have lo: "lists_ok (cells st) ((heaps P)(i := k)) G"
    using i(5) unfolding lists_ok_def ll sl by blast
  show ?thesis
  proof (cases "ptr = 0")
    case True
    then have "heap_inv sinv owned \<lparr>heaps = (heaps P)(i := k), stored = st\<rparr> G"
      using N i oo lo zs' by (simp add: heap_inv_def)
    with True pay show ?thesis by auto
  next
    case False
    let ?G = "G\<lparr>carved := ?C(ptr \<mapsto> sz), live := insert ptr (live G)\<rparr>"
    have b: "blk ptr sz \<inter> used ?C = {}" "32 \<le> unat ptr" "8 dvd unat ptr"
      "unat ptr + unat sz < 2 ^ 64" "cells st (ptr - 16) = sz" "cells st (ptr - 8) = MAGIC"
      using N False by auto
    have new: "?C ptr = None"
      using b(1) blk_cells(5) [OF b(2) sz(3) b(4)] inC(3) by fastforce
    have us: "used (?C(ptr \<mapsto> sz)) = used ?C \<union> blk ptr sz" using new by (rule used_upd)
    have "objs_ok (cells st) (?C(ptr \<mapsto> sz))"
      using oo b sz(3,4) by (auto simp: objs_ok_def)
    moreover have "objs_disj (?C(ptr \<mapsto> sz))"
      using i(4) b(1) by (fastforce simp: objs_disj_def used_def)
    moreover have "lists_ok (cells st) ((heaps P)(i := k)) ?G"
    proof -
      have "ptr \<notin> set (freel G j c)" for j c
        using lists_okD(3) [OF lo, of ptr j c] new by auto
      then show ?thesis using lo new unfolding lists_ok_def by auto
    qed
    ultimately have "heap_inv sinv owned \<lparr>heaps = (heaps P)(i := k), stored = st\<rparr> ?G"
      using N i(6) False zs' us by (auto simp: heap_inv_def)
    moreover have "malloc_post G ?G ptr sz"
      using i(6) new by (auto simp: malloc_post_def)
    ultimately show ?thesis using False pay by auto
  qed
qed

lemma seg_malloc_spec:
  assumes inv: "heap_inv sinv owned P G"
    and r: "seg_malloc smalloc chunk sz (heaps P i, stored P) = Inr (ptr, (k, st))"
    and sz: "sz \<le> maxObjectSize \<Longrightarrow> 55 + unat (class2Size (size2Class sz)) \<le> unat cap"
      "55 + unat sz \<le> unat cap"
      "32 + unat chunk \<le> unat cap" "8 \<le> unat sz"
  shows "\<exists>G'. heap_inv sinv owned \<lparr>heaps = (heaps P)(i := k), stored = st\<rparr> G' \<and>
    (if ptr = 0 then G' = G else malloc_post G G' ptr sz) \<and>
    (\<forall>a. unat a \<in> payload G \<longrightarrow> cells st a = cells (stored P) a)"
proof (cases "sz \<le> maxObjectSize")
  case False
  then have "seg_big smalloc chunk sz (heaps P i, stored P) = Inr (ptr, (k, st))"
    using r by (simp add: seg_malloc_def)
  then show ?thesis using False by (intro seg_big_spec [OF inv _ sz(2,3,4)]) auto
next
  case True
  define c where "c = size2Class sz"
  have c: "c < NUMBINS" "sz \<le> class2Size c"
    using True size2Class_bin le_class2Size by (auto simp: c_def maxObjectSize_def)
  have cm: "class2Size c \<le> maxObjectSize" "8 \<le> unat (class2Size c)"
    using c(1) power_increasing [of "c + 3" "31" "2::nat"] power_increasing [of 3 "c + 3" "2::nat"]
    by (auto simp: maxObjectSize_def word_le_nat_alt unat_class2Size NUMBINS_def)
  have i: "lists_ok (cells (stored P)) (heaps P) G" using inv by (simp add: heap_inv_def)
  then have sl: "sll (cells (stored P)) (myLittleHeap (heaps P i) c) (freel G i c)"
    by (simp add: lists_ok_def)
  show ?thesis
  proof (cases "freel G i c")
    case Nil
    then have h0: "myLittleHeap (heaps P i) c = 0" using sl by simp
    then have "seg_big smalloc chunk (class2Size c) (heaps P i, stored P) = Inr (ptr, (k, st))"
      using r True by (simp add: seg_malloc_def adapt_malloc_def sll_get_def c_def [symmetric]
          Let_def fun_upd_idem)
    moreover have "55 + unat (class2Size c) \<le> unat cap"
      using sz(1) True by (simp add: c_def)
    ultimately obtain G' where G': "heap_inv sinv owned \<lparr>heaps = (heaps P)(i := k), stored = st\<rparr> G'"
      "if ptr = 0 then G' = G else malloc_post G G' ptr (class2Size c)"
      "\<forall>a. unat a \<in> payload G \<longrightarrow> cells st a = cells (stored P) a"
      using seg_big_spec [OF inv _ _ sz(3) cm(2)] c(1) by blast
    then show ?thesis
      using c(2) by (intro exI [of _ G']) (auto simp: malloc_post_def split: if_splits)
  next
    case (Cons x xs)
    then have h: "myLittleHeap (heaps P i) c = x" "x \<noteq> 0"
      "sll (cells (stored P)) (cells (stored P) x) xs" using sl by auto
    have kk: "ptr = x" "k = (heaps P i)\<lparr>myLittleHeap := (myLittleHeap (heaps P i))
        (c := cells (stored P) x)\<rparr>" "st = stored P"
      using r True h(1,2)
      by (auto simp: seg_malloc_def adapt_malloc_def sll_get_def c_def [symmetric] Let_def)
    let ?G = "G\<lparr>freel := (freel G)(i := (freel G i)(c := xs)), live := insert x (live G)\<rparr>"
    have x: "carved G x = Some (class2Size c)" "x \<notin> live G" "x \<notin> set xs"
      using lists_okD(2) [OF i, of i c] lists_okD(3) [OF i, of x i c] Cons by auto
    have sub: "set (freel ?G j d) \<subseteq> set (freel G j d) - {x}" for j :: nat and d :: nat
    proof (cases "(j, d) = (i, c)")
      case True then show ?thesis using Cons x(3) by auto
    next
      case False
      then have "set (freel G j d) \<inter> set (freel G i c) = {}" using i by (auto simp: lists_ok_def)
      with False Cons show ?thesis by auto
    qed
    have "lists_ok (cells st) ((heaps P)(i := k)) ?G"
      unfolding lists_ok_def
    proof (intro conjI allI ballI impI)
      fix j d :: nat
      show "sll (cells st) (myLittleHeap (((heaps P)(i := k)) j) d) (freel ?G j d)"
        using i h(3) by (auto simp: kk lists_ok_def)
      have "distinct (freel G i c)" using i by (simp add: lists_ok_def)
      then show "distinct (freel ?G j d)" using i Cons by (auto simp: lists_ok_def)
      show "d < NUMBINS" if "p \<in> set (freel ?G j d)" for p
        using i sub [of j d] that unfolding lists_ok_def by blast
      show "carved ?G p = Some (class2Size d)" if "p \<in> set (freel ?G j d)" for p
        using i sub [of j d] that unfolding lists_ok_def by auto
      show "p \<notin> live ?G" if "p \<in> set (freel ?G j d)" for p
        using i sub [of j d] that unfolding lists_ok_def by auto
    next
      fix j d j' d' :: nat assume "(j, d) \<noteq> (j', d')"
      then have "set (freel G j d) \<inter> set (freel G j' d') = {}" using i by (auto simp: lists_ok_def)
      then show "set (freel ?G j d) \<inter> set (freel ?G j' d') = {}"
        using sub [of j d] sub [of j' d'] by blast
    qed
    moreover have "(\<lambda>j. bigheap (((heaps P)(i := k)) j)) = (\<lambda>j. bigheap (heaps P j))"
      by (auto simp: kk)
    ultimately have "heap_inv sinv owned \<lparr>heaps = (heaps P)(i := k), stored = st\<rparr> ?G"
      using inv x(1) by (auto simp: heap_inv_def kk(3))
    moreover have "malloc_post G ?G ptr sz" using x(1,2) c(2) by (simp add: malloc_post_def kk)
    ultimately show ?thesis using kk h(2) by auto
  qed
qed

lemma freeing_spec:
  assumes inv: "heap_inv sinv owned P G" and p: "p \<in> live G"
  shows "\<exists>k st G'. seg_free p (heaps P j, stored P) = Inr (k, st) \<and>
    heap_inv sinv owned \<lparr>heaps = (heaps P)(j := k), stored = st\<rparr> G' \<and>
    live G' = live G - {p} \<and> carved G' = carved G \<and>
    (\<forall>a. unat a \<in> payload G' \<longrightarrow> cells st a = cells (stored P) a)"
proof -
  let ?m = "cells (stored P)" and ?C = "carved G"
  have i: "zones_ok ?m (owned (source (stored P))) (\<lambda>i. bigheap (heaps P i)) (used ?C)"
    "objs_ok ?m ?C" "objs_disj ?C" "lists_ok ?m (heaps P) G" "live G \<subseteq> dom ?C"
    using inv by (auto simp: heap_inv_def)
  obtain s where s: "?C p = Some s" using p i(5) by auto
  have b: "32 \<le> unat p" "8 dvd unat p" "8 \<le> unat s" "unat p + unat s < 2 ^ 64" "?m (p - 16) = s"
    "?m (p - 8) = MAGIC" "s \<le> maxObjectSize \<longrightarrow> (\<exists>c<NUMBINS. s = class2Size c)"
    using i(2) s by (auto simp: objs_ok_def)
  have gs: "newsource_getSize p ?m = Inr s"
    using b(5,6) by (simp add: newsource_getSize_def objectHeader_getSize_def getObject_def
        objectHeader_sanityCheck_def sizeof_objectHeader_def)
  have s0: "s \<noteq> 0" using b(3) by auto
  show ?thesis
  proof (cases "maxObjectSize < s")
    case True
    let ?G = "G\<lparr>live := live G - {p}\<rparr>"
    have "seg_free p (heaps P j, stored P) = Inr (heaps P j, stored P)"
      using True s0 gs by (simp add: seg_free_def newsource_free_def zone_free_def)
    moreover have "lists_ok ?m (heaps P) ?G" using i(4) unfolding lists_ok_def by auto
    then have "heap_inv sinv owned \<lparr>heaps = heaps P, stored = stored P\<rparr> ?G"
      using inv by (auto simp: heap_inv_def)
    ultimately show ?thesis
      by (intro exI [of _ "heaps P j"] exI [of _ "stored P"] exI [of _ ?G]) simp
  next
    case False
    then obtain c where c: "c < NUMBINS" "s = class2Size c" using b(7) by auto
    have low: "seg_lower s (size2Class s) = Inr c"
      using c by (cases c) (auto simp: size2Class_class2Size)
    let ?h = "myLittleHeap (heaps P j) c"
    let ?k = "(heaps P j)\<lparr>myLittleHeap := (myLittleHeap (heaps P j))(c := p),
      memoryHeld := memoryHeld (heaps P j) + s\<rparr>"
    let ?st = "(stored P)\<lparr>cells := ?m(p := ?h)\<rparr>"
    let ?G = "G\<lparr>freel := (freel G)(j := (freel G j)(c := p # freel G j c)), live := live G - {p}\<rparr>"
    have ev: "seg_free p (heaps P j, stored P) = Inr (?k, ?st)"
      using False s0 gs low by (simp add: seg_free_def adapt_free_def sll_insert_def)
    have pin: "unat p \<in> blk p s" by (rule blk_cells(5) [OF b(1,3,4)])
    have pu: "unat p \<in> used ?C" using pin s by (auto simp: used_def)
    have nin: "p \<notin> set (freel G a d)" for a d using lists_okD(3) [OF i(4), of p a d] p by auto
    have z: "zones_ok (cells ?st) (owned (source (stored P))) (\<lambda>i. bigheap (heaps P i)) (used ?C)"
      by (rule zones_frame [OF i(1)]) (use pu zones_okD(4) [OF i(1)] in auto)
    have hdr_ne: "unat (q - 16) \<noteq> unat p" "unat (q - 8) \<noteq> unat p" if q: "?C q = Some t" for q t
    proof -
      have qb: "32 \<le> unat q" "8 \<le> unat t" "unat q + unat t < 2 ^ 64"
        using i(2) q by (auto simp: objs_ok_def)
      have "blk q t \<inter> blk p s = {}" if "q \<noteq> p" using i(3) q s that by (auto simp: objs_disj_def)
      then show "unat (q - 16) \<noteq> unat p" "unat (q - 8) \<noteq> unat p"
        using blk_cells(1-4) [OF qb] pin b(1) by (cases "q = p"; auto)+
    qed
    have oo: "objs_ok (cells ?st) ?C"
      using i(2) hdr_ne unfolding objs_ok_def by (auto dest: hdr_ne)
    have sl: "sll (cells ?st) h (freel G a d) = sll ?m h (freel G a d)" for h a d
      using nin [of a d] by (intro sll_cong) auto
    have set': "set (freel ?G a d) = (if a = j \<and> d = c then insert p (set (freel G a d))
      else set (freel G a d))" for a d by auto
    have "lists_ok (cells ?st) ((heaps P)(j := ?k)) ?G"
      unfolding lists_ok_def
    proof (intro conjI allI ballI impI)
      fix a d :: nat
      have sa: "sll ?m (myLittleHeap (heaps P a) d) (freel G a d)" by (rule lists_okD(1) [OF i(4)])
      have "p \<noteq> 0" using b(1) by auto
      then show "sll (cells ?st) (myLittleHeap (((heaps P)(j := ?k)) a) d) (freel ?G a d)"
        using sa sl [of _ a d] sl [of ?h j c] lists_okD(1) [OF i(4), of j c] by auto
      show "distinct (freel ?G a d)" using lists_okD(2) [OF i(4), of a d] nin by auto
      fix q assume q: "q \<in> set (freel ?G a d)"
      show "d < NUMBINS" "carved ?G q = Some (class2Size d)" "q \<notin> live ?G"
        using q lists_okD(3) [OF i(4), of q a d] s c unfolding set' by (auto split: if_splits)
    next
      fix a d a' d' :: nat assume "(a, d) \<noteq> (a', d')"
      then show "set (freel ?G a d) \<inter> set (freel ?G a' d') = {}"
        using lists_okD(4) [OF i(4), of a d a' d'] nin unfolding set' by auto
    qed
    moreover have "(\<lambda>i. bigheap (((heaps P)(j := ?k)) i)) = (\<lambda>i. bigheap (heaps P i))" by auto
    ultimately have "heap_inv sinv owned \<lparr>heaps = (heaps P)(j := ?k), stored = ?st\<rparr> ?G"
      using inv z oo by (auto simp: heap_inv_def)
    moreover have "cells ?st a = ?m a" if a: "unat a \<in> payload ?G" for a
    proof -
      obtain q where q: "q \<in> live G" "q \<noteq> p" "unat a \<in> region q (the (?C q))"
        using a by (auto simp: payload_def)
      then obtain t where t: "?C q = Some t" using i(5) by auto
      have "blk q t \<inter> blk p s = {}" using i(3) s t q(2) by (auto simp: objs_disj_def)
      moreover have "unat a \<in> blk q t" using q(3) t by (auto simp: region_def blk_def)
      ultimately show ?thesis using pin by auto
    qed
    ultimately show ?thesis using ev by (intro exI [of _ ?k] exI [of _ ?st] exI [of _ ?G]) auto
  qed
qed

text \<open>A client may write anything inside the payload of a live object.\<close>

lemma write_spec:
  assumes inv: "heap_inv sinv owned P G" and p: "p \<in> live G"
    and a: "unat a \<in> region p (the (carved G p))"
  shows "heap_inv sinv owned
    (P\<lparr>stored := (stored P)\<lparr>cells := (cells (stored P))(a := v)\<rparr>\<rparr>) G"
proof -
  let ?m = "cells (stored P)" and ?C = "carved G"
  have i: "zones_ok ?m (owned (source (stored P))) (\<lambda>i. bigheap (heaps P i)) (used ?C)"
    "objs_ok ?m ?C" "objs_disj ?C" "lists_ok ?m (heaps P) G" "live G \<subseteq> dom ?C"
    using inv by (auto simp: heap_inv_def)
  obtain s where s: "?C p = Some s" using p i(5) by auto
  have ain: "unat a \<in> region p s" using a s by simp
  then have ab: "unat a \<in> blk p s" by (auto simp: region_def blk_def)
  have au: "unat a \<in> used ?C" using ab s by (auto simp: used_def)
  have z: "zones_ok (?m(a := v)) (owned (source (stored P))) (\<lambda>i. bigheap (heaps P i)) (used ?C)"
    by (rule zones_frame [OF i(1)]) (use au zones_okD(4) [OF i(1)] in auto)
  have ne: "q - 16 \<noteq> a" "q - 8 \<noteq> a" "q \<notin> live G \<longrightarrow> q \<noteq> a" if q: "?C q = Some t" for q t
  proof -
    have qb: "32 \<le> unat q" "8 \<le> unat t" "unat q + unat t < 2 ^ 64"
      using i(2) q by (auto simp: objs_ok_def)
    have "blk q t \<inter> blk p s = {}" if "q \<noteq> p" using i(3) q s that by (auto simp: objs_disj_def)
    then have "a \<noteq> q - 16 \<and> a \<noteq> q - 8 \<and> (q \<noteq> p \<longrightarrow> a \<noteq> q)"
      using blk_cells [OF qb] ab ain qb(1) by (cases "q = p") (auto simp: region_def)
    then show "q - 16 \<noteq> a" "q - 8 \<noteq> a" "q \<notin> live G \<longrightarrow> q \<noteq> a" using p by blast+
  qed
  have oo: "objs_ok (?m(a := v)) ?C"
    using i(2) ne unfolding objs_ok_def by auto
  have "sll (?m(a := v)) h (freel G j d) = sll ?m h (freel G j d)" for h j d
    by (intro sll_cong) (use lists_okD(3) [OF i(4), of _ j d] ne(3) in auto)
  then have "lists_ok (?m(a := v)) (heaps P) G" using i(4) by (simp add: lists_ok_def)
  then show ?thesis using inv z oo by (simp add: heap_inv_def)
qed

lemma pp_malloc_spec:
  assumes inv: "heap_inv sinv owned P G"
    and r: "pp_malloc smalloc chunk i sz P = Inr (ptr, P')"
    and sz: "unat sz + 100 \<le> unat cap" "32 + unat chunk \<le> unat cap"
      "55 + unat maxObjectSize \<le> unat cap \<or> 2 * unat sz + 101 \<le> unat cap"
  shows "\<exists>G'. heap_inv sinv owned P' G' \<and>
    (if ptr = 0 then G' = G else malloc_post G G' ptr sz) \<and>
    (\<forall>a. unat a \<in> payload G \<longrightarrow> cells (stored P') a = cells (stored P) a)"
proof -
  have cap: "unat cap < 2 ^ 64" using unsigned_less [of cap, where 'a = nat] by simp
  let ?n = "if sz < 2 * 8 then 2 * 8 else sz"
  let ?a = "ansi_align ?n"
  have n: "unat ?n \<le> unat sz + 16" "sz \<le> ?n" "16 \<le> unat ?n"
    by (auto simp: word_less_nat_alt word_le_nat_alt)
  have za: "?a = zone_align ?n" by (simp add: ansi_align_def zone_align_def)
  have a: "?n \<le> ?a" "unat ?a \<le> unat ?n + 7" using align8_props [of ?n] n(1) sz(1) cap za by auto
  obtain k st where s: "seg_malloc smalloc chunk ?a (heaps P i, stored P) = Inr (ptr, (k, st))"
    and P': "P' = \<lparr>heaps = (heaps P)(i := k), stored = st\<rparr>"
    using r by (auto simp: pp_malloc_def ansi_malloc_def rbind_Inr_iff Let_def)
  have a16: "16 \<le> unat ?a" using n(3) a(1) by (simp add: word_le_nat_alt)
  have cls: "55 + unat (class2Size (size2Class ?a)) \<le> unat cap" if m: "?a \<le> maxObjectSize"
  proof -
    have bin: "size2Class ?a < NUMBINS" using size2Class_bin m by (simp add: maxObjectSize_def)
    have "unat (class2Size (size2Class ?a)) \<le> unat maxObjectSize"
      using bin power_increasing [of "size2Class ?a + 3" "31" "2::nat"]
      by (auto simp: maxObjectSize_def unat_class2Size NUMBINS_def)
    moreover have "unat (class2Size (size2Class ?a)) < 2 * unat ?a"
    proof -
      have "size2Class ?a < 61" using bin by (simp add: NUMBINS_def)
      then show ?thesis by (rule class2Size_lt_double [OF a16])
    qed
    ultimately show ?thesis using sz(3) a(2) n(1) by (cases "sz < 16") (auto simp: word_less_nat_alt)
  qed
  have "55 + unat ?a \<le> unat cap" using a(2) n(1) sz(1) by simp
  from seg_malloc_spec [OF inv s cls this sz(2)] a16
  obtain G' where G': "heap_inv sinv owned P' G'"
    "if ptr = 0 then G' = G else malloc_post G G' ptr ?a"
    "\<forall>a. unat a \<in> payload G \<longrightarrow> cells st a = cells (stored P) a" using P' by auto
  have "sz \<le> ?a" using n(2) a(1) by (rule order.trans)
  then show ?thesis using G' P' by (intro exI [of _ G']) (auto simp: malloc_post_def split: if_splits)
qed

lemma pp_free_spec:
  assumes "heap_inv sinv owned P G" "p \<in> live G"
  shows "\<exists>P' G'. pp_free j p P = Inr P' \<and> heap_inv sinv owned P' G' \<and>
    live G' = live G - {p} \<and> carved G' = carved G \<and>
    (\<forall>a. unat a \<in> payload G' \<longrightarrow> cells (stored P') a = cells (stored P) a)"
proof -
  have "objs_ok (cells (stored P)) (carved G)" "live G \<subseteq> dom (carved G)"
    using assms(1) by (auto simp: heap_inv_def)
  then have "p \<noteq> 0" using assms(2) by (fastforce simp: objs_ok_def)
  moreover obtain k st G' where "seg_free p (heaps P j, stored P) = Inr (k, st)"
    "heap_inv sinv owned \<lparr>heaps = (heaps P)(j := k), stored = st\<rparr> G'"
    "live G' = live G - {p}" "carved G' = carved G"
    "\<forall>a. unat a \<in> payload G' \<longrightarrow> cells st a = cells (stored P) a"
    using freeing_spec [OF assms, of j] by blast
  ultimately show ?thesis
    by (intro exI [of _ "\<lparr>heaps = (heaps P)(j := k), stored = st\<rparr>"] exI [of _ G'])
       (simp add: pp_free_def ansi_free_def)
qed

lemma pp_getSize_spec:
  assumes inv: "heap_inv sinv owned P G" and p: "carved G p = Some s"
  shows "pp_getSize p P = Inr s"
proof -
  have "32 \<le> unat p" "cells (stored P) (p - 16) = s" "cells (stored P) (p - 8) = MAGIC"
    using inv p by (auto simp: heap_inv_def objs_ok_def)
  then show ?thesis
    by (auto simp: pp_getSize_def ansi_getSize_def newsource_getSize_def objectHeader_getSize_def
        getObject_def objectHeader_sanityCheck_def sizeof_objectHeader_def)
qed

end

subsection \<open>The failures of an allocation are those of its source\<close>

lemma rbind_Inl_iff: "rbind m f = Inl e \<longleftrightarrow> m = Inl e \<or> (\<exists>x. m = Inr x \<and> f x = Inl e)"
  by (cases m) auto

lemma pp_malloc_Inl:
  assumes "pp_malloc smalloc chunk i sz P = Inl e"
  shows "\<exists>n. smalloc (source (stored P)) n = Inl e"
proof -
  have z: "\<exists>n. smalloc (source st) n = Inl e" if "newsource_malloc smalloc chunk n (z, st) = Inl e"
    for n z and st :: "'a store"
    using that by (auto simp: newsource_malloc_def zone_malloc_def zone_slowMalloc_def Let_def
        rbind_Inl_iff split: if_splits prod.splits)
  have b: "\<exists>n. smalloc (source st) n = Inl e" if "seg_big smalloc chunk n (k, st) = Inl e"
    for n k and st :: "'a store"
    using that z by (auto simp: seg_big_def rbind_Inl_iff)
  show ?thesis
    using assms b [of _ _ "stored P"] b [of _ _ "(stored P)\<lparr>cells := m\<rparr>" for m]
    by (auto simp: pp_malloc_def ansi_malloc_def rbind_Inl_iff Let_def seg_malloc_def
        adapt_malloc_def sll_get_def split: if_splits prod.splits)
qed

end
