(* ===== verification/Heap_Clients.thy ===== *)
theory Heap_Clients
  imports Heap_Safety
begin

text \<open>
  The allocator as a client sees it. The contract \<open>source_heap\<close> is discharged by both source heaps
  of the program (\<open>xheap\<close>, the protected region of the application heap, and
  \<open>SourceInternalHeap\<close>, the single mapping of the runtime's own heap). The relation
  \<open>app_step\<close> lets any number of threads allocate, free (each into the heap of its own index, also
  objects other threads allocated) and write inside the objects they hold; the theorems are about
  every state it can reach from a fresh heap.
\<close>

subsection \<open>The protected heap as a source\<close>

definition xheap_inv :: "xheap \<Rightarrow> bool" where
  "xheap_inv x \<longleftrightarrow> magic x = 0xCAFEBABE \<and> 4096 dvd unat (position x) \<and> start x \<le> position x \<and>
     unat (position x) + unat (remaining x) = unat (endp x)"

definition xheap_owned :: "xheap \<Rightarrow> nat set" where
  "xheap_owned x = {unat (start x) ..< unat (position x)}"

lemma unat_page_round:
  assumes "unat sz + 4095 < 2 ^ 64"
  shows "unat (page_round sz) = 4096 * ((unat sz + 4095) div 4096)"
proof -
  have a: "unat (sz + PageSize - 1) = unat sz + 4095"
  proof -
    have e: "sz + PageSize - 1 = sz + 4095" by (simp add: PageSize_def)
    show ?thesis unfolding e using assms by (simp add: unat_plus)
  qed
  have "4096 * ((unat sz + 4095) div 4096) < 2 ^ 64"
    using assms le_less_trans [OF times_div_less_eq_dividend assms, of 4096] by simp
  moreover have "unat ((sz + PageSize - 1) div PageSize) = (unat sz + 4095) div 4096"
    unfolding unat_div a by (simp add: PageSize_def)
  ultimately show ?thesis
    unfolding page_round_def unat_word_ariths(2) by (simp add: PageSize_def)
qed

lemma page_round_bounds:
  assumes "n \<le> - 4096"
  shows "unat n \<le> unat (page_round n)" "4096 dvd unat (page_round n)"
proof -
  have "unat n \<le> 2 ^ 64 - 4096" using assms by (simp add: word_le_nat_alt)
  then have "unat n + 4095 < 2 ^ 64" by simp
  note r = unat_page_round [OF this]
  show "4096 dvd unat (page_round n)" unfolding r by simp
  show "unat n \<le> unat (page_round n)" unfolding r by (simp add: mult.commute) 
qed

lemma xheap_malloc_Inr:
  assumes "xheap_malloc x n = Inr (p, x')"
  shows "p = position x \<and> page_round n \<le> remaining x \<and>
    x' = x\<lparr>remaining := remaining x - page_round n, position := position x + page_round n\<rparr>"
  using assms by (auto simp: xheap_malloc_def rbind_Inr_iff Let_def split: if_splits)

interpretation xs: source_heap xheap_malloc xheap_inv xheap_owned "- 4096"
proof (unfold_locales, goal_cases)
  case (1 s n p s')
  note x = xheap_malloc_Inr [OF 1(3)] and r = page_round_bounds [OF 1(2)]
  have le: "unat (page_round n) \<le> unat (remaining s)" using x by (simp add: word_le_nat_alt)
  have e: "unat (endp s) < 2 ^ 64" using unsigned_less [of "endp s", where 'a = nat] by simp
  then have pos: "unat (position s + page_round n) = unat (position s) + unat (page_round n)"
    using 1(1) le by (subst unat_plus) (auto simp: xheap_inv_def)
  show ?case
    using 1(1) x r le by (auto simp: xheap_inv_def xheap_owned_def pos unat_minus word_le_nat_alt)
next
  case (2 s n p s')
  note x = xheap_malloc_Inr [OF 2(3)] and r = page_round_bounds [OF 2(2)]
  have le: "unat (page_round n) \<le> unat (remaining s)" using x by (simp add: word_le_nat_alt)
  have e: "unat (endp s) < 2 ^ 64" using unsigned_less [of "endp s", where 'a = nat] by simp
  then have pos: "unat (position s + page_round n) = unat (position s) + unat (page_round n)"
    using 2(1) le by (subst unat_plus) (auto simp: xheap_inv_def)
  have "8 dvd unat (position s)"
    using 2(1) dvd_trans [of 8 4096 "unat (position s)"] by (simp add: xheap_inv_def)
  then show ?case
    using 2(1) x r le e
    by (auto simp: xheap_inv_def xheap_owned_def region_def pos word_le_nat_alt)
qed

subsection \<open>The internal mapping as a source\<close>

definition isource_inv :: "isource \<Rightarrow> bool" where
  "isource_inv s \<longleftrightarrow> 8 dvd unat (mapped s) \<and>
     unat (mapped s) + unat (INTERNALHEAP_SIZE + PageSize) < 2 ^ 64"

definition isource_owned :: "isource \<Rightarrow> nat set" where
  "isource_owned s =
     (if alreadyMalloced s then region (mapped s) (INTERNALHEAP_SIZE + PageSize) else {})"

interpretation isrc: source_heap isource_malloc isource_inv isource_owned "INTERNALHEAP_SIZE + PageSize"
  by unfold_locales
    (auto simp: isource_malloc_def isource_inv_def isource_owned_def region_def word_le_nat_alt
      split: if_splits)

subsection \<open>Clients\<close>

text \<open>
  The state of a run: the heaps, and the objects the clients hold with the sizes they asked for.
  \<open>i\<close> is the heap index of the calling thread, \<open>lim\<close> the largest request considered.
\<close>

inductive client_step ::
  "'s malloc_fn \<Rightarrow> u64 \<Rightarrow> nat \<Rightarrow> 's ppheap \<times> (u64 \<rightharpoonup> u64) \<Rightarrow> 's ppheap \<times> (u64 \<rightharpoonup> u64) \<Rightarrow> bool"
  for smalloc :: "'s malloc_fn" and chunk :: u64 and lim :: nat where
  alloc: "client_step smalloc chunk lim (P, H) (P', if ptr = 0 then H else H(ptr \<mapsto> sz))"
    if "pp_malloc smalloc chunk i sz P = Inr (ptr, P')" "unat sz \<le> lim"
| release: "client_step smalloc chunk lim (P, H) (P', H(p := None))"
    if "H p = Some sz" "pp_free i p P = Inr P'"
| store_cell: "client_step smalloc chunk lim (P, H)
      (P\<lparr>stored := (stored P)\<lparr>cells := (cells (stored P))(a := v)\<rparr>\<rparr>, H)"
    if "H p = Some sz" "region a 8 \<subseteq> region p sz"

definition held_ok :: "ghost \<Rightarrow> (u64 \<rightharpoonup> u64) \<Rightarrow> bool" where
  "held_ok G H \<longleftrightarrow> dom H = live G \<and> (\<forall>p sz. H p = Some sz \<longrightarrow> (\<exists>s. carved G p = Some s \<and> sz \<le> s))"

definition fresh :: "mem \<Rightarrow> 's \<Rightarrow> 's ppheap" where
  "fresh m s = \<lparr>heaps = (\<lambda>_. kheap_init), stored = \<lparr>cells = m, source = s\<rparr>\<rparr>"

lemma region_mono: "sz \<le> s \<Longrightarrow> region p sz \<subseteq> region p s"
  by (auto simp: region_def word_le_nat_alt)

lemma held_okD:
  assumes "held_ok G H" "H p = Some sz"
  shows "p \<in> live G \<and> (\<exists>s. carved G p = Some s \<and> sz \<le> s)"
  using assms by (simp add: held_ok_def domI flip: set_eq_iff) (metis domI)

lemma held_payload:
  assumes "held_ok G H" "H p = Some sz"
  shows "region p sz \<subseteq> payload G"
proof -
  obtain s where s: "p \<in> live G" "carved G p = Some s" "sz \<le> s"
    using held_okD [OF assms] by auto
  then have "region p s \<subseteq> payload G" by (auto simp: payload_def)
  with region_mono [OF s(3)] show ?thesis by blast
qed

lemma held_ok_drop:
  assumes "held_ok G H" "live G' = live G - {p}" "carved G' = carved G"
  shows "held_ok G' (H(p := None))"
  using assms by (auto simp: held_ok_def)

context source_heap
begin

definition good :: "'s ppheap \<times> (u64 \<rightharpoonup> u64) \<Rightarrow> bool" where
  "good S \<longleftrightarrow> (\<exists>G. heap_inv sinv owned (fst S) G \<and> held_ok G (snd S))"

lemma fresh_good:
  assumes "sinv s"
  shows "good (fresh m s, Map.empty)"
proof -
  let ?G = "\<lparr>carved = Map.empty, freel = \<lambda>_ _. [], live = {}\<rparr>"
  have "zones_ok m (owned s) (\<lambda>i. zone_init) {}"
    by (simp add: zones_ok_def zone_ok_def zone_init_def extent_def hdr_def space_def)
  then have "heap_inv sinv owned (fresh m s) ?G"
    using assms by (simp add: heap_inv_def fresh_def kheap_init_def used_def objs_ok_def objs_disj_def
        lists_ok_def)
  then show ?thesis unfolding good_def by (intro exI [of _ ?G]) (simp add: held_ok_def)
qed

lemma alloc_good:
  assumes g: "good (P, H)" and r: "pp_malloc smalloc chunk i sz P = Inr (ptr, P')"
    and sz: "unat sz + 100 \<le> unat cap" "32 + unat chunk \<le> unat cap"
      "55 + unat maxObjectSize \<le> unat cap \<or> 2 * unat sz + 101 \<le> unat cap"
  shows "good (P', if ptr = 0 then H else H(ptr \<mapsto> sz)) \<and> (ptr \<noteq> 0 \<longrightarrow> H ptr = None) \<and>
    (\<forall>p s a. H p = Some s \<longrightarrow> unat a \<in> region p s \<longrightarrow> cells (stored P') a = cells (stored P) a)"
proof -
  obtain G where G: "heap_inv sinv owned P G" "held_ok G H" using g by (auto simp: good_def)
  obtain G' where G': "heap_inv sinv owned P' G'"
    "if ptr = 0 then G' = G else malloc_post G G' ptr sz"
    "\<forall>a. unat a \<in> payload G \<longrightarrow> cells (stored P') a = cells (stored P) a"
    using pp_malloc_spec [OF G(1) r sz] by blast
  have "held_ok G' (if ptr = 0 then H else H(ptr \<mapsto> sz))"
  proof (cases "ptr = 0")
    case True then show ?thesis using G(2) G'(2) by simp
  next
    case False
    then have m: "malloc_post G G' ptr sz" using G'(2) by simp
    then have "dom (H(ptr \<mapsto> sz)) = live G'" using G(2) by (auto simp: malloc_post_def held_ok_def)
    moreover have "\<exists>t. carved G' p = Some t \<and> s \<le> t" if "(H(ptr \<mapsto> sz)) p = Some s" for p s
    proof (cases "p = ptr")
      case True then show ?thesis using m that by (auto simp: malloc_post_def)
    next
      case False
      then have "p \<in> live G" using that G(2) by (auto simp: held_ok_def)
      then show ?thesis using m G(2) that False by (auto simp: malloc_post_def held_ok_def)
    qed
    ultimately show ?thesis using False by (simp add: held_ok_def)
  qed
  moreover have "H ptr = None" if "ptr \<noteq> 0"
    using that G(2) G'(2) by (auto simp: malloc_post_def held_ok_def)
  moreover have "cells (stored P') a = cells (stored P) a"
    if "H p = Some s" "unat a \<in> region p s" for p s a
    using that held_payload [OF G(2) that(1)] G'(3) by blast
  ultimately show ?thesis using G'(1) by (auto simp: good_def)
qed

lemma release_good:
  assumes g: "good (P, H)" and p: "H p = Some sz"
  shows "\<exists>P'. pp_free i p P = Inr P' \<and> good (P', H(p := None)) \<and>
    (\<forall>q s a. q \<noteq> p \<longrightarrow> H q = Some s \<longrightarrow> unat a \<in> region q s \<longrightarrow>
       cells (stored P') a = cells (stored P) a)"
proof -
  obtain G where G: "heap_inv sinv owned P G" "held_ok G H" using g by (auto simp: good_def)
  have "p \<in> live G" using p G(2) by (auto simp: held_ok_def)
  from pp_free_spec [OF G(1) this] obtain P' G' where G': "pp_free i p P = Inr P'"
    "heap_inv sinv owned P' G'" "live G' = live G - {p}" "carved G' = carved G"
    "\<forall>a. unat a \<in> payload G' \<longrightarrow> cells (stored P') a = cells (stored P) a" by blast
  have h: "held_ok G' (H(p := None))" by (rule held_ok_drop [OF G(2) G'(3,4)])
  have "cells (stored P') a = cells (stored P) a"
    if "q \<noteq> p" "H q = Some s" "unat a \<in> region q s" for q s a
    using that held_payload [OF h, of q s] G'(5) by auto
  with G'(1,2) h show ?thesis by (auto simp: good_def)
qed

lemma store_good:
  assumes "good (P, H)" "H p = Some sz" "unat a \<in> region p sz"
  shows "good (P\<lparr>stored := (stored P)\<lparr>cells := (cells (stored P))(a := v)\<rparr>\<rparr>, H)"
proof -
  obtain G where G: "heap_inv sinv owned P G" "held_ok G H" using assms(1) by (auto simp: good_def)
  obtain s where s: "p \<in> live G" "carved G p = Some s" "sz \<le> s"
    using held_okD [OF G(2) assms(2)] by blast
  have "unat a \<in> region p (the (carved G p))"
    using assms(3) region_mono [OF s(3)] s(2) by auto
  from write_spec [OF G(1) s(1) this] G(2) show ?thesis by (auto simp: good_def)
qed

lemma run_good:
  assumes run: "(client_step smalloc chunk lim)\<^sup>*\<^sup>* S S'" and g: "good S"
    and lim: "lim + 100 \<le> unat cap" "32 + unat chunk \<le> unat cap"
      "55 + unat maxObjectSize \<le> unat cap \<or> 2 * lim + 101 \<le> unat cap"
  shows "good S'"
  using run g
proof (induction rule: rtranclp_induct)
  case (step T T')
  then have gT: "good T" by simp
  from step(2) show ?case
  proof cases
    case (alloc i sz P ptr P' H)
    show ?thesis
      using alloc_good [of P H chunk i sz ptr P'] gT alloc lim by auto
  next
    case (release H p sz i P P')
    then show ?thesis using release_good [of P H p sz i] gT by auto
  next
    case (store_cell H p sz a P v)
    then have "unat a \<in> region p sz" by (auto simp: region_def)
    then show ?thesis using store_good [of P H p sz a v] gT store_cell by simp
  qed
qed simp

lemma good_objects:
  assumes "good (P, H)" "H p = Some s"
  shows "32 \<le> unat p" "8 dvd unat p" "region p s \<subseteq> owned (source (stored P))"
    "H q = Some t \<Longrightarrow> p \<noteq> q \<Longrightarrow> region p s \<inter> region q t = {}"
    "\<exists>n. pp_getSize p P = Inr n \<and> s \<le> n"
proof -
  obtain G where G: "heap_inv sinv owned P G" "held_ok G H" using assms(1) by (auto simp: good_def)
  have get: "\<exists>n. carved G q = Some n \<and> t \<le> n \<and> region q t \<subseteq> blk q n" if "H q = Some t" for q t
  proof -
    obtain n where "carved G q = Some n" "t \<le> n" using held_okD [OF G(2), of q t] \<open>H q = Some t\<close> by auto
    then show ?thesis by (intro exI [of _ n]) (auto simp: region_def blk_def word_le_nat_alt)
  qed
  obtain n where n: "carved G p = Some n" "s \<le> n" "region p s \<subseteq> blk p n"
    using get [OF assms(2)] by blast
  show "32 \<le> unat p" "8 dvd unat p" using G(1) n(1) by (auto simp: heap_inv_def objs_ok_def)
  have "blk p n \<subseteq> used (carved G)" using n(1) by (auto simp: used_def)
  moreover have "used (carved G) \<subseteq> owned (source (stored P))"
    using G(1) by (auto simp: heap_inv_def zones_ok_def)
  ultimately show "region p s \<subseteq> owned (source (stored P))" using n(3) by blast
  show "\<exists>n. pp_getSize p P = Inr n \<and> s \<le> n" using pp_getSize_spec [OF G(1) n(1)] n(2) by auto
  assume q: "H q = Some t" "p \<noteq> q"
  obtain k where k: "carved G q = Some k" "region q t \<subseteq> blk q k" using get [OF q(1)] by blast
  have "blk p n \<inter> blk q k = {}" using G(1) n(1) k(1) q(2) by (auto simp: heap_inv_def objs_disj_def)
  then show "region p s \<inter> region q t = {}" using n(3) k(2) by blast
qed

text \<open>An allocation returns \<open>NULL\<close> only if the source did.\<close>

definition source_null :: "'s \<Rightarrow> bool" where
  "source_null s \<longleftrightarrow> (\<exists>n s'. smalloc s n = Inr (0, s'))"

lemma zone_malloc_null:
  assumes inv: "sinv (source st)" "zones_ok (cells st) (owned (source st)) zs U"
    and r: "zone_malloc smalloc chunk sz (zs i, st) = Inr (0, (z', st'))"
    and sz: "39 + unat sz \<le> unat cap" "32 + unat chunk \<le> unat cap"
  shows "source_null (source st)"
proof -
  have cap: "unat cap < 2 ^ 64" using unsigned_less [of cap, where 'a = nat] by simp
  let ?n = "zone_align sz"
  have n: "unat ?n \<le> unat sz + 7" "8 dvd unat ?n" using align8_props [of sz] sz(1) cap by auto
  show ?thesis
  proof (cases "currentArena (zs i) \<noteq> 0 \<and> ?n \<le> cells st (currentArena (zs i))")
    case True
    obtain p m' where "arena_malloc (currentArena (zs i)) ?n (cells st) = (p, m')" "32 \<le> unat p"
      using arena_malloc_spec [OF zones_okD(1) [OF inv(2)], of i ?n] True n(2) by auto
    then show ?thesis using r True by (auto simp: zone_malloc_def Let_def)
  next
    case False
    define al where "al = (if chunk < ?n then ?n else chunk)"
    have al: "32 + unat al \<le> unat cap" using sz n(1) by (auto simp: al_def)
    have nn: "\<not> al < ?n" by (simp add: al_def)
    then have u: "unat (32 + al) = 32 + unat al" using al cap by (subst unat_plus) auto
    then have le: "32 + al \<le> cap" using al by (simp add: word_le_nat_alt)
    have slow: "zone_slowMalloc smalloc chunk ?n (zs i, st) = Inr (0, (z', st'))"
      using r False by (auto simp: zone_malloc_def Let_def)
    obtain buf s' where b: "smalloc (source st) (32 + al) = Inr (buf, s')"
      using slow unfolding zone_slowMalloc_def
      by (auto simp: Let_def rbind_Inr_iff al_def sizeof_Arena_def split: if_splits)
    have "buf = 0"
    proof (rule ccontr)
      assume nz: "buf \<noteq> 0"
      have "unat buf + unat (32 + al) < 2 ^ 64" using source_fresh [OF inv(1) le b nz] by blast
      then have "unat (buf + 32) = unat buf + 32" using u by (subst unat_plus) auto
      then have "buf + 32 \<noteq> 0" by (metis add_is_0 unat_0 zero_neq_numeral)
      then show False
        using slow b nz nn unfolding zone_slowMalloc_def
        by (simp add: Let_def al_def sizeof_Arena_def arena_init_def arena_malloc_def split: if_splits)
    qed
    then show ?thesis using b by (auto simp: source_null_def)
  qed
qed

lemma seg_big_null:
  assumes inv: "heap_inv sinv owned P G"
    and r: "seg_big smalloc chunk sz (heaps P i, stored P) = Inr (0, (k, st))"
    and sz: "55 + unat sz \<le> unat cap" "32 + unat chunk \<le> unat cap"
  shows "source_null (source (stored P))"
proof -
  let ?n = "sz + 16"
  have cap: "unat cap < 2 ^ 64" using unsigned_less [of cap, where 'a = nat] by simp
  have n: "unat ?n = unat sz + 16" using sz(1) cap by (subst unat_plus) auto
  have i: "sinv (source (stored P))"
    "zones_ok (cells (stored P)) (owned (source (stored P))) (\<lambda>j. bigheap (heaps P j)) (used (carved G))"
    using inv by (auto simp: heap_inv_def)
  obtain p z1 st1 where zm: "zone_malloc smalloc chunk ?n (bigheap (heaps P i), stored P) = Inr (p, (z1, st1))"
    and p: "p \<noteq> 0 \<longrightarrow> p + 16 = 0"
    using r by (auto simp: seg_big_def newsource_malloc_def sizeof_objectHeader_def rbind_Inr_iff split: if_splits)
  have sz': "39 + unat ?n \<le> unat cap" using sz(1) n by simp
  have al: "16 \<le> unat (zone_align ?n)"
    using align8_props(1) [of ?n] n sz(1) cap by (simp add: word_le_nat_alt)
  have "p = 0"
  proof (rule ccontr)
    assume "p \<noteq> 0"
    then have "unat p + unat (zone_align ?n) < 2 ^ 64" "p + 16 = 0"
      using zone_malloc_spec [OF i zm sz' sz(2)] p by auto
    then have "unat (p + 16) = unat p + 16" using al by (subst unat_plus) auto
    then show False using \<open>p + 16 = 0\<close> by simp
  qed
  then show ?thesis using zone_malloc_null [OF i, of chunk ?n i] zm sz' sz(2) by simp
qed

lemma pp_malloc_null:
  assumes g: "good (P, H)" and r: "pp_malloc smalloc chunk i sz P = Inr (0, P')"
    and sz: "unat sz + 100 \<le> unat cap" "32 + unat chunk \<le> unat cap" "55 + unat maxObjectSize \<le> unat cap"
  shows "source_null (source (stored P))"
proof -
  obtain G where inv: "heap_inv sinv owned P G" using g by (auto simp: good_def)
  have cap: "unat cap < 2 ^ 64" using unsigned_less [of cap, where 'a = nat] by simp
  let ?n = "if sz < 2 * 8 then 2 * 8 else sz"
  let ?a = "ansi_align ?n"
  have "unat ?n \<le> unat sz + 16" by (auto simp: word_less_nat_alt)
  moreover have "?a = zone_align ?n" by (simp add: ansi_align_def zone_align_def)
  ultimately have a: "55 + unat ?a \<le> unat cap" using align8_props(2) [of ?n] sz(1) cap by auto
  have c: "55 + unat (class2Size (size2Class ?a)) \<le> unat cap" if m: "?a \<le> maxObjectSize"
  proof -
    have bin: "size2Class ?a < NUMBINS" using size2Class_bin m by (simp add: maxObjectSize_def)
    have "unat (class2Size (size2Class ?a)) \<le> unat maxObjectSize"
      using bin power_increasing [of "size2Class ?a + 3" "31" "2::nat"]
      by (auto simp: maxObjectSize_def unat_class2Size NUMBINS_def)
    then show ?thesis using sz(3) by simp
  qed
  obtain k st where s: "seg_malloc smalloc chunk ?a (heaps P i, stored P) = Inr (0, (k, st))"
    using r by (auto simp: pp_malloc_def ansi_malloc_def rbind_Inr_iff Let_def)
  have "\<exists>n k st. seg_big smalloc chunk n (heaps P i, stored P) = Inr (0, (k, st)) \<and> 55 + unat n \<le> unat cap"
  proof (cases "?a \<le> maxObjectSize")
    case True
    then show ?thesis using s c
      by (auto simp: seg_malloc_def adapt_malloc_def sll_get_def Let_def fun_upd_idem split: if_splits)
  next
    case False
    then show ?thesis using s a by (auto simp: seg_malloc_def)
  qed
  then show ?thesis using seg_big_null [OF inv] sz(2) by blast
qed

end

subsection \<open>The application heap\<close>

abbreviation app_step :: "xheap ppheap \<times> (u64 \<rightharpoonup> u64) \<Rightarrow> xheap ppheap \<times> (u64 \<rightharpoonup> u64) \<Rightarrow> bool" where
  "app_step \<equiv> client_step xheap_malloc PROTECTEDHEAP_CHUNK (2 ^ 63)"

definition app_init :: "u64 \<Rightarrow> mem \<Rightarrow> xheap ppheap" where
  "app_init base m = fresh m (xheap_init base PROTECTEDHEAP_SIZE)"

lemma xheap_init_inv:
  assumes "4096 dvd unat base" "unat base + unat PROTECTEDHEAP_SIZE < 2 ^ 64"
  shows "xheap_inv (xheap_init base PROTECTEDHEAP_SIZE)"
  using assms by (simp add: xheap_inv_def xheap_init_def unat_plus)

lemma app_lim:
  "2 ^ 63 + 100 \<le> unat (- 4096 :: u64)" "32 + unat PROTECTEDHEAP_CHUNK \<le> unat (- 4096 :: u64)"
  "55 + unat maxObjectSize \<le> unat (- 4096 :: u64)"
  by (simp_all add: PROTECTEDHEAP_CHUNK_def maxObjectSize_def NUMBINS_def class2Size_def)

lemma app_good:
  assumes "app_step\<^sup>*\<^sup>* (app_init base m, Map.empty) S"
    and "4096 dvd unat base" "unat base + unat PROTECTEDHEAP_SIZE < 2 ^ 64"
  shows "xs.good S"
  using assms(1) unfolding app_init_def
  by (rule xs.run_good [OF _ xs.fresh_good [OF xheap_init_inv [OF assms(2,3)]]]) (use app_lim in auto)

text \<open>The bounds of the region never move: \<open>start\<close> and \<open>endp\<close> are constant.\<close>

lemma xheap_bounds_step:
  assumes "xheap_malloc x n = Inr (p, x')"
  shows "start x' = start x \<and> endp x' = endp x"
  using xheap_malloc_Inr [OF assms] by simp

definition src_step :: "'s malloc_fn \<Rightarrow> 's \<Rightarrow> 's \<Rightarrow> bool" where
  "src_step smalloc s s' \<longleftrightarrow> s' = s \<or> (\<exists>n p. smalloc s n = Inr (p, s'))"

lemma zone_malloc_source:
  assumes "zone_malloc smalloc chunk n (z, st) = Inr (ptr, (z', st'))"
  shows "src_step smalloc (source st) (source st')"
  using assms unfolding zone_malloc_def zone_slowMalloc_def src_step_def
  by (auto simp only: Let_def rbind_Inr_iff case_prod_unfold prod.sel split: if_splits) auto

lemma seg_big_source:
  assumes "seg_big smalloc chunk n (k, st) = Inr (ptr, (k', st'))"
  shows "src_step smalloc (source st) (source st')"
proof -
  obtain p z s1 where "zone_malloc smalloc chunk (n + sizeof_objectHeader) (bigheap k, st) = Inr (p, (z, s1))"
    "source st' = source s1"
    using assms by (auto simp: seg_big_def newsource_malloc_def rbind_Inr_iff split: if_splits)
  then show ?thesis using zone_malloc_source by metis
qed

lemma pp_malloc_source:
  assumes "pp_malloc smalloc chunk i sz P = Inr (ptr, P')"
  shows "src_step smalloc (source (stored P)) (source (stored P'))"
proof -
  obtain k st n where k: "seg_malloc smalloc chunk n (heaps P i, stored P) = Inr (ptr, (k, st))"
    "stored P' = st"
    using assms by (auto simp: pp_malloc_def ansi_malloc_def Let_def rbind_Inr_iff)
  have "cells (stored P) = m \<Longrightarrow> (stored P)\<lparr>cells := m\<rparr> = stored P" for m by auto
  then have "src_step smalloc (source (stored P)) (source st)"
    using k(1) seg_big_source [where st = "stored P"] seg_big_source [where st = "(stored P)\<lparr>cells := m\<rparr>" for m]
    by (fastforce simp: seg_malloc_def adapt_malloc_def sll_get_def Let_def src_step_def split: if_splits)
  with k(2) show ?thesis by simp
qed

lemma pp_free_source: "pp_free i p P = Inr P' \<Longrightarrow> source (stored P') = source (stored P)"
  by (auto simp: pp_free_def ansi_free_def seg_free_def newsource_free_def zone_free_def rbind_Inr_iff
      case_prod_unfold split: if_splits)

lemma app_bounds:
  assumes "app_step\<^sup>*\<^sup>* (app_init base m, Map.empty) S"
  shows "start (source (stored (fst S))) = base \<and>
    endp (source (stored (fst S))) = base + PROTECTEDHEAP_SIZE"
  using assms
proof (induction rule: rtranclp_induct)
  case base then show ?case by (simp add: app_init_def fresh_def xheap_init_def)
next
  case (step T T')
  from step(2,3) show ?case
    by cases (auto simp: src_step_def dest!: pp_malloc_source pp_free_source xheap_bounds_step)
qed

text \<open>A run of two allocations by thread 0, evaluated: the first carves the chunk, the second bumps.\<close>

lemmas malloc_run = pp_malloc_def ansi_malloc_def ansi_align_def seg_malloc_def adapt_malloc_def
  sll_get_def seg_big_def newsource_malloc_def zone_malloc_def zone_slowMalloc_def zone_align_def
  arena_init_def arena_malloc_def arena_setNextArena_def objectHeader_init_def app_init_def fresh_def
  xheap_init_def kheap_init_def zone_init_def xheap_malloc_def xheap_sanityCheck_def page_round_def
  PROTECTEDHEAP_CHUNK_def PROTECTEDHEAP_SIZE_def PageSize_def maxObjectSize_def NUMBINS_def
  class2Size_def sizeof_Arena_def sizeof_objectHeader_def Let_def

lemma size2Class_24: "size2Class 24 = 2"
  by code_simp

lemma two_mallocs:
  "\<exists>P1 P2. pp_malloc xheap_malloc PROTECTEDHEAP_CHUNK 0 24 (app_init 4096 (\<lambda>_. 0)) = Inr (4144, P1) \<and>
     pp_malloc xheap_malloc PROTECTEDHEAP_CHUNK 0 24 P1 = Inr (4192, P2)"
  by (simp add: malloc_run size2Class_24)

lemma two_objects:
  "\<exists>P. app_step\<^sup>*\<^sup>* (app_init 4096 (\<lambda>_. 0), Map.empty) (P, [4144 \<mapsto> 24, 4192 \<mapsto> 24])"
proof -
  obtain P1 P2 where
    "pp_malloc xheap_malloc PROTECTEDHEAP_CHUNK 0 24 (app_init 4096 (\<lambda>_. 0)) = Inr (4144, P1)"
    "pp_malloc xheap_malloc PROTECTEDHEAP_CHUNK 0 24 P1 = Inr (4192, P2)"
    using two_mallocs by blast
  from client_step.alloc [OF this(1), of "2 ^ 63" Map.empty]
    client_step.alloc [OF this(2), of "2 ^ 63" "[4144 \<mapsto> 24]"]
  have "app_step (app_init 4096 (\<lambda>_. 0), Map.empty) (P1, [4144 \<mapsto> 24])"
    "app_step (P1, [4144 \<mapsto> 24]) (P2, [4144 \<mapsto> 24, 4192 \<mapsto> 24])" by simp_all
  then show ?thesis by (intro exI [of _ P2]) (rule converse_rtranclp_into_rtranclp, assumption, blast)
qed

lemma base_4096: "4096 dvd unat (4096 :: u64)" "unat (4096 :: u64) + unat PROTECTEDHEAP_SIZE < 2 ^ 64"
  by (simp_all add: PROTECTEDHEAP_SIZE_def)

text \<open>
  C1: In every state that any interleaving of allocations, frees and writes by any threads reaches
  from a fresh protected heap, two distinct objects held at once do not overlap.
\<close>

theorem malloc_disjoint:
  assumes "app_step\<^sup>*\<^sup>* (app_init base m, Map.empty) (P, H)"
    and "4096 dvd unat base" "unat base + unat PROTECTEDHEAP_SIZE < 2 ^ 64"
    and "H p = Some s" "H q = Some t" "p \<noteq> q"
  shows "region p s \<inter> region q t = {}"
  using xs.good_objects(4) [OF app_good [OF assms(1-3)] assms(4-6)] .

theorem malloc_disjoint_witness:
  "\<exists>P H. app_step\<^sup>*\<^sup>* (app_init 4096 (\<lambda>_. 0), Map.empty) (P, H) \<and> H 4144 = Some 24 \<and>
     H 4192 = Some 24 \<and> region 4144 24 \<inter> region 4192 24 = {}"
proof -
  obtain P where r: "app_step\<^sup>*\<^sup>* (app_init 4096 (\<lambda>_. 0), Map.empty) (P, [4144 \<mapsto> 24, 4192 \<mapsto> 24])"
    using two_objects by blast
  from malloc_disjoint [OF this base_4096, of 4144 24 4192 24] r show ?thesis
    by (intro exI conjI) (assumption, simp_all)
qed

text \<open>
  C20: Every object held lies inside the protected region, is 8-byte aligned, and \<open>getSize\<close> reads
  from its header a size no smaller than the one asked for.
\<close>

theorem malloc_in_region:
  assumes "app_step\<^sup>*\<^sup>* (app_init base m, Map.empty) (P, H)"
    and "4096 dvd unat base" "unat base + unat PROTECTEDHEAP_SIZE < 2 ^ 64" "H p = Some s"
  shows "region p s \<subseteq> {unat base ..< unat base + unat PROTECTEDHEAP_SIZE} \<and> 8 dvd unat p \<and>
    (\<exists>n. pp_getSize p P = Inr n \<and> s \<le> n)"
proof -
  let ?x = "source (stored P)"
  note g = app_good [OF assms(1-3)]
  have "xheap_inv ?x" using g by (auto simp: xs.good_def heap_inv_def)
  moreover have "start ?x = base" "endp ?x = base + PROTECTEDHEAP_SIZE"
    using app_bounds [OF assms(1)] by auto
  ultimately have "xheap_owned ?x \<subseteq> {unat base ..< unat base + unat PROTECTEDHEAP_SIZE}"
    using assms(3) by (auto simp: xheap_inv_def xheap_owned_def unat_plus)
  then show ?thesis using xs.good_objects(2,3,5) [OF g assms(4)] by blast
qed

theorem malloc_in_region_witness:
  "\<exists>P H. app_step\<^sup>*\<^sup>* (app_init 4096 (\<lambda>_. 0), Map.empty) (P, H) \<and> H 4192 = Some 24 \<and>
     (\<exists>n. pp_getSize 4192 P = Inr n \<and> 24 \<le> n)"
proof -
  obtain P where r: "app_step\<^sup>*\<^sup>* (app_init 4096 (\<lambda>_. 0), Map.empty) (P, [4144 \<mapsto> 24, 4192 \<mapsto> 24])"
    using two_objects by blast
  from malloc_in_region [OF this base_4096, of 4192 24] obtain n
    where "pp_getSize 4192 P = Inr n" "24 \<le> n" by auto
  with r show ?thesis by (intro exI conjI) (assumption, simp_all)
qed

text \<open>
  C21: Freeing an object that is held never aborts, from whatever heap index it is freed, and
  changes no byte of any other object held.
\<close>

theorem free_safe:
  assumes "app_step\<^sup>*\<^sup>* (app_init base m, Map.empty) (P, H)"
    and "4096 dvd unat base" "unat base + unat PROTECTEDHEAP_SIZE < 2 ^ 64" "H p = Some s"
  shows "\<exists>P'. pp_free i p P = Inr P' \<and>
    (\<forall>q t a. q \<noteq> p \<longrightarrow> H q = Some t \<longrightarrow> unat a \<in> region q t \<longrightarrow>
      cells (stored P') a = cells (stored P) a)"
  using xs.release_good [OF app_good [OF assms(1-3)] assms(4), of i] by blast

theorem free_safe_witness:
  "\<exists>P H P'. app_step\<^sup>*\<^sup>* (app_init 4096 (\<lambda>_. 0), Map.empty) (P, H) \<and> H 4192 = Some 24 \<and>
     H 4144 = Some 24 \<and> pp_free 7 4144 P = Inr P' \<and> cells (stored P') 4192 = cells (stored P) 4192"
proof -
  obtain P where r: "app_step\<^sup>*\<^sup>* (app_init 4096 (\<lambda>_. 0), Map.empty) (P, [4144 \<mapsto> 24, 4192 \<mapsto> 24])"
    using two_objects by blast
  obtain P' where f: "pp_free 7 4144 P = Inr P'" "\<forall>q t a. q \<noteq> 4144 \<longrightarrow>
      [4144 \<mapsto> 24, 4192 \<mapsto> 24] q = Some t \<longrightarrow> unat a \<in> region q t \<longrightarrow>
      cells (stored P') a = cells (stored P) a"
    using free_safe [OF r base_4096, of 4144 24 7] by auto
  have "unat (4192 :: u64) \<in> region 4192 24" by (simp add: region_def)
  with f(2) [rule_format, of 4192 24 4192] have "cells (stored P') 4192 = cells (stored P) 4192"
    by simp
  with r f(1) show ?thesis
    by (intro exI [of _ P] exI [of _ "[4144 \<mapsto> 24, 4192 \<mapsto> 24]"] exI [of _ P']) simp
qed

text \<open>
  What an allocation needs: the size of its block, a free object of the class, room in the arena of
  the calling thread's heap (the block and its header), or else a new arena from the region.
\<close>

definition malloc_size :: "u64 \<Rightarrow> u64" where
  "malloc_size sz = ansi_align (if sz < 2 * 8 then 2 * 8 else sz)"

definition block_size :: "u64 \<Rightarrow> u64" where
  "block_size sz = (if malloc_size sz \<le> maxObjectSize then class2Size (size2Class (malloc_size sz)) else malloc_size sz)"

definition free_object :: "nat \<Rightarrow> u64 \<Rightarrow> 's ppheap \<Rightarrow> bool" where
  "free_object i sz P \<longleftrightarrow> malloc_size sz \<le> maxObjectSize \<and> myLittleHeap (heaps P i) (size2Class (malloc_size sz)) \<noteq> 0"

definition arena_room :: "nat \<Rightarrow> u64 \<Rightarrow> 's ppheap \<Rightarrow> bool" where
  "arena_room i sz P \<longleftrightarrow> currentArena (bigheap (heaps P i)) \<noteq> 0 \<and>
     zone_align (block_size sz + 16) \<le> cells (stored P) (currentArena (bigheap (heaps P i)))"

definition new_arena :: "u64 \<Rightarrow> u64 \<Rightarrow> u64" where
  "new_arena chunk sz =
     (let n = zone_align (block_size sz + 16) in page_round (32 + (if chunk < n then n else chunk)))"

lemma pp_malloc_needs:
  assumes "pp_malloc smalloc chunk i sz P = Inl e"
  shows "\<not> free_object i sz P \<and> \<not> arena_room i sz P \<and>
    (\<exists>n. smalloc (source (stored P)) n = Inl e \<and> page_round n = new_arena chunk sz)"
proof -
  let ?st = "\<lambda>m. (stored P)\<lparr>cells := m\<rparr>"
  have big: "\<not> (currentArena (bigheap k) \<noteq> 0 \<and> zone_align (n + 16) \<le> cells st (currentArena (bigheap k))) \<and>
      (let z = zone_align (n + 16) in smalloc (source st) (32 + (if chunk < z then z else chunk)) = Inl e)"
    if "seg_big smalloc chunk n (k, st) = Inl e" for n k and st :: "'a store"
    using that by (auto simp: seg_big_def newsource_malloc_def zone_malloc_def zone_slowMalloc_def Let_def
        rbind_Inl_iff sizeof_objectHeader_def sizeof_Arena_def split: if_splits prod.splits)
  have "seg_malloc smalloc chunk (malloc_size sz) (heaps P i, stored P) = Inl e"
    using assms by (simp add: pp_malloc_def ansi_malloc_def malloc_size_def rbind_Inl_iff Let_def split: prod.splits)
  then have b: "\<not> free_object i sz P" "seg_big smalloc chunk (block_size sz) (heaps P i, stored P) = Inl e"
    by (auto simp: seg_malloc_def adapt_malloc_def sll_get_def free_object_def block_size_def Let_def fun_upd_idem
        split: if_splits)
  from big [OF b(2)] b(1) show ?thesis
    by (auto simp: arena_room_def new_arena_def Let_def)
qed

text \<open>
  C22: An allocation of at most \<open>2^63\<close> bytes, in every reachable state, returns an object, never \<open>NULL\<close>,
  that no client holds, and changes no byte of an object held; or it ends the program, and then there is
  no free object of the class, no room in the arena of the thread's heap, and the region has fewer bytes
  left than a new arena takes. It never aborts on a corrupt header and never faults.
\<close>

theorem malloc_safe:
  assumes "app_step\<^sup>*\<^sup>* (app_init base m, Map.empty) (P, H)"
    and "4096 dvd unat base" "unat base + unat PROTECTEDHEAP_SIZE < 2 ^ 64" "base \<noteq> 0" "unat sz \<le> 2 ^ 63"
  shows "case pp_malloc xheap_malloc PROTECTEDHEAP_CHUNK i sz P of
      Inl e \<Rightarrow> e = Exit \<and> \<not> free_object i sz P \<and> \<not> arena_room i sz P \<and>
        (remaining (source (stored P)) = 0 \<or> remaining (source (stored P)) < new_arena PROTECTEDHEAP_CHUNK sz)
    | Inr (ptr, P') \<Rightarrow> ptr \<noteq> 0 \<and> H ptr = None \<and>
        (\<forall>q t a. H q = Some t \<longrightarrow> unat a \<in> region q t \<longrightarrow>
          cells (stored P') a = cells (stored P) a)"
proof (cases "pp_malloc xheap_malloc PROTECTEDHEAP_CHUNK i sz P")
  case (Inl e)
  have "magic (source (stored P)) = 0xCAFEBABE"
    using app_good [OF assms(1-3)] by (auto simp: xs.good_def heap_inv_def xheap_inv_def)
  then show ?thesis
    using pp_malloc_needs [OF Inl] Inl
    by (auto simp: xheap_malloc_def xheap_sanityCheck_def Let_def split: if_splits)
next
  case (Inr r)
  obtain ptr P' where r: "r = (ptr, P')" by (cases r)
  note g = app_good [OF assms(1-3)]
  have lim: "unat sz + 100 \<le> unat (- 4096 :: u64)" using assms(5) app_lim(1) by linarith
  let ?x = "source (stored P)"
  have "xheap_inv ?x" using g by (auto simp: xs.good_def heap_inv_def)
  moreover have "start ?x = base" using app_bounds [OF assms(1)] by simp
  ultimately have "position ?x \<noteq> 0" using assms(4) by (auto simp: xheap_inv_def)
  then have "\<not> xs.source_null ?x" using xheap_malloc_Inr by (auto simp: xs.source_null_def)
  then have "ptr \<noteq> 0" using xs.pp_malloc_null [OF g _ lim app_lim(2,3)] Inr r by blast
  then show ?thesis
    using xs.alloc_good [OF g Inr [unfolded r] lim app_lim(2)] app_lim(3) unfolding Inr r by auto
qed

text \<open>The second allocation of a run gets an object of its own.\<close>

theorem malloc_safe_witness:
  "\<exists>P H ptr P'. app_step\<^sup>*\<^sup>* (app_init 4096 (\<lambda>_. 0), Map.empty) (P, H) \<and> H 4144 = Some 24 \<and>
     pp_malloc xheap_malloc PROTECTEDHEAP_CHUNK 0 24 P = Inr (ptr, P') \<and> ptr \<noteq> 0 \<and> H ptr = None"
proof -
  obtain P1 P2 where p: "pp_malloc xheap_malloc PROTECTEDHEAP_CHUNK 0 24 (app_init 4096 (\<lambda>_. 0)) = Inr (4144, P1)"
    "pp_malloc xheap_malloc PROTECTEDHEAP_CHUNK 0 24 P1 = Inr (4192, P2)"
    using two_mallocs by blast
  have "app_step (app_init 4096 (\<lambda>_. 0), Map.empty) (P1, [4144 \<mapsto> 24])"
    using client_step.alloc [OF p(1), of "2 ^ 63" Map.empty] by simp
  then have st: "app_step\<^sup>*\<^sup>* (app_init 4096 (\<lambda>_. 0), Map.empty) (P1, [4144 \<mapsto> 24])" by blast
  have "[4144 \<mapsto> 24 :: u64] (4192 :: u64) = None"
    using malloc_safe [OF st base_4096, of 24 0] p(2) by simp
  then show ?thesis using st p(2) by (intro exI [of _ P1] exI [of _ "[4144 \<mapsto> 24]"] exI [of _ 4192] exI [of _ P2]) simp
qed

text \<open>
  \<open>malloc(SIZE_MAX)\<close> does not fail: the rounding of \<open>ANSIWrapper\<close> wraps to 0 and the caller gets
  an object whose header records 8 bytes.
\<close>

lemma malloc_SIZE_MAX:
  "\<exists>P'. pp_malloc xheap_malloc PROTECTEDHEAP_CHUNK 0 (- 1) (app_init 4096 (\<lambda>_. 0)) = Inr (4144, P') \<and>
     pp_getSize 4144 P' = Inr 8"
proof -
  have "size2Class 0 = 0" by code_simp
  then show ?thesis
    by (simp add: malloc_run pp_getSize_def ansi_getSize_def newsource_getSize_def getObject_def
        objectHeader_getSize_def objectHeader_sanityCheck_def)
qed

end
