(* ===== verification/Link_List.thy ===== *)
theory Link_List
  imports Prelude
begin

text \<open>
  The circular doubly linked lists of \<^verbatim>\<open>src/include/list.h\<close>, over an explicit store of
  \<open>prev\<close>/\<open>next\<close> cells. An \<open>Entry *\<close> is an optional cell number (\<open>None\<close> is \<open>NULL\<close>), a head
  pointer \<open>Entry **\<close> is passed in and returned updated. \<open>ring\<close> and \<open>dlist\<close> relate a store to
  the list of cells it holds; each operation is shown to refine a list operation and to leave
  every other cell alone. The locale \<open>ring_ops\<close> is the interface the scheduler relies on.
\<close>

record link =
  prev :: "nat option"
  nxt :: "nat option"

type_synonym links = "nat \<Rightarrow> link"

subsection \<open>The operations\<close>

definition deref :: "'a option \<Rightarrow> 'a res" where
  "deref p = (case p of None \<Rightarrow> Inl Segv | Some a \<Rightarrow> Inr a)"

definition set_prev :: "links \<Rightarrow> nat \<Rightarrow> nat option \<Rightarrow> links" where
  "set_prev h a v = h(a := (h a)\<lparr>prev := v\<rparr>)"

definition set_nxt :: "links \<Rightarrow> nat \<Rightarrow> nat option \<Rightarrow> links" where
  "set_nxt h a v = h(a := (h a)\<lparr>nxt := v\<rparr>)"

definition isEmpty :: "nat option \<Rightarrow> bool" where
  "isEmpty head = (case head of None \<Rightarrow> True | Some _ \<Rightarrow> False)"

definition nextEntry :: "links \<Rightarrow> nat \<Rightarrow> nat option" where
  "nextEntry h current = nxt (h current)"

definition moveWholeList :: "links \<Rightarrow> nat option \<Rightarrow> nat option \<Rightarrow> (links \<times> nat option) res" where
  "moveWholeList h pr src =
     (case src of
        None \<Rightarrow> Inr (h, None)
      | Some srchead \<Rightarrow>
          rbind (deref pr) (\<lambda>p.
          let nx = nxt (h p); srctail = prev (h srchead) in
          rbind (deref nx) (\<lambda>n.
          let h1 = set_prev h n srctail; h2 = set_prev h1 srchead (Some p) in
          rbind (deref srctail) (\<lambda>t.
          let h3 = set_nxt h2 t nx; h4 = set_nxt h3 p (Some srchead) in
          Inr (h4, None)))))"

definition insertTail :: "links \<Rightarrow> nat \<Rightarrow> nat option \<Rightarrow> (links \<times> nat option) res" where
  "insertTail h entry head =
     (case head of
        None \<Rightarrow>
          let h1 = set_prev h entry (Some entry); h2 = set_nxt h1 entry (Some entry) in
          Inr (h2, Some entry)
      | Some header \<Rightarrow>
          rbind (deref (prev (h header))) (\<lambda>tail.
          let h1 = set_nxt h tail (Some entry); h2 = set_prev h1 header (Some entry);
              h3 = set_prev h2 entry (Some tail); h4 = set_nxt h3 entry (Some header) in
          Inr (h4, head)))"

definition insertHead :: "links \<Rightarrow> nat \<Rightarrow> nat option \<Rightarrow> links res" where
  "insertHead h entry head =
     rbind (deref head) (\<lambda>header.
     let nx = nxt (h header); h1 = set_nxt h header (Some entry) in
     rbind (deref nx) (\<lambda>n.
     let h2 = set_prev h1 n (Some entry); h3 = set_prev h2 entry (Some header);
         h4 = set_nxt h3 entry nx in
     Inr h4))"

definition insertNext :: "links \<Rightarrow> nat \<Rightarrow> nat \<Rightarrow> links res" where
  "insertNext h entry pr =
     (let nx = nxt (h pr) in
      rbind (deref nx) (\<lambda>n.
      let h1 = set_prev h n (Some entry); h2 = set_prev h1 entry (Some pr);
          h3 = set_nxt h2 entry nx; h4 = set_nxt h3 pr (Some entry) in
      Inr h4))"

definition removeEntry :: "links \<Rightarrow> nat \<Rightarrow> nat option \<Rightarrow> (links \<times> nat option) res" where
  "removeEntry h entry head =
     (let pr = prev (h entry); nx = nxt (h entry) in
      if pr = Some entry \<and> nx = Some entry then Inr (h, None)
      else
        rbind (deref pr) (\<lambda>p.
        let h1 = set_nxt h p nx in
        rbind (deref nx) (\<lambda>n.
        let h2 = set_prev h1 n pr in
        Inr (h2, if head = Some entry then nx else head))))"

definition removeHeadEntry :: "links \<Rightarrow> nat option \<Rightarrow> (links \<times> nat option \<times> nat option) res" where
  "removeHeadEntry h head =
     (case head of
        None \<Rightarrow> Inr (h, None, None)
      | Some header \<Rightarrow>
          rbind (removeEntry h header head) (\<lambda>(h', head'). Inr (h', head', Some header)))"

subsection \<open>What a store holds\<close>

fun linked :: "links \<Rightarrow> nat list \<Rightarrow> bool" where
  "linked h [] = True"
| "linked h [x] = True"
| "linked h (x # y # zs) = (nxt (h x) = Some y \<and> prev (h y) = Some x \<and> linked h (y # zs))"

definition ring :: "links \<Rightarrow> nat list \<Rightarrow> bool" where
  "ring h xs = (xs \<noteq> [] \<and> distinct xs \<and> linked h (xs @ [hd xs]))"

definition dlist :: "links \<Rightarrow> nat option \<Rightarrow> nat list \<Rightarrow> bool" where
  "dlist h head xs =
     (case head of None \<Rightarrow> xs = [] | Some a \<Rightarrow> ring h xs \<and> hd xs = a)"

definition same_outside :: "nat set \<Rightarrow> links \<Rightarrow> links \<Rightarrow> bool" where
  "same_outside S h h' = (\<forall>a. a \<notin> S \<longrightarrow> h' a = h a)"

lemma linked_append:
  "linked h (xs @ y # zs) = (linked h (xs @ [y]) \<and> linked h (y # zs))"
  by (induction h xs rule: linked.induct) auto

lemma linked_cong:
  assumes "\<And>a. a \<in> set (butlast xs) \<Longrightarrow> nxt (h' a) = nxt (h a)"
    and "\<And>a. a \<in> set (tl xs) \<Longrightarrow> prev (h' a) = prev (h a)"
  shows "linked h' xs = linked h xs"
  using assms by (induction h xs rule: linked.induct) auto

lemma ring_rotate: "ring h (us @ vs) = ring h (vs @ us)"
proof (cases us; cases vs)
  fix u us' v vs' assume uv: "us = u # us'" "vs = v # vs'"
  have "linked h (us @ vs @ [u]) = (linked h (us @ [v]) \<and> linked h (vs @ [u]))"
    using linked_append [of h us v "vs' @ [u]"] uv by simp
  moreover have "linked h (vs @ us @ [v]) = (linked h (vs @ [u]) \<and> linked h (us @ [v]))"
    using linked_append [of h vs u "us' @ [v]"] uv by simp
  ultimately show ?thesis
    using uv by (auto simp: ring_def)
qed auto

lemma ring_frame:
  assumes "ring h xs" "same_outside S h h'" "set xs \<inter> S = {}"
  shows "ring h' xs"
proof -
  have eq: "h' a = h a" if "a \<in> set xs" for a
    using that assms by (auto simp: same_outside_def)
  have "linked h' (xs @ [hd xs]) = linked h (xs @ [hd xs])"
  proof (rule linked_cong)
    fix a assume "a \<in> set (butlast (xs @ [hd xs]))"
    then show "nxt (h' a) = nxt (h a)" by (simp add: eq)
  next
    fix a assume "a \<in> set (tl (xs @ [hd xs]))"
    then have "a \<in> set xs"
      using assms(1) by (cases xs) (auto simp: ring_def)
    then show "prev (h' a) = prev (h a)" by (simp add: eq)
  qed
  then show ?thesis using assms(1) by (simp add: ring_def)
qed

lemma dlist_frame:
  "dlist h head xs \<Longrightarrow> same_outside S h h' \<Longrightarrow> set xs \<inter> S = {} \<Longrightarrow> dlist h' head xs"
  by (auto simp: dlist_def dest: ring_frame split: option.splits)

lemma same_outside_trans:
  "same_outside S h h' \<Longrightarrow> same_outside T h' h'' \<Longrightarrow> same_outside (S \<union> T) h h''"
  by (auto simp: same_outside_def)

lemma same_outside_mono: "same_outside S h h' \<Longrightarrow> S \<subseteq> T \<Longrightarrow> same_outside T h h'"
  by (auto simp: same_outside_def)

lemma dlist_None [simp]: "dlist h None xs = (xs = [])"
  by (simp add: dlist_def)

lemma dlist_Nil [simp]: "dlist h head [] = (head = None)"
  by (auto simp: dlist_def ring_def split: option.splits)

lemma dlist_Some: "dlist h (Some a) xs = (ring h xs \<and> hd xs = a)"
  by (simp add: dlist_def)

lemma ring_ne [simp]: "\<not> ring h []"
  by (simp add: ring_def)

lemma dlist_distinct: "dlist h head xs \<Longrightarrow> distinct xs"
  by (auto simp: dlist_def ring_def split: option.splits)

lemma dlist_ring: "dlist h head xs \<Longrightarrow> xs \<noteq> [] \<Longrightarrow> ring h xs \<and> head = Some (hd xs)"
  by (auto simp: dlist_def split: option.splits)

lemma ring_head: "ring h (p # ys) \<Longrightarrow> nxt (h p) = Some (hd (ys @ [p])) \<and> prev (h p) = Some (last (p # ys))"
proof -
  assume r: "ring h (p # ys)"
  then have l: "linked h (p # ys @ [p])" by (simp add: ring_def)
  have "nxt (h p) = Some (hd (ys @ [p]))"
    using l by (cases ys) auto
  moreover have "prev (h p) = Some (last (p # ys))"
  proof -
    obtain zs t where "p # ys = zs @ [t]"
      by (metis list.distinct(1) rev_exhaust)
    then have "linked h (zs @ t # [p])" "last (p # ys) = t"
      using l by (metis append_Cons append_assoc append_Nil, simp)
    then show ?thesis
      using linked_append [of h zs t "[p]"] by simp
  qed
  ultimately show ?thesis by simp
qed

subsection \<open>Each operation refines a list operation\<close>

lemma linked_upd:
  "a \<notin> set (butlast xs) \<Longrightarrow> linked (set_nxt h a v) xs = linked h xs"
  "a \<notin> set (tl xs) \<Longrightarrow> linked (set_prev h a v) xs = linked h xs"
  by (rule linked_cong; auto simp: set_nxt_def set_prev_def)+

lemma link_upd [simp]:
  "nxt (set_nxt h a v b) = (if b = a then v else nxt (h b))"
  "prev (set_nxt h a v b) = prev (h b)"
  "prev (set_prev h a v b) = (if b = a then v else prev (h b))"
  "nxt (set_prev h a v b) = nxt (h b)"
  by (auto simp: set_nxt_def set_prev_def)

lemma same_outside_set [intro]:
  "a \<in> S \<Longrightarrow> same_outside S h h' \<Longrightarrow> same_outside S h (set_nxt h' a v)"
  "a \<in> S \<Longrightarrow> same_outside S h h' \<Longrightarrow> same_outside S h (set_prev h' a v)"
  by (auto simp: same_outside_def set_nxt_def set_prev_def)

lemma same_outside_refl [intro]: "same_outside S h h"
  by (simp add: same_outside_def)

text \<open>Splicing a chain \<open>zs\<close> between a cell \<open>p\<close> of a ring and its successor.\<close>

lemma splice_ring:
  assumes r: "ring h (p # ys)" and z: "linked h zs" "zs \<noteq> []"
    and d: "distinct (zs @ p # ys)"
    and h': "nxt (h' p) = Some (hd zs)" "prev (h' (hd zs)) = Some p"
      "nxt (h' (last zs)) = Some (hd (ys @ [p]))" "prev (h' (hd (ys @ [p]))) = Some (last zs)"
      "\<And>a. a \<noteq> p \<Longrightarrow> a \<noteq> last zs \<Longrightarrow> nxt (h' a) = nxt (h a)"
      "\<And>a. a \<noteq> hd zs \<Longrightarrow> a \<noteq> hd (ys @ [p]) \<Longrightarrow> prev (h' a) = prev (h a)"
  shows "ring h' (p # zs @ ys)"
proof -
  obtain z zs' where zc: "zs = z # zs'" using z(2) by (cases zs) auto
  obtain ws w where zl: "zs = ws @ [w]" using z(2) by (metis rev_exhaust)
  have lz: "linked h' zs"
  proof (subst linked_cong [of zs h' h])
    show "nxt (h' a) = nxt (h a)" if "a \<in> set (butlast zs)" for a
      using that d by (intro h'(5)) (auto simp: zl)
    show "prev (h' a) = prev (h a)" if "a \<in> set (tl zs)" for a
      using that d by (intro h'(6)) (auto simp: zc, cases ys, auto)
  qed (rule z(1))
  have ly: "linked h' (ys @ [p])"
  proof (subst linked_cong [of "ys @ [p]" h' h])
    show "nxt (h' a) = nxt (h a)" if "a \<in> set (butlast (ys @ [p]))" for a
      using that d by (intro h'(5)) (auto simp: zl)
    show "prev (h' a) = prev (h a)" if "a \<in> set (tl (ys @ [p]))" for a
      using that d by (intro h'(6)) (cases ys, auto simp: zc)+
    show "linked h (ys @ [p])"
      using r by (cases ys) (auto simp: ring_def)
  qed
  obtain q qs where q: "ys @ [p] = q # qs" by (cases ys) auto
  have "linked h' (p # zs)" using lz h'(1,2) by (simp add: zc)
  moreover have "linked h' (w # q # qs)" using ly h'(3,4) by (simp add: zl q)
  ultimately have "linked h' (p # ws @ w # q # qs)"
    using linked_append [of h' "p # ws" w "q # qs"] by (simp add: zl)
  then show ?thesis
    using d by (simp add: ring_def zl flip: q)
qed

lemma insertHead_ring:
  assumes "ring h (p # ys)" and "e \<notin> set (p # ys)"
  shows "\<exists>h'. insertHead h e (Some p) = Inr h' \<and> ring h' (p # e # ys) \<and>
    same_outside (insert e (set (p # ys))) h h'"
proof -
  let ?n = "hd (ys @ [p])"
  let ?h' = "set_nxt (set_prev (set_prev (set_nxt h p (Some e)) ?n (Some e)) e (Some p)) e (Some ?n)"
  have n: "nxt (h p) = Some ?n" using ring_head [OF assms(1)] by simp
  have nin: "?n \<in> set (p # ys)" by (cases ys) auto
  then have "e \<noteq> ?n" "e \<noteq> p" using assms(2) by auto
  then have "ring ?h' (p # [e] @ ys)"
    using assms by (intro splice_ring [of h]) (auto simp: ring_def)
  moreover have "same_outside (insert e (set (p # ys))) h ?h'"
    using nin by (intro same_outside_set same_outside_refl) auto
  ultimately show ?thesis
    using n by (simp add: insertHead_def deref_def Let_def)
qed

lemma ring_single [simp]: "ring h [a] = (nxt (h a) = Some a \<and> prev (h a) = Some a)"
  by (simp add: ring_def)

lemma ring_ends:
  "ring h xs \<Longrightarrow> prev (h (hd xs)) = Some (last xs) \<and> nxt (h (last xs)) = Some (hd xs) \<and> linked h xs"
proof -
  assume r: "ring h xs"
  obtain zs t where zt: "xs = zs @ [t]" using r by (metis ring_ne rev_exhaust)
  have "ring h (t # zs)" using r ring_rotate [of h zs "[t]"] by (simp add: zt)
  then have "nxt (h t) = Some (hd xs)" using ring_head [of h t zs] by (simp add: zt)
  moreover have "prev (h (hd xs)) = Some (last xs)"
    using r ring_head [of h "hd xs" "tl xs"] by (cases xs) auto
  moreover have "linked h xs"
    using r linked_append [of h zs t "[hd xs]"] by (simp add: ring_def zt)
  ultimately show ?thesis by (simp add: zt)
qed

lemma insertHead_spec:
  assumes "dlist h head (us @ p # vs)" and "e \<notin> set (us @ p # vs)"
  shows "\<exists>h'. insertHead h e (Some p) = Inr h' \<and> dlist h' head (us @ p # e # vs) \<and>
    same_outside (insert e (set (us @ p # vs))) h h'"
proof -
  have head: "head = Some (hd (us @ p # vs))" and "ring h (us @ p # vs)"
    using dlist_ring [OF assms(1)] by auto
  then have "ring h (p # vs @ us)" using ring_rotate [of h us "p # vs"] by simp
  then obtain h' where "insertHead h e (Some p) = Inr h'" and r: "ring h' (p # e # vs @ us)"
    and so: "same_outside (insert e (set (p # vs @ us))) h h'"
    using insertHead_ring [of h p "vs @ us" e] assms(2) by auto
  moreover have "dlist h' head (us @ p # e # vs)"
    using r ring_rotate [of h' us "p # e # vs"] by (cases us) (simp_all add: head dlist_Some)
  ultimately show ?thesis by (auto elim: same_outside_mono)
qed

lemma insertTail_spec:
  assumes "dlist h head xs" and "e \<notin> set xs"
  shows "\<exists>h'. insertTail h e head = Inr (h', Some (hd (xs @ [e]))) \<and>
    dlist h' (Some (hd (xs @ [e]))) (xs @ [e]) \<and> same_outside (insert e (set xs)) h h'"
proof (cases "xs = []")
  case True
  then show ?thesis
    using assms by (auto simp: insertTail_def dlist_Some Let_def)
next
  case False
  then obtain zs t where xs: "xs = zs @ [t]" by (metis rev_exhaust)
  have r: "ring h xs" "head = Some (hd xs)" using dlist_ring [OF assms(1) False] by auto
  let ?h' = "set_nxt (set_prev (set_prev (set_nxt h t (Some e)) (hd xs) (Some e)) e (Some t)) e (Some (hd xs))"
  have tail: "prev (h (hd xs)) = Some t" using ring_ends [OF r(1)] by (simp add: xs)
  have rt: "ring h (t # zs)" using r(1) ring_rotate [of h zs "[t]"] by (simp add: xs)
  have ne: "e \<noteq> t" "e \<noteq> hd xs"
    using assms(2) hd_in_set [OF False] by (auto simp: xs)
  have "ring ?h' (t # [e] @ zs)"
    using rt assms(2) ne by (intro splice_ring [of h]) (auto simp: ring_def xs)
  then have "ring ?h' (xs @ [e])"
    using ring_rotate [of ?h' zs "[t, e]"] by (simp add: xs)
  moreover have "same_outside (insert e (set xs)) h ?h'"
    using hd_in_set [OF False] by (intro same_outside_set same_outside_refl) (auto simp: xs)
  moreover have "insertTail h e head = Inr (?h', Some (hd (xs @ [e])))"
    using False by (simp add: insertTail_def r(2) deref_def tail Let_def)
  moreover have "hd (xs @ [e]) = hd xs" using False by simp
  ultimately show ?thesis by (simp add: dlist_Some)
qed

lemma insertNext_spec:
  assumes "dlist h head (us @ p # vs)" and "e \<notin> set (us @ p # vs)"
  shows "insertNext h e p = insertHead h e (Some p)"
proof -
  have "ring h (us @ p # vs)" using dlist_ring [OF assms(1)] by auto
  then have "ring h (p # vs @ us)" using ring_rotate [of h us "p # vs"] by simp
  then have n: "nxt (h p) = Some (hd (vs @ us @ [p]))" using ring_head [of h p "vs @ us"] by simp
  have "hd (vs @ us @ [p]) \<in> set (us @ p # vs)" by (cases vs; cases us) auto
  then have "hd (vs @ us @ [p]) \<noteq> e" "p \<noteq> e" using assms(2) by auto
  then show ?thesis
    by (auto simp: insertNext_def insertHead_def deref_def n Let_def set_nxt_def set_prev_def
        fun_eq_iff)
qed

lemma removeEntry_spec:
  assumes "dlist h head (us @ e # vs)"
  shows "\<exists>h' head'. removeEntry h e head = Inr (h', head') \<and> dlist h' head' (us @ vs) \<and>
    same_outside (set (us @ vs)) h h' \<and> h' e = h e"
proof (cases "us @ vs = []")
  case True
  then show ?thesis using assms
    by (auto simp: removeEntry_def dlist_Some Let_def dest: dlist_ring split: option.splits)
next
  case False
  have r: "ring h (us @ e # vs)" "head = Some (hd (us @ e # vs))"
    using dlist_ring [OF assms] by auto
  define ys where "ys = vs @ us"
  have ne: "ys \<noteq> []" using False by (auto simp: ys_def)
  have r': "ring h (e # ys)" using r(1) ring_rotate [of h us "e # vs"] by (simp add: ys_def)
  then have d: "distinct (e # ys)" and l: "linked h (e # ys @ [e])" by (auto simp: ring_def)
  have pn: "prev (h e) = Some (last ys)" "nxt (h e) = Some (hd ys)"
    using ring_head [OF r'] ne by (auto simp: hd_append)
  let ?h' = "set_prev (set_nxt h (last ys) (Some (hd ys))) (hd ys) (Some (last ys))"
  have ine: "last ys \<noteq> e" "hd ys \<noteq> e"
    using d last_in_set [OF ne] hd_in_set [OF ne] by auto
  obtain y ys' where yc: "ys = y # ys'" using ne by (cases ys) auto
  obtain ws w where yl: "ys = ws @ [w]" using ne by (metis rev_exhaust)
  have "linked h ys"
    using l linked_append [of h "e # ws" w "[e]"] by (simp add: yl) (cases ws, auto)
  then have "linked ?h' ys"
    using d by (subst linked_upd, simp add: yc) (subst linked_upd, simp_all add: yl)
  then have "ring ?h' ys"
    using d ne linked_append [of ?h' ws w "[hd ys]"] by (simp add: ring_def yl)
  then have ru: "ring ?h' (us @ vs)" using ring_rotate [of ?h' us vs] by (simp add: ys_def)
  have so: "same_outside (set (us @ vs)) h ?h'"
    using last_in_set [OF ne] hd_in_set [OF ne]
    by (intro same_outside_set same_outside_refl) (auto simp: ys_def)
  have keep: "?h' e = h e" using ine by (simp add: set_nxt_def set_prev_def)
  have hd_eq: "(if head = Some e then Some (hd ys) else head) = Some (hd (us @ vs))"
    using r d False by (cases us) (auto simp: ys_def hd_append)
  have "removeEntry h e head = Inr (?h', Some (hd (us @ vs)))"
    using ine hd_eq by (auto simp: removeEntry_def deref_def pn Let_def)
  then show ?thesis using ru so keep by (auto simp: dlist_Some)
qed

lemma removeHeadEntry_spec:
  assumes "dlist h head xs"
  shows "\<exists>h' head'. removeHeadEntry h head = Inr (h', head', head) \<and> dlist h' head' (tl xs) \<and>
    same_outside (set (tl xs)) h h' \<and> (xs \<noteq> [] \<longrightarrow> head = Some (hd xs))"
proof (cases xs)
  case Nil
  then show ?thesis using assms by (auto simp: removeHeadEntry_def)
next
  case (Cons x ys)
  with assms have "head = Some x" by (auto dest: dlist_ring)
  with Cons show ?thesis
    using removeEntry_spec [of h head "[]" x ys] assms
    by (auto simp: removeHeadEntry_def)
qed

lemma moveWholeList_spec:
  assumes a: "dlist h head (us @ p # vs)" and s: "dlist h src zs"
    and disj: "set (us @ p # vs) \<inter> set zs = {}"
  shows "\<exists>h'. moveWholeList h (Some p) src = Inr (h', None) \<and>
    dlist h' head (us @ p # zs @ vs) \<and> same_outside (set (us @ p # vs) \<union> set zs) h h'"
proof (cases "zs = []")
  case True
  then show ?thesis using a s by (auto simp: moveWholeList_def)
next
  case False
  have rs: "ring h zs" "src = Some (hd zs)" using dlist_ring [OF s False] by auto
  have ra: "ring h (us @ p # vs)" "head = Some (hd (us @ p # vs))" using dlist_ring [OF a] by auto
  define ys where "ys = vs @ us"
  have rp: "ring h (p # ys)" using ra(1) ring_rotate [of h us "p # vs"] by (simp add: ys_def)
  let ?n = "hd (ys @ [p])"
  let ?h' = "set_nxt (set_nxt (set_prev (set_prev h ?n (Some (last zs))) (hd zs) (Some p))
    (last zs) (Some ?n)) p (Some (hd zs))"
  have n: "nxt (h p) = Some ?n" using ring_head [OF rp] by simp
  have nin: "?n \<in> set (p # ys)" by (cases ys) auto
  have t: "prev (h (hd zs)) = Some (last zs)" "linked h zs" using ring_ends [OF rs(1)] by auto
  have dj: "set (p # ys) \<inter> set zs = {}" using disj by (auto simp: ys_def)
  have hz: "hd zs \<in> set zs" "last zs \<in> set zs" using False by auto
  then have ne: "hd zs \<noteq> ?n" "last zs \<noteq> p" "hd zs \<noteq> p" using dj nin by auto
  have "ring ?h' (p # zs @ ys)"
    using rp t(2) False rs(1) dj ne by (intro splice_ring [of h]) (auto simp: ring_def)
  then have "ring ?h' (us @ p # zs @ vs)"
    using ring_rotate [of ?h' us "p # zs @ vs"] by (simp add: ys_def)
  moreover have "same_outside (set (us @ p # vs) \<union> set zs) h ?h'"
    using nin hz by (intro same_outside_set same_outside_refl) (auto simp: ys_def)
  moreover have "moveWholeList h (Some p) src = Inr (?h', None)"
    using n t(1) by (simp add: moveWholeList_def rs(2) deref_def Let_def)
  ultimately show ?thesis using ra(2) by (cases us) (auto simp: dlist_Some)
qed

subsection \<open>The interface the scheduler uses\<close>

text \<open>
  The scheduler only relies on these laws: \<open>holds h head xs\<close> says that the list at \<open>head\<close> is \<open>xs\<close>,
  \<open>changed S h h'\<close> that only cells of \<open>S\<close> were written. The lemmas proved in the locale are the
  three moves of the scheduler: from one list to the tail of another (a thread blocks), from the
  head of a list to just behind a cell of another (a thread is woken behind the token), and
  entering behind a cell that then leaves (a joiner takes an exiting thread's place).
\<close>

locale ring_ops =
  fixes holds :: "'h \<Rightarrow> nat option \<Rightarrow> nat list \<Rightarrow> bool"
    and changed :: "nat set \<Rightarrow> 'h \<Rightarrow> 'h \<Rightarrow> bool"
    and append_tail :: "'h \<Rightarrow> nat \<Rightarrow> nat option \<Rightarrow> ('h \<times> nat option) res"
    and insert_after :: "'h \<Rightarrow> nat \<Rightarrow> nat option \<Rightarrow> 'h res"
    and drop_entry :: "'h \<Rightarrow> nat \<Rightarrow> nat option \<Rightarrow> ('h \<times> nat option) res"
    and pop_head :: "'h \<Rightarrow> nat option \<Rightarrow> ('h \<times> nat option \<times> nat option) res"
  assumes holds_distinct: "holds h head xs \<Longrightarrow> distinct xs"
    and holds_frame: "holds h head xs \<Longrightarrow> changed S h h' \<Longrightarrow> set xs \<inter> S = {} \<Longrightarrow> holds h' head xs"
    and changed_trans: "changed S h h' \<Longrightarrow> changed T h' h'' \<Longrightarrow> changed (S \<union> T) h h''"
    and changed_mono: "changed S h h' \<Longrightarrow> S \<subseteq> T \<Longrightarrow> changed T h h'"
    and append_law: "holds h head xs \<Longrightarrow> e \<notin> set xs \<Longrightarrow>
      \<exists>h' head'. append_tail h e head = Inr (h', head') \<and> holds h' head' (xs @ [e]) \<and>
        changed (insert e (set xs)) h h'"
    and insert_law: "holds h head (us @ p # vs) \<Longrightarrow> e \<notin> set (us @ p # vs) \<Longrightarrow>
      \<exists>h'. insert_after h e (Some p) = Inr h' \<and> holds h' head (us @ p # e # vs) \<and>
        changed (insert e (set (us @ p # vs))) h h'"
    and drop_law: "holds h head (us @ e # vs) \<Longrightarrow>
      \<exists>h' head'. drop_entry h e head = Inr (h', head') \<and> holds h' head' (us @ vs) \<and>
        changed (set (us @ vs)) h h'"
    and pop_law: "holds h head (x # xs) \<Longrightarrow>
      \<exists>h' head'. pop_head h head = Inr (h', head', Some x) \<and> holds h' head' xs \<and>
        changed (set xs) h h'"
begin

lemma requeue:
  assumes a: "holds h A (us @ e # vs)" and b: "holds h B ys"
    and d: "set (us @ e # vs) \<inter> set ys = {}"
  shows "\<exists>h1 A' h2 B'. drop_entry h e A = Inr (h1, A') \<and> append_tail h1 e B = Inr (h2, B') \<and>
    holds h2 A' (us @ vs) \<and> holds h2 B' (ys @ [e]) \<and>
    changed (set (us @ e # vs) \<union> set ys) h h2"
proof -
  obtain h1 A' where 1: "drop_entry h e A = Inr (h1, A')" "holds h1 A' (us @ vs)"
    "changed (set (us @ vs)) h h1"
    using drop_law [OF a] by blast
  have "holds h1 B ys" using d by (intro holds_frame [OF b 1(3)]) auto
  then obtain h2 B' where 2: "append_tail h1 e B = Inr (h2, B')" "holds h2 B' (ys @ [e])"
    "changed (insert e (set ys)) h1 h2"
    using append_law [of h1 B ys e] d by auto
  have 3: "holds h2 A' (us @ vs)"
    using d holds_distinct [OF a] by (intro holds_frame [OF 1(2) 2(3)]) auto
  have 4: "changed (set (us @ e # vs) \<union> set ys) h h2"
    by (rule changed_mono [OF changed_trans [OF 1(3) 2(3)]]) auto
  show ?thesis by (intro exI conjI; fact)
qed

lemma wake_behind:
  assumes q: "holds h Q (e # ys)" and a: "holds h A (us @ p # vs)"
    and d: "set (us @ p # vs) \<inter> set (e # ys) = {}"
  shows "\<exists>h1 Q' h2. pop_head h Q = Inr (h1, Q', Some e) \<and> insert_after h1 e (Some p) = Inr h2 \<and>
    holds h2 Q' ys \<and> holds h2 A (us @ p # e # vs) \<and>
    changed (set (us @ p # vs) \<union> set (e # ys)) h h2"
proof -
  obtain h1 Q' where 1: "pop_head h Q = Inr (h1, Q', Some e)" "holds h1 Q' ys"
    "changed (set ys) h h1"
    using pop_law [OF q] by blast
  have "holds h1 A (us @ p # vs)" using d by (intro holds_frame [OF a 1(3)]) auto
  then obtain h2 where 2: "insert_after h1 e (Some p) = Inr h2" "holds h2 A (us @ p # e # vs)"
    "changed (insert e (set (us @ p # vs))) h1 h2"
    using insert_law [of h1 A us p vs e] d by auto
  have 3: "holds h2 Q' ys"
    using d holds_distinct [OF q] by (intro holds_frame [OF 1(2) 2(3)]) auto
  have 4: "changed (set (us @ p # vs) \<union> set (e # ys)) h h2"
    by (rule changed_mono [OF changed_trans [OF 1(3) 2(3)]]) auto
  show ?thesis by (intro exI conjI; fact)
qed

lemma take_place:
  assumes a: "holds h A (us @ p # vs)" and e: "e \<notin> set (us @ p # vs)"
  shows "\<exists>h1 h2 A'. insert_after h e (Some p) = Inr h1 \<and> drop_entry h1 p A = Inr (h2, A') \<and>
    holds h1 A (us @ p # e # vs) \<and> holds h2 A' (us @ e # vs) \<and>
    changed (insert e (set (us @ p # vs))) h h2"
proof -
  obtain h1 where 1: "insert_after h e (Some p) = Inr h1" "holds h1 A (us @ p # e # vs)"
    "changed (insert e (set (us @ p # vs))) h h1"
    using insert_law [OF a e] by blast
  obtain h2 A' where 2: "drop_entry h1 p A = Inr (h2, A')" "holds h2 A' (us @ e # vs)"
    "changed (set (us @ e # vs)) h1 h2"
    using drop_law [OF 1(2)] by auto
  have 3: "changed (insert e (set (us @ p # vs))) h h2"
    by (rule changed_mono [OF changed_trans [OF 1(3) 2(3)]]) auto
  show ?thesis by (intro exI conjI; fact)
qed

end

interpretation rl: ring_ops dlist same_outside insertTail insertHead removeEntry removeHeadEntry
proof (unfold_locales, goal_cases)
  case 5 then show ?case using insertTail_spec by blast
next
  case 6 then show ?case by (rule insertHead_spec)
next
  case 7 then show ?case using removeEntry_spec by blast
next
  case (8 h head x xs) then show ?case using removeHeadEntry_spec [of h head "x # xs"] by auto
qed (auto intro: dlist_distinct dlist_frame same_outside_trans same_outside_mono)

end
