(* ===== verification/Page_Tables.thy ===== *)
theory Page_Tables
  imports Prelude
begin

text \<open>
  The small tables the page protection code keeps: the pool of twin pages and their versions
  (\<^verbatim>\<open>xbitmap.h\<close>), the per-process pool of page entries (\<^verbatim>\<open>xpageentry.h\<close>, \<^verbatim>\<open>xpageinfo.h\<close>) and
  the atomic operations of \<^verbatim>\<open>xatomic.h\<close> on the words they share. What \<open>mmap\<close> returns is a
  parameter.
\<close>

subsection \<open>xatomic\<close>

text \<open>\<open>exchange\<close> swaps a whole 8-byte word; \<open>increment\<close> is \<open>incl\<close>, which adds in 32 bits only.\<close>

definition exchange :: "u64 \<Rightarrow> u64 \<Rightarrow> u64 \<times> u64" where
  "exchange oldval newval = (oldval, newval)"

definition increment_and_return :: "u64 \<Rightarrow> u64 \<Rightarrow> u64 \<times> u64" where
  "increment_and_return obj amount = (obj, obj + amount)"

definition increment :: "u64 \<Rightarrow> u64" where
  "increment obj = (obj AND NOT 0xFFFFFFFF) OR ((obj + 1) AND 0xFFFFFFFF)"

subsection \<open>xbitmap\<close>

definition BITMAP_SIZE_PER_PAGE :: nat where "BITMAP_SIZE_PER_PAGE = 4096"
definition INITIAL_PAGES :: int where "INITIAL_PAGES = 81920"

text \<open>\<open>bm_mem\<close> are the bytes of the mapping by offset; \<open>_cur\<close>, at offset 0, is kept as a field.\<close>

record xbitmap =
  bm_total :: int
  bm_cur :: int
  bm_mem :: "nat \<Rightarrow> u8"

definition xbitmap_initialize :: "int \<Rightarrow> xbitmap res" where
  "xbitmap_initialize ptr =
     (if ptr = 0 then Inl Abort
      else Inr \<lparr>bm_total = INITIAL_PAGES, bm_cur = 1, bm_mem = (\<lambda>_. 0)\<rparr>)"

definition xbitmap_get :: "xbitmap \<Rightarrow> nat \<times> xbitmap" where
  "xbitmap_get b =
     (if bm_cur b + 1 < bm_total b then (nat (bm_cur b), b\<lparr>bm_cur := bm_cur b + 1\<rparr>) else (0, b))"

definition xbitmap_getAddress :: "nat \<Rightarrow> nat" where
  "xbitmap_getAddress index = 2 * 4096 + index * BITMAP_SIZE_PER_PAGE"

definition versionSlot :: "nat \<Rightarrow> nat" where
  "versionSlot index = 4 + 4 * index"

definition xbitmap_setVersion :: "nat \<Rightarrow> u32 \<Rightarrow> xbitmap \<Rightarrow> xbitmap" where
  "xbitmap_setVersion index version b =
     b\<lparr>bm_mem := (\<lambda>a. if versionSlot index \<le> a \<and> a < versionSlot index + 4
                      then ucast (drop_bit (8 * (a - versionSlot index)) version)
                      else bm_mem b a)\<rparr>"

definition xbitmap_getVersion :: "nat \<Rightarrow> xbitmap \<Rightarrow> u32" where
  "xbitmap_getVersion index b =
     (let v = (\<lambda>k. push_bit (8 * k) (ucast (bm_mem b (versionSlot index + k))) :: u32) in
      v 0 OR v 1 OR v 2 OR v 3)"

definition xbitmap_cleanup :: "xbitmap \<Rightarrow> xbitmap" where
  "xbitmap_cleanup b = b\<lparr>bm_cur := 1\<rparr>"

text \<open>Reading and writing the 4096 bytes at \<open>getAddress(index)\<close>.\<close>

definition twin_bytes :: "xbitmap \<Rightarrow> nat \<Rightarrow> nat \<Rightarrow> u8" where
  "twin_bytes b index k = bm_mem b (xbitmap_getAddress index + k)"

definition twin_store :: "nat \<Rightarrow> (nat \<Rightarrow> u8) \<Rightarrow> xbitmap \<Rightarrow> xbitmap" where
  "twin_store index page b =
     b\<lparr>bm_mem := (\<lambda>a. if xbitmap_getAddress index \<le> a \<and> a < xbitmap_getAddress index + 4096
                      then page (a - xbitmap_getAddress index) else bm_mem b a)\<rparr>"

lemma twin_store_same [simp]: "k < 4096 \<Longrightarrow> twin_bytes (twin_store i p b) i k = p k"
  by (simp add: twin_bytes_def twin_store_def)

lemma twin_store_other [simp]:
  "i \<noteq> j \<Longrightarrow> k < 4096 \<Longrightarrow> twin_bytes (twin_store i p b) j k = twin_bytes b j k"
  by (cases i j rule: linorder_cases)
    (auto simp: twin_bytes_def twin_store_def xbitmap_getAddress_def BITMAP_SIZE_PER_PAGE_def)

lemma twin_setVersion [simp]:
  "i < 3071 \<Longrightarrow> 0 < j \<Longrightarrow> twin_bytes (xbitmap_setVersion i v b) j k = twin_bytes b j k"
  by (auto simp: twin_bytes_def xbitmap_setVersion_def versionSlot_def xbitmap_getAddress_def
      BITMAP_SIZE_PER_PAGE_def)

lemma twin_cleanup [simp]: "twin_bytes (xbitmap_cleanup b) i k = twin_bytes b i k"
  by (simp add: twin_bytes_def xbitmap_cleanup_def)

lemma bm_cur_simps [simp]:
  "bm_cur (twin_store i p b) = bm_cur b" "bm_total (twin_store i p b) = bm_total b"
  "bm_cur (xbitmap_setVersion i v b) = bm_cur b" "bm_total (xbitmap_setVersion i v b) = bm_total b"
  by (simp_all add: twin_store_def xbitmap_setVersion_def)

lemma xbitmap_get_fresh:
  assumes "1 \<le> bm_cur b" "bm_cur b + 1 < bm_total b"
  shows "xbitmap_get b = (nat (bm_cur b), b\<lparr>bm_cur := bm_cur b + 1\<rparr>) \<and> 0 < nat (bm_cur b)"
  using assms by (simp add: xbitmap_get_def)

text \<open>
  The version slots run into the twin pages: with 3071 twins in one round, recording the version
  of the 3071st overwrites the first bytes of twin page 1.
\<close>

lemma setVersion_clobbers_twin:
  "twin_bytes (xbitmap_setVersion 3071 v (twin_store 1 p b)) 1 0 = ucast v \<and>
   (i < 3071 \<longrightarrow> j < 4096 \<longrightarrow> twin_bytes (xbitmap_setVersion i v (twin_store 1 p b)) 1 j = p j)"
  by (auto simp: twin_bytes_def xbitmap_setVersion_def twin_store_def versionSlot_def
      xbitmap_getAddress_def BITMAP_SIZE_PER_PAGE_def)

lemma setVersion_clobbers_twin_witness:
  "twin_bytes (xbitmap_setVersion 3071 5 (twin_store 1 (\<lambda>_. 9) \<lparr>bm_total = 81920, bm_cur = 2, bm_mem = (\<lambda>_. 0)\<rparr>)) 1 0 = 5 \<and>
   twin_bytes (xbitmap_setVersion 3070 5 (twin_store 1 (\<lambda>_. 9) \<lparr>bm_total = 81920, bm_cur = 2, bm_mem = (\<lambda>_. 0)\<rparr>)) 1 8 = 9"
  using setVersion_clobbers_twin [where v = 5 and p = "\<lambda>_. 9" and i = 3070 and j = 8] by simp

subsection \<open>Page entries\<close>

definition PAGE_ENTRY_NUM :: int where "PAGE_ENTRY_NUM = 800000"

record xpageinfo =
  pi_pageNo :: nat
  pi_version :: u32
  pi_pageStart :: u64
  pi_isShared :: bool
  pi_release :: bool

record xpageentry =
  pe_total :: int
  pe_cur :: int
  pe_pool :: "nat \<Rightarrow> xpageinfo"

definition xpageentry_initialize :: "u64 \<Rightarrow> xpageentry \<Rightarrow> xpageentry res" where
  "xpageentry_initialize start e =
     (if start = 0 then Inl Abort else Inr (e\<lparr>pe_cur := 0, pe_total := PAGE_ENTRY_NUM\<rparr>))"

definition xpageentry_alloc :: "xpageentry \<Rightarrow> (nat \<times> xpageentry) res" where
  "xpageentry_alloc e =
     (if pe_cur e < pe_total e then Inr (nat (pe_cur e), e\<lparr>pe_cur := pe_cur e + 1\<rparr>)
      else Inl Abort)"

definition xpageentry_cleanup :: "xpageentry \<Rightarrow> xpageentry" where
  "xpageentry_cleanup e = e\<lparr>pe_cur := 0\<rparr>"

lemma xpageentry_alloc_props:
  assumes "xpageentry_alloc e = Inr (i, e')" "0 \<le> pe_cur e"
  shows "int i = pe_cur e \<and> e' = e\<lparr>pe_cur := pe_cur e + 1\<rparr>"
  using assms by (auto simp: xpageentry_alloc_def split: if_splits)

end
