(* ===== verification/Determ.thy ===== *)
theory Determ
  imports Link_List Page_Tables Heap_Clients
begin

text \<open>
  The deterministic scheduler of \<^verbatim>\<open>src/include/determ.h\<close>: the token ring of active threads, the fence
  counters, and the queues of threads that wait for a condition variable, a barrier, a join or a
  signal. An \<open>Entry *\<close> is the index of a thread in \<open>_entries\<close>; \<open>prev\<close>/\<open>next\<close> live in the store of
  \<open>Link_List\<close>. The entries of locks, condition variables and barriers are allocated from the internal
  heap (the model of \<open>Heap_Layers\<close>) and their contents are kept by address, \<open>0\<close> being \<open>NULL\<close>.

  A function that blocks is split at its \<open>pthread_cond_wait\<close> and at its spins: each definition is one
  critical section of \<open>_mutex\<close>, \<open>_enter\<close> up to the first sleep, \<open>_wake\<close> from a wakeup to the next
  sleep or to the end. A section's result says whether the caller sleeps again.

  The memory the user's synchronization objects live in belongs to \<^verbatim>\<open>xmemory.h\<close>; \<open>memops\<close> are the calls
  made to it: a read and a write of one word by a process, \<open>mem_write\<close> and \<open>begin\<close>.

  \<open>fence_cond\<close> is the condition variable \<open>cond\<close> of the fence: the threads blocked in
  \<open>pthread_cond_wait\<close> on it, which \<open>pthread_cond_broadcast\<close> sets free. The condition variables of a
  \<open>CondEntry\<close> (\<open>realcond\<close>), of a join and of a spawn are not kept: their sleepers may wake at any time.
\<close>

subsection \<open>The data\<close>

datatype threadStatus =
  STATUS_COND_WAITING | STATUS_BARR_WAITING | STATUS_READY | STATUS_EXIT | STATUS_JOINING

record thread_entry =
  tid :: int
  threadindex :: nat
  status :: threadStatus
  tid_parent :: nat
  te_cond :: u64
  te_barrier :: u64
  te_wait :: u64
  joinee_thread_index :: nat

record lock_entry =
  total_users :: int
  last_thread :: int
  is_acquired :: bool
  lock_budget :: int

record cond_entry =
  waiters :: u64
  ce_cond :: u64
  ce_head :: "nat option"

record barrier_entry =
  be_maxthreads :: u64
  be_threads :: u64
  arrival_phase :: bool
  orig_barr :: u64
  be_head :: "nat option"

record 'm memops =
  m_read :: "'m \<Rightarrow> int \<Rightarrow> u64 \<Rightarrow> (u64 \<times> 'm) res"
  m_write :: "'m \<Rightarrow> int \<Rightarrow> u64 \<Rightarrow> u64 \<Rightarrow> 'm res"
  m_mem_write :: "'m \<Rightarrow> u64 \<Rightarrow> u64 \<Rightarrow> 'm res"
  m_begin :: "'m \<Rightarrow> int \<Rightarrow> 'm res"

record 'm det =
  childregistered :: bool
  parentnotified :: bool
  activelist :: "nat option"
  entries :: "nat \<Rightarrow> thread_entry"
  lks :: links
  condnum :: u64
  barriernum :: u64
  coresNumb :: u64
  tokenpos :: "nat option"
  fence_cond :: "nat set"
  maxthreads :: u64
  currthreads :: u64
  is_arrival_phase :: bool
  alivethreads :: u64
  memory :: 'm
  locks :: "u64 \<Rightarrow> lock_entry"
  conds :: "u64 \<Rightarrow> cond_entry"
  barriers :: "u64 \<Rightarrow> barrier_entry"
  iheap :: "kheap \<times> isource store"
  xbm :: xbitmap

definition determ_init :: "(nat \<Rightarrow> thread_entry) \<Rightarrow> links \<Rightarrow> 'm \<Rightarrow> kheap \<times> isource store \<Rightarrow> xbitmap \<Rightarrow> 'm det" where
  "determ_init es ls mm ih bm =
     \<lparr>childregistered = False, parentnotified = False, activelist = None, entries = es, lks = ls,
      condnum = 0, barriernum = 0, coresNumb = 0, tokenpos = None, fence_cond = {}, maxthreads = 0, currthreads = 0,
      is_arrival_phase = False, alivethreads = 0, memory = mm,
      locks = (\<lambda>_. \<lparr>total_users = 0, last_thread = 0, is_acquired = False, lock_budget = 0\<rparr>),
      conds = (\<lambda>_. \<lparr>waiters = 0, ce_cond = 0, ce_head = None\<rparr>),
      barriers = (\<lambda>_. \<lparr>be_maxthreads = 0, be_threads = 0, arrival_phase = False, orig_barr = 0,
        be_head = None\<rparr>),
      iheap = ih, xbm = bm\<rparr>"

text \<open>\<open>cores\<close> is what \<open>sysconf(_SC_NPROCESSORS_ONLN)\<close> returns, as the \<open>size_t\<close> it is stored in.\<close>

definition determ_initialize :: "u64 \<Rightarrow> 'm det \<Rightarrow> 'm det res" where
  "determ_initialize cores s = (if cores < 1 then Inl Exit else Inr (s\<lparr>coresNumb := cores\<rparr>))"

abbreviation upd_entry :: "nat \<Rightarrow> (thread_entry \<Rightarrow> thread_entry) \<Rightarrow> 'm det \<Rightarrow> 'm det" where
  "upd_entry i f s \<equiv> s\<lparr>entries := (entries s)(i := f (entries s i))\<rparr>"

abbreviation upd_cond :: "u64 \<Rightarrow> (cond_entry \<Rightarrow> cond_entry) \<Rightarrow> 'm det \<Rightarrow> 'm det" where
  "upd_cond c f s \<equiv> s\<lparr>conds := (conds s)(c := f (conds s c))\<rparr>"

abbreviation upd_barr :: "u64 \<Rightarrow> (barrier_entry \<Rightarrow> barrier_entry) \<Rightarrow> 'm det \<Rightarrow> 'm det" where
  "upd_barr b f s \<equiv> s\<lparr>barriers := (barriers s)(b := f (barriers s b))\<rparr>"

abbreviation upd_lock :: "u64 \<Rightarrow> (lock_entry \<Rightarrow> lock_entry) \<Rightarrow> 'm det \<Rightarrow> 'm det" where
  "upd_lock l f s \<equiv> s\<lparr>locks := (locks s)(l := f (locks s l))\<rparr>"

text \<open>A dereference of an entry pointer.\<close>

definition nonnull :: "u64 \<Rightarrow> unit res" where
  "nonnull p = (if p = 0 then Inl Segv else Inr ())"

subsection \<open>The fence counters\<close>

definition startFence :: "u64 \<Rightarrow> 'm det \<Rightarrow> 'm det" where
  "startFence threads s =
     s\<lparr>maxthreads := maxthreads s + threads, alivethreads := alivethreads s + threads,
       is_arrival_phase := True, fence_cond := {}\<rparr>"

definition incrFence :: "u64 \<Rightarrow> 'm det \<Rightarrow> 'm det" where
  "incrFence num s = s\<lparr>maxthreads := maxthreads s + num\<rparr>"

definition decrFence :: "'m det \<Rightarrow> 'm det" where
  "decrFence s =
     (let s1 = s\<lparr>maxthreads := maxthreads s - 1\<rparr> in
      if maxthreads s1 \<le> currthreads s1 then
        (if is_arrival_phase s1 \<and> maxthreads s1 \<noteq> 0 then s1\<lparr>is_arrival_phase := False\<rparr> else s1)
          \<lparr>fence_cond := {}\<rparr>
      else s1)"

definition isSingleWorkingThread :: "'m det \<Rightarrow> bool" where
  "isSingleWorkingThread s = (maxthreads s = 1)"

definition isSingleAliveThread :: "'m det \<Rightarrow> bool" where
  "isSingleAliveThread s = (maxthreads s = 1 \<and> alivethreads s = 1)"

text \<open>
  \<open>waitFence\<close>. \<open>fence_spins\<close> is the test that chooses spinning before the arrival phase,
  \<open>fence_arrive\<close> the arrival, which either opens the departure phase or says how the caller waits,
  \<open>fence_depart\<close> the departure, \<open>fence_sleep\<close> the \<open>pthread_cond_wait\<close> of a caller that is too early.
\<close>

datatype fence_wait = Departs | Spins | Sleeps

definition fence_spins :: "'m det \<Rightarrow> bool" where
  "fence_spins s = (maxthreads s \<le> coresNumb s \<and> \<not> is_arrival_phase s)"

definition fence_sleep :: "nat \<Rightarrow> 'm det \<Rightarrow> 'm det" where
  "fence_sleep i s = s\<lparr>fence_cond := insert i (fence_cond s)\<rparr>"

definition fence_arrive :: "nat \<Rightarrow> 'm det \<Rightarrow> fence_wait \<times> 'm det" where
  "fence_arrive i s =
     (let s1 = s\<lparr>currthreads := currthreads s + 1\<rparr> in
      if maxthreads s1 \<le> coresNumb s1 then
        if maxthreads s1 \<le> currthreads s1 then (Departs, s1\<lparr>is_arrival_phase := False, fence_cond := {}\<rparr>)
        else (Spins, s1)
      else
        if maxthreads s1 \<le> currthreads s1 then (Departs, s1\<lparr>is_arrival_phase := False, fence_cond := {}\<rparr>)
        else if is_arrival_phase s1 then (Sleeps, fence_sleep i (upd_entry i (te_wait_update (\<lambda>_. 1)) s1))
        else (Departs, s1))"

definition fence_setwait :: "nat \<Rightarrow> 'm det \<Rightarrow> 'm det" where
  "fence_setwait i s = upd_entry i (te_wait_update (\<lambda>_. 1)) s"

definition fence_clearwait :: "nat \<Rightarrow> 'm det \<Rightarrow> 'm det" where
  "fence_clearwait i s = upd_entry i (te_wait_update (\<lambda>_. 0)) s"

definition fence_depart :: "bool \<Rightarrow> 'm det \<Rightarrow> 'm det" where
  "fence_depart keepBitmap s =
     (let s1 = s\<lparr>currthreads := currthreads s - 1\<rparr> in
      if currthreads s1 = 0 then
        let s2 = s1\<lparr>is_arrival_phase := True, fence_cond := {}\<rparr> in
        if keepBitmap then s2 else s2\<lparr>xbm := xbitmap_cleanup (xbm s2)\<rparr>
      else s1)"

subsection \<open>The token\<close>

definition getToken_ready :: "int \<Rightarrow> 'm det \<Rightarrow> bool res" where
  "getToken_ready pid s = rbind (deref (tokenpos s)) (\<lambda>t. Inr (tid (entries s t) = pid))"

text \<open>
  The ownership test of \<open>putToken\<close> only prints (its \<open>ASSERT\<close> is compiled out), so the token moves on
  whoever calls.
\<close>

definition putToken :: "nat \<Rightarrow> 'm det \<Rightarrow> 'm det res" where
  "putToken i s =
     rbind (deref (tokenpos s)) (\<lambda>t.
       case nxt (lks s t) of None \<Rightarrow> Inr s | Some n \<Rightarrow> Inr (s\<lparr>tokenpos := Some n\<rparr>))"

subsection \<open>Synchronization objects\<close>

definition getSyncEntry :: "'m memops \<Rightarrow> int \<Rightarrow> u64 \<Rightarrow> 'm det \<Rightarrow> (u64 \<times> 'm det) res" where
  "getSyncEntry M pid a s =
     rbind (m_read M (memory s) pid a) (\<lambda>(v, m). Inr (v, s\<lparr>memory := m\<rparr>))"

definition setSyncEntry :: "'m memops \<Rightarrow> int \<Rightarrow> u64 \<Rightarrow> u64 \<Rightarrow> 'm det \<Rightarrow> 'm det res" where
  "setSyncEntry M pid origentry newentry s =
     rbind (m_write M (memory s) pid origentry newentry) (\<lambda>m1.
     rbind (m_mem_write M m1 origentry newentry) (\<lambda>m2. Inr (s\<lparr>memory := m2\<rparr>)))"

text \<open>\<open>mem_write\<close> is given \<open>*dest\<close>, just set to \<open>NULL\<close>, where \<open>dest\<close> was meant.\<close>

definition clearSyncEntry :: "'m memops \<Rightarrow> int \<Rightarrow> u64 \<Rightarrow> 'm det \<Rightarrow> 'm det res" where
  "clearSyncEntry M pid origentry s =
     rbind (m_write M (memory s) pid origentry 0) (\<lambda>m1.
     rbind (m_read M m1 pid origentry) (\<lambda>(v, m2).
     rbind (m_mem_write M m2 v 0) (\<lambda>m3. Inr (s\<lparr>memory := m3\<rparr>))))"

definition allocSyncEntry :: "u64 \<Rightarrow> 'm det \<Rightarrow> (u64 \<times> 'm det) res" where
  "allocSyncEntry sz s =
     rbind (internalheap_malloc sz (iheap s)) (\<lambda>(p, h). Inr (p, s\<lparr>iheap := h\<rparr>))"

definition freeSyncEntry :: "u64 \<Rightarrow> 'm det \<Rightarrow> 'm det res" where
  "freeSyncEntry p s =
     (if p \<noteq> 0 then rbind (internalheap_free p (iheap s)) (\<lambda>h. Inr (s\<lparr>iheap := h\<rparr>)) else Inr s)"

definition sizeof_LockEntry :: u64 where "sizeof_LockEntry = 16"
definition sizeof_CondEntry :: u64 where "sizeof_CondEntry = 72"
definition sizeof_BarrierEntry :: u64 where "sizeof_BarrierEntry = 72"

definition lock_init :: "'m memops \<Rightarrow> int \<Rightarrow> u64 \<Rightarrow> 'm det \<Rightarrow> (u64 \<times> 'm det) res" where
  "lock_init M pid mutex s =
     rbind (allocSyncEntry sizeof_LockEntry s) (\<lambda>(e, s1).
     let s2 = upd_lock e (\<lambda>l. l\<lparr>total_users := 0, last_thread := 0, is_acquired := False\<rparr>) s1 in
     rbind (setSyncEntry M pid mutex e s2) (\<lambda>s3. Inr (e, s3)))"

definition lock_destroy :: "'m memops \<Rightarrow> int \<Rightarrow> u64 \<Rightarrow> 'm det \<Rightarrow> 'm det res" where
  "lock_destroy M pid mutex s =
     rbind (getSyncEntry M pid mutex s) (\<lambda>(e, s1).
     rbind (clearSyncEntry M pid mutex s1) (\<lambda>s2. freeSyncEntry e s2))"

definition lock_isowner :: "'m memops \<Rightarrow> int \<Rightarrow> u64 \<Rightarrow> 'm det \<Rightarrow> (bool \<times> 'm det) res" where
  "lock_isowner M pid mutex s =
     rbind (getSyncEntry M pid mutex s) (\<lambda>(e, s1).
       if e = 0 then Inr (False, s1)
       else if total_users (locks s1 e) = 1 then
         if last_thread (locks s1 e) \<noteq> pid
         then Inr (False, upd_lock e (\<lambda>l. l\<lparr>total_users := total_users l + 1\<rparr>) s1)
         else Inr (True, s1)
       else Inr (False, s1))"

definition lock_isacquired :: "'m memops \<Rightarrow> int \<Rightarrow> u64 \<Rightarrow> 'm det \<Rightarrow> (bool \<times> 'm det) res" where
  "lock_isacquired M pid mutex s =
     rbind (getSyncEntry M pid mutex s) (\<lambda>(e, s1).
     rbind (nonnull e) (\<lambda>_. Inr (is_acquired (locks s1 e), s1)))"

text \<open>The body of \<open>lock_acquire\<close> once the entry is known.\<close>

definition lock_take :: "int \<Rightarrow> bool \<Rightarrow> lock_entry \<Rightarrow> bool \<times> lock_entry" where
  "lock_take pid single l =
     (if is_acquired l then (False, l)
      else
        let l1 = l\<lparr>is_acquired := True\<rparr> in
        if total_users l1 = 0 then
          (True, l1\<lparr>last_thread := pid, total_users := 1, lock_budget := LOCK_OWNER_BUDGET\<rparr>)
        else if total_users l1 = 1 then
          if last_thread l1 \<noteq> pid then (True, l1\<lparr>total_users := total_users l1 + 1\<rparr>)
          else
            let l2 = l1\<lparr>lock_budget := lock_budget l1 - 1\<rparr> in
            if lock_budget l2 = 0 then
              let l3 = l2\<lparr>lock_budget := LOCK_OWNER_BUDGET\<rparr> in
              if \<not> single then (False, l3\<lparr>is_acquired := False\<rparr>) else (True, l3)
            else (True, l2)
        else (True, l1))"

definition lock_acquire :: "'m memops \<Rightarrow> int \<Rightarrow> u64 \<Rightarrow> 'm det \<Rightarrow> (bool \<times> 'm det) res" where
  "lock_acquire M pid mutex s =
     rbind (getSyncEntry M pid mutex s) (\<lambda>(e0, s1).
     rbind (if e0 = 0 then lock_init M pid mutex s1 else Inr (e0, s1)) (\<lambda>(e, s2).
       let (r, l) = lock_take pid (isSingleWorkingThread s2) (locks s2 e) in
       Inr (r, upd_lock e (\<lambda>_. l) s2)))"

definition lock_release :: "'m memops \<Rightarrow> int \<Rightarrow> u64 \<Rightarrow> 'm det \<Rightarrow> 'm det res" where
  "lock_release M pid mutex s =
     rbind (getSyncEntry M pid mutex s) (\<lambda>(e, s1).
     rbind (nonnull e) (\<lambda>_. Inr (upd_lock e (is_acquired_update (\<lambda>_. False)) s1)))"

subsection \<open>Threads\<close>

definition freeThreadEntry :: "nat \<Rightarrow> 'm det \<Rightarrow> 'm det" where
  "freeThreadEntry i s = upd_entry i (status_update (\<lambda>_. STATUS_EXIT)) s"

definition registerThread :: "nat \<Rightarrow> int \<Rightarrow> nat \<Rightarrow> 'm det \<Rightarrow> 'm det res" where
  "registerThread i pid parentindex s =
     (let s1 = upd_entry i (\<lambda>e. e\<lparr>tid := pid, threadindex := i, te_wait := 0, tid_parent := parentindex\<rparr>) s;
          s2 = (if tokenpos s1 = None then s1\<lparr>tokenpos := Some i\<rparr> else s1);
          s3 = upd_entry i (status_update (\<lambda>_. STATUS_READY)) s2 in
      rbind (insertTail (lks s3) i (activelist s3)) (\<lambda>(h, a).
        Inr (s3\<lparr>lks := h, activelist := a\<rparr>)))"

definition registerMaster :: "nat \<Rightarrow> int \<Rightarrow> 'm det \<Rightarrow> 'm det res" where
  "registerMaster i pid s =
     rbind (registerThread i pid 0 s) (\<lambda>s1.
       Inr (s1\<lparr>maxthreads := 1, alivethreads := 1, is_arrival_phase := True\<rparr>))"

text \<open>
  Thread creation. The child registers and sleeps on \<open>_cond_children\<close>; the parent sleeps on
  \<open>_cond_parent\<close> only if the child has not registered yet (the result says so).
\<close>

definition waitParentNotify_enter :: "'m det \<Rightarrow> 'm det" where
  "waitParentNotify_enter s = s\<lparr>childregistered := True\<rparr>"

definition waitChildRegistered_enter :: "'m det \<Rightarrow> bool \<times> 'm det" where
  "waitChildRegistered_enter s =
     (if \<not> childregistered s then (True, s) else (False, s\<lparr>childregistered := False\<rparr>))"

definition waitChildRegistered_wake :: "'m det \<Rightarrow> 'm det" where
  "waitChildRegistered_wake s = s\<lparr>childregistered := False\<rparr>"

text \<open>
  The fence and the token of a joiner that goes to sleep: one pass of the \<open>while\<close> loop of \<open>join\<close> up
  to its \<open>pthread_cond_wait\<close>.
\<close>

definition join_sleep :: "nat \<Rightarrow> 'm det \<Rightarrow> 'm det res" where
  "join_sleep myindex s =
     (let s1 = decrFence s in
      rbind (deref (tokenpos s1)) (\<lambda>t.
        if threadindex (entries s1 t) = myindex \<and> activelist s1 \<noteq> None
        then Inr (s1\<lparr>tokenpos := nxt (lks s1 t)\<rparr>) else Inr s1))"

definition join_enter :: "nat \<Rightarrow> nat \<Rightarrow> 'm det \<Rightarrow> (bool \<times> 'm det) res" where
  "join_enter guestindex myindex s =
     (if status (entries s guestindex) \<noteq> STATUS_EXIT then
        rbind (removeEntry (lks s) myindex (activelist s)) (\<lambda>(h, a).
        let s1 = upd_entry myindex
                   (\<lambda>e. e\<lparr>status := STATUS_JOINING, joinee_thread_index := guestindex\<rparr>)
                   (s\<lparr>lks := h, activelist := a\<rparr>) in
        if status (entries s1 guestindex) \<noteq> STATUS_EXIT
        then rbind (join_sleep myindex s1) (\<lambda>s2. Inr (True, s2))
        else Inr (False, upd_entry myindex (status_update (\<lambda>_. STATUS_READY)) s1))
      else Inr (False, upd_entry myindex (status_update (\<lambda>_. STATUS_READY)) s))"

definition join_wake :: "nat \<Rightarrow> nat \<Rightarrow> 'm det \<Rightarrow> (bool \<times> 'm det) res" where
  "join_wake guestindex myindex s =
     (let s1 = incrFence 1 s in
      if status (entries s1 guestindex) \<noteq> STATUS_EXIT
      then rbind (join_sleep myindex s1) (\<lambda>s2. Inr (True, s2))
      else Inr (False, upd_entry myindex (status_update (\<lambda>_. STATUS_READY)) s1))"

definition deregisterThread :: "nat \<Rightarrow> 'm det \<Rightarrow> 'm det res" where
  "deregisterThread i s =
     (let parent = tid_parent (entries s i) in
      rbind (if status (entries s parent) = STATUS_JOINING \<and>
                joinee_thread_index (entries s parent) = i
             then rbind (insertHead (lks s) parent (tokenpos s)) (\<lambda>h. Inr (s\<lparr>lks := h\<rparr>))
             else Inr s) (\<lambda>s1.
      let s2 = (if 0 < alivethreads s1
                then decrFence (s1\<lparr>alivethreads := alivethreads s1 - 1\<rparr>) else s1);
          nextentry = nxt (lks s2 i) in
      rbind (removeEntry (lks s2) i (activelist s2)) (\<lambda>(h, a).
        Inr ((freeThreadEntry i (s2\<lparr>lks := h, activelist := a\<rparr>))\<lparr>tokenpos := nextentry\<rparr>))))"

text \<open>\<open>cancel\<close>: only a thread that waits on a condition variable is found.\<close>

definition determ_cancel :: "nat \<Rightarrow> 'm det \<Rightarrow> (bool \<times> 'm det) res" where
  "determ_cancel i s =
     (case status (entries s i) of
        STATUS_COND_WAITING \<Rightarrow>
          (let c = te_cond (entries s i) in
           rbind (nonnull c) (\<lambda>_.
           rbind (removeEntry (lks s) i (ce_head (conds s c))) (\<lambda>(h, hd').
           let s1 = upd_cond c (ce_head_update (\<lambda>_. hd')) (s\<lparr>lks := h\<rparr>);
               s2 = s1\<lparr>alivethreads := alivethreads s1 - 1\<rparr>;
               s3 = (if te_wait (entries s2 i) = 1
                     then s2\<lparr>currthreads := currthreads s2 - 1, maxthreads := maxthreads s2 - 1\<rparr>
                     else s2);
               s4 = (if maxthreads s3 = 1 then s3\<lparr>is_arrival_phase := True\<rparr> else s3) in
           Inr (True, freeThreadEntry i s4))))
      | _ \<Rightarrow> Inr (False, s))"

subsection \<open>Condition variables\<close>

definition cond_init :: "'m memops \<Rightarrow> int \<Rightarrow> u64 \<Rightarrow> 'm det \<Rightarrow> (u64 \<times> 'm det) res" where
  "cond_init M pid cond s =
     rbind (allocSyncEntry sizeof_CondEntry s) (\<lambda>(e, s1).
     let s2 = upd_cond e (\<lambda>_. \<lparr>waiters = 0, ce_cond = cond, ce_head = None\<rparr>)
                (s1\<lparr>condnum := condnum s1 + 1\<rparr>) in
     rbind (setSyncEntry M pid cond e s2) (\<lambda>s3. Inr (e, s3)))"

definition cond_destroy :: "'m memops \<Rightarrow> int \<Rightarrow> u64 \<Rightarrow> 'm det \<Rightarrow> 'm det res" where
  "cond_destroy M pid cond s =
     rbind (getSyncEntry M pid cond (s\<lparr>condnum := condnum s - 1\<rparr>)) (\<lambda>(e, s1).
     rbind (clearSyncEntry M pid cond s1) (\<lambda>s2. freeSyncEntry e s2))"

text \<open>The entry of a condition variable, made on first use.\<close>

definition cond_lookup :: "'m memops \<Rightarrow> int \<Rightarrow> u64 \<Rightarrow> 'm det \<Rightarrow> (u64 \<times> 'm det) res" where
  "cond_lookup M pid cond s =
     rbind (getSyncEntry M pid cond s) (\<lambda>(e, s1).
       if e = 0 then cond_init M pid cond s1 else Inr (e, s1))"

definition cond_wait_queue :: "nat \<Rightarrow> u64 \<Rightarrow> 'm det \<Rightarrow> 'm det res" where
  "cond_wait_queue i c s =
     (let next = nxt (lks s i) in
      rbind (removeEntry (lks s) i (activelist s)) (\<lambda>(h1, a).
      rbind (insertTail h1 i (ce_head (conds s c))) (\<lambda>(h2, hd').
      let s1 = s\<lparr>lks := h2, activelist := a\<rparr>;
          s2 = upd_cond c (\<lambda>e. e\<lparr>ce_head := hd', waiters := waiters e + 1\<rparr>) s1;
          s3 = upd_entry i (\<lambda>e. e\<lparr>te_cond := c, status := STATUS_COND_WAITING\<rparr>) s2 in
      Inr ((decrFence s3)\<lparr>tokenpos := next\<rparr>))))"

text \<open>The loop test of \<open>cond_wait\<close>: \<open>True\<close> means the caller sleeps (again).\<close>

definition cond_wait_loop :: "'m memops \<Rightarrow> int \<Rightarrow> nat \<Rightarrow> u64 \<Rightarrow> 'm det \<Rightarrow> (bool \<times> 'm det) res" where
  "cond_wait_loop M pid i thelock s =
     (if status (entries s i) \<noteq> STATUS_READY
      then rbind (lock_release M pid thelock s) (\<lambda>s1. Inr (True, s1))
      else Inr (False, s))"

definition cond_wait_enter ::
  "'m memops \<Rightarrow> int \<Rightarrow> nat \<Rightarrow> u64 \<Rightarrow> u64 \<Rightarrow> 'm det \<Rightarrow> (bool \<times> 'm det) res" where
  "cond_wait_enter M pid i cond thelock s =
     rbind (cond_lookup M pid cond s) (\<lambda>(c, s1).
     rbind (cond_wait_queue i c s1) (\<lambda>s2. cond_wait_loop M pid i thelock s2))"

text \<open>After the token has come back; the result of \<open>lock_acquire\<close> is dropped.\<close>

definition cond_wait_finish :: "'m memops \<Rightarrow> int \<Rightarrow> u64 \<Rightarrow> 'm det \<Rightarrow> 'm det res" where
  "cond_wait_finish M pid thelock s =
     rbind (lock_acquire M pid thelock s) (\<lambda>(_, s1). Inr s1)"

definition cond_signal :: "'m memops \<Rightarrow> int \<Rightarrow> u64 \<Rightarrow> 'm det \<Rightarrow> 'm det res" where
  "cond_signal M pid cond s =
     rbind (cond_lookup M pid cond s) (\<lambda>(c, s1).
       if waiters (conds s1 c) = 0 then Inr s1
       else
         rbind (removeHeadEntry (lks s1) (ce_head (conds s1 c))) (\<lambda>(h1, hd', e).
         rbind (deref e) (\<lambda>i.
         rbind (insertHead h1 i (tokenpos s1)) (\<lambda>h2.
         let s2 = upd_cond c (ce_head_update (\<lambda>_. hd')) (s1\<lparr>lks := h2\<rparr>);
             s3 = upd_entry i (\<lambda>e. e\<lparr>te_cond := 0, status := STATUS_READY\<rparr>) s2 in
         Inr (upd_cond c (\<lambda>e. e\<lparr>waiters := waiters e - 1\<rparr>) (incrFence 1 s3))))))"

text \<open>The loop of \<open>cond_broadcast\<close> over \<open>n\<close> waiters along \<open>next\<close>.\<close>

fun set_ready :: "nat \<Rightarrow> nat option \<Rightarrow> 'm det \<Rightarrow> 'm det res" where
  "set_ready 0 e s = Inr s"
| "set_ready (Suc n) e s =
     rbind (deref e) (\<lambda>i.
       set_ready n (nxt (lks s i)) (upd_entry i (\<lambda>t. t\<lparr>te_cond := 0, status := STATUS_READY\<rparr>) s))"

definition cond_broadcast :: "'m memops \<Rightarrow> int \<Rightarrow> u64 \<Rightarrow> 'm det \<Rightarrow> 'm det res" where
  "cond_broadcast M pid cond s =
     rbind (cond_lookup M pid cond s) (\<lambda>(c, s1).
       if waiters (conds s1 c) = 0 then Inr s1
       else
         rbind (set_ready (unat (waiters (conds s1 c))) (ce_head (conds s1 c)) s1) (\<lambda>s2.
         rbind (moveWholeList (lks s2) (tokenpos s2) (ce_head (conds s2 c))) (\<lambda>(h, hd').
         let s3 = incrFence (waiters (conds s2 c)) (s2\<lparr>lks := h\<rparr>) in
         Inr (upd_cond c (\<lambda>e. e\<lparr>ce_head := hd', waiters := 0\<rparr>) s3))))"

subsection \<open>Signals\<close>

definition sig_wait_enter :: "nat \<Rightarrow> 'm det \<Rightarrow> 'm det res" where
  "sig_wait_enter i s =
     (let next = nxt (lks s i) in
      rbind (removeEntry (lks s) i (activelist s)) (\<lambda>(h, a).
        Inr ((decrFence (s\<lparr>lks := h, activelist := a\<rparr>))\<lparr>tokenpos := next\<rparr>)))"

text \<open>\<open>ret\<close> is what \<open>sigwait\<close> returned.\<close>

definition sig_wait_wake :: "int \<Rightarrow> nat \<Rightarrow> 'm det \<Rightarrow> (int \<times> 'm det) res" where
  "sig_wait_wake ret i s =
     (if ret \<noteq> 0 then Inr (ret, s)
      else
        rbind (case tokenpos s of
                 None \<Rightarrow> Inr (s\<lparr>tokenpos := Some i\<rparr>)
               | Some t \<Rightarrow> rbind (insertHead (lks s) i (Some t)) (\<lambda>h. Inr (s\<lparr>lks := h\<rparr>))) (\<lambda>s1.
        Inr (0, incrFence 1 s1)))"

subsection \<open>Barriers\<close>

definition barrier_init :: "'m memops \<Rightarrow> int \<Rightarrow> u64 \<Rightarrow> u64 \<Rightarrow> 'm det \<Rightarrow> 'm det res" where
  "barrier_init M pid bar count s =
     rbind (allocSyncEntry sizeof_BarrierEntry s) (\<lambda>(e, s1).
     rbind (nonnull e) (\<lambda>_.
     let s2 = upd_barr e (\<lambda>_. \<lparr>be_maxthreads = count, be_threads = 0, arrival_phase = True,
                orig_barr = bar, be_head = None\<rparr>) s1 in
     rbind (setSyncEntry M pid bar e s2) (\<lambda>s3. Inr (s3\<lparr>barriernum := barriernum s3 + 1\<rparr>))))"

text \<open>The critical section of \<open>barrier_wait\<close>; the result is \<open>lastThread\<close>.\<close>

definition barrier_wait_section :: "u64 \<Rightarrow> nat \<Rightarrow> 'm det \<Rightarrow> (bool \<times> 'm det) res" where
  "barrier_wait_section b i s =
     rbind (nonnull b) (\<lambda>_.
     let s1 = upd_barr b (\<lambda>e. e\<lparr>be_threads := be_threads e + 1\<rparr>) s in
     if be_threads (barriers s1 b) = be_maxthreads (barriers s1 b) then
       rbind (moveWholeList (lks s1) (tokenpos s1) (be_head (barriers s1 b))) (\<lambda>(h, hd').
       let s2 = upd_barr b (be_head_update (\<lambda>_. hd')) (s1\<lparr>lks := h\<rparr>);
           s3 = incrFence (be_maxthreads (barriers s2 b) - 1) s2;
           nextentry = nxt (lks s3 i);
           s4 = upd_barr b (be_threads_update (\<lambda>_. 0)) s3 in
       Inr (True, s4\<lparr>xbm := xbitmap_cleanup (xbm s4), tokenpos := nextentry\<rparr>))
     else
       let nextentry = nxt (lks s1 i) in
       rbind (removeEntry (lks s1) i (activelist s1)) (\<lambda>(h1, a).
       rbind (insertTail h1 i (be_head (barriers s1 b))) (\<lambda>(h2, hd').
       let s2 = upd_barr b (be_head_update (\<lambda>_. hd')) (s1\<lparr>lks := h2, activelist := a\<rparr>);
           s3 = upd_entry i (\<lambda>e. e\<lparr>status := STATUS_BARR_WAITING, te_barrier := b\<rparr>) s2 in
       Inr (False, (decrFence s3)\<lparr>tokenpos := nextentry\<rparr>))))"

text \<open>Up to \<open>pthread_barrier_wait\<close>, and after it.\<close>

definition barrier_wait_enter :: "'m memops \<Rightarrow> int \<Rightarrow> u64 \<Rightarrow> nat \<Rightarrow> 'm det \<Rightarrow> (bool \<times> 'm det) res" where
  "barrier_wait_enter M pid bar i s =
     rbind (getSyncEntry M pid bar s) (\<lambda>(b, s1).
     rbind (barrier_wait_section b i s1) (\<lambda>(lastThread, s2).
       if \<not> lastThread
       then rbind (m_begin M (memory s2) pid) (\<lambda>m. Inr (lastThread, s2\<lparr>memory := m\<rparr>))
       else Inr (lastThread, s2)))"

definition barrier_wait_leave :: "'m memops \<Rightarrow> int \<Rightarrow> bool \<Rightarrow> 'm det \<Rightarrow> 'm det res" where
  "barrier_wait_leave M pid lastThread s =
     (if lastThread then rbind (m_begin M (memory s) pid) (\<lambda>m. Inr (s\<lparr>memory := m\<rparr>)) else Inr s)"

definition barrier_destroy :: "'m memops \<Rightarrow> int \<Rightarrow> u64 \<Rightarrow> 'm det \<Rightarrow> 'm det res" where
  "barrier_destroy M pid bar s =
     rbind (getSyncEntry M pid bar s) (\<lambda>(e, s1).
     rbind (freeSyncEntry e s1) (\<lambda>s2.
     rbind (clearSyncEntry M pid bar s2) (\<lambda>s3. Inr (s3\<lparr>barriernum := barriernum s3 - 1\<rparr>))))"

end
