(* ===== verification/Determ_Queues.thy ===== *)
theory Determ_Queues
  imports Determ
begin

text \<open>
  The scheduler against its abstract state. \<open>Q\<close> gives the contents of every queue: the token ring
  \<open>Act\<close>, the waiters of each condition variable and of each barrier. \<open>queues_ok\<close> says that the
  pointers in memory hold exactly these lists, that no thread is in two of them and that the
  counters count them. Every operation of \<^verbatim>\<open>determ.h\<close> is shown to refine a list operation.
\<close>

subsection \<open>Abstract queues\<close>

datatype qid = Act | Cond u64 | Barr u64

primrec qhead :: "'m det \<Rightarrow> qid \<Rightarrow> nat option" where
  "qhead s Act = activelist s"
| "qhead s (Cond c) = ce_head (conds s c)"
| "qhead s (Barr b) = be_head (barriers s b)"

definition queues_ok :: "'m det \<Rightarrow> (qid \<Rightarrow> nat list) \<Rightarrow> bool" where
  "queues_ok s Q \<longleftrightarrow>
     (\<forall>q. dlist (lks s) (qhead s q) (Q q)) \<and>
     (\<forall>q r. q \<noteq> r \<longrightarrow> set (Q q) \<inter> set (Q r) = {}) \<and>
     (\<forall>q. set (Q q) \<subseteq> {..<2048}) \<and>
     (\<forall>c. waiters (conds s c) = of_nat (length (Q (Cond c)))) \<and>
     (\<forall>b. be_threads (barriers s b) = of_nat (length (Q (Barr b))))"

text \<open>The thread that follows \<open>i\<close> in the ring \<open>xs\<close>.\<close>

definition succ_in :: "nat list \<Rightarrow> nat \<Rightarrow> nat" where
  "succ_in xs i = hd (tl (dropWhile (\<lambda>x. x \<noteq> i) xs) @ xs)"

definition insert_behind :: "nat \<Rightarrow> nat list \<Rightarrow> nat list \<Rightarrow> nat list" where
  "insert_behind t zs xs = takeWhile (\<lambda>x. x \<noteq> t) xs @ t # zs @ tl (dropWhile (\<lambda>x. x \<noteq> t) xs)"

lemma succ_in_split: "i \<notin> set us \<Longrightarrow> succ_in (us @ i # vs) i = hd (vs @ us @ [i])"
proof -
  assume "i \<notin> set us"
  then have "dropWhile (\<lambda>x. x \<noteq> i) (us @ i # vs) = i # vs"
    by (induction us) auto
  then show ?thesis by (cases vs; cases us) (auto simp: succ_in_def)
qed

lemma insert_behind_split: "t \<notin> set us \<Longrightarrow> insert_behind t zs (us @ t # vs) = us @ t # zs @ vs"
proof -
  assume "t \<notin> set us"
  then have "dropWhile (\<lambda>x. x \<noteq> t) (us @ t # vs) = t # vs" "takeWhile (\<lambda>x. x \<noteq> t) (us @ t # vs) = us"
    by (induction us) auto
  then show ?thesis by (simp add: insert_behind_def)
qed

lemma succ_in_mem: "i \<in> set xs \<Longrightarrow> succ_in xs i \<in> set xs"
proof -
  assume "i \<in> set xs"
  then obtain us vs where u: "xs = us @ i # vs" "i \<notin> set us" by (metis split_list_first)
  then have "succ_in xs i = hd (vs @ us @ [i])" by (simp add: succ_in_split)
  then show ?thesis using u(1) by (cases vs; cases us) auto
qed

lemma nxt_succ_in:
  assumes "dlist h head xs" "i \<in> set xs"
  shows "nxt (h i) = Some (succ_in xs i)"
proof -
  obtain us vs where u: "xs = us @ i # vs" "i \<notin> set us" using assms(2) by (metis split_list_first)
  have "ring h xs" using dlist_ring [OF assms(1)] u by auto
  then have "ring h (i # vs @ us)" using ring_rotate [of h us "i # vs"] u by simp
  from ring_head [OF this] show ?thesis using u by (simp add: succ_in_split)
qed

subsection \<open>The frame of a queue operation\<close>

lemma queues_okD:
  assumes "queues_ok s Q"
  shows "dlist (lks s) (qhead s q) (Q q)" "q \<noteq> r \<Longrightarrow> set (Q q) \<inter> set (Q r) = {}"
    "set (Q q) \<subseteq> {..<2048}" "distinct (Q q)" "length (Q q) \<le> 2048"
    "waiters (conds s c) = of_nat (length (Q (Cond c)))"
    "be_threads (barriers s b) = of_nat (length (Q (Barr b)))"
proof -
  note a = assms [unfolded queues_ok_def]
  show d: "dlist (lks s) (qhead s q) (Q q)" and s: "set (Q q) \<subseteq> {..<2048}" using a by simp_all
  show "q \<noteq> r \<Longrightarrow> set (Q q) \<inter> set (Q r) = {}" using a by simp
  show di: "distinct (Q q)" by (rule dlist_distinct [OF d])
  have "card (set (Q q)) \<le> card {..<2048::nat}" by (rule card_mono [OF _ s]) simp
  then show "length (Q q) \<le> 2048" using di by (simp add: distinct_card)
  show "waiters (conds s c) = of_nat (length (Q (Cond c)))"
    "be_threads (barriers s b) = of_nat (length (Q (Barr b)))" using a by simp_all
qed

lemma queues_okD':
  assumes "queues_ok s Q"
  shows "dlist (lks s) (activelist s) (Q Act)" "dlist (lks s) (ce_head (conds s c)) (Q (Cond c))"
    "dlist (lks s) (be_head (barriers s b)) (Q (Barr b))"
  using queues_okD(1) [OF assms, of Act] queues_okD(1) [OF assms, of "Cond c"]
    queues_okD(1) [OF assms, of "Barr b"] by simp_all

lemma queues_ok_cong:
  assumes "lks s' = lks s" "activelist s' = activelist s" "conds s' = conds s"
    "barriers s' = barriers s"
  shows "queues_ok s' Q = queues_ok s Q"
proof -
  have "qhead s' q = qhead s q" for q using assms by (cases q) simp_all
  then show ?thesis using assms by (simp add: queues_ok_def)
qed

lemma queues_ok_upd [simp]:
  "queues_ok (s\<lparr>tokenpos := t\<rparr>) Q = queues_ok s Q"
  "queues_ok (s\<lparr>entries := es\<rparr>) Q = queues_ok s Q"
  "queues_ok (s\<lparr>maxthreads := n\<rparr>) Q = queues_ok s Q"
  "queues_ok (s\<lparr>currthreads := n\<rparr>) Q = queues_ok s Q"
  "queues_ok (s\<lparr>alivethreads := n\<rparr>) Q = queues_ok s Q"
  "queues_ok (s\<lparr>is_arrival_phase := b\<rparr>) Q = queues_ok s Q"
  "queues_ok (s\<lparr>memory := m\<rparr>) Q = queues_ok s Q"
  "queues_ok (s\<lparr>locks := l\<rparr>) Q = queues_ok s Q"
  "queues_ok (s\<lparr>iheap := h\<rparr>) Q = queues_ok s Q"
  "queues_ok (s\<lparr>xbm := x\<rparr>) Q = queues_ok s Q"
  "queues_ok (s\<lparr>condnum := n\<rparr>) Q = queues_ok s Q"
  "queues_ok (s\<lparr>barriernum := n\<rparr>) Q = queues_ok s Q"
  "queues_ok (s\<lparr>childregistered := b\<rparr>) Q = queues_ok s Q"
  by (rule queues_ok_cong; simp)+

lemma queues_ok_fence [simp]:
  "queues_ok (decrFence s) Q = queues_ok s Q" "queues_ok (incrFence n s) Q = queues_ok s Q"
  "queues_ok (startFence n s) Q = queues_ok s Q"
  by (rule queues_ok_cong; simp add: decrFence_def incrFence_def startFence_def Let_def)+

lemma queues_step:
  assumes inv: "queues_ok s Q" and ch: "same_outside U (lks s) (lks s')"
    and out: "\<And>r. r \<notin> T \<Longrightarrow> Q' r = Q r \<and> qhead s' r = qhead s r \<and> set (Q r) \<inter> U = {}"
    and inn: "\<And>r. r \<in> T \<Longrightarrow> dlist (lks s') (qhead s' r) (Q' r) \<and> set (Q' r) \<subseteq> U"
    and dj: "\<And>r q. r \<in> T \<Longrightarrow> q \<in> T \<Longrightarrow> r \<noteq> q \<Longrightarrow> set (Q' r) \<inter> set (Q' q) = {}"
    and U: "U \<subseteq> {..<2048}"
    and cnt: "\<And>c. waiters (conds s' c) = of_nat (length (Q' (Cond c)))"
      "\<And>b. be_threads (barriers s' b) = of_nat (length (Q' (Barr b)))"
  shows "queues_ok s' Q'"
proof -
  have "dlist (lks s') (qhead s' r) (Q' r)" for r
  proof (cases "r \<in> T")
    case False
    then have "Q' r = Q r" "qhead s' r = qhead s r" "set (Q r) \<inter> U = {}" using out by auto
    then show ?thesis using dlist_frame [OF queues_okD(1) [OF inv] ch] by simp
  qed (simp add: inn)
  moreover have "set (Q' r) \<inter> set (Q' q) = {}" if n: "r \<noteq> q" for r q
  proof (cases "r \<in> T"; cases "q \<in> T")
    assume "r \<in> T" "q \<in> T" then show ?thesis by (rule dj [OF _ _ n])
  next
    assume "r \<in> T" "q \<notin> T"
    then have "set (Q' r) \<subseteq> U" "set (Q' q) \<inter> U = {}" using inn [of r] out [of q] by simp_all
    then show ?thesis by blast
  next
    assume "r \<notin> T" "q \<in> T"
    then have "set (Q' q) \<subseteq> U" "set (Q' r) \<inter> U = {}" using inn [of q] out [of r] by simp_all
    then show ?thesis by blast
  next
    assume "r \<notin> T" "q \<notin> T"
    then show ?thesis using out [of r] out [of q] queues_okD(2) [OF inv n] by simp
  qed
  moreover have "set (Q' r) \<subseteq> {..<2048}" for r
  proof (cases "r \<in> T")
    case True then show ?thesis using inn [of r] U by blast
  next
    case False then show ?thesis using out [of r] queues_okD(3) [OF inv, of r] by simp
  qed
  ultimately show ?thesis using cnt unfolding queues_ok_def by blast
qed

text \<open>Two queues written, every other one untouched.\<close>

lemma queues_two:
  assumes inv: "queues_ok s Q" and ch: "same_outside (set (Q a) \<union> set (Q b)) (lks s) (lks s')"
    and ab: "a \<noteq> b"
    and out: "\<And>r. r \<noteq> a \<Longrightarrow> r \<noteq> b \<Longrightarrow> qhead s' r = qhead s r"
    and da: "dlist (lks s') (qhead s' a) xs" and db: "dlist (lks s') (qhead s' b) ys"
    and set': "set xs \<union> set ys = set (Q a) \<union> set (Q b)" and dj: "set xs \<inter> set ys = {}"
    and cnt: "\<And>c. waiters (conds s' c) = of_nat (length ((Q(a := xs, b := ys)) (Cond c)))"
      "\<And>d. be_threads (barriers s' d) = of_nat (length ((Q(a := xs, b := ys)) (Barr d)))"
  shows "queues_ok s' (Q(a := xs, b := ys))"
proof (rule queues_step [OF inv ch, where T = "{a, b}"])
  show "(Q(a := xs, b := ys)) r = Q r \<and> qhead s' r = qhead s r \<and> set (Q r) \<inter> (set (Q a) \<union> set (Q b)) = {}"
    if "r \<notin> {a, b}" for r
    using that out [of r] queues_okD(2) [OF inv, of r a] queues_okD(2) [OF inv, of r b] by auto
  show "set (Q a) \<union> set (Q b) \<subseteq> {..<2048}"
    using queues_okD(3) [OF inv, of a] queues_okD(3) [OF inv, of b] by auto
qed (use ab da db dj set' cnt in auto)

lemma remove1_split: "distinct (us @ i # vs) \<Longrightarrow> remove1 i (us @ i # vs) = us @ vs"
  by (simp add: remove1_append)

lemma decrFence_fields [simp]:
  "lks (decrFence s) = lks s" "activelist (decrFence s) = activelist s"
  "conds (decrFence s) = conds s" "barriers (decrFence s) = barriers s"
  "entries (decrFence s) = entries s" "tokenpos (decrFence s) = tokenpos s"
  "maxthreads (decrFence s) = maxthreads s - 1" "alivethreads (decrFence s) = alivethreads s"
  "currthreads (decrFence s) = currthreads s" "memory (decrFence s) = memory s"
  "locks (decrFence s) = locks s" "iheap (decrFence s) = iheap s"
  by (simp_all add: decrFence_def Let_def)

lemma incrFence_fields [simp]:
  "lks (incrFence n s) = lks s" "activelist (incrFence n s) = activelist s"
  "conds (incrFence n s) = conds s" "barriers (incrFence n s) = barriers s"
  "entries (incrFence n s) = entries s" "tokenpos (incrFence n s) = tokenpos s"
  "maxthreads (incrFence n s) = maxthreads s + n" "alivethreads (incrFence n s) = alivethreads s"
  "currthreads (incrFence n s) = currthreads s" "memory (incrFence n s) = memory s"
  "is_arrival_phase (incrFence n s) = is_arrival_phase s"
  "locks (incrFence n s) = locks s" "iheap (incrFence n s) = iheap s"
  by (simp_all add: incrFence_def)

subsection \<open>Waiting on a condition variable\<close>

lemma cond_wait_queue_spec:
  assumes inv: "queues_ok s Q" and i: "i \<in> set (Q Act)"
  shows "\<exists>s'. cond_wait_queue i c s = Inr s' \<and>
    queues_ok s' (Q(Act := remove1 i (Q Act), Cond c := Q (Cond c) @ [i])) \<and>
    tokenpos s' = Some (succ_in (Q Act) i) \<and>
    entries s' = (entries s)(i := (entries s i)\<lparr>te_cond := c, status := STATUS_COND_WAITING\<rparr>) \<and>
    maxthreads s' = maxthreads s - 1 \<and> memory s' = memory s \<and> locks s' = locks s \<and> iheap s' = iheap s"
proof -
  obtain us vs where u: "Q Act = us @ i # vs" using i by (meson split_list)
  note d = queues_okD(4) [OF inv, of Act]
  have dj: "set (us @ i # vs) \<inter> set (Q (Cond c)) = {}"
    using queues_okD(2) [OF inv, of Act "Cond c"] u by simp
  obtain h1 a h2 hd' where r: "removeEntry (lks s) i (activelist s) = Inr (h1, a)"
    "insertTail h1 i (ce_head (conds s c)) = Inr (h2, hd')" "dlist h2 a (us @ vs)"
    "dlist h2 hd' (Q (Cond c) @ [i])" "same_outside (set (us @ i # vs) \<union> set (Q (Cond c))) (lks s) h2"
    using rl.requeue [OF queues_okD'(1) [OF inv, unfolded u] queues_okD'(2) [OF inv, of c] dj] by blast
  let ?s = "(upd_cond c (\<lambda>e. e\<lparr>ce_head := hd', waiters := waiters e + 1\<rparr>) (s\<lparr>lks := h2, activelist := a\<rparr>))"
  have "queues_ok ?s (Q(Act := us @ vs, Cond c := Q (Cond c) @ [i]))"
  proof (rule queues_two [OF inv])
    show "same_outside (set (Q Act) \<union> set (Q (Cond c))) (lks s) (lks ?s)" using r(5) u by simp
    show "qhead ?s r = qhead s r" if "r \<noteq> Act" "r \<noteq> Cond c" for r using that by (cases r) auto
    show "set (us @ vs) \<inter> set (Q (Cond c) @ [i]) = {}" using dj d u by auto
  qed (use u r queues_okD(6,7) [OF inv] in auto)
  then show ?thesis
    using r(1,2) u nxt_succ_in [OF queues_okD'(1) [OF inv] i] d
    by (simp add: cond_wait_queue_def Let_def remove1_split)
qed

subsection \<open>One queue written\<close>

lemma queues_one:
  assumes inv: "queues_ok s Q" and ch: "same_outside (set xs \<union> set (Q a)) (lks s) (lks s')"
    and out: "\<And>r. r \<noteq> a \<Longrightarrow> qhead s' r = qhead s r"
    and da: "dlist (lks s') (qhead s' a) xs"
    and new: "\<And>r. r \<noteq> a \<Longrightarrow> set xs \<inter> set (Q r) = {}" "set xs \<subseteq> {..<2048}"
    and cnt: "\<And>c. waiters (conds s' c) = of_nat (length ((Q(a := xs)) (Cond c)))"
      "\<And>d. be_threads (barriers s' d) = of_nat (length ((Q(a := xs)) (Barr d)))"
  shows "queues_ok s' (Q(a := xs))"
proof (rule queues_step [OF inv ch, where T = "{a}"])
  show "(Q(a := xs)) r = Q r \<and> qhead s' r = qhead s r \<and> set (Q r) \<inter> (set xs \<union> set (Q a)) = {}"
    if "r \<notin> {a}" for r
    using that out [of r] new(1) [of r] queues_okD(2) [OF inv, of r a] by auto
  show "set xs \<union> set (Q a) \<subseteq> {..<2048}"
    using new(2) queues_okD(3) [OF inv, of a] by auto
qed (use da cnt in auto)

text \<open>Leaving the token ring, as \<open>join\<close>, \<open>sig_wait\<close> and an exiting thread do.\<close>

lemma leave_ring:
  assumes inv: "queues_ok s Q" and i: "i \<in> set (Q Act)"
  shows "\<exists>h a. removeEntry (lks s) i (activelist s) = Inr (h, a) \<and>
    queues_ok (s\<lparr>lks := h, activelist := a\<rparr>) (Q(Act := remove1 i (Q Act))) \<and>
    nxt (h i) = Some (succ_in (Q Act) i) \<and> (a = None \<longleftrightarrow> remove1 i (Q Act) = [])"
proof -
  obtain us vs where u: "Q Act = us @ i # vs" using i by (meson split_list)
  note d = queues_okD(4) [OF inv, of Act]
  have r1: "remove1 i (Q Act) = us @ vs" using d unfolding u by (rule remove1_split)
  obtain h a where r: "removeEntry (lks s) i (activelist s) = Inr (h, a)" "dlist h a (us @ vs)"
    "same_outside (set (us @ vs)) (lks s) h" "h i = lks s i"
    using removeEntry_spec [OF queues_okD'(1) [OF inv, unfolded u]] by blast
  have "queues_ok (s\<lparr>lks := h, activelist := a\<rparr>) (Q(Act := us @ vs))"
  proof (rule queues_one [OF inv])
    show "same_outside (set (us @ vs) \<union> set (Q Act)) (lks s) (lks (s\<lparr>lks := h, activelist := a\<rparr>))"
      using r(3) by (auto intro: same_outside_mono)
    show "qhead (s\<lparr>lks := h, activelist := a\<rparr>) r = qhead s r" if "r \<noteq> Act" for r
      using that by (cases r) auto
    show "set (us @ vs) \<inter> set (Q r) = {}" if "r \<noteq> Act" for r
      using queues_okD(2) [OF inv, of Act r] that u by auto
    show "set (us @ vs) \<subseteq> {..<2048}" using queues_okD(3) [OF inv, of Act] u by auto
  qed (use r queues_okD(6,7) [OF inv] in auto)
  moreover have "a = None \<longleftrightarrow> us @ vs = []" using r(2) by (auto simp: dlist_def split: option.splits)
  ultimately show ?thesis
    using r(1,4) r1 nxt_succ_in [OF queues_okD'(1) [OF inv] i] by simp
qed

text \<open>Entering the token ring behind \<open>t\<close>.\<close>

lemma enter_ring:
  assumes inv: "queues_ok s Q" and t: "t \<in> set (Q Act)" and i: "\<And>q. i \<notin> set (Q q)" "i < 2048"
  shows "\<exists>h. insertHead (lks s) i (Some t) = Inr h \<and>
    queues_ok (s\<lparr>lks := h\<rparr>) (Q(Act := insert_behind t [i] (Q Act)))"
proof -
  obtain us vs where u: "Q Act = us @ t # vs" "t \<notin> set us" using t by (meson split_list_first)
  have ib: "insert_behind t [i] (Q Act) = us @ t # i # vs" using u by (simp add: insert_behind_split)
  have ni: "i \<notin> set (us @ t # vs)" using i(1) [of Act] unfolding u(1) .
  obtain h where r: "insertHead (lks s) i (Some t) = Inr h" "dlist h (activelist s) (us @ t # i # vs)"
    "same_outside (insert i (set (us @ t # vs))) (lks s) h"
    using insertHead_spec [OF queues_okD'(1) [OF inv, unfolded u(1)] ni] by blast
  have "queues_ok (s\<lparr>lks := h\<rparr>) (Q(Act := us @ t # i # vs))"
  proof (rule queues_one [OF inv])
    show "same_outside (set (us @ t # i # vs) \<union> set (Q Act)) (lks s) (lks (s\<lparr>lks := h\<rparr>))"
      using r(3) by (auto intro: same_outside_mono)
    show "qhead (s\<lparr>lks := h\<rparr>) r = qhead s r" if "r \<noteq> Act" for r by (cases r) auto
    show "set (us @ t # i # vs) \<inter> set (Q r) = {}" if "r \<noteq> Act" for r
      using queues_okD(2) [OF inv, of Act r] that u i(1) [of r] by auto
    show "set (us @ t # i # vs) \<subseteq> {..<2048}" using queues_okD(3) [OF inv, of Act] u i(2) by auto
  qed (use r queues_okD(6,7) [OF inv] in auto)
  then show ?thesis using r(1) ib by simp
qed

subsection \<open>The other operations\<close>

lemma putToken_spec:
  assumes "queues_ok s Q" "tokenpos s = Some t" "t \<in> set (Q Act)"
  shows "putToken i s = Inr (s\<lparr>tokenpos := Some (succ_in (Q Act) t)\<rparr>)"
  using nxt_succ_in [OF queues_okD'(1) [OF assms(1)] assms(3)] assms(2)
  by (simp add: putToken_def deref_def)

lemma registerThread_spec:
  assumes inv: "queues_ok s Q" and i: "\<And>q. i \<notin> set (Q q)" "i < 2048"
  shows "\<exists>s'. registerThread i pid par s = Inr s' \<and> queues_ok s' (Q(Act := Q Act @ [i])) \<and>
    tokenpos s' = (case tokenpos s of None \<Rightarrow> Some i | Some t \<Rightarrow> Some t) \<and>
    entries s' = (entries s)(i := (entries s i)\<lparr>tid := pid, threadindex := i, te_wait := 0,
      tid_parent := par, status := STATUS_READY\<rparr>)"
proof -
  obtain h where r: "insertTail (lks s) i (activelist s) = Inr (h, Some (hd (Q Act @ [i])))"
    "dlist h (Some (hd (Q Act @ [i]))) (Q Act @ [i])" "same_outside (insert i (set (Q Act))) (lks s) h"
    using insertTail_spec [OF queues_okD'(1) [OF inv] i(1)] by blast
  let ?s = "s\<lparr>lks := h, activelist := Some (hd (Q Act @ [i]))\<rparr>"
  have "queues_ok ?s (Q(Act := Q Act @ [i]))"
  proof (rule queues_one [OF inv])
    show "same_outside (set (Q Act @ [i]) \<union> set (Q Act)) (lks s) (lks ?s)"
      using r(3) by (auto intro: same_outside_mono)
    show "qhead ?s r = qhead s r" if "r \<noteq> Act" for r using that by (cases r) auto
    show "set (Q Act @ [i]) \<inter> set (Q r) = {}" if "r \<noteq> Act" for r
      using queues_okD(2) [OF inv, of Act r] that i(1) [of r] by auto
    show "set (Q Act @ [i]) \<subseteq> {..<2048}" using queues_okD(3) [OF inv, of Act] i(2) by auto
  qed (use r queues_okD(6,7) [OF inv] in auto)
  then show ?thesis
    using r(1) by (auto simp: registerThread_def Let_def split: option.splits
        intro!: queues_ok_cong [THEN iffD2, OF _ _ _ _ \<open>queues_ok ?s _\<close>])
qed

lemma sig_wait_enter_spec:
  assumes inv: "queues_ok s Q" and i: "i \<in> set (Q Act)"
  shows "\<exists>s'. sig_wait_enter i s = Inr s' \<and> queues_ok s' (Q(Act := remove1 i (Q Act))) \<and>
    tokenpos s' = Some (succ_in (Q Act) i) \<and> maxthreads s' = maxthreads s - 1 \<and> entries s' = entries s"
proof -
  obtain h a where "removeEntry (lks s) i (activelist s) = Inr (h, a)"
    "queues_ok (s\<lparr>lks := h, activelist := a\<rparr>) (Q(Act := remove1 i (Q Act)))"
    using leave_ring [OF inv i] by blast
  then show ?thesis
    using nxt_succ_in [OF queues_okD'(1) [OF inv] i] by (simp add: sig_wait_enter_def Let_def)
qed

lemma sig_wait_wake_spec:
  assumes inv: "queues_ok s Q" and t: "tokenpos s = Some t" "t \<in> set (Q Act)"
    and i: "\<And>q. i \<notin> set (Q q)" "i < 2048"
  shows "\<exists>s'. sig_wait_wake 0 i s = Inr (0, s') \<and> queues_ok s' (Q(Act := insert_behind t [i] (Q Act))) \<and>
    tokenpos s' = Some t \<and> maxthreads s' = maxthreads s + 1 \<and> entries s' = entries s"
  using enter_ring [OF inv t(2) i] t(1) by (auto simp: sig_wait_wake_def)

lemma join_sleep_stays:
  "tokenpos s = Some t \<Longrightarrow> threadindex (entries s t) \<noteq> my \<Longrightarrow> join_sleep my s = Inr (decrFence s)"
  by (simp add: join_sleep_def Let_def deref_def)

lemma join_enter_spec:
  assumes inv: "queues_ok s Q" and my: "my \<in> set (Q Act)" "tokenpos s = Some my"
    "threadindex (entries s my) = my" and g: "status (entries s g) \<noteq> STATUS_EXIT"
  shows "\<exists>s'. join_enter g my s = Inr (True, s') \<and> queues_ok s' (Q(Act := remove1 my (Q Act))) \<and>
    tokenpos s' = (if remove1 my (Q Act) = [] then Some my else Some (succ_in (Q Act) my)) \<and>
    entries s' = (entries s)(my := (entries s my)\<lparr>status := STATUS_JOINING, joinee_thread_index := g\<rparr>) \<and>
    maxthreads s' = maxthreads s - 1"
proof -
  obtain h a where r: "removeEntry (lks s) my (activelist s) = Inr (h, a)"
    "queues_ok (s\<lparr>lks := h, activelist := a\<rparr>) (Q(Act := remove1 my (Q Act)))"
    "nxt (h my) = Some (succ_in (Q Act) my)" "a = None \<longleftrightarrow> remove1 my (Q Act) = []"
    using leave_ring [OF inv my(1)] by blast
  let ?s = "upd_entry my (\<lambda>e. e\<lparr>status := STATUS_JOINING, joinee_thread_index := g\<rparr>)
    (s\<lparr>lks := h, activelist := a\<rparr>)"
  have q: "queues_ok ?s (Q(Act := remove1 my (Q Act)))" using r(2) by simp
  then have q': "queues_ok (s\<lparr>entries := (entries s)(my := (entries s my)
      \<lparr>status := STATUS_JOINING, joinee_thread_index := g\<rparr>), lks := h, activelist := a\<rparr>)
      (Q(Act := remove1 my (Q Act)))"
    by (rule queues_ok_cong [THEN iffD2, rotated -1]) simp_all
  show ?thesis
    using r g my q q' by (auto simp: join_enter_def join_sleep_def Let_def deref_def)
qed

text \<open>
  A thread that exits: a parent joining it takes its place in the ring and the token, otherwise the
  token passes on.
\<close>

lemma deregister_join_eff:
  fixes s :: "'m det"
  assumes inv: "queues_ok s Q" and i: "i \<in> set (Q Act)" "tokenpos s = Some i"
    and p: "p = tid_parent (entries s i)" "status (entries s p) = STATUS_JOINING"
      "joinee_thread_index (entries s p) = i" "\<And>q. p \<notin> set (Q q)" "p < 2048"
  shows "\<exists>s'. deregisterThread i s = Inr s' \<and>
    queues_ok s' (Q(Act := map (\<lambda>x. if x = i then p else x) (Q Act))) \<and>
    tokenpos s' = Some p \<and> alivethreads s' = (if 0 < alivethreads s then alivethreads s - 1 else alivethreads s) \<and> maxthreads s' = (if 0 < alivethreads s then maxthreads s - 1 else maxthreads s) \<and>
    entries s' = (entries s)(i := (entries s i)\<lparr>status := STATUS_EXIT\<rparr>)"
proof -
  obtain us vs where u: "Q Act = us @ i # vs" "i \<notin> set us" using i by (meson split_list_first)
  have dist: "distinct (us @ i # vs)" using queues_okD(4) [OF inv, of Act] u by simp
  have pne: "p \<noteq> i" using p(4) [of Act] i(1) by auto
  have npQ: "p \<notin> set (us @ i # vs)" using p(4) [of Act] u by simp
  have ib: "insert_behind i [p] (Q Act) = us @ i # p # vs" using u by (simp add: insert_behind_split)
  have "map (\<lambda>x. if x = i then p else x) us = us" "map (\<lambda>x. if x = i then p else x) vs = vs"
    using dist by (auto intro!: map_idI)
  then have mp: "map (\<lambda>x. if x = i then p else x) (Q Act) = us @ p # vs" by (simp add: u(1))
  obtain h where h: "insertHead (lks s) p (Some i) = Inr h"
    "queues_ok (s\<lparr>lks := h\<rparr>) (Q(Act := us @ i # p # vs))"
    using enter_ring [OF inv i(1) p(4,5)] ib by auto
  let ?Q = "Q(Act := us @ i # p # vs)"
  have im: "i \<in> set (?Q Act)" by simp
  obtain h' a where r: "removeEntry h i (activelist s) = Inr (h', a)"
    "queues_ok ((s\<lparr>lks := h\<rparr>)\<lparr>lks := h', activelist := a\<rparr>) (?Q(Act := remove1 i (?Q Act)))"
    using leave_ring [OF h(2) im] by (auto simp del: fun_upd_apply fun_upd_upd)
  have r1: "remove1 i (?Q Act) = us @ p # vs" using dist by (simp add: remove1_append)
  have "succ_in (?Q Act) i = p" using u(2) by (simp add: succ_in_split)
  then have nx: "nxt (h i) = Some p" using nxt_succ_in [OF queues_okD'(1) [OF h(2)] im] by simp
  have q: "queues_ok (s\<lparr>lks := h', activelist := a\<rparr>) (Q(Act := us @ p # vs))" using r(2) r1 by simp
  have "queues_ok (s'\<lparr>lks := h', activelist := a\<rparr>) (Q(Act := us @ p # vs))"
    if "conds s' = conds s" "barriers s' = barriers s" for s' :: "'m det"
    by (rule queues_ok_cong [THEN iffD2, OF _ _ _ _ q]) (simp_all add: that)
  then show ?thesis
    using h r(1) nx p(1-3) i(2) pne mp
    by (simp add: deregisterThread_def Let_def freeThreadEntry_def word_gt_0)
qed

lemma deregister_join_spec:
  fixes s :: "'m det"
  assumes inv: "queues_ok s Q" and i: "i \<in> set (Q Act)" "tokenpos s = Some i"
    and p: "p = tid_parent (entries s i)" "status (entries s p) = STATUS_JOINING"
      "joinee_thread_index (entries s p) = i" "\<And>q. p \<notin> set (Q q)" "p < 2048"
    and alive: "0 < alivethreads s"
  shows "\<exists>s'. deregisterThread i s = Inr s' \<and>
    queues_ok s' (Q(Act := map (\<lambda>x. if x = i then p else x) (Q Act))) \<and>
    tokenpos s' = Some p \<and> alivethreads s' = alivethreads s - 1 \<and> maxthreads s' = maxthreads s - 1 \<and>
    entries s' = (entries s)(i := (entries s i)\<lparr>status := STATUS_EXIT\<rparr>)"
  using deregister_join_eff [OF inv i p] alive by simp

lemma deregister_eff:
  fixes s :: "'m det"
  assumes inv: "queues_ok s Q" and i: "i \<in> set (Q Act)"
    and p: "\<not> (status (entries s (tid_parent (entries s i))) = STATUS_JOINING \<and>
      joinee_thread_index (entries s (tid_parent (entries s i))) = i)"
  shows "\<exists>s'. deregisterThread i s = Inr s' \<and> queues_ok s' (Q(Act := remove1 i (Q Act))) \<and>
    tokenpos s' = Some (succ_in (Q Act) i) \<and> alivethreads s' = (if 0 < alivethreads s then alivethreads s - 1 else alivethreads s) \<and>
    maxthreads s' = (if 0 < alivethreads s then maxthreads s - 1 else maxthreads s) \<and>
    entries s' = (entries s)(i := (entries s i)\<lparr>status := STATUS_EXIT\<rparr>)"
proof -
  obtain h a where r: "removeEntry (lks s) i (activelist s) = Inr (h, a)"
    "queues_ok (s\<lparr>lks := h, activelist := a\<rparr>) (Q(Act := remove1 i (Q Act)))"
    using leave_ring [OF inv i] by blast
  have q: "queues_ok (s'\<lparr>lks := h, activelist := a\<rparr>) (Q(Act := remove1 i (Q Act)))"
    if "conds s' = conds s" "barriers s' = barriers s" for s' :: "'m det"
    by (rule queues_ok_cong [THEN iffD2, OF _ _ _ _ r(2)]) (simp_all add: that)
  show ?thesis
    using r(1) p nxt_succ_in [OF queues_okD'(1) [OF inv] i] q
    by (auto simp: deregisterThread_def Let_def freeThreadEntry_def word_gt_0)
qed

lemma deregister_spec:
  fixes s :: "'m det"
  assumes inv: "queues_ok s Q" and i: "i \<in> set (Q Act)"
    and p: "\<not> (status (entries s (tid_parent (entries s i))) = STATUS_JOINING \<and>
      joinee_thread_index (entries s (tid_parent (entries s i))) = i)"
    and alive: "0 < alivethreads s"
  shows "\<exists>s'. deregisterThread i s = Inr s' \<and> queues_ok s' (Q(Act := remove1 i (Q Act))) \<and>
    tokenpos s' = Some (succ_in (Q Act) i) \<and> alivethreads s' = alivethreads s - 1 \<and>
    maxthreads s' = maxthreads s - 1 \<and>
    entries s' = (entries s)(i := (entries s i)\<lparr>status := STATUS_EXIT\<rparr>)"
  using deregister_eff [OF inv i p] alive by simp

subsection \<open>Signalling\<close>

lemma of_nat_length_0: "queues_ok s Q \<Longrightarrow> (waiters (conds s c) = 0) = (Q (Cond c) = [])"
proof -
  assume inv: "queues_ok s Q"
  have "length (Q (Cond c)) < 2 ^ 64" using queues_okD(5) [OF inv, of "Cond c"] by simp
  then have "(of_nat (length (Q (Cond c))) :: u64) = 0 \<longleftrightarrow> length (Q (Cond c)) = 0"
    by (simp add: word_of_nat_eq_0_iff dvd_eq_mod_eq_0)
  then show ?thesis using queues_okD(6) [OF inv, of c] by simp
qed

lemma unat_waiters: "queues_ok s Q \<Longrightarrow> unat (waiters (conds s c)) = length (Q (Cond c))"
proof -
  assume inv: "queues_ok s Q"
  have "length (Q (Cond c)) < 2 ^ 64" using queues_okD(5) [OF inv, of "Cond c"] by simp
  then show ?thesis
    using queues_okD(6) [OF inv, of c] by (simp add: unsigned_of_nat take_bit_nat_eq_self)
qed

lemma cond_signal_spec:
  fixes s :: "'m det"
  assumes look: "cond_lookup M pid cond s = Inr (c, s1)" and inv: "queues_ok s1 Q"
    and t: "tokenpos s1 = Some t" "t \<in> set (Q Act)" and q: "Q (Cond c) = e # es"
  shows "\<exists>s'. cond_signal M pid cond s = Inr s' \<and>
    queues_ok s' (Q(Act := insert_behind t [e] (Q Act), Cond c := es)) \<and>
    tokenpos s' = Some t \<and> maxthreads s' = maxthreads s1 + 1 \<and>
    entries s' = (entries s1)(e := (entries s1 e)\<lparr>te_cond := 0, status := STATUS_READY\<rparr>)"
proof -
  obtain us vs where u: "Q Act = us @ t # vs" "t \<notin> set us" using t(2) by (meson split_list_first)
  have ib: "insert_behind t [e] (Q Act) = us @ t # e # vs" using u by (simp add: insert_behind_split)
  note d = queues_okD(4) [OF inv, of Act] queues_okD(4) [OF inv, of "Cond c"]
  have dj: "set (us @ t # vs) \<inter> set (e # es) = {}"
    using queues_okD(2) [OF inv, of Act "Cond c"] u q by simp
  obtain h1 hd' h2 where r: "removeHeadEntry (lks s1) (ce_head (conds s1 c)) = Inr (h1, hd', Some e)"
    "insertHead h1 e (Some t) = Inr h2" "dlist h2 hd' es" "dlist h2 (activelist s1) (us @ t # e # vs)"
    "same_outside (set (us @ t # vs) \<union> set (e # es)) (lks s1) h2"
    using rl.wake_behind [OF queues_okD'(2) [OF inv, of c, unfolded q]
        queues_okD'(1) [OF inv, unfolded u] dj] by blast
  let ?s = "upd_cond c (\<lambda>x. x\<lparr>ce_head := hd', waiters := waiters x - 1\<rparr>) (s1\<lparr>lks := h2\<rparr>)"
  have ok: "queues_ok ?s (Q(Act := us @ t # e # vs, Cond c := es))"
  proof (rule queues_two [OF inv])
    show "same_outside (set (Q Act) \<union> set (Q (Cond c))) (lks s1) (lks ?s)" using r(5) u q by simp
    show "qhead ?s r = qhead s1 r" if "r \<noteq> Act" "r \<noteq> Cond c" for r using that by (cases r) auto
    show "set (us @ t # e # vs) \<inter> set es = {}" using dj d q by auto
    show "waiters (conds ?s a) = of_nat (length ((Q(Act := us @ t # e # vs, Cond c := es)) (Cond a)))" for a
      using queues_okD(6) [OF inv, of a] q by auto
  qed (use u q r queues_okD(6,7) [OF inv] in auto)
  have "queues_ok s' (Q(Act := us @ t # e # vs, Cond c := es))"
    if "lks s' = h2" "activelist s' = activelist s1" "\<And>a. conds s' a = conds ?s a"
      "barriers s' = barriers s1"
    for s' :: "'m det"
    by (rule queues_ok_cong [THEN iffD2, OF _ _ _ _ ok]) (simp_all add: that fun_eq_iff)
  then show ?thesis
    using look r(1,2) t(1) ib of_nat_length_0 [OF inv, of c] q
    by (simp add: cond_signal_def Let_def deref_def fun_upd_def cong: if_cong)
qed

lemma cond_signal_idle:
  assumes "cond_lookup M pid cond s = Inr (c, s1)" "queues_ok s1 Q" "Q (Cond c) = []"
  shows "cond_signal M pid cond s = Inr s1"
  using assms of_nat_length_0 [OF assms(2), of c] by (simp add: cond_signal_def)

definition mark_ready :: "nat set \<Rightarrow> (nat \<Rightarrow> thread_entry) \<Rightarrow> nat \<Rightarrow> thread_entry" where
  "mark_ready W es j = (if j \<in> W then (es j)\<lparr>te_cond := 0, status := STATUS_READY\<rparr> else es j)"

lemma mark_ready_upd:
  "mark_ready W (es(y := (es y)\<lparr>te_cond := 0, status := STATUS_READY\<rparr>)) = mark_ready (insert y W) es"
  by (auto simp: mark_ready_def fun_eq_iff)

lemma mark_ready_empty [simp]: "mark_ready {} es = es"
  by (simp add: mark_ready_def fun_eq_iff)

lemma set_ready_spec:
  "ys \<noteq> [] \<Longrightarrow> linked (lks s) ys \<Longrightarrow>
    set_ready (length ys) (Some (hd ys)) s = Inr (s\<lparr>entries := mark_ready (set ys) (entries s)\<rparr>)"
proof (induction ys arbitrary: s)
  case (Cons y ys)
  let ?s = "upd_entry y (\<lambda>t. t\<lparr>te_cond := 0, status := STATUS_READY\<rparr>) s"
  show ?case
  proof (cases ys)
    case Nil
    then show ?thesis using mark_ready_upd [of "{}" "entries s" y] by (simp add: deref_def)
  next
    case (Cons z zs)
    then have "nxt (lks s y) = Some z" "linked (lks ?s) ys" using Cons.prems by simp_all
    then show ?thesis
      using Cons.IH [of ?s] Cons mark_ready_upd [of "set ys" "entries s" y]
      by (simp add: deref_def del: fun_upd_apply)
  qed
qed simp

lemma cond_broadcast_spec:
  fixes s :: "'m det"
  assumes look: "cond_lookup M pid cond s = Inr (c, s1)" and inv: "queues_ok s1 Q"
    and t: "tokenpos s1 = Some t" "t \<in> set (Q Act)" and q: "Q (Cond c) \<noteq> []"
  shows "\<exists>s'. cond_broadcast M pid cond s = Inr s' \<and>
    queues_ok s' (Q(Act := insert_behind t (Q (Cond c)) (Q Act), Cond c := [])) \<and>
    tokenpos s' = Some t \<and> maxthreads s' = maxthreads s1 + of_nat (length (Q (Cond c))) \<and>
    entries s' = mark_ready (set (Q (Cond c))) (entries s1)"
proof -
  let ?zs = "Q (Cond c)"
  let ?es = "mark_ready (set ?zs) (entries s1)"
  obtain us vs where u: "Q Act = us @ t # vs" "t \<notin> set us" using t(2) by (meson split_list_first)
  have ib: "insert_behind t ?zs (Q Act) = us @ t # ?zs @ vs" using u by (simp add: insert_behind_split)
  note d = queues_okD(4) [OF inv, of Act] queues_okD(4) [OF inv, of "Cond c"]
  have dj: "set (us @ t # vs) \<inter> set ?zs = {}"
    using queues_okD(2) [OF inv, of Act "Cond c"] u by simp
  have hd: "ce_head (conds s1 c) = Some (hd ?zs)" "ring (lks s1) ?zs"
    using dlist_ring [OF queues_okD'(2) [OF inv, of c] q] by auto
  have sr: "set_ready (unat (waiters (conds s1 c))) (ce_head (conds s1 c)) s1 = Inr (s1\<lparr>entries := ?es\<rparr>)"
    using set_ready_spec [OF q, of s1] ring_ends [OF hd(2)] by (simp add: unat_waiters [OF inv] hd(1))
  obtain h where r: "moveWholeList (lks s1) (Some t) (ce_head (conds s1 c)) = Inr (h, None)"
    "dlist h (activelist s1) (us @ t # ?zs @ vs)"
    "same_outside (set (us @ t # vs) \<union> set ?zs) (lks s1) h"
    using moveWholeList_spec [OF queues_okD'(1) [OF inv, unfolded u] queues_okD'(2) [OF inv, of c] dj]
    by blast
  let ?s = "upd_cond c (\<lambda>x. x\<lparr>ce_head := None, waiters := 0\<rparr>) (s1\<lparr>lks := h\<rparr>)"
  have ok: "queues_ok ?s (Q(Act := us @ t # ?zs @ vs, Cond c := []))"
  proof (rule queues_two [OF inv])
    show "same_outside (set (Q Act) \<union> set (Q (Cond c))) (lks s1) (lks ?s)" using r(3) u by simp
    show "qhead ?s r = qhead s1 r" if "r \<noteq> Act" "r \<noteq> Cond c" for r using that by (cases r) auto
  qed (use u r queues_okD(6,7) [OF inv] in auto)
  have "queues_ok s' (Q(Act := us @ t # ?zs @ vs, Cond c := []))"
    if "lks s' = h" "activelist s' = activelist s1" "\<And>a. conds s' a = conds ?s a"
      "barriers s' = barriers s1"
    for s' :: "'m det"
    by (rule queues_ok_cong [THEN iffD2, OF _ _ _ _ ok]) (simp_all add: that fun_eq_iff)
  then show ?thesis
    using look r(1) t(1) ib of_nat_length_0 [OF inv, of c] q sr queues_okD(6) [OF inv, of c]
    by (simp add: cond_broadcast_def Let_def cong: if_cong)
qed

subsection \<open>Barriers\<close>

lemma unat_threads: "queues_ok s Q \<Longrightarrow> unat (be_threads (barriers s b)) = length (Q (Barr b))"
proof -
  assume inv: "queues_ok s Q"
  have "length (Q (Barr b)) < 2 ^ 64" using queues_okD(5) [OF inv, of "Barr b"] by simp
  then show ?thesis
    using queues_okD(7) [OF inv, of b] by (simp add: unsigned_of_nat take_bit_nat_eq_self)
qed

lemma barrier_block_spec:
  fixes s :: "'m det"
  assumes b: "b \<noteq> 0" and inv: "queues_ok s Q" and i: "i \<in> set (Q Act)"
    and more: "be_threads (barriers s b) + 1 \<noteq> be_maxthreads (barriers s b)"
  shows "\<exists>s'. barrier_wait_section b i s = Inr (False, s') \<and>
    queues_ok s' (Q(Act := remove1 i (Q Act), Barr b := Q (Barr b) @ [i])) \<and>
    tokenpos s' = Some (succ_in (Q Act) i) \<and> maxthreads s' = maxthreads s - 1 \<and>
    entries s' = (entries s)(i := (entries s i)\<lparr>status := STATUS_BARR_WAITING, te_barrier := b\<rparr>) \<and>
    memory s' = memory s \<and> iheap s' = iheap s"
proof -
  obtain us vs where u: "Q Act = us @ i # vs" using i by (meson split_list)
  note d = queues_okD(4) [OF inv, of Act]
  have r1: "remove1 i (Q Act) = us @ vs" using d unfolding u by (rule remove1_split)
  have dj: "set (us @ i # vs) \<inter> set (Q (Barr b)) = {}"
    using queues_okD(2) [OF inv, of Act "Barr b"] u by simp
  obtain h1 a h2 hd' where r: "removeEntry (lks s) i (activelist s) = Inr (h1, a)"
    "insertTail h1 i (be_head (barriers s b)) = Inr (h2, hd')" "dlist h2 a (us @ vs)"
    "dlist h2 hd' (Q (Barr b) @ [i])" "same_outside (set (us @ i # vs) \<union> set (Q (Barr b))) (lks s) h2"
    using rl.requeue [OF queues_okD'(1) [OF inv, unfolded u] queues_okD'(3) [OF inv, of b] dj] by blast
  let ?s = "(upd_barr b (\<lambda>e. e\<lparr>be_head := hd', be_threads := be_threads e + 1\<rparr>)
    (s\<lparr>lks := h2, activelist := a\<rparr>))"
  have ok: "queues_ok ?s (Q(Act := us @ vs, Barr b := Q (Barr b) @ [i]))"
  proof (rule queues_two [OF inv])
    show "same_outside (set (Q Act) \<union> set (Q (Barr b))) (lks s) (lks ?s)" using r(5) u by simp
    show "qhead ?s r = qhead s r" if "r \<noteq> Act" "r \<noteq> Barr b" for r using that by (cases r) auto
    show "set (us @ vs) \<inter> set (Q (Barr b) @ [i]) = {}" using dj d u by auto
  qed (use u r queues_okD(6,7) [OF inv] in auto)
  have "queues_ok s' (Q(Act := us @ vs, Barr b := Q (Barr b) @ [i]))"
    if "lks s' = h2" "activelist s' = a" "conds s' = conds s"
      "\<And>x. barriers s' x = barriers ?s x" for s' :: "'m det"
    by (rule queues_ok_cong [THEN iffD2, OF _ _ _ _ ok]) (simp_all add: that fun_eq_iff)
  then show ?thesis
    using b r(1,2) r1 more nxt_succ_in [OF queues_okD'(1) [OF inv] i]
    by (simp add: barrier_wait_section_def nonnull_def Let_def cong: if_cong)
qed

lemma barrier_last_spec:
  fixes s :: "'m det"
  assumes b: "b \<noteq> 0" and inv: "queues_ok s Q" and i: "i \<in> set (Q Act)" "tokenpos s = Some i"
    and last: "be_threads (barriers s b) + 1 = be_maxthreads (barriers s b)"
  shows "\<exists>s'. barrier_wait_section b i s = Inr (True, s') \<and>
    queues_ok s' (Q(Act := insert_behind i (Q (Barr b)) (Q Act), Barr b := [])) \<and>
    tokenpos s' = Some (succ_in (insert_behind i (Q (Barr b)) (Q Act)) i) \<and>
    maxthreads s' = maxthreads s + of_nat (length (Q (Barr b))) \<and>
    entries s' = entries s \<and> memory s' = memory s \<and> iheap s' = iheap s"
proof -
  let ?zs = "Q (Barr b)"
  obtain us vs where u: "Q Act = us @ i # vs" "i \<notin> set us" using i(1) by (meson split_list_first)
  have ib: "insert_behind i ?zs (Q Act) = us @ i # ?zs @ vs" using u by (simp add: insert_behind_split)
  note d = queues_okD(4) [OF inv, of Act] queues_okD(4) [OF inv, of "Barr b"]
  have dj: "set (us @ i # vs) \<inter> set ?zs = {}"
    using queues_okD(2) [OF inv, of Act "Barr b"] u by simp
  obtain h where r: "moveWholeList (lks s) (Some i) (be_head (barriers s b)) = Inr (h, None)"
    "dlist h (activelist s) (us @ i # ?zs @ vs)"
    "same_outside (set (us @ i # vs) \<union> set ?zs) (lks s) h"
    using moveWholeList_spec [OF queues_okD'(1) [OF inv, unfolded u] queues_okD'(3) [OF inv, of b] dj]
    by blast
  let ?s = "upd_barr b (\<lambda>x. x\<lparr>be_head := None, be_threads := 0\<rparr>) (s\<lparr>lks := h\<rparr>)"
  let ?Q = "Q(Act := us @ i # ?zs @ vs, Barr b := [])"
  have ok: "queues_ok ?s ?Q"
  proof (rule queues_two [OF inv])
    show "same_outside (set (Q Act) \<union> set (Q (Barr b))) (lks s) (lks ?s)" using r(3) u by simp
    show "qhead ?s r = qhead s r" if "r \<noteq> Act" "r \<noteq> Barr b" for r using that by (cases r) auto
  qed (use u r queues_okD(6,7) [OF inv] in auto)
  have ok': "queues_ok s' ?Q"
    if "lks s' = h" "activelist s' = activelist s" "conds s' = conds s"
      "\<And>x. barriers s' x = barriers ?s x" for s' :: "'m det"
    by (rule queues_ok_cong [THEN iffD2, OF _ _ _ _ ok]) (simp_all add: that fun_eq_iff)
  have "be_maxthreads (barriers s b) - 1 = of_nat (length ?zs)"
    using queues_okD(7) [OF inv, of b] by (simp add: last [symmetric])
  moreover have "nxt (h i) = Some (succ_in (us @ i # ?zs @ vs) i)"
    by (rule nxt_succ_in [OF r(2)]) simp
  ultimately show ?thesis
    using b r(1) ib last i(2) ok'
    by (simp add: barrier_wait_section_def nonnull_def Let_def cong: if_cong)
qed

text \<open>
  \<open>cancel\<close> takes the thread out of the queue of its condition variable but leaves the count of waiters.
\<close>

lemma cancel_spec:
  assumes inv: "queues_ok s Q" and i: "i \<in> set (Q (Cond c))" "status (entries s i) = STATUS_COND_WAITING"
    "te_cond (entries s i) = c" "c \<noteq> 0"
  shows "\<exists>s' hd'. determ_cancel i s = Inr (True, s') \<and> dlist (lks s') hd' (remove1 i (Q (Cond c))) \<and>
    conds s' = (conds s)(c := (conds s c)\<lparr>ce_head := hd'\<rparr>) \<and> memory s' = memory s \<and>
    tokenpos s' = tokenpos s \<and> status (entries s' i) = STATUS_EXIT \<and> alivethreads s' = alivethreads s - 1"
proof -
  obtain us vs where u: "Q (Cond c) = us @ i # vs" using i by (meson split_list)
  have r1: "remove1 i (Q (Cond c)) = us @ vs"
    using queues_okD(4) [OF inv, of "Cond c"] unfolding u by (rule remove1_split)
  obtain h a where r: "removeEntry (lks s) i (ce_head (conds s c)) = Inr (h, a)" "dlist h a (us @ vs)"
    using removeEntry_spec [OF queues_okD'(2) [OF inv, of c, unfolded u]] by blast
  then show ?thesis
    using i r1 by (auto simp: determ_cancel_def nonnull_def Let_def freeThreadEntry_def)
qed

end
