(* ===== verification/Determ_Sched.thy ===== *)
theory Determ_Sched
  imports Determ_Queues
begin

text \<open>
  The scheduler as a transition system. \<open>W\<close> says for every thread where it is in its own code: running,
  asleep in one of the blocking calls, or gone. A step is one call made by a running thread, or the
  wakeup of a sleeper. The caller need not hold the token, since \<^verbatim>\<open>xrun.h\<close> makes some calls without it
  (a wait by the owner of a lock, a second spawn with the fence on); only a join, the exit of a thread
  its parent joins and the last arrival at a barrier move the token from where the caller stands, and
  are steps of its holder. What the steps leave out, because there the code does break its queues: the
  only active thread going to sleep or exiting (\<open>leaves_company\<close>: \<open>nxt (lks s t) \<noteq> Some t\<close> says that another thread
  stays active), the cancellation of a thread that waits for a condition variable, and the destruction
  of an object that has waiters (\<open>idle_entry\<close>).
\<close>

datatype wait_at =
    Unborn | Running | InCond | InBarrier u64 | Joining nat | Rejoined | InSigwait | Stranded | Exited

type_synonym 'm sys = "'m det \<times> (nat \<Rightarrow> wait_at) \<times> (u64 \<rightharpoonup> u64)"

definition holder :: "'m det \<Rightarrow> (nat \<Rightarrow> wait_at) \<Rightarrow> nat \<Rightarrow> bool" where
  "holder s W t \<longleftrightarrow> tokenpos s = Some t \<and> W t = Running"

definition leaves_company :: "'m det \<Rightarrow> nat \<Rightarrow> bool" where
  "leaves_company s t \<longleftrightarrow> nxt (lks s t) \<noteq> Some t"

definition joined_by_parent :: "'m det \<Rightarrow> nat \<Rightarrow> bool" where
  "joined_by_parent s t \<longleftrightarrow> status (entries s (tid_parent (entries s t))) = STATUS_JOINING \<and>
     joinee_thread_index (entries s (tid_parent (entries s t))) = t"

text \<open>
  \<open>H\<close> records the entries allocated so far. The first word of a condition variable or barrier is
  \<open>NULL\<close> or one of them: no one changes it until the object is destroyed, as the code assumes.
\<close>

definition known :: "'m memops \<Rightarrow> int \<Rightarrow> u64 \<Rightarrow> 'm det \<Rightarrow> (u64 \<rightharpoonup> u64) \<Rightarrow> bool" where
  "known M pid a s H \<longleftrightarrow> (case getSyncEntry M pid a s of
     Inl e \<Rightarrow> True | Inr (e, s1) \<Rightarrow> e = 0 \<or> H e \<noteq> None)"

definition noted :: "u64 \<Rightarrow> (u64 \<rightharpoonup> u64) \<Rightarrow> u64 \<rightharpoonup> u64" where
  "noted e H = (if H e = None then H(e \<mapsto> sizeof_CondEntry) else H)"

definition dropped :: "u64 \<Rightarrow> (u64 \<rightharpoonup> u64) \<Rightarrow> u64 \<rightharpoonup> u64" where
  "dropped e H = (if e = 0 then H else H(e := None))"

definition idle_entry :: "'m det \<Rightarrow> u64 \<Rightarrow> bool" where
  "idle_entry s e \<longleftrightarrow> ce_head (conds s e) = None \<and> be_head (barriers s e) = None"

inductive sched_step :: "'m memops \<Rightarrow> 'm sys \<Rightarrow> 'm sys \<Rightarrow> bool" for M :: "'m memops" where
  pass: "sched_step M (s, W, H) (s', W, H)"
    if "W t = Running" "putToken t s = Inr s'"
| spawn: "sched_step M (s, W, H) (s', W(i := Running), H)"
    if "W t = Running" "W i = Unborn" "i < 2048" "registerThread i pid t s = Inr s'"
| cwait: "sched_step M (s, W, H) (s', W(t := InCond), noted e H)"
    if "W t = Running" "leaves_company s t" "known M pid c s H" "cond_lookup M pid c s = Inr (e, s1)"
      "cond_wait_enter M pid t c l s = Inr (r, s')"
| cwake: "sched_step M (s, W, H) (s, W(j := Running), H)"
    if "W j = InCond" "status (entries s j) = STATUS_READY"
| signal: "sched_step M (s, W, H) (s', W, noted e H)"
    if "W t = Running" "known M pid c s H" "cond_lookup M pid c s = Inr (e, s1)"
      "cond_signal M pid c s = Inr s'"
| broadcast: "sched_step M (s, W, H) (s', W, noted e H)"
    if "W t = Running" "known M pid c s H" "cond_lookup M pid c s = Inr (e, s1)"
      "cond_broadcast M pid c s = Inr s'"
| binit: "sched_step M (s, W, H) (s', W, H(e \<mapsto> sizeof_BarrierEntry))"
    if "W t = Running" "allocSyncEntry sizeof_BarrierEntry s = Inr (e, s1)"
      "barrier_init M pid bar n s = Inr s'"
| bwait: "sched_step M (s, W, H) (s', W(t := InBarrier b), H)"
    if "W t = Running" "leaves_company s t" "known M pid bar s H" "getSyncEntry M pid bar s = Inr (b, s1)"
      "barrier_wait_enter M pid bar t s = Inr (False, s')"
| blast: "sched_step M (s, W, H) (s', \<lambda>j. if W j = InBarrier b then Running else W j, H)"
    if "holder s W t" "known M pid bar s H" "getSyncEntry M pid bar s = Inr (b, s1)"
      "barrier_wait_enter M pid bar t s = Inr (True, s')"
| join_blocks: "sched_step M (s, W, H) (s', W(t := Joining g), H)"
    if "holder s W t" "leaves_company s t" "join_enter g t s = Inr (True, s')"
| join_passes: "sched_step M (s, W, H) (s', W, H)"
    if "holder s W t" "t \<noteq> g" "join_enter g t s = Inr (False, s')"
| join_again: "sched_step M (s, W, H) (s', W, H)"
    if "W j = Joining g" "join_wake g j s = Inr (True, s')"
| join_done: "sched_step M (s, W, H) (s', W(j := Running), H)"
    if "W j = Rejoined" "join_wake (joinee_thread_index (entries s j)) j s = Inr (False, s')"
| join_lost: "sched_step M (s, W, H) (s', W(j := Stranded), H)"
    if "W j = Joining g" "join_wake g j s = Inr (False, s')"
| exit_joined: "sched_step M (s, W, H) (s', W(t := Exited, tid_parent (entries s t) := Rejoined), H)"
    if "holder s W t" "joined_by_parent s t" "deregisterThread t s = Inr s'"
| exit_alone: "sched_step M (s, W, H) (s', W(t := Exited), H)"
    if "W t = Running" "\<not> joined_by_parent s t" "leaves_company s t"
      "deregisterThread t s = Inr s'"
| sleep_signal: "sched_step M (s, W, H) (s', W(t := InSigwait), H)"
    if "W t = Running" "leaves_company s t" "sig_wait_enter t s = Inr s'"
| wake_signal: "sched_step M (s, W, H) (s', W(j := Running), H)"
    if "W j = InSigwait" "sig_wait_wake 0 j s = Inr (r, s')"
| linit: "sched_step M (s, W, H) (s', W, H(e \<mapsto> sizeof_LockEntry))"
    if "W t = Running" "lock_init M pid l s = Inr (e, s')"
| acquire: "sched_step M (s, W, H) (s', W, H)"
    if "getSyncEntry M pid l s = Inr (e, s1)" "e \<noteq> 0" "lock_acquire M pid l s = Inr (r, s')"
| release: "sched_step M (s, W, H) (s', W, H)"
    if "lock_release M pid l s = Inr s'"
| start: "sched_step M (s, W, H) (startFence n s, W, H)"
    if "W t = Running"
| ldestroy: "sched_step M (s, W, H) (s', W, dropped e H)"
    if "W t = Running" "known M pid l s H" "getSyncEntry M pid l s = Inr (e, s1)" "idle_entry s e"
      "lock_destroy M pid l s = Inr s'"
| cdestroy: "sched_step M (s, W, H) (s', W, dropped e H)"
    if "W t = Running" "known M pid c s H" "getSyncEntry M pid c (s\<lparr>condnum := condnum s - 1\<rparr>) = Inr (e, s1)"
      "idle_entry s e" "cond_destroy M pid c s = Inr s'"
| bdestroy: "sched_step M (s, W, H) (s', W, dropped e H)"
    if "W t = Running" "known M pid bar s H" "getSyncEntry M pid bar s = Inr (e, s1)" "idle_entry s e"
      "barrier_destroy M pid bar s = Inr s'"
| cancel: "sched_step M (s, W, H) (s', W, H)"
    if "W t = Running" "determ_cancel i s = Inr (False, s')"

text \<open>What a thread's place says about the queues and its entry.\<close>

definition nowhere :: "(qid \<Rightarrow> nat list) \<Rightarrow> nat \<Rightarrow> bool" where
  "nowhere Q j \<longleftrightarrow> (\<forall>q. j \<notin> set (Q q))"

primrec place :: "(qid \<Rightarrow> nat list) \<Rightarrow> thread_entry \<Rightarrow> nat \<Rightarrow> wait_at \<Rightarrow> bool" where
  "place Q e j Unborn = (nowhere Q j \<and> status e \<noteq> STATUS_JOINING)"
| "place Q e j Running =
     (j \<in> set (Q Act) \<and> threadindex e = j \<and> status e \<in> {STATUS_READY, STATUS_BARR_WAITING})"
| "place Q e j InCond = (threadindex e = j \<and>
     (status e = STATUS_READY \<and> j \<in> set (Q Act) \<or>
      status e = STATUS_COND_WAITING \<and> j \<in> set (Q (Cond (te_cond e)))))"
| "place Q e j (InBarrier b) =
     (threadindex e = j \<and> status e = STATUS_BARR_WAITING \<and> j \<in> set (Q (Barr b)))"
| "place Q e j (Joining g) = (threadindex e = j \<and> j < 2048 \<and> status e = STATUS_JOINING \<and>
     joinee_thread_index e = g \<and> nowhere Q j)"
| "place Q e j Rejoined = (threadindex e = j \<and> status e = STATUS_JOINING \<and> j \<in> set (Q Act))"
| "place Q e j InSigwait = (threadindex e = j \<and> j < 2048 \<and> nowhere Q j \<and>
     status e \<in> {STATUS_READY, STATUS_BARR_WAITING})"
| "place Q e j Stranded = (threadindex e = j \<and> status e = STATUS_READY \<and> nowhere Q j)"
| "place Q e j Exited = (status e = STATUS_EXIT \<and> nowhere Q j)"

definition heap_of :: "kheap \<times> isource store \<Rightarrow> isource ppheap" where
  "heap_of h = \<lparr>heaps = (\<lambda>_. kheap_init)(0 := fst h), stored = snd h\<rparr>"

definition sched_inv :: "'m sys \<Rightarrow> (qid \<Rightarrow> nat list) \<Rightarrow> bool" where
  "sched_inv S Q \<longleftrightarrow> (case S of (s, W, H) \<Rightarrow>
     queues_ok s Q \<and> isrc.good (heap_of (iheap s), H) \<and>
     (\<forall>c. Q (Cond c) \<noteq> [] \<longrightarrow> H c \<noteq> None) \<and> (\<forall>b. Q (Barr b) \<noteq> [] \<longrightarrow> H b \<noteq> None) \<and>
     (\<exists>t. tokenpos s = Some t \<and> t \<in> set (Q Act)) \<and>
     (\<forall>j. place Q (entries s j) j (W j)) \<and>
     (\<forall>j. W j = Rejoined \<longrightarrow> W (joinee_thread_index (entries s j)) = Exited))"

lemma place_cong:
  assumes "\<And>q. (j \<in> set (Q' q)) = (j \<in> set (Q q))"
    and "threadindex e' = threadindex e" "status e' = status e" "te_cond e' = te_cond e"
      "joinee_thread_index e' = joinee_thread_index e"
  shows "place Q' e' j w = place Q e j w"
  using assms by (cases w) (simp_all add: nowhere_def)

lemma place_live: "place Q e j w \<Longrightarrow> w \<noteq> Unborn \<Longrightarrow> w \<noteq> Exited \<Longrightarrow> threadindex e = j"
  by (cases w) auto

lemma place_Act: "place Q e j w \<Longrightarrow> j \<in> set (Q Act) \<Longrightarrow> \<forall>q. q \<noteq> Act \<longrightarrow> j \<notin> set (Q q) \<Longrightarrow>
    w \<in> {Running, InCond, Rejoined}"
  by (cases w) (auto simp: nowhere_def)

lemma not_Act: "queues_ok s Q \<Longrightarrow> j \<in> set (Q q) \<Longrightarrow> q \<noteq> r \<Longrightarrow> j \<notin> set (Q r)"
  using queues_okD(2) [of s Q q r] by blast

lemma nowhereI: "queues_ok s Q \<Longrightarrow> (\<And>q. j \<notin> set (Q q)) \<Longrightarrow> nowhere Q j"
  by (simp add: nowhere_def)

subsection \<open>Calls that leave the queues alone\<close>

lemma getSync_eff:
  assumes "getSyncEntry M pid a s = Inr (v, s1)"
  shows "\<exists>m. s1 = s\<lparr>memory := m\<rparr>"
  using assms by (auto simp: getSyncEntry_def rbind_Inr_iff)

lemma setSync_eff:
  assumes "setSyncEntry M pid a v s = Inr s1"
  shows "\<exists>m. s1 = s\<lparr>memory := m\<rparr>"
  using assms by (auto simp: setSyncEntry_def rbind_Inr_iff)

lemma release_eff:
  assumes "lock_release M pid l s = Inr s1"
  shows "\<exists>m ls. s1 = s\<lparr>memory := m, locks := ls\<rparr>"
  using assms by (auto simp: lock_release_def rbind_Inr_iff dest!: getSync_eff)

lemma internalheap_pp:
  assumes "internalheap_malloc sz h = Inr (p, h')"
  shows "pp_malloc isource_malloc INTERNALHEAP_SIZE 0 sz (heap_of h) = Inr (p, heap_of h') \<and> p \<noteq> 0"
proof -
  have "ansi_malloc isource_malloc INTERNALHEAP_SIZE sz (fst h, snd h) = Inr (p, h')" "p \<noteq> 0"
    using assms by (auto simp: internalheap_malloc_def rbind_Inr_iff split: if_splits)
  then show ?thesis by (auto simp: pp_malloc_def heap_of_def rbind_Inr_iff case_prod_unfold)
qed

lemma alloc_ok:
  assumes "allocSyncEntry sz s = Inr (e, s1)" "isrc.good (heap_of (iheap s), H)" "unat sz \<le> 72"
  shows "e \<noteq> 0 \<and> H e = None \<and> isrc.good (heap_of (iheap s1), H(e \<mapsto> sz)) \<and> (\<exists>h. s1 = s\<lparr>iheap := h\<rparr>)"
proof -
  obtain h where h: "internalheap_malloc sz (iheap s) = Inr (e, h)" "s1 = s\<lparr>iheap := h\<rparr>"
    using assms(1) by (auto simp: allocSyncEntry_def rbind_Inr_iff)
  note p = internalheap_pp [OF h(1)]
  have "unat sz + 100 \<le> unat (INTERNALHEAP_SIZE + PageSize)"
    "32 + unat INTERNALHEAP_SIZE \<le> unat (INTERNALHEAP_SIZE + PageSize)"
    "2 * unat sz + 101 \<le> unat (INTERNALHEAP_SIZE + PageSize)"
    using assms(3) by (simp_all add: INTERNALHEAP_SIZE_def PageSize_def)
  from isrc.alloc_good [OF assms(2) conjunct1 [OF p] this(1,2)] this(3) p h(2)
  show ?thesis by (cases h) auto
qed

lemma cond_lookup_ok:
  fixes s :: "'m det"
  assumes look: "cond_lookup M pid c s = Inr (e, s1)" and k: "known M pid c s H"
    and inv: "sched_inv (s, W, H) Q"
  shows "sched_inv (s1, W, noted e H) Q \<and> noted e H e \<noteq> None \<and> e \<noteq> 0 \<and> lks s1 = lks s \<and>
    tokenpos s1 = tokenpos s \<and> entries s1 = entries s"
proof -
  obtain v s0 where g: "getSyncEntry M pid c s = Inr (v, s0)"
    "(if v = 0 then cond_init M pid c s0 else Inr (v, s0)) = Inr (e, s1)"
    using look by (auto simp: cond_lookup_def rbind_Inr_iff)
  obtain m where s0: "s0 = s\<lparr>memory := m\<rparr>" using getSync_eff [OF g(1)] by blast
  show ?thesis
  proof (cases "v = 0")
    case False
    then have "e = v" "s1 = s0" "H e \<noteq> None" using g k by (auto simp: known_def)
    then show ?thesis using inv False by (auto simp: sched_inv_def s0 noted_def)
  next
    case True
    obtain s2 m' where a: "allocSyncEntry sizeof_CondEntry s0 = Inr (e, s2)"
      "s1 = (upd_cond e (\<lambda>_. \<lparr>waiters = 0, ce_cond = c, ce_head = None\<rparr>) (s2\<lparr>condnum := condnum s2 + 1\<rparr>))\<lparr>memory := m'\<rparr>"
      using g(2) True by (auto simp: cond_init_def rbind_Inr_iff Let_def dest!: setSync_eff)
    have good: "isrc.good (heap_of (iheap s0), H)" using inv by (simp add: sched_inv_def s0)
    obtain h where e: "e \<noteq> 0" "H e = None" "isrc.good (heap_of (iheap s2), H(e \<mapsto> sizeof_CondEntry))"
      "s2 = s0\<lparr>iheap := h\<rparr>"
      using alloc_ok [OF a(1) good] by (auto simp: sizeof_CondEntry_def)
    have Qe: "Q (Cond e) = []" using inv e(2) by (auto simp: sched_inv_def)
    have q: "queues_ok s Q" using inv by (simp add: sched_inv_def)
    have hd: "qhead s1 r = qhead s r" for r
      using queues_okD'(2) [OF q, of e] Qe by (cases r) (auto simp: a(2) e(4) s0)
    have "queues_ok s1 Q"
      using q Qe unfolding queues_ok_def hd by (auto simp: a(2) e(4) s0)
    then show ?thesis
      using inv e a(2) s0 by (auto simp: sched_inv_def noted_def)
  qed
qed

subsection \<open>The invariant is kept\<close>

text \<open>Rebuilding the invariant: the threads outside \<open>T\<close> keep their entries and their queues.\<close>

lemma sched_invI:
  assumes inv: "sched_inv (s, W, H) Q"
    and q: "queues_ok s' Q'" and hp: "isrc.good (heap_of (iheap s'), H')"
    and cov: "\<And>c. Q' (Cond c) \<noteq> [] \<Longrightarrow> H' c \<noteq> None" "\<And>b. Q' (Barr b) \<noteq> [] \<Longrightarrow> H' b \<noteq> None"
    and tok: "tokenpos s' = Some t'" "t' \<in> set (Q' Act)"
    and same: "\<And>j q. j \<notin> T \<Longrightarrow> (j \<in> set (Q' q)) = (j \<in> set (Q q))"
      "\<And>j. j \<notin> T \<Longrightarrow> entries s' j = entries s j \<and> W' j = W j"
    and new: "\<And>j. j \<in> T \<Longrightarrow> place Q' (entries s' j) j (W' j)"
    and gone: "\<And>j. j \<in> T \<Longrightarrow> W j \<noteq> Exited \<and>
      (W' j = Rejoined \<longrightarrow> W' (joinee_thread_index (entries s' j)) = Exited)"
  shows "sched_inv (s', W', H') Q'"
proof -
  have "place Q' (entries s' j) j (W' j)" for j
  proof (cases "j \<in> T")
    case False
    have "place Q (entries s j) j (W j)" using inv by (simp add: sched_inv_def)
    then show ?thesis
      using same(2) [OF False] place_cong [of j Q' Q "entries s' j" "entries s j" "W j"] same(1) [OF False]
      by simp
  qed (rule new)
  moreover have "W' (joinee_thread_index (entries s' j)) = Exited" if j: "W' j = Rejoined" for j
  proof (cases "j \<in> T")
    case False
    let ?k = "joinee_thread_index (entries s j)"
    have "W ?k = Exited" using inv same(2) [OF False] j by (simp add: sched_inv_def)
    then have "W' ?k = Exited" using gone [of ?k] same(2) [of ?k] by auto
    then show ?thesis using same(2) [OF False] by simp
  qed (use gone j in blast)
  ultimately show ?thesis using q hp cov tok by (auto simp: sched_inv_def)
qed

lemma sched_invD:
  assumes "sched_inv (s, W, H) Q"
  shows "queues_ok s Q" "isrc.good (heap_of (iheap s), H)" "Q (Cond c) \<noteq> [] \<Longrightarrow> H c \<noteq> None"
    "Q (Barr b) \<noteq> [] \<Longrightarrow> H b \<noteq> None" "place Q (entries s j) j (W j)"
    "tokenpos s = Some t \<Longrightarrow> t \<in> set (Q Act)"
    "W j = Rejoined \<Longrightarrow> W (joinee_thread_index (entries s j)) = Exited"
  using assms by (auto simp: sched_inv_def)

lemma holderD:
  assumes "sched_inv (s, W, H) Q" "holder s W t"
  shows "tokenpos s = Some t" "t \<in> set (Q Act)" "threadindex (entries s t) = t"
    "status (entries s t) \<in> {STATUS_READY, STATUS_BARR_WAITING}" "W t = Running"
  using sched_invD(5) [OF assms(1), of t] assms(2) by (auto simp: holder_def)

lemma runningD:
  assumes "sched_inv (s, W, H) Q" "W t = Running"
  shows "t \<in> set (Q Act)" "threadindex (entries s t) = t"
    "status (entries s t) \<in> {STATUS_READY, STATUS_BARR_WAITING}" "W t = Running"
  using sched_invD(5) [OF assms(1), of t] assms(2) by auto

lemma token_at:
  assumes "sched_inv (s, W, H) Q"
  obtains u where "tokenpos s = Some u" "u \<in> set (Q Act)"
  using assms by (auto simp: sched_inv_def)

lemma company:
  assumes "queues_ok s Q" "t \<in> set (Q Act)" "leaves_company s t"
  shows "succ_in (Q Act) t \<in> set (remove1 t (Q Act))"
proof -
  have "nxt (lks s t) = Some (succ_in (Q Act) t)"
    by (rule nxt_succ_in [OF queues_okD'(1) [OF assms(1)] assms(2)])
  then have "succ_in (Q Act) t \<noteq> t" using assms(3) by (simp add: leaves_company_def)
  then show ?thesis using succ_in_mem [OF assms(2)] by simp
qed

lemma remove1_mem: "queues_ok s Q \<Longrightarrow> x \<in> set (remove1 t (Q q)) \<longleftrightarrow> x \<in> set (Q q) \<and> x \<noteq> t"
  using queues_okD(4) [of s Q q] by auto

lemma insert_behind_mem: "t \<in> set xs \<Longrightarrow> x \<in> set (insert_behind t zs xs) \<longleftrightarrow> x \<in> set xs \<or> x \<in> set zs"
proof -
  assume "t \<in> set xs"
  then obtain us vs where "xs = us @ t # vs" "t \<notin> set us" by (meson split_list_first)
  then show ?thesis by (auto simp: insert_behind_split)
qed

lemma inv_pass:
  assumes inv: "sched_inv (s, W, H) Q" and h: "W t = Running" and r: "putToken t s = Inr s'"
  shows "sched_inv (s', W, H) Q"
proof -
  obtain u where d: "tokenpos s = Some u" "u \<in> set (Q Act)" by (rule token_at [OF inv])
  have "s' = s\<lparr>tokenpos := Some (succ_in (Q Act) u)\<rparr>"
    using putToken_spec [OF sched_invD(1) [OF inv] d(1,2), of t] r by simp
  then show ?thesis
    using inv succ_in_mem [OF d(2)] by (auto simp: sched_inv_def)
qed

lemma inv_spawn:
  assumes inv: "sched_inv (s, W, H) Q" and h: "W t = Running" and i: "W i = Unborn" "i < 2048"
    and r: "registerThread i pid t s = Inr s'"
  shows "sched_inv (s', W(i := Running), H) (Q(Act := Q Act @ [i]))"
proof -
  obtain u where d: "tokenpos s = Some u" "u \<in> set (Q Act)" by (rule token_at [OF inv])
  note D = sched_invD [OF inv]
  have nw: "i \<notin> set (Q q)" for q using D(5) [of i] i by (simp add: nowhere_def)
  from registerThread_spec [OF D(1) nw i(2), of pid t] r
  have s': "queues_ok s' (Q(Act := Q Act @ [i]))" "tokenpos s' = tokenpos s"
    "entries s' = (entries s)(i := (entries s i)\<lparr>tid := pid, threadindex := i, te_wait := 0,
      tid_parent := t, status := STATUS_READY\<rparr>)" using d(1) by auto
  have ih: "iheap s' = iheap s"
    using r by (auto simp: registerThread_def Let_def rbind_Inr_iff)
  show ?thesis
    by (rule sched_invI [OF inv s'(1), where T = "{i}" and t' = u]) (use s' d D(2-4) nw ih i in auto)
qed

lemma inv_cwait:
  assumes inv: "sched_inv (s, W, H) Q" and h: "W t = Running" and lc: "leaves_company s t"
    and k: "known M pid c s H" and look: "cond_lookup M pid c s = Inr (e, s1)"
    and r: "cond_wait_enter M pid t c l s = Inr (b, s')"
  shows "\<exists>Q'. sched_inv (s', W(t := InCond), noted e H) Q'"
proof -
  from cond_lookup_ok [OF look k inv] have inv1: "sched_inv (s1, W, noted e H) Q"
    and e: "noted e H e \<noteq> None" "lks s1 = lks s" "tokenpos s1 = tokenpos s" "entries s1 = entries s"
    by auto
  note d = runningD [OF inv1 h] and D = sched_invD [OF inv1]
  let ?Q = "Q(Act := remove1 t (Q Act), Cond e := Q (Cond e) @ [t])"
  obtain s2 where s2: "cond_wait_queue t e s1 = Inr s2" "queues_ok s2 ?Q"
    "tokenpos s2 = Some (succ_in (Q Act) t)"
    "entries s2 = (entries s1)(t := (entries s1 t)\<lparr>te_cond := e, status := STATUS_COND_WAITING\<rparr>)"
    "iheap s2 = iheap s1"
    using cond_wait_queue_spec [OF D(1) d(1), of e] by auto
  have "cond_wait_loop M pid t l s2 = Inr (b, s')"
    using r look s2(1) by (simp add: cond_wait_enter_def)
  then obtain m ls where s': "s' = s2\<lparr>memory := m, locks := ls\<rparr>"
    using s2(4) by (auto simp: cond_wait_loop_def rbind_Inr_iff dest!: release_eff)
  have c: "succ_in (Q Act) t \<in> set (remove1 t (Q Act))"
    using lc by (intro company [OF D(1) d(1)]) (simp add: leaves_company_def e)
  have "sched_inv (s', W(t := InCond), noted e H) ?Q"
  proof (rule sched_invI [OF inv1, where T = "{t}" and t' = "succ_in (Q Act) t"])
    show "queues_ok s' ?Q" using s2(2) by (simp add: s')
    show "noted e H x \<noteq> None" if "?Q (Cond x) \<noteq> []" for x
      using that e(1) D(3) [of x] by (cases "x = e") auto
    show "j \<in> set (?Q q) \<longleftrightarrow> j \<in> set (Q q)" if "j \<notin> {t}" for j q
      using that remove1_mem [OF D(1), of j t] by (cases q) auto
  qed (use s2 s' D d c in auto)
  then show ?thesis by blast
qed

lemma inv_signal:
  assumes inv: "sched_inv (s, W, H) Q" and h: "W t = Running"
    and k: "known M pid c s H" and look: "cond_lookup M pid c s = Inr (e, s1)"
    and r: "cond_signal M pid c s = Inr s'"
  shows "\<exists>Q'. sched_inv (s', W, noted e H) Q'"
proof -
  from cond_lookup_ok [OF look k inv] have inv1: "sched_inv (s1, W, noted e H) Q"
    and e: "noted e H e \<noteq> None" "tokenpos s1 = tokenpos s" "entries s1 = entries s" by auto
  obtain u where d: "tokenpos s1 = Some u" "u \<in> set (Q Act)" by (rule token_at [OF inv1])
  note D = sched_invD [OF inv1]
  show ?thesis
  proof (cases "Q (Cond e)")
    case Nil
    then have "s' = s1" using cond_signal_idle [OF look D(1) Nil] r by simp
    then show ?thesis using inv1 by blast
  next
    case (Cons x xs)
    let ?Q = "Q(Act := insert_behind u [x] (Q Act), Cond e := xs)"
    have s': "queues_ok s' ?Q" "tokenpos s' = Some u"
      "entries s' = (entries s1)(x := (entries s1 x)\<lparr>te_cond := 0, status := STATUS_READY\<rparr>)"
      using cond_signal_spec [OF look D(1) d(1,2) Cons] r by auto
    have ih: "iheap s' = iheap s1"
      using r look by (auto simp: cond_signal_def rbind_Inr_iff Let_def split: if_splits)
    have xc: "x \<in> set (Q (Cond e))" using Cons by simp
    have "W x = InCond" "threadindex (entries s1 x) = x"
      using D(5) [of x] not_Act [OF D(1) xc] xc by (cases "W x"; force simp: nowhere_def)+
    moreover have "sched_inv (s', W, noted e H) ?Q"
      if "W x = InCond" "threadindex (entries s1 x) = x"
    proof (rule sched_invI [OF inv1, where T = "{x}" and t' = u])
      show "noted e H y \<noteq> None" if "?Q (Cond y) \<noteq> []" for y
        using that e(1) D(3) [of y] by (cases "y = e") auto
      show "j \<in> set (?Q q) \<longleftrightarrow> j \<in> set (Q q)" if "j \<notin> {x}" for j q
        using that Cons insert_behind_mem [OF d(2), of j "[x]"] by (cases q) auto
    qed (use s' ih D d that insert_behind_mem [OF d(2), of _ "[x]"] in auto)
    ultimately show ?thesis by blast
  qed
qed

lemma inv_broadcast:
  assumes inv: "sched_inv (s, W, H) Q" and h: "W t = Running"
    and k: "known M pid c s H" and look: "cond_lookup M pid c s = Inr (e, s1)"
    and r: "cond_broadcast M pid c s = Inr s'"
  shows "\<exists>Q'. sched_inv (s', W, noted e H) Q'"
proof -
  from cond_lookup_ok [OF look k inv] have inv1: "sched_inv (s1, W, noted e H) Q"
    and e: "noted e H e \<noteq> None" "tokenpos s1 = tokenpos s" "entries s1 = entries s" by auto
  obtain u where d: "tokenpos s1 = Some u" "u \<in> set (Q Act)" by (rule token_at [OF inv1])
  note D = sched_invD [OF inv1]
  show ?thesis
  proof (cases "Q (Cond e) = []")
    case True
    then have "s' = s1" using r look of_nat_length_0 [OF D(1), of e] by (simp add: cond_broadcast_def)
    then show ?thesis using inv1 by blast
  next
    case False
    let ?Q = "Q(Act := insert_behind u (Q (Cond e)) (Q Act), Cond e := [])"
    have s': "queues_ok s' ?Q" "tokenpos s' = Some u"
      "entries s' = mark_ready (set (Q (Cond e))) (entries s1)"
      using cond_broadcast_spec [OF look D(1) d(1,2) False] r by auto
    have "iheap s2 = iheap x" if "set_ready n y x = Inr s2" for n y and x s2 :: "'a det"
      using that by (induction n y x rule: set_ready.induct) (auto simp: rbind_Inr_iff)
    then have ih: "iheap s' = iheap s1"
      using r look by (auto simp: cond_broadcast_def rbind_Inr_iff Let_def split: if_splits)
    have wx: "W x = InCond \<and> threadindex (entries s1 x) = x" if xc: "x \<in> set (Q (Cond e))" for x
      using D(5) [of x] not_Act [OF D(1) xc] xc by (cases "W x") (auto simp: nowhere_def)
    have "sched_inv (s', W, noted e H) ?Q"
    proof (rule sched_invI [OF inv1, where T = "set (Q (Cond e))" and t' = u])
      show "noted e H y \<noteq> None" if "?Q (Cond y) \<noteq> []" for y
        using that D(3) [of y] by (cases "y = e") auto
      show "j \<in> set (?Q q) \<longleftrightarrow> j \<in> set (Q q)" if "j \<notin> set (Q (Cond e))" for j q
        using that insert_behind_mem [OF d(2), of j "Q (Cond e)"] by (cases q) auto
    qed (use s' ih D d wx insert_behind_mem [OF d(2), of _ "Q (Cond e)"] in \<open>auto simp: mark_ready_def\<close>)
    then show ?thesis by blast
  qed
qed

lemma inv_binit:
  assumes inv: "sched_inv (s, W, H) Q" and a: "allocSyncEntry sizeof_BarrierEntry s = Inr (e, s1)"
    and r: "barrier_init M pid bar n s = Inr s'"
  shows "sched_inv (s', W, H(e \<mapsto> sizeof_BarrierEntry)) Q"
proof -
  note D = sched_invD [OF inv]
  obtain h where e: "e \<noteq> 0" "H e = None" "isrc.good (heap_of h, H(e \<mapsto> sizeof_BarrierEntry))"
    "s1 = s\<lparr>iheap := h\<rparr>"
    using alloc_ok [OF a D(2)] by (auto simp: sizeof_BarrierEntry_def)
  obtain m where s': "s' = (upd_barr e (\<lambda>_. \<lparr>be_maxthreads = n, be_threads = 0, arrival_phase = True,
      orig_barr = bar, be_head = None\<rparr>) s1)\<lparr>memory := m, barriernum := barriernum s1 + 1\<rparr>"
    using r a by (auto simp: barrier_init_def rbind_Inr_iff nonnull_def Let_def dest!: setSync_eff)
  have Qe: "Q (Barr e) = []" using D(4) [of e] e(2) by auto
  have hd: "qhead s' r = qhead s r" for r
    using queues_okD'(3) [OF D(1), of e] Qe by (cases r) (auto simp: s' e(4))
  have "queues_ok s' Q" using D(1) Qe unfolding queues_ok_def hd by (auto simp: s' e(4))
  then show ?thesis using inv e s' by (auto simp: sched_inv_def)
qed

lemma barrier_enter_split:
  assumes "getSyncEntry M pid bar s = Inr (b, s1)" "barrier_wait_enter M pid bar t s = Inr (l, s')"
  shows "\<exists>s2 m. barrier_wait_section b t s1 = Inr (l, s2) \<and> s' = s2\<lparr>memory := m\<rparr>"
proof -
  obtain l2 s2 where s2: "barrier_wait_section b t s1 = Inr (l2, s2)"
    "(if \<not> l2 then rbind (m_begin M (memory s2) pid) (\<lambda>m. Inr (l2, s2\<lparr>memory := m\<rparr>)) else Inr (l2, s2)) = Inr (l, s')"
    using assms unfolding barrier_wait_enter_def by (auto simp: rbind_Inr_iff)
  have "l2 = l \<and> (\<exists>m. s' = s2\<lparr>memory := m\<rparr>)"
  proof (cases l2)
    case True
    then have "s' = s2\<lparr>memory := memory s2\<rparr>" "l = l2" using s2(2) by auto
    then show ?thesis by blast
  next
    case False
    then show ?thesis using s2(2) by (auto simp: rbind_Inr_iff)
  qed
  with s2(1) show ?thesis by blast
qed

lemma inv_bwait:
  assumes inv: "sched_inv (s, W, H) Q" and h: "W t = Running" and lc: "leaves_company s t"
    and k: "known M pid bar s H" and g: "getSyncEntry M pid bar s = Inr (b, s1)"
    and r: "barrier_wait_enter M pid bar t s = Inr (False, s')"
  shows "\<exists>Q'. sched_inv (s', W(t := InBarrier b), H) Q'"
proof -
  obtain m where s1: "s1 = s\<lparr>memory := m\<rparr>" using getSync_eff [OF g] by blast
  obtain s2 m' where s2: "barrier_wait_section b t s1 = Inr (False, s2)" "s' = s2\<lparr>memory := m'\<rparr>"
    using barrier_enter_split [OF g r] by blast
  note d = runningD [OF inv h] and D = sched_invD [OF inv]
  have b0: "b \<noteq> 0" using s2(1) by (auto simp: barrier_wait_section_def nonnull_def)
  then have Hb: "H b \<noteq> None" using k g by (simp add: known_def)
  have q1: "queues_ok s1 Q" using D(1) by (simp add: s1)
  have more: "be_threads (barriers s1 b) + 1 \<noteq> be_maxthreads (barriers s1 b)"
    using s2(1) b0 by (auto simp: barrier_wait_section_def nonnull_def Let_def rbind_Inr_iff)
  let ?Q = "Q(Act := remove1 t (Q Act), Barr b := Q (Barr b) @ [t])"
  have e: "queues_ok s2 ?Q" "tokenpos s2 = Some (succ_in (Q Act) t)" "iheap s2 = iheap s1"
    "entries s2 = (entries s1)(t := (entries s1 t)\<lparr>status := STATUS_BARR_WAITING, te_barrier := b\<rparr>)"
    using barrier_block_spec [OF b0 q1 d(1) more] s2(1) by auto
  have c: "succ_in (Q Act) t \<in> set (remove1 t (Q Act))" by (rule company [OF D(1) d(1) lc])
  have "sched_inv (s', W(t := InBarrier b), H) ?Q"
  proof (rule sched_invI [OF inv, where T = "{t}" and t' = "succ_in (Q Act) t"])
    show "H x \<noteq> None" if "?Q (Barr x) \<noteq> []" for x using that Hb D(4) [of x] by (cases "x = b") auto
    show "j \<in> set (?Q q) \<longleftrightarrow> j \<in> set (Q q)" if "j \<notin> {t}" for j q
      using that remove1_mem [OF D(1), of j t] by (cases q) auto
  qed (use e s2 s1 D d c in auto)
  then show ?thesis by blast
qed

lemma inv_blast:
  assumes inv: "sched_inv (s, W, H) Q" and h: "holder s W t"
    and g: "getSyncEntry M pid bar s = Inr (b, s1)"
    and r: "barrier_wait_enter M pid bar t s = Inr (True, s')"
  shows "\<exists>Q'. sched_inv (s', \<lambda>j. if W j = InBarrier b then Running else W j, H) Q'"
proof -
  obtain m where s1: "s1 = s\<lparr>memory := m\<rparr>" using getSync_eff [OF g] by blast
  obtain s2 m' where s2: "barrier_wait_section b t s1 = Inr (True, s2)" "s' = s2\<lparr>memory := m'\<rparr>"
    using barrier_enter_split [OF g r] by blast
  note d = holderD [OF inv h] and D = sched_invD [OF inv]
  have b0: "b \<noteq> 0" using s2(1) by (auto simp: barrier_wait_section_def nonnull_def)
  have q1: "queues_ok s1 Q" "tokenpos s1 = Some t" using D(1) d(1) by (simp_all add: s1)
  have last: "be_threads (barriers s1 b) + 1 = be_maxthreads (barriers s1 b)"
    using s2(1) b0 by (auto simp: barrier_wait_section_def nonnull_def Let_def rbind_Inr_iff split: if_splits)
  let ?Q = "Q(Act := insert_behind t (Q (Barr b)) (Q Act), Barr b := [])"
  have e: "queues_ok s2 ?Q" "tokenpos s2 = Some (succ_in (?Q Act) t)" "iheap s2 = iheap s1"
    "entries s2 = entries s1"
    using barrier_last_spec [OF b0 q1(1) d(2) q1(2) last] s2(1) by auto
  have im: "x \<in> set (?Q Act) \<longleftrightarrow> x \<in> set (Q Act) \<or> x \<in> set (Q (Barr b))" for x
    using insert_behind_mem [OF d(2)] by simp
  have wb: "W x = InBarrier b \<longleftrightarrow> x \<in> set (Q (Barr b))" for x
  proof
    assume "W x = InBarrier b" then show "x \<in> set (Q (Barr b))" using D(5) [of x] by simp
  next
    assume x: "x \<in> set (Q (Barr b))"
    then have "r = Barr b" if "x \<in> set (Q r)" for r using not_Act [OF D(1) that, of "Barr b"] by blast
    then show "W x = InBarrier b" using D(5) [of x] x by (cases "W x") (auto simp: nowhere_def)
  qed
  have pl: "threadindex (entries s x) = x \<and> status (entries s x) = STATUS_BARR_WAITING"
    if "x \<in> set (Q (Barr b))" for x
    using D(5) [of x] that wb [of x] by simp
  have "sched_inv (s', \<lambda>j. if W j = InBarrier b then Running else W j, H) ?Q"
  proof (rule sched_invI [OF inv, where T = "set (Q (Barr b))" and t' = "succ_in (?Q Act) t"])
    show "succ_in (?Q Act) t \<in> set (?Q Act)" by (rule succ_in_mem) (use im d in simp)
    show "H x \<noteq> None" if "?Q (Barr x) \<noteq> []" for x using that D(4) [of x] by (cases "x = b") auto
    show "j \<in> set (?Q q) \<longleftrightarrow> j \<in> set (Q q)" if "j \<notin> set (Q (Barr b))" for j q
      using that im [of j] by (cases q) auto
    show "place ?Q (entries s' j) j (if W j = InBarrier b then Running else W j)"
      if "j \<in> set (Q (Barr b))" for j
      using that im [of j] pl [OF that] by (simp add: wb s2(2) e(4) s1)
    show "W j \<noteq> Exited \<and> ((if W j = InBarrier b then Running else W j) = Rejoined \<longrightarrow>
        (if W (joinee_thread_index (entries s' j)) = InBarrier b then Running
         else W (joinee_thread_index (entries s' j))) = Exited)" if "j \<in> set (Q (Barr b))" for j
      using that wb [of j] by simp
  qed (use e s2 s1 D(1-4) wb in auto)
  then show ?thesis by blast
qed

lemma join_sleep_eff:
  assumes "join_sleep j s = Inr s'" "tokenpos s = Some t" "threadindex (entries s t) \<noteq> j"
  shows "s' = decrFence s"
  using assms by (auto simp: join_sleep_def Let_def deref_def)

lemma inv_join_blocks:
  assumes inv: "sched_inv (s, W, H) Q" and h: "holder s W t" and lc: "leaves_company s t"
    and r: "join_enter g t s = Inr (True, s')"
  shows "\<exists>Q'. sched_inv (s', W(t := Joining g), H) Q'"
proof -
  note d = holderD [OF inv h] and D = sched_invD [OF inv]
  have g: "status (entries s g) \<noteq> STATUS_EXIT" using r by (auto simp: join_enter_def)
  have c: "succ_in (Q Act) t \<in> set (remove1 t (Q Act))" by (rule company [OF D(1) d(2) lc])
  let ?Q = "Q(Act := remove1 t (Q Act))"
  have ne: "remove1 t (Q Act) \<noteq> []" using c by auto
  have e: "queues_ok s' ?Q" "tokenpos s' = Some (succ_in (Q Act) t)"
    "entries s' = (entries s)(t := (entries s t)\<lparr>status := STATUS_JOINING, joinee_thread_index := g\<rparr>)"
    using join_enter_spec [OF D(1) d(2,1,3) g] r ne by auto
  have "iheap s' = iheap s"
    using r by (auto simp: join_enter_def join_sleep_def Let_def rbind_Inr_iff split: if_splits)
  moreover have "t < 2048" using queues_okD(3) [OF D(1), of Act] d(2) by auto
  ultimately have "sched_inv (s', W(t := Joining g), H) ?Q"
    using not_Act [OF D(1) d(2)] remove1_mem [OF D(1), of _ t Act]
    by (intro sched_invI [OF inv, where T = "{t}" and t' = "succ_in (Q Act) t"])
      (use e d D c in \<open>auto simp: nowhere_def\<close>)
  then show ?thesis by blast
qed

lemma inv_join_passes:
  assumes inv: "sched_inv (s, W, H) Q" and h: "holder s W t" and tg: "t \<noteq> g"
    and r: "join_enter g t s = Inr (False, s')"
  shows "sched_inv (s', W, H) Q"
proof -
  note d = holderD [OF inv h] and D = sched_invD [OF inv]
  have "s' = upd_entry t (status_update (\<lambda>_. STATUS_READY)) s"
    using r tg by (auto simp: join_enter_def rbind_Inr_iff Let_def split: if_splits)
  then show ?thesis
    by (intro sched_invI [OF inv, where T = "{t}" and t' = t]) (use d D(1-4) in auto)
qed

lemma inv_join_again:
  assumes inv: "sched_inv (s, W, H) Q" and j: "W j = Joining g" and r: "join_wake g j s = Inr (True, s')"
  shows "sched_inv (s', W, H) Q"
proof -
  note D = sched_invD [OF inv]
  obtain t where t: "tokenpos s = Some t" "t \<in> set (Q Act)" using inv by (auto simp: sched_inv_def)
  have nj: "nowhere Q j" using D(5) [of j] j by simp
  have "\<forall>q. q \<noteq> Act \<longrightarrow> t \<notin> set (Q q)"
  proof (intro allI impI)
    fix q assume "q \<noteq> Act" then show "t \<notin> set (Q q)" using not_Act [OF D(1) t(2), of q] by simp
  qed
  from place_Act [OF D(5) t(2) this] have "W t \<noteq> Unborn" "W t \<noteq> Exited" by auto
  then have "threadindex (entries s t) = t" by (rule place_live [OF D(5)])
  moreover have "t \<noteq> j" using t(2) nj by (auto simp: nowhere_def)
  moreover have "join_sleep j (incrFence 1 s) = Inr s'"
    using r by (auto simp: join_wake_def Let_def rbind_Inr_iff split: if_splits)
  ultimately have "s' = decrFence (incrFence 1 s)" using t(1) by (intro join_sleep_eff) auto
  then show ?thesis using inv by (simp add: sched_inv_def)
qed

lemma join_wake_False:
  assumes "join_wake g j s = Inr (False, s')"
  shows "s' = upd_entry j (status_update (\<lambda>_. STATUS_READY)) (incrFence 1 s)"
  using assms by (auto simp: join_wake_def Let_def rbind_Inr_iff split: if_splits)

lemma inv_join_done:
  assumes inv: "sched_inv (s, W, H) Q" and j: "W j = Rejoined \<and> w = Running \<or> W j = Joining g \<and> w = Stranded"
    and r: "join_wake g' j s = Inr (False, s')"
  shows "sched_inv (s', W(j := w), H) Q"
proof -
  note D = sched_invD [OF inv]
  obtain t where t: "tokenpos s = Some t" "t \<in> set (Q Act)" using inv by (auto simp: sched_inv_def)
  have s': "s' = upd_entry j (status_update (\<lambda>_. STATUS_READY)) (incrFence 1 s)"
    by (rule join_wake_False [OF r])
  show ?thesis
  proof (rule sched_invI [OF inv, where T = "{j}" and t' = t])
    show "place Q (entries s' k) k ((W(j := w)) k)" if "k \<in> {j}" for k
      using that D(5) [of j] j by (auto simp: s')
  qed (use D(1-4) t j in \<open>auto simp: s'\<close>)
qed

lemma inv_exit_joined:
  assumes inv: "sched_inv (s, W, H) Q" and h: "holder s W t" and jp: "joined_by_parent s t"
    and r: "deregisterThread t s = Inr s'"
  shows "\<exists>Q'. sched_inv (s', W(t := Exited, tid_parent (entries s t) := Rejoined), H) Q'"
proof -
  note d = holderD [OF inv h] and D = sched_invD [OF inv]
  define p where "p = tid_parent (entries s t)"
  have p: "status (entries s p) = STATUS_JOINING" "joinee_thread_index (entries s p) = t"
    using jp by (auto simp: joined_by_parent_def p_def)
  have pt: "p \<noteq> t" using p(1) d(4) by auto
  have "W p = Rejoined \<or> (\<exists>g. W p = Joining g)" using D(5) [of p] p(1) by (cases "W p") auto
  moreover have "W p \<noteq> Rejoined" using D(7) [of p] p(2) d(5) by auto
  ultimately obtain g where g: "W p = Joining g" by blast
  then have pq: "threadindex (entries s p) = p" "p < 2048" and np: "p \<notin> set (Q q)" for q
    using D(5) [of p] by (auto simp: nowhere_def)
  let ?f = "\<lambda>x. if x = t then p else x"
  let ?Q = "Q(Act := map ?f (Q Act))"
  have e: "queues_ok s' ?Q" "tokenpos s' = Some p"
    "entries s' = (entries s)(t := (entries s t)\<lparr>status := STATUS_EXIT\<rparr>)"
    using deregister_join_eff [OF D(1) d(2,1) p_def p np pq(2)] r by auto
  have ih: "iheap s' = iheap s"
    using r by (auto simp: deregisterThread_def freeThreadEntry_def Let_def rbind_Inr_iff split: if_splits)
  have mm: "x \<in> set (map ?f (Q Act)) \<longleftrightarrow> x = p \<or> x \<in> set (Q Act) \<and> x \<noteq> t" for x
    using d(2) np [of Act] by auto
  have tq: "t \<notin> set (?Q q)" for q
    using mm [of t] pt not_Act [OF D(1) d(2), of q] by (cases q) auto
  have "sched_inv (s', W(t := Exited, p := Rejoined), H) ?Q"
  proof (rule sched_invI [OF inv, where T = "{t, p}" and t' = p])
    show "j \<in> set (?Q q) \<longleftrightarrow> j \<in> set (Q q)" if "j \<notin> {t, p}" for j q
      using that mm [of j] by (cases q) auto
    show "place ?Q (entries s' j) j ((W(t := Exited, p := Rejoined)) j)" if "j \<in> {t, p}" for j
      using that tq pt pq p(1) mm [of p] e(3) by (auto simp: nowhere_def)
    show "W j \<noteq> Exited \<and> ((W(t := Exited, p := Rejoined)) j = Rejoined \<longrightarrow>
        (W(t := Exited, p := Rejoined)) (joinee_thread_index (entries s' j)) = Exited)" if "j \<in> {t, p}" for j
      using that d(5) g pt p(2) e(3) by auto
  qed (use e ih D(2-4) mm [of p] in auto)
  then show ?thesis unfolding p_def by blast
qed

lemma inv_exit_alone:
  assumes inv: "sched_inv (s, W, H) Q" and h: "W t = Running" and jp: "\<not> joined_by_parent s t"
    and lc: "leaves_company s t" and r: "deregisterThread t s = Inr s'"
  shows "\<exists>Q'. sched_inv (s', W(t := Exited), H) Q'"
proof -
  note d = runningD [OF inv h] and D = sched_invD [OF inv]
  let ?Q = "Q(Act := remove1 t (Q Act))"
  have e: "queues_ok s' ?Q" "tokenpos s' = Some (succ_in (Q Act) t)"
    "entries s' = (entries s)(t := (entries s t)\<lparr>status := STATUS_EXIT\<rparr>)"
    using deregister_eff [OF D(1) d(1) jp [unfolded joined_by_parent_def]] r by auto
  have ih: "iheap s' = iheap s"
    using r by (auto simp: deregisterThread_def freeThreadEntry_def Let_def rbind_Inr_iff split: if_splits)
  have c: "succ_in (Q Act) t \<in> set (remove1 t (Q Act))" by (rule company [OF D(1) d(1) lc])
  have tq: "t \<notin> set (?Q q)" for q
    using remove1_mem [OF D(1), of t t Act] not_Act [OF D(1) d(1), of q] by (cases q) auto
  have "sched_inv (s', W(t := Exited), H) ?Q"
  proof (rule sched_invI [OF inv, where T = "{t}" and t' = "succ_in (Q Act) t"])
    show "j \<in> set (?Q q) \<longleftrightarrow> j \<in> set (Q q)" if "j \<notin> {t}" for j q
      using that remove1_mem [OF D(1), of j t Act] by (cases q) auto
    show "place ?Q (entries s' j) j ((W(t := Exited)) j)" if "j \<in> {t}" for j
      using that tq e(3) by (auto simp: nowhere_def)
  qed (use e ih c d D(2-4) in auto)
  then show ?thesis by blast
qed

lemma inv_sleep_signal:
  assumes inv: "sched_inv (s, W, H) Q" and h: "W t = Running" and lc: "leaves_company s t"
    and r: "sig_wait_enter t s = Inr s'"
  shows "\<exists>Q'. sched_inv (s', W(t := InSigwait), H) Q'"
proof -
  note d = runningD [OF inv h] and D = sched_invD [OF inv]
  let ?Q = "Q(Act := remove1 t (Q Act))"
  have e: "queues_ok s' ?Q" "tokenpos s' = Some (succ_in (Q Act) t)" "entries s' = entries s"
    using sig_wait_enter_spec [OF D(1) d(1)] r by auto
  have ih: "iheap s' = iheap s" using r by (auto simp: sig_wait_enter_def Let_def rbind_Inr_iff)
  have c: "succ_in (Q Act) t \<in> set (remove1 t (Q Act))" by (rule company [OF D(1) d(1) lc])
  have tq: "t \<notin> set (?Q q)" for q
    using remove1_mem [OF D(1), of t t Act] not_Act [OF D(1) d(1), of q] by (cases q) auto
  have t2: "t < 2048" using queues_okD(3) [OF D(1), of Act] d(1) by auto
  have "sched_inv (s', W(t := InSigwait), H) ?Q"
  proof (rule sched_invI [OF inv, where T = "{t}" and t' = "succ_in (Q Act) t"])
    show "j \<in> set (?Q q) \<longleftrightarrow> j \<in> set (Q q)" if "j \<notin> {t}" for j q
      using that remove1_mem [OF D(1), of j t Act] by (cases q) auto
    show "place ?Q (entries s' j) j ((W(t := InSigwait)) j)" if "j \<in> {t}" for j
      using that tq t2 d(2,3) by (auto simp: nowhere_def e(3))
  qed (use e ih c d D(2-4) in auto)
  then show ?thesis by blast
qed

lemma inv_wake_signal:
  assumes inv: "sched_inv (s, W, H) Q" and j: "W j = InSigwait"
    and r: "sig_wait_wake 0 j s = Inr (b, s')"
  shows "\<exists>Q'. sched_inv (s', W(j := Running), H) Q'"
proof -
  note D = sched_invD [OF inv]
  obtain t where t: "tokenpos s = Some t" "t \<in> set (Q Act)" using inv by (auto simp: sched_inv_def)
  have pj: "threadindex (entries s j) = j" "j < 2048"
    "status (entries s j) \<in> {STATUS_READY, STATUS_BARR_WAITING}" and nq: "j \<notin> set (Q q)" for q
    using D(5) [of j] j by (auto simp: nowhere_def)
  let ?Q = "Q(Act := insert_behind t [j] (Q Act))"
  have e: "queues_ok s' ?Q" "tokenpos s' = Some t" "entries s' = entries s"
    using sig_wait_wake_spec [OF D(1) t nq pj(2)] r by auto
  have ih: "iheap s' = iheap s"
    using r t(1) by (auto simp: sig_wait_wake_def rbind_Inr_iff)
  have im: "x \<in> set (?Q Act) \<longleftrightarrow> x \<in> set (Q Act) \<or> x = j" for x
    using insert_behind_mem [OF t(2), of x "[j]"] by auto
  have "sched_inv (s', W(j := Running), H) ?Q"
  proof (rule sched_invI [OF inv, where T = "{j}" and t' = t])
    show "k \<in> set (?Q q) \<longleftrightarrow> k \<in> set (Q q)" if "k \<notin> {j}" for k q
      using that im [of k] by (cases q) auto
    show "place ?Q (entries s' k) k ((W(j := Running)) k)" if "k \<in> {j}" for k
      using that im [of j] pj by (simp add: e(3))
    show "t \<in> set (?Q Act)" using im t(2) by blast
  qed (use e ih j D(2-4) in auto)
  then show ?thesis by blast
qed

lemma lock_acquire_eff:
  assumes "getSyncEntry M pid l s = Inr (e, s1)" "e \<noteq> 0" "lock_acquire M pid l s = Inr (r, s')"
  shows "\<exists>m ls. s' = s\<lparr>memory := m, locks := ls\<rparr>"
  using assms getSync_eff [OF assms(1)]
  by (auto simp: lock_acquire_def Let_def case_prod_unfold)

lemma inv_linit:
  assumes inv: "sched_inv (s, W, H) Q" and r: "lock_init M pid l s = Inr (e, s')"
  shows "sched_inv (s', W, H(e \<mapsto> sizeof_LockEntry)) Q"
proof -
  obtain s1 where a: "allocSyncEntry sizeof_LockEntry s = Inr (e, s1)"
    and s': "\<exists>m ls. s' = s1\<lparr>locks := ls, memory := m\<rparr>"
    using r by (auto simp: lock_init_def rbind_Inr_iff Let_def dest!: setSync_eff)
  obtain h where e: "H e = None" "isrc.good (heap_of h, H(e \<mapsto> sizeof_LockEntry))" "s1 = s\<lparr>iheap := h\<rparr>"
    using alloc_ok [OF a sched_invD(2) [OF inv]] by (auto simp: sizeof_LockEntry_def)
  from s' show ?thesis using inv e by (auto simp: sched_inv_def)
qed

lemma inv_quiet: "sched_inv (s, W, H) Q \<Longrightarrow> sched_inv (s\<lparr>memory := m, locks := ls\<rparr>, W, H) Q"
  by (simp add: sched_inv_def)

lemma inv_start: "sched_inv (s, W, H) Q \<Longrightarrow> sched_inv (startFence n s, W, H) Q"
  using queues_ok_fence(3) [of n s Q] by (auto simp: sched_inv_def startFence_def)

text \<open>Destroying an object gives its entry back to the internal heap.\<close>

lemma heap_of_free:
  assumes "internalheap_free p h = Inr h'"
  shows "pp_free 0 p (heap_of h) = Inr (heap_of h')"
  using assms by (cases h; cases h')
    (auto simp: internalheap_free_def pp_free_def heap_of_def rbind_Inr_iff fun_eq_iff)

lemma freeSync_ok:
  fixes s :: "'m det"
  assumes inv: "sched_inv (s, W, H) Q" and f: "freeSyncEntry e s0 = Inr s1" and s0: "iheap s0 = iheap s"
    and k: "e = 0 \<or> H e \<noteq> None" and idle: "idle_entry s e"
  shows "isrc.good (heap_of (iheap s1), dropped e H) \<and> (\<exists>h. s1 = s0\<lparr>iheap := h\<rparr>) \<and>
    (\<forall>c. Q (Cond c) \<noteq> [] \<longrightarrow> dropped e H c \<noteq> None) \<and> (\<forall>b. Q (Barr b) \<noteq> [] \<longrightarrow> dropped e H b \<noteq> None)"
proof -
  note D = sched_invD [OF inv]
  show ?thesis
  proof (cases "e = 0")
    case True
    then have "s1 = s0\<lparr>iheap := iheap s0\<rparr>" using f by (simp add: freeSyncEntry_def)
    then have "\<exists>h. s1 = s0\<lparr>iheap := h\<rparr>" by (rule exI)
    moreover have "iheap s1 = iheap s" "dropped e H = H" using True f s0 by (simp_all add: freeSyncEntry_def dropped_def)
    ultimately show ?thesis using D(2-4) by metis
  next
    case False
    obtain h where h: "internalheap_free e (iheap s) = Inr h" "s1 = s0\<lparr>iheap := h\<rparr>"
      using f False s0 by (auto simp: freeSyncEntry_def rbind_Inr_iff)
    obtain sz where "H e = Some sz" using k False by auto
    from isrc.release_good [OF D(2) this, of 0] heap_of_free [OF h(1)]
    have g: "isrc.good (heap_of h, H(e := None))" by simp
    have "Q (Cond e) = []" "Q (Barr e) = []"
      using queues_okD'(2,3) [OF D(1), of e] idle by (simp_all add: idle_entry_def dlist_def)
    then show ?thesis using g h(2) False D(3,4) by (cases h) (auto simp: dropped_def)
  qed
qed

lemma inv_destroyed:
  assumes inv: "sched_inv (s, W, H) Q"
    and f: "isrc.good (heap_of (iheap s'), H') \<and> P \<and>
      (\<forall>c. Q (Cond c) \<noteq> [] \<longrightarrow> H' c \<noteq> None) \<and> (\<forall>b. Q (Barr b) \<noteq> [] \<longrightarrow> H' b \<noteq> None)"
    and same: "lks s' = lks s" "activelist s' = activelist s" "conds s' = conds s"
      "barriers s' = barriers s" "entries s' = entries s" "tokenpos s' = tokenpos s"
  shows "sched_inv (s', W, H') Q"
proof -
  have "queues_ok s' Q" by (rule queues_ok_cong [OF same(1-4), THEN iffD2, OF sched_invD(1) [OF inv]])
  then show ?thesis using inv f same by (auto simp: sched_inv_def)
qed

lemma clearSync_eff:
  assumes "clearSyncEntry M pid a s = Inr s1"
  shows "\<exists>m. s1 = s\<lparr>memory := m\<rparr>"
  using assms by (auto simp: clearSyncEntry_def rbind_Inr_iff)

lemma known_entry: "known M pid a s H \<Longrightarrow> getSyncEntry M pid a s = Inr (e, s1) \<Longrightarrow> e = 0 \<or> H e \<noteq> None"
  by (simp add: known_def)

lemma inv_ldestroy:
  assumes inv: "sched_inv (s, W, H) Q" and k: "known M pid l s H" and g: "getSyncEntry M pid l s = Inr (e, s1)"
    and idle: "idle_entry s e" and r: "lock_destroy M pid l s = Inr s'"
  shows "sched_inv (s', W, dropped e H) Q"
proof -
  obtain m s2 where s2: "s2 = s\<lparr>memory := m\<rparr>" "freeSyncEntry e s2 = Inr s'"
    using r g by (auto simp: lock_destroy_def rbind_Inr_iff dest!: getSync_eff clearSync_eff)
  have ih: "iheap s2 = iheap s" by (simp add: s2(1))
  note f = freeSync_ok [OF inv s2(2) ih known_entry [OF k g] idle]
  then obtain h where h: "s' = s2\<lparr>iheap := h\<rparr>" by blast
  show ?thesis by (rule inv_destroyed [OF inv, where P = True]) (use f h s2(1) in auto)
qed

lemma inv_cdestroy:
  assumes inv: "sched_inv (s, W, H) Q" and k: "known M pid c s H"
    and g: "getSyncEntry M pid c (s\<lparr>condnum := condnum s - 1\<rparr>) = Inr (e, s1)"
    and idle: "idle_entry s e" and r: "cond_destroy M pid c s = Inr s'"
  shows "sched_inv (s', W, dropped e H) Q"
proof -
  obtain m s2 where s2: "s2 = s\<lparr>condnum := condnum s - 1, memory := m\<rparr>" "freeSyncEntry e s2 = Inr s'"
    using r g by (auto simp: cond_destroy_def rbind_Inr_iff dest!: getSync_eff clearSync_eff)
  have "getSyncEntry M pid c s = Inr (e, s1\<lparr>condnum := condnum s\<rparr>)"
    using g by (auto simp: getSyncEntry_def rbind_Inr_iff)
  note e = known_entry [OF k this]
  have ih: "iheap s2 = iheap s" by (simp add: s2(1))
  note f = freeSync_ok [OF inv s2(2) ih e idle]
  then obtain h where h: "s' = s2\<lparr>iheap := h\<rparr>" by blast
  show ?thesis by (rule inv_destroyed [OF inv, where P = True]) (use f h s2(1) in auto)
qed

lemma inv_bdestroy:
  assumes inv: "sched_inv (s, W, H) Q" and k: "known M pid bar s H"
    and g: "getSyncEntry M pid bar s = Inr (e, s1)"
    and idle: "idle_entry s e" and r: "barrier_destroy M pid bar s = Inr s'"
  shows "sched_inv (s', W, dropped e H) Q"
proof -
  obtain m m' s2 where s2: "freeSyncEntry e (s\<lparr>memory := m\<rparr>) = Inr s2"
    "s' = s2\<lparr>memory := m', barriernum := barriernum s2 - 1\<rparr>"
    using r g by (auto simp: barrier_destroy_def rbind_Inr_iff dest!: getSync_eff clearSync_eff)
  have ih: "iheap (s\<lparr>memory := m\<rparr>) = iheap s" by simp
  note f = freeSync_ok [OF inv s2(1) ih known_entry [OF k g] idle]
  then obtain h where h: "s2 = s\<lparr>memory := m, iheap := h\<rparr>" by auto
  show ?thesis by (rule inv_destroyed [OF inv, where P = True]) (use f h s2(2) in auto)
qed

lemma cancel_idle:
  assumes "determ_cancel i s = Inr (False, s')" shows "s' = s"
  using assms by (auto simp: determ_cancel_def rbind_Inr_iff Let_def split: threadStatus.splits)

lemma inv_cwake:
  assumes inv: "sched_inv (s, W, H) Q" and j: "W j = InCond" "status (entries s j) = STATUS_READY"
  shows "sched_inv (s, W(j := Running), H) Q"
proof -
  note D = sched_invD [OF inv]
  obtain t where t: "tokenpos s = Some t" "t \<in> set (Q Act)" using inv by (auto simp: sched_inv_def)
  show ?thesis
  proof (rule sched_invI [OF inv, where T = "{j}" and t' = t])
    show "place Q (entries s k) k ((W(j := Running)) k)" if "k \<in> {j}" for k
      using that D(5) [of j] j by simp
  qed (use t D(1-4) j in auto)
qed

lemma sched_inv_step:
  assumes "sched_inv S Q" "sched_step M S S'"
  shows "\<exists>Q'. sched_inv S' Q'"
  using assms(2,1)
proof cases
  case (pass W t s s' H) then show ?thesis using inv_pass assms(1) by blast
next
  case (spawn W t i pid s s' H) then show ?thesis using inv_spawn assms(1) by blast
next
  case (cwait W t s pid c H e s1 l r s') then show ?thesis using inv_cwait assms(1) by blast
next
  case (cwake W j s H) then show ?thesis using inv_cwake assms(1) by blast
next
  case (signal W t pid c s H e s1 s') then show ?thesis using inv_signal assms(1) by blast
next
  case (broadcast W t pid c s H e s1 s') then show ?thesis using inv_broadcast assms(1) by blast
next
  case (binit W t s e s1 pid bar n s' H) then show ?thesis using inv_binit assms(1) by blast
next
  case (bwait W t s pid bar H b s1 s') then show ?thesis using inv_bwait assms(1) by blast
next
  case (blast s W t pid bar H b s1 s')
  then show ?thesis using inv_blast [of s W H Q t M pid bar b s1 s'] assms(1) by simp
next
  case (join_blocks s W t g s' H) then show ?thesis using inv_join_blocks assms(1) by blast
next
  case (join_passes s W t g s' H) then show ?thesis using inv_join_passes assms(1) by blast
next
  case (join_again W j g s s' H) then show ?thesis using inv_join_again assms(1) by blast
next
  case (join_done W j s s' H) then show ?thesis using inv_join_done assms(1) by blast
next
  case (join_lost W j g s s' H) then show ?thesis using inv_join_done assms(1) by blast
next
  case (exit_joined s W t s' H) then show ?thesis using inv_exit_joined assms(1) by blast
next
  case (exit_alone W t s s' H) then show ?thesis using inv_exit_alone assms(1) by blast
next
  case (sleep_signal W t s s' H) then show ?thesis using inv_sleep_signal assms(1) by blast
next
  case (wake_signal W j s r s' H) then show ?thesis using inv_wake_signal assms(1) by blast
next
  case (linit W t pid l s e s' H) then show ?thesis using inv_linit assms(1) by blast
next
  case (acquire pid l s e s1 r s' W H)
  obtain m ls where "s' = s\<lparr>memory := m, locks := ls\<rparr>" using lock_acquire_eff [OF acquire(3-5)] by blast
  then have "sched_inv (s', W, H) Q" using inv_quiet assms(1) acquire(1) by simp
  then show ?thesis using acquire(2) by blast
next
  case (release pid l s s' W H)
  obtain m ls where "s' = s\<lparr>memory := m, locks := ls\<rparr>" using release_eff [OF release(3)] by blast
  then have "sched_inv (s', W, H) Q" using inv_quiet assms(1) release(1) by simp
  then show ?thesis using release(2) by blast
next
  case (start W t s H n) then show ?thesis using inv_start assms(1) by blast
next
  case (ldestroy W t pid l s H e s1 s') then show ?thesis using inv_ldestroy assms(1) by blast
next
  case (cdestroy W t pid c s H e s1 s') then show ?thesis using inv_cdestroy assms(1) by blast
next
  case (bdestroy W t pid bar s H e s1 s') then show ?thesis using inv_bdestroy assms(1) by blast
next
  case (cancel W t i s s' H)
  then show ?thesis using cancel_idle [OF cancel(4)] assms(1) by blast
qed

subsection \<open>Reachable states\<close>

definition zero_entry :: thread_entry where
  "zero_entry = \<lparr>tid = 0, threadindex = 0, status = STATUS_COND_WAITING, tid_parent = 0, te_cond = 0,
     te_barrier = 0, te_wait = 0, joinee_thread_index = 0\<rparr>"

text \<open>The process at \<open>registerMaster\<close>: \<open>mmap\<close> has zeroed the entries, \<open>base\<close> is the internal mapping.\<close>

definition boot :: "int \<Rightarrow> u64 \<Rightarrow> u64 \<Rightarrow> mem \<Rightarrow> 'm \<Rightarrow> xbitmap \<Rightarrow> 'm det res" where
  "boot pid cores base mem mm bm =
     rbind (determ_initialize cores
       (determ_init (\<lambda>_. zero_entry) (\<lambda>_. \<lparr>prev = None, nxt = None\<rparr>) mm
         (kheap_init, \<lparr>cells = mem, source = \<lparr>alreadyMalloced = False, mapped = base\<rparr>\<rparr>) bm))
       (\<lambda>s. registerMaster 0 pid s)"

definition boot_W :: "nat \<Rightarrow> wait_at" where
  "boot_W = (\<lambda>_. Unborn)(0 := Running)"

lemma boot_inv:
  assumes b: "boot pid cores base mem mm bm = Inr s" and base: "isource_inv \<lparr>alreadyMalloced = False, mapped = base\<rparr>"
  shows "\<exists>Q. sched_inv (s, boot_W, Map.empty) Q"
proof -
  let ?s0 = "(determ_init (\<lambda>_. zero_entry) (\<lambda>_. \<lparr>prev = None, nxt = None\<rparr>) mm
    (kheap_init, \<lparr>cells = mem, source = \<lparr>alreadyMalloced = False, mapped = base\<rparr>\<rparr>) bm)\<lparr>coresNumb := cores\<rparr>"
  have "qhead ?s0 q = None" for q by (cases q) (simp_all add: determ_init_def)
  then have q0: "queues_ok ?s0 (\<lambda>_. [])" by (simp add: queues_ok_def determ_init_def)
  obtain s1 where s1: "registerThread 0 pid 0 ?s0 = Inr s1"
    "s = s1\<lparr>maxthreads := 1, alivethreads := 1, is_arrival_phase := True\<rparr>"
    using b by (auto simp: boot_def registerMaster_def rbind_Inr_iff determ_initialize_def split: if_splits)
  let ?Q = "(\<lambda>_. [])(Act := [0])"
  have e: "queues_ok s1 ?Q" "tokenpos s1 = Some 0"
    "entries s1 = (entries ?s0)(0 := (entries ?s0 0)\<lparr>tid := pid, threadindex := 0, te_wait := 0,
      tid_parent := 0, status := STATUS_READY\<rparr>)"
    using registerThread_spec [OF q0, of 0 pid 0] s1(1) by (auto simp: determ_init_def)
  have ih: "iheap s1 = iheap ?s0"
    using s1(1) by (auto simp: registerThread_def Let_def rbind_Inr_iff)
  have "heap_of (iheap ?s0) = fresh mem \<lparr>alreadyMalloced = False, mapped = base\<rparr>"
    by (simp add: heap_of_def fresh_def determ_init_def fun_upd_idem)
  then have "isrc.good (heap_of (iheap s1), Map.empty)" using isrc.fresh_good [OF base] ih by simp
  moreover have "place ?Q (entries s1 j) j (boot_W j)" for j
    using e(3) by (auto simp: boot_W_def nowhere_def zero_entry_def determ_init_def)
  ultimately have "sched_inv (s, boot_W, Map.empty) ?Q"
    using e s1(2) by (auto simp: sched_inv_def boot_W_def)
  then show ?thesis by blast
qed

lemma reach_inv:
  assumes "(sched_step M)\<^sup>*\<^sup>* (s0, boot_W, Map.empty) S" "boot pid cores base mem mm bm = Inr s0"
    "isource_inv \<lparr>alreadyMalloced = False, mapped = base\<rparr>"
  shows "\<exists>Q. sched_inv S Q"
  using assms(1)
proof (induction rule: rtranclp_induct)
  case base then show ?case by (rule boot_inv [OF assms(2,3)])
next
  case (step T T') then show ?case using sched_inv_step by blast
qed

end
