(* ===== verification/Determ_Props.thy ===== *)
theory Determ_Props
  imports Determ_Sched
begin

text \<open>
  The properties of the scheduler: the invariant of its reachable states, the rotation of the token,
  what each operation does to the queues, the ownership budget of a lock, and the runs in which the
  code loses a thread or a lock. \<open>flat\<close> and \<open>demo\<close> are a concrete memory and a concrete scheduler
  state in which the hypotheses of these theorems hold.
\<close>

subsection \<open>A concrete memory and state\<close>

definition flat :: "(u64 \<Rightarrow> u64) memops" where
  "flat = \<lparr>m_read = (\<lambda>m pid a. Inr (m a, m)), m_write = (\<lambda>m pid a v. Inr (m(a := v))),
     m_mem_write = (\<lambda>m a v. Inr (m(a := v))), m_begin = (\<lambda>m pid. Inr m)\<rparr>"

text \<open>Threads 0 and 1 in the ring, the token at 0; 2 and 3 wait on entry 64, 4 on barrier entry 128.\<close>

definition demo_links :: links where
  "demo_links = (\<lambda>i. if i = 0 then \<lparr>prev = Some 1, nxt = Some 1\<rparr>
     else if i = 1 then \<lparr>prev = Some 0, nxt = Some 0\<rparr>
     else if i = 2 then \<lparr>prev = Some 3, nxt = Some 3\<rparr>
     else if i = 3 then \<lparr>prev = Some 2, nxt = Some 2\<rparr>
     else \<lparr>prev = Some i, nxt = Some i\<rparr>)"

definition demo_entries :: "nat \<Rightarrow> thread_entry" where
  "demo_entries i = \<lparr>tid = 100 + int i, threadindex = i,
     status = (if i < 2 then STATUS_READY else if i < 4 then STATUS_COND_WAITING
               else if i = 4 then STATUS_BARR_WAITING else if i = 5 then STATUS_JOINING else STATUS_EXIT),
     tid_parent = (if i = 0 then 5 else 0), te_cond = (if i = 2 \<or> i = 3 then 64 else 0),
     te_barrier = (if i = 4 then 128 else 0), te_wait = 0, joinee_thread_index = 0\<rparr>"

definition demo :: "(u64 \<Rightarrow> u64) det" where
  "demo = (determ_init demo_entries demo_links (\<lambda>a. if a = 8 then 64 else if a = 16 then 128 else 0)
     (kheap_init, \<lparr>cells = (\<lambda>_. 0), source = \<lparr>alreadyMalloced = False, mapped = 4096\<rparr>\<rparr>)
     \<lparr>bm_total = 81920, bm_cur = 1, bm_mem = (\<lambda>_. 0)\<rparr>)
     \<lparr>activelist := Some 0, tokenpos := Some 0, maxthreads := 2, alivethreads := 6, coresNumb := 4,
      is_arrival_phase := True,
      conds := (\<lambda>c. if c = 64 then \<lparr>waiters = 2, ce_cond = 8, ce_head = Some 2\<rparr>
                    else \<lparr>waiters = 0, ce_cond = 0, ce_head = None\<rparr>),
      barriers := (\<lambda>b. if b = 128 then \<lparr>be_maxthreads = 2, be_threads = 1, arrival_phase = True,
                                     orig_barr = 16, be_head = Some 4\<rparr>
                       else \<lparr>be_maxthreads = 0, be_threads = 0, arrival_phase = False, orig_barr = 0,
                             be_head = None\<rparr>)\<rparr>"

definition demoQ :: "qid \<Rightarrow> nat list" where
  "demoQ = (\<lambda>_. [])(Act := [0, 1], Cond 64 := [2, 3], Barr 128 := [4])"

lemma demo_ok: "queues_ok demo demoQ"
proof -
  have r: "ring demo_links [0, 1]" "ring demo_links [2, 3]" "ring demo_links [4]"
    by (simp_all add: ring_def demo_links_def)
  have "dlist demo_links (qhead demo q) (demoQ q)" for q
    using r by (cases q) (simp_all add: demo_def determ_init_def demoQ_def dlist_def)
  moreover have "set (demoQ q) \<inter> set (demoQ r) = {}" if "q \<noteq> r" for q r
    using that by (auto simp: demoQ_def split: if_splits)
  moreover have "set (demoQ q) \<subseteq> {..<2048}" for q by (auto simp: demoQ_def)
  ultimately show ?thesis
    unfolding queues_ok_def by (auto simp: demo_def determ_init_def demoQ_def)
qed

lemma demo_fields:
  "tokenpos demo = Some 0" "entries demo = demo_entries" "alivethreads demo = 6" "demoQ Act = [0, 1]"
  "demoQ (Cond 64) = [2, 3]" "demoQ (Barr 128) = [4]" "lks demo = demo_links"
  "getSyncEntry flat pid 8 demo = Inr (64, demo)" "getSyncEntry flat pid 16 demo = Inr (128, demo)"
  "cond_lookup flat pid 8 demo = Inr (64, demo)"
  by (simp_all add: demo_def determ_init_def demoQ_def getSyncEntry_def cond_lookup_def flat_def)

subsection \<open>The invariant and the token\<close>


lemma boot_example: "\<exists>s0. boot 7 4 4096 (\<lambda>_. 0) (\<lambda>_ :: u64. 0 :: u64) bm = Inr s0 \<and> tokenpos s0 = Some 0"
  by (simp add: boot_def determ_initialize_def registerMaster_def registerThread_def Let_def
      determ_init_def insertTail_def)



fun put_tokens :: "nat \<Rightarrow> 'm det \<Rightarrow> 'm det res" where
  "put_tokens 0 s = Inr s"
| "put_tokens (Suc n) s =
     rbind (deref (tokenpos s)) (\<lambda>t. rbind (putToken (threadindex (entries s t)) s) (put_tokens n))"

lemma linked_nth: "linked h xs \<Longrightarrow> Suc n < length xs \<Longrightarrow> nxt (h (xs ! n)) = Some (xs ! Suc n)"
  by (induction h xs arbitrary: n rule: linked.induct) (auto simp: nth_Cons split: nat.splits)

lemma ring_nth:
  assumes "ring h xs" "n < length xs"
  shows "nxt (h (xs ! n)) = Some (xs ! (Suc n mod length xs))"
proof -
  have "nxt (h ((xs @ [hd xs]) ! n)) = Some ((xs @ [hd xs]) ! Suc n)"
    using assms by (intro linked_nth) (auto simp: ring_def)
  moreover have "xs \<noteq> []" using assms by auto
  ultimately show ?thesis using assms(2)
    by (cases "Suc n = length xs") (auto simp: nth_append hd_conv_nth)
qed

lemma put_tokens_rot:
  assumes r: "ring (lks s) xs"
  shows "k < length xs \<Longrightarrow> tokenpos s = Some (xs ! k) \<Longrightarrow>
    put_tokens n s = Inr (s\<lparr>tokenpos := Some (xs ! ((k + n) mod length xs))\<rparr>)"
  using r
proof (induction n arbitrary: s k)
  case 0
  then have "s\<lparr>tokenpos := Some (xs ! k)\<rparr> = s" by simp
  moreover have "xs \<noteq> []" using 0 by auto
  ultimately show ?case using 0 by simp
next
  case (Suc n)
  let ?k = "Suc k mod length xs"
  have lt: "?k < length xs" using Suc.prems(1) by (intro mod_less_divisor) linarith
  have "put_tokens (Suc n) s = put_tokens n (s\<lparr>tokenpos := Some (xs ! ?k)\<rparr>)"
    using Suc.prems ring_nth [OF Suc.prems(3,1)] by (simp add: deref_def putToken_def)
  also have "\<dots> = Inr (s\<lparr>tokenpos := Some (xs ! ((?k + n) mod length xs))\<rparr>)"
    using Suc.IH [OF lt, of "s\<lparr>tokenpos := Some (xs ! ?k)\<rparr>"] Suc.prems(3) by simp
  also have "(?k + n) mod length xs = (k + Suc n) mod length xs" by (simp add: mod_add_left_eq)
  finally show ?case .
qed

text \<open>
  C11: The token rotates in ring order: \<open>n\<close> calls of \<open>putToken\<close> move it from the thread at place \<open>k\<close> of the
  ring to the one at place \<open>k + n\<close>, counted around the ring, and change nothing else; so every active
  thread gets it within as many calls as there are active threads.
\<close>

theorem token_round_robin:
  assumes "queues_ok s Q" "k < length (Q Act)" "tokenpos s = Some (Q Act ! k)"
  shows "put_tokens n s = Inr (s\<lparr>tokenpos := Some (Q Act ! ((k + n) mod length (Q Act)))\<rparr>) \<and>
    (\<forall>j\<in>set (Q Act). \<exists>m<length (Q Act). \<exists>s'. put_tokens m s = Inr s' \<and> tokenpos s' = Some j)"
proof -
  let ?L = "length (Q Act)"
  have "Q Act \<noteq> []" using assms(2) by auto
  then have r: "ring (lks s) (Q Act)" using dlist_ring [OF queues_okD'(1) [OF assms(1)]] by simp
  note p = put_tokens_rot [OF r assms(2,3)]
  have "\<exists>m<?L. \<exists>s'. put_tokens m s = Inr s' \<and> tokenpos s' = Some j" if j: "j \<in> set (Q Act)" for j
  proof -
    obtain i where i: "i < ?L" "Q Act ! i = j" using j by (auto simp: in_set_conv_nth)
    have "(?L + i - k) mod ?L < ?L" using assms(2) by (intro mod_less_divisor) linarith
    moreover have "(k + (?L + i - k) mod ?L) mod ?L = i" using assms(2) i(1) by (simp add: mod_add_right_eq)
    then have "put_tokens ((?L + i - k) mod ?L) s = Inr (s\<lparr>tokenpos := Some j\<rparr>)"
      using p [of "(?L + i - k) mod ?L"] i(2) by simp
    ultimately show ?thesis by (metis det.select_convs(9) det.surjective det.update_convs(9))
  qed
  then show ?thesis using p by blast
qed

theorem token_round_robin_witness:
  "put_tokens 3 demo = Inr (demo\<lparr>tokenpos := Some 1\<rparr>)"
proof -
  have "(3::nat) mod Suc (Suc 0) = 1" by presburger
  then show ?thesis using token_round_robin [OF demo_ok, of 0 3] by (simp add: demo_fields del: put_tokens.simps)
qed

subsection \<open>What the operations do to the queues\<close>

text \<open>
  \<open>cond_wait\<close> takes the caller out of the token ring, appends it to the queue of the condition
  variable, passes the token to its successor, takes one thread off the fence and puts it to sleep.
\<close>

lemma cond_wait_refines:
  assumes "cond_lookup M pid cond s = Inr (c, s1)" "queues_ok s1 Q" "i \<in> set (Q Act)"
    and "cond_wait_enter M pid i cond l s = Inr (r, s')"
  shows "r \<and> queues_ok s' (Q(Act := remove1 i (Q Act), Cond c := Q (Cond c) @ [i])) \<and>
    tokenpos s' = Some (succ_in (Q Act) i) \<and> maxthreads s' = maxthreads s1 - 1 \<and>
    status (entries s' i) = STATUS_COND_WAITING"
proof -
  obtain s2 where s2: "cond_wait_queue i c s1 = Inr s2"
    "queues_ok s2 (Q(Act := remove1 i (Q Act), Cond c := Q (Cond c) @ [i]))"
    "tokenpos s2 = Some (succ_in (Q Act) i)" "maxthreads s2 = maxthreads s1 - 1"
    "entries s2 = (entries s1)(i := (entries s1 i)\<lparr>te_cond := c, status := STATUS_COND_WAITING\<rparr>)"
    using cond_wait_queue_spec [OF assms(2,3), of c] by auto
  have "cond_wait_loop M pid i l s2 = Inr (r, s')"
    using assms(1,4) s2(1) by (simp add: cond_wait_enter_def)
  then obtain m ls where "r" "s' = s2\<lparr>memory := m, locks := ls\<rparr>"
    using s2(5) by (auto simp: cond_wait_loop_def rbind_Inr_iff dest!: release_eff)
  then show ?thesis using s2 by simp
qed

theorem cond_wait_refines_witness:
  "\<exists>s'. cond_wait_enter flat 100 0 8 16 demo = Inr (True, s') \<and>
     queues_ok s' (demoQ(Act := [1], Cond 64 := [2, 3, 0])) \<and> tokenpos s' = Some 1"
proof -
  obtain s2 where s2: "cond_wait_queue 0 64 demo = Inr s2" "memory s2 = memory demo"
    "entries s2 = (entries demo)(0 := (entries demo 0)\<lparr>te_cond := 64, status := STATUS_COND_WAITING\<rparr>)"
    using cond_wait_queue_spec [OF demo_ok, of 0 64] by (auto simp: demo_fields)
  then have "\<exists>s'. cond_wait_enter flat 100 0 8 16 demo = Inr (True, s')"
    by (simp add: cond_wait_enter_def demo_fields cond_wait_loop_def lock_release_def getSyncEntry_def
        nonnull_def) (simp add: flat_def demo_def determ_init_def)
  then obtain s' where r: "cond_wait_enter flat 100 0 8 16 demo = Inr (True, s')" by blast
  from cond_wait_refines [OF demo_fields(10) demo_ok _ r] r show ?thesis
    by (simp add: demo_fields succ_in_def)
qed

text \<open>
  C25: \<open>cond_signal\<close> wakes the thread that has waited longest, puts it directly behind the thread that
  holds the token, and puts it back on the fence.
\<close>

theorem cond_signal_refines:
  assumes "cond_lookup M pid cond s = Inr (c, s1)" "queues_ok s1 Q" "tokenpos s1 = Some t"
    "t \<in> set (Q Act)" "Q (Cond c) = e # es"
  shows "\<exists>s'. cond_signal M pid cond s = Inr s' \<and>
    queues_ok s' (Q(Act := insert_behind t [e] (Q Act), Cond c := es)) \<and>
    succ_in (insert_behind t [e] (Q Act)) t = e \<and> tokenpos s' = Some t \<and>
    maxthreads s' = maxthreads s1 + 1 \<and> status (entries s' e) = STATUS_READY"
proof -
  obtain us vs where u: "Q Act = us @ t # vs" "t \<notin> set us" using assms(4) by (meson split_list_first)
  then have "succ_in (insert_behind t [e] (Q Act)) t = e"
    by (simp add: insert_behind_split succ_in_split)
  with cond_signal_spec [OF assms] show ?thesis by fastforce
qed

theorem cond_signal_refines_witness:
  "\<exists>s'. cond_signal flat 100 8 demo = Inr s' \<and>
     queues_ok s' (demoQ(Act := [0, 2, 1], Cond 64 := [3])) \<and> tokenpos s' = Some 0"
  using cond_signal_refines [OF demo_fields(10) demo_ok demo_fields(1), where pid = 100 and e = 2 and es = "[3]"]
  by (auto simp: demo_fields insert_behind_def)

text \<open>
  \<open>cond_broadcast\<close> moves all waiters, in the order they came, behind the thread that holds the
  token, and counts them on the fence again.
\<close>

lemma cond_broadcast_refines:
  assumes "cond_lookup M pid cond s = Inr (c, s1)" "queues_ok s1 Q" "tokenpos s1 = Some t"
    "t \<in> set (Q Act)"
  shows "\<exists>s'. cond_broadcast M pid cond s = Inr s' \<and>
    queues_ok s' (Q(Act := insert_behind t (Q (Cond c)) (Q Act), Cond c := [])) \<and>
    tokenpos s' = Some t \<and> maxthreads s' = maxthreads s1 + of_nat (length (Q (Cond c))) \<and>
    (\<forall>e\<in>set (Q (Cond c)). status (entries s' e) = STATUS_READY)"
proof (cases "Q (Cond c) = []")
  case True
  obtain us vs where u: "Q Act = us @ t # vs" "t \<notin> set us" using assms(4) by (meson split_list_first)
  have "Q(Act := insert_behind t [] (Q Act), Cond c := []) = Q"
    using u True by (auto simp: insert_behind_split fun_eq_iff)
  then show ?thesis
    using True assms of_nat_length_0 [OF assms(2), of c] by (simp add: cond_broadcast_def)
next
  case False
  from cond_broadcast_spec [OF assms False] show ?thesis by (auto simp: mark_ready_def)
qed

lemma cond_broadcast_refines_witness:
  "\<exists>s'. cond_broadcast flat 100 8 demo = Inr s' \<and>
     queues_ok s' (demoQ(Act := [0, 2, 3, 1], Cond 64 := [])) \<and> tokenpos s' = Some 0"
  using cond_broadcast_refines [OF demo_fields(10) demo_ok demo_fields(1), where pid = 100]
  by (auto simp: demo_fields insert_behind_def)

text \<open>
  The last thread to reach a barrier puts all waiting threads, in their order of arrival, behind
  itself in the ring, passes the token to the first of them and restores the fence; an earlier one
  leaves the ring for the queue of the barrier.
\<close>

lemma barrier_refines:
  assumes "queues_ok s Q" "tokenpos s = Some i" "i \<in> set (Q Act)" "b \<noteq> 0"
    and "be_maxthreads (barriers s b) = of_nat n" "0 < n" "n < 2 ^ 64" "length (Q (Barr b)) < n"
  shows "\<exists>l s'. barrier_wait_section b i s = Inr (l, s') \<and> l = (Suc (length (Q (Barr b))) = n) \<and>
    (if l then
       queues_ok s' (Q(Act := insert_behind i (Q (Barr b)) (Q Act), Barr b := [])) \<and>
       tokenpos s' = Some (succ_in (insert_behind i (Q (Barr b)) (Q Act)) i) \<and>
       maxthreads s' = maxthreads s + of_nat (n - 1)
     else
       queues_ok s' (Q(Act := remove1 i (Q Act), Barr b := Q (Barr b) @ [i])) \<and>
       tokenpos s' = Some (succ_in (Q Act) i) \<and> maxthreads s' = maxthreads s - 1)"
proof (cases "Suc (length (Q (Barr b))) = n")
  case True
  have "be_threads (barriers s b) + 1 = be_maxthreads (barriers s b)"
    using True assms(5) queues_okD(7) [OF assms(1), of b] by (simp flip: True)
  from barrier_last_spec [OF assms(4,1,3,2) this] True show ?thesis by fastforce
next
  case False
  have "be_threads (barriers s b) + 1 \<noteq> be_maxthreads (barriers s b)"
  proof
    assume "be_threads (barriers s b) + 1 = be_maxthreads (barriers s b)"
    then have "(of_nat (Suc (length (Q (Barr b)))) :: u64) = of_nat n"
      using assms(5) queues_okD(7) [OF assms(1), of b] by (simp add: add.commute)
    then have "unat (of_nat (Suc (length (Q (Barr b)))) :: u64) = unat (of_nat n :: u64)" by simp
    then have "Suc (length (Q (Barr b))) mod 2 ^ 64 = n mod 2 ^ 64"
      unfolding unsigned_of_nat take_bit_nat_def by simp
    then show False using False assms(7,8) by simp
  qed
  from barrier_block_spec [OF assms(4,1,3) this] False show ?thesis by fastforce
qed

theorem barrier_refines_witness:
  "\<exists>s'. barrier_wait_section 128 0 demo = Inr (True, s') \<and>
     queues_ok s' (demoQ(Act := [0, 4, 1], Barr 128 := [])) \<and> tokenpos s' = Some 4"
proof -
  have "be_maxthreads (barriers demo 128) = of_nat 2" by (simp add: demo_def)
  from barrier_refines [OF demo_ok demo_fields(1) _ _ this] show ?thesis
    by (auto simp: demo_fields insert_behind_def succ_in_def)
qed

text \<open>
  C26: When a thread exits while its parent joins it, the parent takes its place in the ring and gets
  the token; in every other case the token passes to the next thread of the ring.
\<close>

theorem exit_refines:
  assumes "queues_ok s Q" "i \<in> set (Q Act)" "tokenpos s = Some i" "0 < alivethreads s"
    and "p = tid_parent (entries s i)" "\<And>q. p \<notin> set (Q q) \<or> status (entries s p) \<noteq> STATUS_JOINING" "p < 2048"
  shows "\<exists>s'. deregisterThread i s = Inr s' \<and> status (entries s' i) = STATUS_EXIT \<and>
    maxthreads s' = maxthreads s - 1 \<and> alivethreads s' = alivethreads s - 1 \<and>
    (if status (entries s p) = STATUS_JOINING \<and> joinee_thread_index (entries s p) = i
     then queues_ok s' (Q(Act := map (\<lambda>x. if x = i then p else x) (Q Act))) \<and> tokenpos s' = Some p
     else queues_ok s' (Q(Act := remove1 i (Q Act))) \<and> tokenpos s' = Some (succ_in (Q Act) i))"
proof (cases "status (entries s p) = STATUS_JOINING \<and> joinee_thread_index (entries s p) = i")
  case True
  then have "p \<notin> set (Q q)" for q using assms(6) [of q] by auto
  from deregister_join_spec [OF assms(1-3,5) _ _ this assms(7,4)] True show ?thesis by fastforce
next
  case False
  from deregister_spec [OF assms(1,2) _ assms(4)] False assms(5) show ?thesis by fastforce
qed

theorem exit_refines_witness:
  "\<exists>s'. deregisterThread 0 demo = Inr s' \<and> queues_ok s' (demoQ(Act := [5, 1])) \<and> tokenpos s' = Some 5"
proof -
  have "5 \<notin> set (demoQ q)" for q by (auto simp: demoQ_def)
  with exit_refines [OF demo_ok, of 0 5] show ?thesis
    by (auto simp: demo_fields demo_entries_def)
qed

subsection \<open>Locks\<close>

text \<open>\<open>n\<close> rounds of acquiring and releasing by one process while other threads work.\<close>

fun owner_cycles :: "nat \<Rightarrow> int \<Rightarrow> lock_entry \<Rightarrow> bool list \<times> lock_entry" where
  "owner_cycles 0 pid l = ([], l)"
| "owner_cycles (Suc n) pid l =
     (let (r, l1) = lock_take pid False l; (rs, l2) = owner_cycles n pid (l1\<lparr>is_acquired := False\<rparr>)
      in (r # rs, l2))"

lemma owner_cycles_budget:
  "total_users l = 1 \<Longrightarrow> last_thread l = pid \<Longrightarrow> \<not> is_acquired l \<Longrightarrow> lock_budget l = int b \<Longrightarrow>
    1 \<le> b \<Longrightarrow> b \<le> 10 \<Longrightarrow> k < n \<Longrightarrow>
    fst (owner_cycles n pid l) ! k = ((k + 11 - b) mod 10 \<noteq> 0)"
proof (induction n arbitrary: l b k)
  case (Suc n)
  define l1 where "l1 = (snd (lock_take pid False l))\<lparr>is_acquired := False\<rparr>"
  define c where "c = (if b = 1 then 10 else b - 1)"
  have l1: "total_users l1 = 1" "last_thread l1 = pid" "\<not> is_acquired l1" "lock_budget l1 = int c"
    "fst (lock_take pid False l) = (b \<noteq> 1)" "1 \<le> c" "c \<le> 10"
    using Suc.prems by (auto simp: l1_def c_def lock_take_def Let_def LOCK_OWNER_BUDGET_def)
  have oc: "fst (owner_cycles (Suc n) pid l) = (b \<noteq> 1) # fst (owner_cycles n pid l1)"
    using l1(5) by (simp add: l1_def case_prod_unfold Let_def)
  show ?case
  proof (cases k)
    case 0
    have "(11 - b) mod 10 \<noteq> 0 \<longleftrightarrow> b \<noteq> 1" using Suc.prems(5,6) by presburger
    then show ?thesis using 0 oc by simp
  next
    case (Suc j)
    have "fst (owner_cycles n pid l1) ! j = ((j + 11 - c) mod 10 \<noteq> 0)"
      using Suc.IH [of l1 c j] l1 Suc Suc.prems(7) by simp
    moreover have "(j + 11 - c) mod 10 = (k + 11 - b) mod 10"
    proof (cases "b = 1")
      case True
      have "(Suc j + 11 - 1) mod 10 = ((j + 1) + 10) mod 10" by simp
      also have "\<dots> = (j + 1) mod 10" by (rule mod_add_self2)
      finally show ?thesis using True Suc by (simp add: c_def)
    next
      case False
      then have "j + 11 - c = k + 11 - b" using Suc.prems(5,6) Suc by (simp add: c_def)
      then show ?thesis by simp
    qed
    ultimately show ?thesis using Suc oc by simp
  qed
qed simp

text \<open>
  The first user of a lock owns it for ten rounds at a time: while other threads work, every tenth
  of its later acquisitions is refused, and no other.
\<close>

lemma owner_budget:
  assumes "total_users l = 0" "\<not> is_acquired l" "k < n"
  shows "fst (owner_cycles n pid l) ! k = (k = 0 \<or> k mod 10 \<noteq> 0)"
proof -
  obtain m where m: "n = Suc m" using assms(3) by (cases n) auto
  define l1 where "l1 = l\<lparr>last_thread := pid, total_users := 1, lock_budget := 10, is_acquired := False\<rparr>"
  have oc: "fst (owner_cycles n pid l) = True # fst (owner_cycles m pid l1)"
    using assms(1,2) by (simp add: m l1_def lock_take_def Let_def LOCK_OWNER_BUDGET_def case_prod_unfold)
  show ?thesis
  proof (cases k)
    case (Suc j)
    have "fst (owner_cycles m pid l1) ! j = ((j + 11 - 10) mod 10 \<noteq> 0)"
      by (rule owner_cycles_budget) (use Suc m assms(3) in \<open>auto simp: l1_def\<close>)
    then show ?thesis using Suc oc by simp
  qed (simp add: oc)
qed

lemma owner_budget_witness:
  "fst (owner_cycles 11 100 (locks demo 64)) ! 10 = False \<and>
   fst (owner_cycles 11 100 (locks demo 64)) ! 9 = True"
  using owner_budget [of "locks demo 64" 10 11 100] owner_budget [of "locks demo 64" 9 11 100]
  by (simp add: demo_def determ_init_def)

text \<open>
  The lock whose user object \<open>l\<close> has the entry \<open>e\<close>, used by any number of processes through the calls of
  \<^verbatim>\<open>determ.h\<close>. The second component is the process whose last \<open>lock_acquire\<close> succeeded and that has not
  released since; \<open>drop_lock\<close> lets only that process release. \<open>elsewhere\<close> is any other work of the
  program: it may change the whole state but this entry.
\<close>

inductive lock_step :: "'m memops \<Rightarrow> u64 \<Rightarrow> u64 \<Rightarrow> 'm det \<times> int option \<Rightarrow> 'm det \<times> int option \<Rightarrow> bool"
  for M :: "'m memops" and l e :: u64 where
  take_lock: "lock_step M l e (s, h) (s', if r then Some p else h)"
    if "getSyncEntry M p l s = Inr (e, s1)" "e \<noteq> 0" "lock_acquire M p l s = Inr (r, s')"
| first_use: "lock_step M l e (s, None) (s', if r then Some p else None)"
    if "getSyncEntry M p l s = Inr (0, s1)" "lock_init M p l s1 = Inr (e, s2)"
      "lock_acquire M p l s = Inr (r, s')"
| drop_lock: "lock_step M l e (s, Some p) (s', None)"
    if "getSyncEntry M p l s = Inr (e, s1)" "lock_release M p l s = Inr s'"
| ask_owner: "lock_step M l e (s, h) (s', h)"
    if "getSyncEntry M p l s = Inr (e, s1)" "lock_isowner M p l s = Inr (b, s')"
| elsewhere: "lock_step M l e (s, h) (s', h)"
    if "locks s' e = locks s e"

lemma lock_acquire_at:
  assumes "getSyncEntry M p l s = Inr (e, s1)" "e \<noteq> 0" "lock_acquire M p l s = Inr (r, s')"
  shows "lock_take p (isSingleWorkingThread s) (locks s e) = (r, locks s' e)"
proof -
  obtain m where s1: "s1 = s\<lparr>memory := m\<rparr>" using getSync_eff [OF assms(1)] by blast
  show ?thesis
    using assms by (auto simp: lock_acquire_def s1 isSingleWorkingThread_def case_prod_unfold Let_def prod_eq_iff)
qed

lemma lock_acquire_first:
  assumes "getSyncEntry M p l s = Inr (0, s1)" "lock_init M p l s1 = Inr (e, s2)"
    "lock_acquire M p l s = Inr (r, s')"
  shows "lock_take p (isSingleWorkingThread s2) (locks s2 e) = (r, locks s' e)"
  using assms by (auto simp: lock_acquire_def case_prod_unfold Let_def prod_eq_iff)

lemma lock_release_at:
  assumes "getSyncEntry M p l s = Inr (e, s1)" "lock_release M p l s = Inr s'"
  shows "locks s' e = (locks s e)\<lparr>is_acquired := False\<rparr>"
  using assms getSync_eff [OF assms(1)] by (auto simp: lock_release_def rbind_Inr_iff)

lemma lock_isowner_at:
  assumes "getSyncEntry M p l s = Inr (e, s1)" "lock_isowner M p l s = Inr (b, s')"
  shows "is_acquired (locks s' e) = is_acquired (locks s e)"
  using assms getSync_eff [OF assms(1)] by (auto simp: lock_isowner_def split: if_splits)

lemma lock_take_acquired:
  "is_acquired (snd (lock_take p single l)) \<longleftrightarrow> is_acquired l \<or> fst (lock_take p single l)"
  "fst (lock_take p single l) \<Longrightarrow> \<not> is_acquired l"
  by (auto simp: lock_take_def Let_def)

lemma lock_take_True:
  assumes "lock_take p single l = (True, l')"
  shows "is_acquired l'" "total_users l' \<noteq> 0" "total_users l' = 1 \<Longrightarrow> last_thread l' = p"
  using assms by (auto simp: lock_take_def Let_def split: if_splits)

lemma lock_step_inv:
  assumes "lock_step M l e S S'" "is_acquired (locks (fst S) e) \<longleftrightarrow> snd S \<noteq> None"
  shows "is_acquired (locks (fst S') e) \<longleftrightarrow> snd S' \<noteq> None"
  using assms
proof cases
  case (take_lock p s s1 r s' h)
  then show ?thesis
    using lock_acquire_at [OF take_lock(3-5)] assms(2)
      lock_take_acquired [of p "isSingleWorkingThread s" "locks s e"] by (cases r) auto
next
  case (first_use p s s1 s2 r s')
  have "\<not> is_acquired (locks s2 e)"
    using first_use(4) by (auto simp: lock_init_def rbind_Inr_iff Let_def dest!: setSync_eff)
  then show ?thesis
    using lock_acquire_first [OF first_use(3-5)] first_use(2)
      lock_take_acquired(1) [of p "isSingleWorkingThread s2" "locks s2 e"] by (cases r) auto
next
  case (drop_lock p s s1 s')
  then show ?thesis using lock_release_at [OF drop_lock(3,4)] by simp
next
  case (ask_owner p s s1 b s' h)
  then show ?thesis using lock_isowner_at [OF ask_owner(3,4)] assms(2) by simp
next
  case (elsewhere s' s h)
  then show ?thesis using assms(2) by simp
qed

text \<open>
  C27: Locks exclude each other: however the processes interleave \<open>lock_acquire\<close>, \<open>lock_release\<close>,
  \<open>lock_isowner\<close> and other work, as long as only the holder of a lock releases it, \<open>is_acquired\<close> of its
  entry says whether somebody holds it, and an acquisition by anybody succeeds only when nobody does.
\<close>

theorem lock_exclusion:
  assumes "(lock_step M l e)\<^sup>*\<^sup>* (s0, None) (s, h)" "\<not> is_acquired (locks s0 e)"
    and "getSyncEntry M p l s = Inr (e, s1)" "e \<noteq> 0" "lock_acquire M p l s = Inr (r, s')"
  shows "(is_acquired (locks s e) \<longleftrightarrow> h \<noteq> None) \<and> (r \<longrightarrow> h = None)"
proof -
  have "is_acquired (locks (fst S) e) \<longleftrightarrow> snd S \<noteq> None" if "(lock_step M l e)\<^sup>*\<^sup>* (s0, None) S" for S
    using that
  proof (induction rule: rtranclp_induct)
    case base then show ?case using assms(2) by simp
  next
    case (step S S') then show ?case using lock_step_inv by blast
  qed
  from this [OF assms(1)] show ?thesis
    using lock_acquire_at [OF assms(3-5)] lock_take_acquired(2) [of p "isSingleWorkingThread s" "locks s e"]
    by auto
qed

lemma demo_takes:
  "lock_acquire flat p 8 demo = Inr (True, upd_lock 64 (\<lambda>_. snd (lock_take p False (locks demo 64))) demo)"
  by (simp add: lock_acquire_def demo_fields isSingleWorkingThread_def case_prod_unfold Let_def)
    (simp add: demo_def determ_init_def lock_take_def Let_def)

text \<open>Process 100 takes the lock of the object at 8, and process 101 is refused.\<close>

theorem lock_exclusion_witness:
  "\<exists>s r s'. lock_acquire flat 100 8 demo = Inr (True, s) \<and> lock_acquire flat 101 8 s = Inr (r, s') \<and> \<not> r"
proof -
  let ?s = "upd_lock 64 (\<lambda>_. snd (lock_take 100 False (locks demo 64))) demo"
  have "lock_step flat 8 64 (demo, None) (?s, if True then Some 100 else None)"
    by (rule lock_step.take_lock [OF demo_fields(8) _ demo_takes]) simp
  then have st: "(lock_step flat 8 64)\<^sup>*\<^sup>* (demo, None) (?s, Some 100)" by auto
  have na: "\<not> is_acquired (locks demo 64)" by (simp add: demo_def determ_init_def)
  have g: "getSyncEntry flat 101 8 ?s = Inr (64, ?s)"
    by (simp add: getSyncEntry_def flat_def demo_def determ_init_def)
  then obtain r s' where r: "lock_acquire flat 101 8 ?s = Inr (r, s')"
    by (auto simp: lock_acquire_def case_prod_unfold Let_def)
  from lock_exclusion [OF st na g _ r] have "\<not> r" by simp
  then show ?thesis using demo_takes [of 100] r by blast
qed

subsection \<open>Runs the code gets wrong\<close>

text \<open>
  C38: A mutex that a thread holds is freed by another: process \<open>p\<close> acquires the mutex and signals the
  condition variable, which puts the first waiter \<open>x\<close> back to work; the broadcast behind the signal
  wakes another waiter \<open>y\<close> too, and its loop, before it goes back to sleep, releases the mutex that \<open>p\<close> holds;
  a third process then acquires it while \<open>p\<close> has not released it.
\<close>

theorem wakeup_frees_foreign_lock:
  assumes "queues_ok s Q" "tokenpos s = Some t" "t \<in> set (Q Act)" "Q (Cond c) = x # xs" "y \<in> set xs"
    and "status (entries s y) = STATUS_COND_WAITING" "c \<noteq> 0" "e \<noteq> 0"
    and mem: "\<And>pid. m_read M (memory s) pid cnd = Inr (c, memory s)"
      "\<And>pid. m_read M (memory s) pid l = Inr (e, memory s)"
    and acq: "lock_acquire M p l s = Inr (True, s1)" and third: "p' \<noteq> p"
  shows "\<exists>s2 s3 s4. cond_signal M p cnd s1 = Inr s2 \<and> status (entries s2 x) = STATUS_READY \<and>
    is_acquired (locks s2 e) \<and> cond_wait_loop M q y l s2 = Inr (True, s3) \<and>
    lock_acquire M p' l s3 = Inr (True, s4)"
proof -
  have g: "getSyncEntry M pid l s' = Inr (e, s')" "getSyncEntry M pid cnd s' = Inr (c, s')"
    if "memory s' = memory s" for pid and s' :: "'a det"
    using mem that by (simp_all add: getSyncEntry_def)
  obtain m ls where s1: "s1 = s\<lparr>memory := m, locks := ls\<rparr>"
    using lock_acquire_eff [OF g(1) assms(8) acq] by blast
  have m1: "memory s1 = memory s"
    using acq g(1) [of s p] assms(8) by (auto simp: lock_acquire_def case_prod_unfold Let_def)
  note k1 = lock_take_True [OF lock_acquire_at [OF g(1) assms(8) acq, OF refl]]
  have e1: "entries s1 = entries s" "tokenpos s1 = tokenpos s" "queues_ok s1 Q"
    using s1 assms(1) by (auto intro: queues_ok_cong [THEN iffD2])
  have look: "cond_lookup M p cnd s1 = Inr (c, s1)" using g(2) [OF m1] assms(7) by (simp add: cond_lookup_def)
  obtain s2 where s2: "cond_signal M p cnd s1 = Inr s2"
    "entries s2 = (entries s1)(x := (entries s1 x)\<lparr>te_cond := 0, status := STATUS_READY\<rparr>)"
    using cond_signal_spec [OF look e1(3) _ assms(3,4)] e1(2) assms(2) by auto
  have l2: "locks s2 = locks s1" "memory s2 = memory s1"
    using s2(1) look by (auto simp: cond_signal_def rbind_Inr_iff Let_def split: if_splits)
  have yx: "y \<noteq> x" using queues_okD(4) [OF assms(1), of "Cond c"] assms(4,5) by auto
  let ?s3 = "upd_lock e (is_acquired_update (\<lambda>_. False)) s2"
  have "cond_wait_loop M q y l s2 = Inr (True, ?s3)"
    using assms(6,8) yx g(1) [of s2 q] l2 m1 s2(2) e1(1)
    by (simp add: cond_wait_loop_def lock_release_def nonnull_def)
  moreover have "fst (lock_take p' (isSingleWorkingThread ?s3) (locks ?s3 e))"
    using k1 third l2(1) by (auto simp: lock_take_def Let_def)
  then have "\<exists>s4. lock_acquire M p' l ?s3 = Inr (True, s4)"
    using g(1) [of ?s3 p'] l2 m1 assms(8)
    by (simp add: lock_acquire_def isSingleWorkingThread_def case_prod_unfold Let_def)
  ultimately show ?thesis using s2 k1(1) l2(1) by auto
qed

text \<open>The signal of process 100 wakes thread 2; thread 3 frees the mutex at 16, and process 105 takes it.\<close>

theorem wakeup_frees_foreign_lock_witness:
  "\<exists>s1 s2 s3 s4. lock_acquire flat 100 16 demo = Inr (True, s1) \<and> cond_signal flat 100 8 s1 = Inr s2 \<and>
     is_acquired (locks s2 128) \<and> cond_wait_loop flat 103 3 16 s2 = Inr (True, s3) \<and>
     lock_acquire flat 105 16 s3 = Inr (True, s4)"
proof -
  have "\<exists>s1. lock_acquire flat 100 16 demo = Inr (True, s1)"
    by (simp add: lock_acquire_def demo_fields isSingleWorkingThread_def case_prod_unfold Let_def)
      (simp add: demo_def determ_init_def lock_take_def Let_def)
  then obtain s1 where a: "lock_acquire flat 100 16 demo = Inr (True, s1)" by blast
  have m: "m_read flat (memory demo) pid 8 = Inr (64, memory demo)"
    "m_read flat (memory demo) pid 16 = Inr (128, memory demo)" for pid
    by (simp_all add: flat_def demo_def determ_init_def)
  from wakeup_frees_foreign_lock [OF demo_ok demo_fields(1) _ demo_fields(5) _ _ _ _ m a, of 3 105 103]
  show ?thesis using a by (auto simp: demo_fields demo_entries_def)
qed

text \<open>
  \<open>cancel\<close> of the only waiter of a condition variable leaves its count of waiters at one, and the
  next \<open>cond_signal\<close> dereferences the null head of the empty queue.
\<close>

lemma cancel_then_signal_faults:
  assumes "queues_ok s Q" "Q (Cond c) = [i]" "status (entries s i) = STATUS_COND_WAITING"
    and "te_cond (entries s i) = c" "c \<noteq> 0"
  shows "\<exists>s'. determ_cancel i s = Inr (True, s') \<and>
    (\<forall>s''. getSyncEntry M pid cond s' = Inr (c, s'') \<longrightarrow> cond_signal M pid cond s' = Inl Segv)"
proof -
  obtain s' hd' where s': "determ_cancel i s = Inr (True, s')" "dlist (lks s') hd' []"
    "conds s' = (conds s)(c := (conds s c)\<lparr>ce_head := hd'\<rparr>)"
    using cancel_spec [OF assms(1) _ assms(3-5)] assms(2) by auto
  have "waiters (conds s c) \<noteq> 0" using of_nat_length_0 [OF assms(1), of c] assms(2) by simp
  moreover have "hd' = None" using s'(2) by simp
  ultimately have "cond_signal M pid cond s' = Inl Segv" if "getSyncEntry M pid cond s' = Inr (c, s'')" for s''
    using that getSync_eff [OF that] s'(3) assms(5)
    by (auto simp: cond_signal_def cond_lookup_def removeHeadEntry_def deref_def)
  then show ?thesis using s'(1) by blast
qed

definition demo_one :: "(u64 \<Rightarrow> u64) det" where
  "demo_one = demo\<lparr>conds := (\<lambda>c. if c = 64 then \<lparr>waiters = 1, ce_cond = 8, ce_head = Some 6\<rparr>
       else \<lparr>waiters = 0, ce_cond = 0, ce_head = None\<rparr>),
     entries := demo_entries(6 := (demo_entries 6)\<lparr>status := STATUS_COND_WAITING, te_cond := 64\<rparr>)\<rparr>"

lemma demo_one_ok: "queues_ok demo_one (demoQ(Cond 64 := [6]))"
proof -
  have r: "ring demo_links [0, 1]" "ring demo_links [6]" "ring demo_links [4]"
    by (simp_all add: ring_def demo_links_def)
  have "dlist demo_links (qhead demo_one q) ((demoQ(Cond 64 := [6])) q)" for q
    using r by (cases q) (simp_all add: demo_one_def demo_def determ_init_def demoQ_def dlist_def)
  moreover have "set ((demoQ(Cond 64 := [6])) q) \<inter> set ((demoQ(Cond 64 := [6])) r) = {}" if "q \<noteq> r" for q r
    using that by (auto simp: demoQ_def split: if_splits)
  moreover have "set ((demoQ(Cond 64 := [6])) q) \<subseteq> {..<2048}" for q by (auto simp: demoQ_def)
  ultimately show ?thesis
    unfolding queues_ok_def by (auto simp: demo_one_def demo_def determ_init_def demoQ_def)
qed

lemma cancel_then_signal_faults_witness:
  "\<exists>s'. determ_cancel 6 demo_one = Inr (True, s') \<and>
    (\<forall>s''. getSyncEntry flat 100 8 s' = Inr (64, s'') \<longrightarrow> cond_signal flat 100 8 s' = Inl Segv)"
  by (rule cancel_then_signal_faults [OF demo_one_ok]) (simp_all add: demo_one_def)

text \<open>
  A single thread that calls \<open>sigwait\<close> leaves the ring and comes back outside of it, so a thread it
  creates later stands in a ring of its own and never gets the token.
\<close>

lemma sigwait_alone_splits_ring:
  assumes "boot pid cores base mem mm bm = Inr s0"
  shows "\<exists>s1 s2 s3. sig_wait_enter 0 s0 = Inr s1 \<and> sig_wait_wake 0 0 s1 = Inr (0, s2) \<and>
    registerThread 1 pid' 0 s2 = Inr s3 \<and> status (entries s3 1) = STATUS_READY \<and>
    (\<forall>n. \<exists>s'. put_tokens n s3 = Inr s' \<and> tokenpos s' = Some 0)"
proof -
  have "\<exists>s1 s2 s3. sig_wait_enter 0 s0 = Inr s1 \<and> sig_wait_wake 0 0 s1 = Inr (0, s2) \<and>
    registerThread 1 pid' 0 s2 = Inr s3 \<and> status (entries s3 1) = STATUS_READY \<and>
    ring (lks s3) [0] \<and> tokenpos s3 = Some 0"
    using assms
    by (auto simp: boot_def determ_initialize_def registerMaster_def registerThread_def Let_def
        determ_init_def insertTail_def deref_def set_prev_def set_nxt_def sig_wait_enter_def
        sig_wait_wake_def removeEntry_def insertHead_def incrFence_def decrFence_def split: if_splits)
  moreover have "\<exists>s'. put_tokens n s3 = Inr s' \<and> tokenpos s' = Some 0"
    if "ring (lks s3) [0]" "tokenpos s3 = Some 0" for n and s3 :: "'a det"
    using put_tokens_rot [OF that(1), of 0 n] that(2) by simp
  ultimately show ?thesis by blast
qed

lemma sigwait_alone_splits_ring_witness:
  "\<exists>s0 s3. boot 7 4 4096 (\<lambda>_. 0) (\<lambda>_ :: u64. 0 :: u64) (xbm demo) = Inr s0 \<and>
    (\<forall>n. \<exists>s'. put_tokens n s3 = Inr s' \<and> tokenpos s' = (Some 0 :: nat option)) \<and>
    status (entries (s3 :: (u64 \<Rightarrow> u64) det) 1) = STATUS_READY"
proof -
  obtain s0 where "boot 7 4 4096 (\<lambda>_. 0) (\<lambda>_ :: u64. 0 :: u64) (xbm demo) = Inr s0"
    using boot_example by blast
  from this sigwait_alone_splits_ring [OF this, of 8] show ?thesis by blast
qed

text \<open>
  A thread that joins a thread it did not create is woken when that thread exits and counts on the
  fence again, but it is in no queue and never gets the token.
\<close>

lemma foreign_join_strands:
  assumes "queues_ok s Q" "i \<in> set (Q Act)" "0 < alivethreads s" "nowhere Q j" "j \<noteq> i"
    and "\<not> (status (entries s (tid_parent (entries s i))) = STATUS_JOINING \<and>
           joinee_thread_index (entries s (tid_parent (entries s i))) = i)"
    and "status (entries s j) = STATUS_JOINING" "joinee_thread_index (entries s j) = i"
    and "succ_in (Q Act) i \<noteq> i"
  shows "\<exists>s' s''. deregisterThread i s = Inr s' \<and> join_wake i j s' = Inr (False, s'') \<and>
    status (entries s'' j) = STATUS_READY \<and> maxthreads s'' = maxthreads s \<and>
    (\<forall>n s3. put_tokens n s'' = Inr s3 \<longrightarrow> tokenpos s3 \<noteq> Some j)"
proof -
  obtain s' where s': "deregisterThread i s = Inr s'" "queues_ok s' (Q(Act := remove1 i (Q Act)))"
    "tokenpos s' = Some (succ_in (Q Act) i)" "maxthreads s' = maxthreads s - 1"
    "entries s' = (entries s)(i := (entries s i)\<lparr>status := STATUS_EXIT\<rparr>)"
    using deregister_spec [OF assms(1,2,6,3)] by blast
  let ?s = "upd_entry j (status_update (\<lambda>_. STATUS_READY)) (incrFence 1 s')"
  have w: "join_wake i j s' = Inr (False, ?s)" using s'(5) by (simp add: join_wake_def)
  let ?A = "remove1 i (Q Act)"
  have st: "succ_in (Q Act) i \<in> set ?A" using succ_in_mem [OF assms(2)] assms(9) by simp
  then have "?A \<noteq> []" by auto
  then have r: "ring (lks ?s) ?A"
    using dlist_ring [OF queues_okD'(1) [OF s'(2)]] by simp
  obtain k where k: "k < length ?A" "tokenpos ?s = Some (?A ! k)"
    using st s'(3) by (auto simp: in_set_conv_nth)
  have "tokenpos s3 \<noteq> Some j" if "put_tokens n ?s = Inr s3" for n s3
  proof -
    have "(k + n) mod length ?A < length ?A" using k(1) by (intro mod_less_divisor) linarith
    then have "?A ! ((k + n) mod length ?A) \<in> set (Q Act)"
      using set_remove1_subset [of i "Q Act"] nth_mem by blast
    then show ?thesis
      using that put_tokens_rot [OF r k, of n] assms(4) by (auto simp: nowhere_def)
  qed
  then show ?thesis using s'(1,4,5) w assms(5) by (intro exI [of _ s'] exI [of _ ?s]) auto
qed

lemma foreign_join_strands_witness:
  "\<exists>s s' s''. status (entries s 6) = STATUS_JOINING \<and> deregisterThread 1 (s :: (u64 \<Rightarrow> u64) det) = Inr s' \<and>
    join_wake 1 6 s' = Inr (False, s'') \<and> (\<forall>n s3. put_tokens n s'' = Inr s3 \<longrightarrow> tokenpos s3 \<noteq> Some 6)"
proof -
  let ?s = "demo\<lparr>entries := demo_entries(6 := (demo_entries 6)\<lparr>status := STATUS_JOINING,
    joinee_thread_index := 1\<rparr>)\<rparr>"
  have q: "queues_ok ?s demoQ" using demo_ok by simp
  have a: "1 \<in> set (demoQ Act)" "nowhere demoQ 6" "succ_in (demoQ Act) 1 \<noteq> 1" "(6::nat) \<noteq> 1"
    by (simp_all add: demoQ_def nowhere_def succ_in_def)
  have e: "0 < alivethreads ?s" "status (entries ?s 6) = STATUS_JOINING"
    "joinee_thread_index (entries ?s 6) = 1"
    "\<not> (status (entries ?s (tid_parent (entries ?s 1))) = STATUS_JOINING \<and>
      joinee_thread_index (entries ?s (tid_parent (entries ?s 1))) = 1)"
    by (simp_all add: demo_fields demo_entries_def)
  from foreign_join_strands [OF q a(1) e(1) a(2,4) e(4,2,3) a(3)]
  show ?thesis using e(2) by blast
qed

end
