(* ===== verification/Fence.thy ===== *)
theory Fence
  imports Determ_Props
begin

text \<open>
  \<open>waitFence\<close> of \<^verbatim>\<open>determ.h\<close> under every interleaving: \<open>fence_next\<close> follows one call through its critical
  sections, spins and sleeps, \<open>fence_step\<close> lets \<open>N\<close> threads call it again and again. A sleeper is in
  \<open>fence_cond\<close> until somebody broadcasts; \<open>wake\<close> is the spurious wakeup that \<open>pthread_cond_wait\<close> allows.
  The theorems say that the fence is a barrier (rounds never differ by more than one and nobody leaves
  before all have arrived, spurious wakeups or not), and that it never blocks for good, for which the
  broadcasts of the code are enough: \<open>fence_move\<close> has no spurious wakeup.
\<close>

datatype fence_pc =
    Outside        \<comment> \<open>not in the call\<close>
  | Entry          \<comment> \<open>before the first \<open>lock()\<close>\<close>
  | SpinArrive     \<comment> \<open>spinning for the arrival phase, without the lock\<close>
  | Relock         \<comment> \<open>has seen it, about to \<open>lock()\<close> again\<close>
  | SleepArrive    \<comment> \<open>in \<open>pthread_cond_wait\<close> for the arrival phase\<close>
  | SetWait        \<comment> \<open>arrived, unlocked, about to set \<open>wait\<close>\<close>
  | SpinDepart     \<comment> \<open>spinning for the departure phase\<close>
  | RelockDepart   \<comment> \<open>has seen it, about to \<open>lock()\<close> again\<close>
  | SleepDepart    \<comment> \<open>in \<open>pthread_cond_wait\<close> for the departure phase\<close>

definition arrive :: "bool \<Rightarrow> nat \<Rightarrow> 'm det \<Rightarrow> 'm det \<times> fence_pc" where
  "arrive kb i s =
     (case fence_arrive i s of
        (Departs, s') \<Rightarrow> (fence_depart kb s', Outside)
      | (Spins, s') \<Rightarrow> (s', SetWait)
      | (Sleeps, s') \<Rightarrow> (s', SleepDepart))"

definition fence_next :: "bool \<Rightarrow> nat \<Rightarrow> 'm det \<Rightarrow> fence_pc \<Rightarrow> 'm det \<times> fence_pc" where
  "fence_next kb i s pc =
     (case pc of
        Outside \<Rightarrow> (s, Outside)
      | Entry \<Rightarrow> if fence_spins s then (s, SpinArrive)
                 else if \<not> is_arrival_phase s then (fence_sleep i s, SleepArrive) else arrive kb i s
      | SpinArrive \<Rightarrow> if is_arrival_phase s then (s, Relock) else (s, SpinArrive)
      | Relock \<Rightarrow> arrive kb i s
      | SleepArrive \<Rightarrow> if i \<in> fence_cond s then (s, SleepArrive)
                       else if \<not> is_arrival_phase s then (fence_sleep i s, SleepArrive) else arrive kb i s
      | SetWait \<Rightarrow> (fence_setwait i s, SpinDepart)
      | SpinDepart \<Rightarrow> if is_arrival_phase s then (s, SpinDepart)
                      else (fence_clearwait i s, RelockDepart)
      | RelockDepart \<Rightarrow> (fence_depart kb s, Outside)
      | SleepDepart \<Rightarrow> if i \<in> fence_cond s then (s, SleepDepart)
                       else if is_arrival_phase s then (fence_sleep i (fence_setwait i s), SleepDepart)
                       else (fence_depart kb s, Outside))"

text \<open>A thread's place and the number of fences it has passed.\<close>

type_synonym 'm fence_sys = "'m det \<times> (nat \<Rightarrow> fence_pc \<times> nat)"

inductive fence_step :: "nat \<Rightarrow> bool \<Rightarrow> 'm fence_sys \<Rightarrow> 'm fence_sys \<Rightarrow> bool" for N :: nat and kb :: bool where
  call: "fence_step N kb (s, P) (s, P(i := (Entry, r)))" if "i < N" "P i = (Outside, r)"
| move: "fence_step N kb (s, P) (s', P(i := (pc', if pc' = Outside then Suc r else r)))"
    if "i < N" "P i = (pc, r)" "pc \<noteq> Outside" "fence_next kb i s pc = (s', pc')"
| wake: "fence_step N kb (s, P) (s\<lparr>fence_cond := fence_cond s - {i}\<rparr>, P)" if "i < N"

inductive_cases fence_stepE: "fence_step N kb (s, P) S'"

definition fence_start :: "nat \<Rightarrow> 'm det \<Rightarrow> bool" where
  "fence_start N s \<longleftrightarrow> maxthreads s = of_nat N \<and> currthreads s = 0 \<and> is_arrival_phase s"

definition waiting :: "fence_pc \<Rightarrow> bool" where
  "waiting pc \<longleftrightarrow> pc \<in> {SetWait, SpinDepart, RelockDepart, SleepDepart}"

abbreviation waiters_of :: "nat \<Rightarrow> (nat \<Rightarrow> fence_pc \<times> nat) \<Rightarrow> nat set" where
  "waiters_of N P \<equiv> {i \<in> {..<N}. waiting (fst (P i))}"

definition fence_inv :: "nat \<Rightarrow> 'm fence_sys \<Rightarrow> nat \<Rightarrow> bool" where
  "fence_inv N S k \<longleftrightarrow> (case S of (s, P) \<Rightarrow>
     maxthreads s = of_nat N \<and> currthreads s = of_nat (card (waiters_of N P)) \<and>
     (if is_arrival_phase s then
        (\<forall>i<N. snd (P i) = k \<and> fst (P i) \<noteq> RelockDepart) \<and> card (waiters_of N P) < N
      else
        (\<forall>i<N. if waiting (fst (P i)) then snd (P i) = k else snd (P i) = Suc k \<and> fst (P i) \<noteq> Relock) \<and>
        0 < card (waiters_of N P)))"

lemma fence_inv_arriving:
  assumes "maxthreads s = of_nat N" "currthreads s = of_nat c" "card (waiters_of N P) = c" "c < N"
    "is_arrival_phase s" "\<And>i. i < N \<Longrightarrow> snd (P i) = k \<and> fst (P i) \<noteq> RelockDepart"
  shows "fence_inv N (s, P) k"
  using assms unfolding fence_inv_def by simp

lemma fence_inv_departing:
  assumes "maxthreads s = of_nat N" "currthreads s = of_nat c" "card (waiters_of N P) = c" "0 < c"
    "\<not> is_arrival_phase s"
    "\<And>i. i < N \<Longrightarrow> if waiting (fst (P i)) then snd (P i) = k else snd (P i) = Suc k \<and> fst (P i) \<noteq> Relock"
  shows "fence_inv N (s, P) k"
  using assms unfolding fence_inv_def by simp

lemma waiters_upd:
  assumes "i < N"
  shows "card (waiters_of N (P(i := x))) =
    (if waiting (fst x) then if waiting (fst (P i)) then card (waiters_of N P) else Suc (card (waiters_of N P))
     else if waiting (fst (P i)) then card (waiters_of N P) - 1 else card (waiters_of N P))"
proof -
  let ?A = "waiters_of N P"
  have eq: "waiters_of N (P(i := x)) = (if waiting (fst x) then insert i ?A else ?A - {i})"
    using assms by auto
  have mem: "i \<in> ?A \<longleftrightarrow> waiting (fst (P i))" using assms by auto
  have fin: "finite ?A" by simp
  show ?thesis
  proof (cases "waiting (fst x)")
    case True
    then show ?thesis unfolding eq using mem fin by (simp add: card_insert_if)
  next
    case False
    then show ?thesis unfolding eq using mem fin by (simp add: card_Diff_singleton_if)
  qed
qed

lemma waiters_all:
  assumes "\<forall>i<N. waiting (fst (P i))" shows "card (waiters_of N P) = N"
proof -
  have "waiters_of N P = {..<N}" using assms by auto
  then show ?thesis by simp
qed

lemma waiters_le: "card (waiters_of N P) \<le> N"
  using card_mono [of "{..<N}" "waiters_of N P"] by auto

lemma waiters_rest:
  assumes "card (waiters_of N P) = N - 1" "i < N" "\<not> waiting (fst (P i))" "j < N" "j \<noteq> i"
  shows "waiting (fst (P j))"
proof -
  have "waiters_of N P \<subseteq> {..<N} - {i}" using assms(3) by auto
  moreover have "card ({..<N} - {i}) = N - 1" using assms(2) by simp
  ultimately have "waiters_of N P = {..<N} - {i}"
    using assms(1) by (intro card_subset_eq) auto
  then show ?thesis using assms(4,5) by auto
qed

lemma fence_arrive_eq:
  "fence_arrive i s =
     (let s1 = s\<lparr>currthreads := currthreads s + 1\<rparr> in
      if maxthreads s \<le> currthreads s + 1 then (Departs, s1\<lparr>is_arrival_phase := False, fence_cond := {}\<rparr>)
      else if maxthreads s \<le> coresNumb s then (Spins, s1)
      else if is_arrival_phase s then (Sleeps, fence_sleep i (upd_entry i (te_wait_update (\<lambda>_. 1)) s1))
      else (Departs, s1))"
  by (simp add: fence_arrive_def Let_def)

lemma arrive_step:
  assumes "fence_inv N (s, P) k" "N < 2 ^ 64" "i < N" "is_arrival_phase s" "\<not> waiting (fst (P i))"
    and a: "arrive kb i s = (s', pc')"
  shows "(\<exists>k'. fence_inv N (s', P(i := (pc', if pc' = Outside then Suc k else k))) k') \<and>
    pc' \<in> {Outside, SetWait, SleepDepart}"
proof -
  let ?c = "card (waiters_of N P)" and ?P = "P(i := (pc', if pc' = Outside then Suc k else k))"
  have inv: "maxthreads s = of_nat N" "currthreads s = of_nat ?c" "?c < N"
    and all: "\<And>j. j < N \<Longrightarrow> snd (P j) = k \<and> fst (P j) \<noteq> RelockDepart"
    using assms(1,4) by (auto simp: fence_inv_def)
  have cmp: "(of_nat N :: u64) \<le> of_nat ?c + 1 \<longleftrightarrow> N = Suc ?c"
    using of_nat_le_u64 [of N "Suc ?c"] assms(2) inv(3) by (auto simp: add.commute)
  have c0: "(of_nat ?c :: u64) = 0 \<longleftrightarrow> ?c = 0"
    using of_nat_eq_u64 [of ?c 0] assms(2) inv(3) by simp
  have w: "card (waiters_of N ?P) = (if waiting pc' then Suc ?c else ?c)"
    using waiters_upd [OF assms(3)] assms(5) by simp
  show ?thesis
  proof (cases "N = Suc ?c")
    case True
    then have "maxthreads s \<le> currthreads s + 1" using cmp inv(1,2) by simp
    then have "s' = fence_depart kb (s\<lparr>currthreads := currthreads s + 1, is_arrival_phase := False, fence_cond := {}\<rparr>)" "pc' = Outside"
      using a by (auto simp: arrive_def fence_arrive_eq Let_def)
    then have s': "pc' = Outside" "maxthreads s' = of_nat N" "currthreads s' = of_nat ?c"
      "is_arrival_phase s' \<longleftrightarrow> ?c = 0"
      using inv(1,2) c0 by (auto simp: fence_depart_def Let_def)
    have rest: "waiting (fst (P j))" if "j < N" "j \<noteq> i" for j
      using waiters_rest [of N P i j] assms(3,5) that True by simp
    have w': "card (waiters_of N ?P) = ?c" using w s'(1) by (simp add: waiting_def)
    show ?thesis
    proof (cases "?c = 0")
      case c0: True
      have N1: "N = Suc 0" using True unfolding c0 .
      have cur: "currthreads s' = of_nat 0" and arrv: "is_arrival_phase s'"
        using s'(3,4) unfolding c0 by simp_all
      have "snd (?P j) = Suc k \<and> fst (?P j) \<noteq> RelockDepart" if "j < N" for j
        using that N1 assms(3) s'(1) by simp
      then have "fence_inv N (s', ?P) (Suc k)"
        using s'(2) cur w' [unfolded c0] arrv N1 by (intro fence_inv_arriving [where c = 0]) blast+
      then show ?thesis using s'(1) by blast
    next
      case False
      have "if waiting (fst (?P j)) then snd (?P j) = k else snd (?P j) = Suc k \<and> fst (?P j) \<noteq> Relock"
        if "j < N" for j
        using rest [OF that] all [OF that] s'(1) by (cases "j = i") (auto simp: waiting_def)
      then have "fence_inv N (s', ?P) k"
        using s' w' False by (intro fence_inv_departing [where c = ?c]) blast+
      then show ?thesis using s'(1) by blast
    qed
  next
    case False
    then have "\<not> maxthreads s \<le> currthreads s + 1" using cmp inv(1,2) by simp
    then have s': "pc' \<in> {SetWait, SleepDepart}" "maxthreads s' = of_nat N" "currthreads s' = of_nat (Suc ?c)"
      "is_arrival_phase s'"
      using a inv(1,2) assms(4) by (auto simp: arrive_def fence_arrive_eq fence_sleep_def Let_def split: if_splits)
    have wt: "waiting pc'" "pc' \<noteq> Outside" "pc' \<noteq> RelockDepart" using s'(1) by (auto simp: waiting_def)
    have "card (waiters_of N ?P) = Suc ?c" using w wt(1) by simp
    moreover have "Suc ?c < N" using inv(3) False by linarith
    ultimately have "fence_inv N (s', ?P) k"
      using s' all wt by (intro fence_inv_arriving [where c = "Suc ?c"]) auto
    then show ?thesis using s'(1) by blast
  qed
qed

lemma depart_step:
  assumes "fence_inv N (s, P) k" "N < 2 ^ 64" "i < N" "\<not> is_arrival_phase s" "waiting (fst (P i))"
  shows "\<exists>k'. fence_inv N (fence_depart kb s, P(i := (Outside, Suc k))) k'"
proof -
  let ?c = "card (waiters_of N P)" and ?P = "P(i := (Outside, Suc k))" and ?s = "fence_depart kb s"
  have inv: "maxthreads s = of_nat N" "currthreads s = of_nat ?c" "0 < ?c"
    and all: "\<And>j. j < N \<Longrightarrow> if waiting (fst (P j)) then snd (P j) = k else snd (P j) = Suc k \<and> fst (P j) \<noteq> Relock"
    using assms(1,4) by (auto simp: fence_inv_def)
  have le: "?c \<le> N" by (rule waiters_le)
  have cur: "currthreads s - 1 = of_nat (?c - 1)" using inv(2,3) by simp
  have c0: "(of_nat (?c - 1) :: u64) = 0 \<longleftrightarrow> ?c - 1 = 0"
    using of_nat_eq_u64 [of "?c - 1" 0] assms(2) le by simp
  have w: "card (waiters_of N ?P) = ?c - 1"
    using waiters_upd [OF assms(3)] assms(5) by (simp add: waiting_def)
  have s': "maxthreads ?s = of_nat N" "currthreads ?s = of_nat (?c - 1)" "is_arrival_phase ?s \<longleftrightarrow> ?c - 1 = 0"
    using inv(1) cur c0 assms(4) by (auto simp: fence_depart_def Let_def)
  show ?thesis
  proof (cases "?c - 1 = 0")
    case True
    then have "waiters_of N ?P = {}" using w by (simp add: card_eq_0_iff)
    then have nw: "\<not> waiting (fst (?P j))" if "j < N" for j using that by blast
    have "snd (?P j) = Suc k \<and> fst (?P j) \<noteq> RelockDepart" if "j < N" for j
      using nw [OF that] all [OF that] by (auto simp: waiting_def split: if_splits)
    moreover have "card (waiters_of N ?P) = 0" using w True by (simp only:)
    ultimately have "fence_inv N (?s, ?P) (Suc k)"
      using s' True assms(3) by (intro fence_inv_arriving [where c = 0]) auto
    then show ?thesis by blast
  next
    case False
    have "if waiting (fst (?P j)) then snd (?P j) = k else snd (?P j) = Suc k \<and> fst (?P j) \<noteq> Relock"
      if "j < N" for j
      using all [OF that] by (auto simp: waiting_def)
    then have "fence_inv N (?s, ?P) k"
      using s' w False by (intro fence_inv_departing [where c = "?c - 1"]) blast+
    then show ?thesis by blast
  qed
qed

text \<open>Moves that change neither the counters nor whether the thread waits.\<close>

lemma quiet_step:
  assumes "fence_inv N (s, P) k" "i < N" "P i = (pc, r)" "waiting pc' = waiting pc"
    and "maxthreads s' = maxthreads s" "currthreads s' = currthreads s"
      "is_arrival_phase s' = is_arrival_phase s"
    and "pc' = RelockDepart \<Longrightarrow> \<not> is_arrival_phase s" "pc' = Relock \<Longrightarrow> is_arrival_phase s"
  shows "fence_inv N (s', P(i := (pc', r))) k"
proof -
  have "card (waiters_of N (P(i := (pc', r)))) = card (waiters_of N P)"
    using waiters_upd [OF assms(2), of P "(pc', r)"] assms(3,4) by simp
  then show ?thesis
    using assms unfolding fence_inv_def by (auto split: if_splits)
qed

lemma fence_inv_step:
  assumes N: "N < 2 ^ 64" and inv: "fence_inv N S k" and st: "fence_step N kb S S'"
  shows "\<exists>k'. fence_inv N S' k'"
  using st
proof cases
  case (call i P r s)
  have "fence_inv N (s, P(i := (Entry, r))) k"
    by (rule quiet_step [of N s P k i Outside]) (use inv call in \<open>auto simp: waiting_def\<close>)
  then show ?thesis using call by blast
next
  case (wake i s P)
  then show ?thesis using inv by (auto simp: fence_inv_def)
next
  case (move i P pc r s s' pc')
  have I: "fence_inv N (s, P) k" using inv move by simp
  have r: "is_arrival_phase s \<Longrightarrow> r = k" "\<not> is_arrival_phase s \<Longrightarrow> waiting pc \<Longrightarrow> r = k"
    using I move(3,4) by (auto simp: fence_inv_def split: if_splits)
  have arr: "\<exists>k'. fence_inv N S' k'"
    if "is_arrival_phase s" "\<not> waiting pc" "arrive kb i s = (s', pc')"
    using arrive_step [OF I N move(3) that(1) _ that(3)] that(1,2) r(1) move(2,4) by auto
  have dep: "\<exists>k'. fence_inv N S' k'"
    if "\<not> is_arrival_phase s" "waiting pc" "s' = fence_depart kb s" "pc' = Outside"
    using depart_step [OF I N move(3) that(1)] that r(2) move(2,4) by auto
  have quiet: "\<exists>k'. fence_inv N S' k'"
    if "waiting pc' = waiting pc" "pc' \<noteq> Outside" "maxthreads s' = maxthreads s"
      "currthreads s' = currthreads s" "is_arrival_phase s' = is_arrival_phase s"
      "pc' = RelockDepart \<Longrightarrow> \<not> is_arrival_phase s" "pc' = Relock \<Longrightarrow> is_arrival_phase s"
    using quiet_step [OF I move(3,4) that(1,3-7)] move(2) that(2) by auto
  have rel: "pc = Relock \<Longrightarrow> is_arrival_phase s" "pc = RelockDepart \<Longrightarrow> \<not> is_arrival_phase s"
    using I move(3,4) by (auto simp: fence_inv_def waiting_def split: if_splits)
  note nx = move(6) [unfolded fence_next_def]
  show ?thesis
  proof (cases pc)
    case Outside then show ?thesis using move(5) by simp
  next
    case Entry
    show ?thesis
    proof (cases "is_arrival_phase s")
      case True
      then show ?thesis using nx Entry by (intro arr) (auto simp: fence_spins_def waiting_def)
    next
      case False
      then show ?thesis
        using nx Entry by (intro quiet) (auto simp: waiting_def fence_sleep_def split: if_splits)
    qed
  next
    case SpinArrive
    then show ?thesis using nx by (auto simp: waiting_def intro!: quiet split: if_splits)
  next
    case Relock
    then show ?thesis using nx rel by (auto simp: waiting_def intro!: arr)
  next
    case SleepArrive
    show ?thesis
    proof (cases "is_arrival_phase s \<and> i \<notin> fence_cond s")
      case True
      then show ?thesis using nx SleepArrive by (intro arr) (auto simp: waiting_def)
    next
      case False
      then show ?thesis
        using nx SleepArrive by (intro quiet) (auto simp: waiting_def fence_sleep_def split: if_splits)
    qed
  next
    case SetWait
    then show ?thesis using nx by (auto simp: waiting_def fence_setwait_def intro!: quiet)
  next
    case SpinDepart
    then show ?thesis
      using nx by (auto simp: waiting_def fence_clearwait_def intro!: quiet split: if_splits)
  next
    case RelockDepart
    then show ?thesis using nx rel by (auto simp: waiting_def intro!: dep)
  next
    case SleepDepart
    show ?thesis
    proof (cases "is_arrival_phase s \<or> i \<in> fence_cond s")
      case True
      then show ?thesis
        using nx SleepDepart
        by (intro quiet) (auto simp: waiting_def fence_setwait_def fence_sleep_def split: if_splits)
    next
      case False
      then show ?thesis using nx SleepDepart by (intro dep) (auto simp: waiting_def)
    qed
  qed
qed


lemma fence_start_inv:
  assumes "fence_start N s" "0 < N"
  shows "fence_inv N (s, \<lambda>_. (Outside, 0)) 0"
  using assms by (auto simp: fence_start_def fence_inv_def waiting_def)

lemma fence_reach:
  assumes "(fence_step N kb)\<^sup>*\<^sup>* S S'" "N < 2 ^ 64" "\<exists>k. fence_inv N S k"
  shows "\<exists>k. fence_inv N S' k"
  using assms(1,3)
proof (induction rule: rtranclp_induct)
  case (step T U) then show ?case using fence_inv_step [OF assms(2)] by blast
qed

text \<open>
  No wakeup is lost: a thread blocked in \<open>fence_cond\<close> waits for a phase that has not begun, because
  whoever begins one broadcasts.
\<close>

definition none_forgotten :: "nat \<Rightarrow> 'm fence_sys \<Rightarrow> bool" where
  "none_forgotten N S \<longleftrightarrow> (\<forall>i<N. i \<in> fence_cond (fst S) \<longrightarrow>
     fst (snd S i) = (if is_arrival_phase (fst S) then SleepDepart else SleepArrive))"

lemma fence_depart_cond:
  "fence_cond (fence_depart kb s) = {} \<or>
   fence_cond (fence_depart kb s) = fence_cond s \<and> is_arrival_phase (fence_depart kb s) = is_arrival_phase s"
  by (simp add: fence_depart_def Let_def)

lemma fence_depart_empty: "fence_cond s = {} \<Longrightarrow> fence_cond (fence_depart kb s) = {}"
  by (simp add: fence_depart_def Let_def)

lemma arrive_places: "snd (arrive kb i s) \<in> {Outside, SetWait, SleepDepart}"
  by (simp add: arrive_def fence_arrive_eq Let_def)

lemma arrive_cond:
  assumes "arrive kb i s = (s', pc')"
  shows "fence_cond s' = {} \<or> is_arrival_phase s' = is_arrival_phase s \<and>
    (fence_cond s' = fence_cond s \<or>
     fence_cond s' = insert i (fence_cond s) \<and> pc' = SleepDepart \<and> is_arrival_phase s)"
proof -
  let ?s1 = "s\<lparr>currthreads := currthreads s + 1\<rparr>"
  consider "s' = fence_depart kb (?s1\<lparr>is_arrival_phase := False, fence_cond := {}\<rparr>)" | "s' = ?s1"
    | "s' = fence_sleep i (upd_entry i (te_wait_update (\<lambda>_. 1)) ?s1)" "pc' = SleepDepart" "is_arrival_phase s"
    | "s' = fence_depart kb ?s1"
    using assms by (simp add: arrive_def fence_arrive_eq Let_def split: if_splits)
  then show ?thesis
  proof cases
    case 1 then show ?thesis by (simp add: fence_depart_empty)
  next
    case 4 then show ?thesis using fence_depart_cond [of kb ?s1] by auto
  qed (simp_all add: fence_sleep_def)
qed

lemma fence_next_cond:
  assumes "fence_next kb i s pc = (s', pc')"
  shows "fence_cond s' = {} \<or> is_arrival_phase s' = is_arrival_phase s \<and>
    (fence_cond s' = fence_cond s \<and> (i \<in> fence_cond s \<longrightarrow> pc' = pc \<or> pc \<notin> {SleepArrive, SleepDepart}) \<or>
     fence_cond s' = insert i (fence_cond s) \<and>
       pc' = (if is_arrival_phase s then SleepDepart else SleepArrive))"
proof -
  consider "arrive kb i s = (s', pc')" "pc \<in> {SleepArrive, SleepDepart} \<longrightarrow> i \<notin> fence_cond s"
    | "s' = fence_depart kb s" "pc \<in> {SleepArrive, SleepDepart} \<longrightarrow> i \<notin> fence_cond s"
    | "fence_cond s' = fence_cond s" "is_arrival_phase s' = is_arrival_phase s"
      "pc' = pc \<or> pc \<notin> {SleepArrive, SleepDepart}"
    | "s' = fence_sleep i s \<or> s' = fence_sleep i (fence_setwait i s)"
      "pc' = (if is_arrival_phase s then SleepDepart else SleepArrive)"
    using assms
    by (cases pc) (auto simp: fence_next_def fence_setwait_def fence_clearwait_def split: if_splits)
  then show ?thesis
  proof cases
    case 1 then show ?thesis using arrive_cond [OF 1(1)] by auto
  next
    case 2 then show ?thesis using fence_depart_cond [of kb s] by auto
  next
    case 3 then show ?thesis by simp
  next
    case 4 then show ?thesis by (auto simp: fence_sleep_def fence_setwait_def)
  qed
qed

lemma none_forgotten_step:
  assumes "fence_step N kb S S'" "none_forgotten N S" shows "none_forgotten N S'"
  using assms
proof cases
  case (call i P r s)
  then show ?thesis using assms(2) by (auto simp: none_forgotten_def split: if_splits)
next
  case (wake i s P)
  then show ?thesis using assms(2) by (auto simp: none_forgotten_def)
next
  case (move i P pc r s s' pc')
  have "i \<in> fence_cond s \<Longrightarrow> pc = (if is_arrival_phase s then SleepDepart else SleepArrive)"
    using assms(2) move(1,3,4) by (auto simp: none_forgotten_def)
  with fence_next_cond [OF move(6)] show ?thesis
    using assms(2) move(1,2) by (auto simp: none_forgotten_def split: if_splits)
qed

lemma none_forgotten_reach:
  assumes "(fence_step N kb)\<^sup>*\<^sup>* S S'" "none_forgotten N S" shows "none_forgotten N S'"
  using assms by (induction rule: rtranclp_induct) (auto dest: none_forgotten_step)

text \<open>Every move that changes the place lowers its rank; \<open>fence_move\<close> is such a move.\<close>

definition fence_rank :: "fence_pc \<Rightarrow> nat" where
  "fence_rank pc = (case pc of Outside \<Rightarrow> 0 | Entry \<Rightarrow> 7 | SpinArrive \<Rightarrow> 6 | Relock \<Rightarrow> 5 | SleepArrive \<Rightarrow> 5
     | SetWait \<Rightarrow> 4 | SpinDepart \<Rightarrow> 3 | SleepDepart \<Rightarrow> 3 | RelockDepart \<Rightarrow> 2)"

definition fence_move :: "nat \<Rightarrow> bool \<Rightarrow> 'm fence_sys \<Rightarrow> 'm fence_sys \<Rightarrow> bool" where
  "fence_move N kb S S' \<longleftrightarrow> (\<exists>i<N. \<exists>pc r s' pc'. snd S i = (pc, r) \<and> pc' \<noteq> pc \<and>
     fence_next kb i (fst S) pc = (s', pc') \<and>
     S' = (s', (snd S)(i := (pc', if pc' = Outside then Suc r else r))))"

definition fence_work :: "nat \<Rightarrow> 'm fence_sys \<Rightarrow> nat" where
  "fence_work N S = (\<Sum>i<N. fence_rank (fst (snd S i)))"

lemma fence_rank_le: "fence_rank pc \<le> 7"
  by (cases pc) (simp_all add: fence_rank_def)

lemma fence_work_le: "fence_work N S \<le> 7 * N"
proof -
  have "fence_work N S \<le> (\<Sum>i<N. 7)" unfolding fence_work_def by (rule sum_mono) (rule fence_rank_le)
  then show ?thesis by simp
qed

lemma fence_rank_next:
  assumes "fence_next kb i s pc = (s', pc')" "pc' \<noteq> pc"
  shows "fence_rank pc' < fence_rank pc"
proof -
  have a: "pc' \<in> {Outside, SetWait, SleepDepart}" if "arrive kb i s = (s', pc')"
    using arrive_places [of kb i s] that by simp
  show ?thesis
    using assms a by (cases pc) (auto simp: fence_next_def fence_rank_def split: if_splits)
qed

lemma fence_work_move:
  assumes "fence_move N kb S S'" shows "fence_work N S' < fence_work N S"
proof -
  obtain i pc r s' pc' where i: "i < N" "snd S i = (pc, r)" "pc' \<noteq> pc" "fence_next kb i (fst S) pc = (s', pc')"
    and S': "S' = (s', (snd S)(i := (pc', if pc' = Outside then Suc r else r)))"
    using assms unfolding fence_move_def by blast
  have "fence_rank pc' < fence_rank pc" by (rule fence_rank_next [OF i(4,3)])
  then show ?thesis
    unfolding fence_work_def using i(1,2) S' by (intro sum_strict_mono_ex1) (auto intro!: bexI [of _ i])
qed

lemma fence_move_step:
  assumes "fence_move N kb S S'" shows "fence_step N kb S S'"
proof -
  obtain i pc r s' pc' where i: "i < N" "snd S i = (pc, r)" "pc' \<noteq> pc" "fence_next kb i (fst S) pc = (s', pc')"
    and S': "S' = (s', (snd S)(i := (pc', if pc' = Outside then Suc r else r)))"
    using assms unfolding fence_move_def by blast
  have "pc \<noteq> Outside" using i(3,4) by (auto simp: fence_next_def)
  then show ?thesis using fence_step.move [of i N "snd S" pc r kb "fst S"] i S' by simp
qed

lemma fence_moves:
  assumes "(fence_move N kb ^^ n) S S'"
  shows "(fence_step N kb)\<^sup>*\<^sup>* S S' \<and> fence_work N S' + n \<le> fence_work N S"
  using assms
proof (induction n arbitrary: S')
  case (Suc n)
  then obtain T where T: "(fence_move N kb ^^ n) S T" "fence_move N kb T S'" by auto
  show ?case
    using Suc.IH [OF T(1)] fence_work_move [OF T(2)] fence_move_step [OF T(2)]
    by (auto intro: rtranclp.rtrancl_into_rtrancl)
qed simp

lemma fence_moveI:
  assumes "i < N" "snd (fence_next kb i (fst S) (fst (snd S i))) \<noteq> fst (snd S i)"
  shows "\<exists>S'. fence_move N kb S S'"
  using assms unfolding fence_move_def
  by (metis prod.collapse)

lemma fence_can_move:
  assumes inv: "fence_inv N S k" and nf: "none_forgotten N S" and inside: "\<forall>i<N. fst (snd S i) \<noteq> Outside"
  shows "\<exists>S'. fence_move N kb S S'"
proof -
  obtain s P where S: "S = (s, P)" by (cases S)
  have a: "snd (arrive kb i s) \<in> {Outside, SetWait, SleepDepart}" for i by (rule arrive_places)
  show ?thesis
  proof (cases "is_arrival_phase s")
    case True
    then have lt: "card (waiters_of N P) < N" using inv S by (simp add: fence_inv_def)
    have "\<exists>i<N. \<not> waiting (fst (P i))"
    proof (rule ccontr)
      assume "\<not> ?thesis"
      then show False using waiters_all [of N P] lt by simp
    qed
    then obtain i where i: "i < N" "\<not> waiting (fst (P i))" by blast
    have "snd (fence_next kb i s (fst (P i))) \<noteq> fst (P i)"
      using i inside S True a [of i] nf
      by (cases "fst (P i)") (auto simp: fence_next_def waiting_def fence_spins_def none_forgotten_def)
    then show ?thesis using fence_moveI [of i N kb S] i(1) S by simp
  next
    case False
    then have "0 < card (waiters_of N P)" using inv S by (simp only: fence_inv_def prod.case if_False)
    then have "waiters_of N P \<noteq> {}" by (metis card.empty less_irrefl)
    then obtain i where i: "i < N" "waiting (fst (P i))" by blast
    have "snd (fence_next kb i s (fst (P i))) \<noteq> fst (P i)"
      using i False nf S by (cases "fst (P i)") (auto simp: fence_next_def waiting_def none_forgotten_def)
    then show ?thesis using fence_moveI [of i N kb S] i(1) S by simp
  qed
qed

subsection \<open>The fence is a barrier and does not block\<close>

text \<open>
  C4: \<open>waitFence\<close> is a barrier: with \<open>maxthreads = N\<close>, under every interleaving of calls, critical
  sections, spins and wakeups, no thread is ever more than one fence ahead of another, and a thread that
  is ahead left only after the other had arrived (it is past its arrival and has only to leave).
\<close>

theorem fence_barrier:
  assumes "fence_start N s" "N < 2 ^ 64" "i < N" "j < N"
    and run: "(fence_step N kb)\<^sup>*\<^sup>* (s, \<lambda>_. (Outside, 0)) (s', P)"
  shows "snd (P i) \<le> Suc (snd (P j)) \<and> (snd (P j) < snd (P i) \<longrightarrow> waiting (fst (P j)))"
proof -
  obtain k where "fence_inv N (s', P) k"
    using fence_reach [OF run assms(2)] fence_start_inv [OF assms(1)] assms(3) by auto
  then have "(if is_arrival_phase s' then snd (P t) = k
      else if waiting (fst (P t)) then snd (P t) = k else snd (P t) = Suc k)" if "t < N" for t
    using that by (auto simp: fence_inv_def split: if_splits)
  from this [OF assms(3)] this [OF assms(4)] show ?thesis by (auto split: if_splits)
qed

text \<open>
  C24: The fence does not block, also when no wakeup is spurious: from any reachable state (the threads
  may have been woken spuriously on the way) the threads inside can make at most \<open>7 * N\<close> moves that
  change their place before somebody leaves or calls again, and as long as all \<open>N\<close> threads are inside
  one of them has such a move. A sleeper moves only after a \<open>pthread_cond_broadcast\<close> has set it free, so
  the broadcasts of \<open>waitFence\<close> lose nobody, in the spinning and in the sleeping variant.
\<close>

theorem fence_live:
  assumes "fence_start N s" "fence_cond s = {}" "N < 2 ^ 64" "0 < N"
    and run: "(fence_step N kb)\<^sup>*\<^sup>* (s, \<lambda>_. (Outside, 0)) S"
    and moves: "(fence_move N kb ^^ n) S S'"
  shows "n \<le> 7 * N \<and> ((\<forall>i<N. fst (snd S' i) \<noteq> Outside) \<longrightarrow> (\<exists>S''. fence_move N kb S' S''))"
proof -
  have r: "(fence_step N kb)\<^sup>*\<^sup>* (s, \<lambda>_. (Outside, 0)) S'" "n \<le> 7 * N"
    using fence_moves [OF moves] run fence_work_le [of N S] by (auto intro: rtranclp_trans)
  have "none_forgotten N S'"
    by (rule none_forgotten_reach [OF r(1)]) (simp add: none_forgotten_def assms(2))
  moreover obtain k where "fence_inv N S' k"
    using fence_reach [OF r(1) assms(3)] fence_start_inv [OF assms(1)] assms(4) by blast
  ultimately show ?thesis using fence_can_move r(2) by blast
qed

subsection \<open>Two threads on four cores: both call, thread 0 arrives, then thread 1\<close>

definition demo_called :: "(u64 \<Rightarrow> u64) fence_sys" where
  "demo_called = (demo, (\<lambda>_. (Outside, 0))(0 := (Entry, 0), 1 := (Entry, 0)))"

definition demo_arrived :: "(u64 \<Rightarrow> u64) fence_sys" where
  "demo_arrived = (demo\<lparr>currthreads := 1\<rparr>, (\<lambda>_. (Outside, 0))(0 := (SetWait, 0), 1 := (Entry, 0)))"

definition demo_ahead :: "(u64 \<Rightarrow> u64) fence_sys" where
  "demo_ahead = (demo\<lparr>currthreads := 1, is_arrival_phase := False, fence_cond := {}\<rparr>,
     (\<lambda>_. (Outside, 0))(0 := (SetWait, 0), 1 := (Outside, 1)))"

lemma demo_fence:
  "fence_start 2 demo" "maxthreads demo = 2" "currthreads demo = 0" "is_arrival_phase demo" "coresNumb demo = 4"
  "fence_cond demo = {}"
  by (simp_all add: fence_start_def demo_def determ_init_def)

lemma demo_called_reach: "(fence_step 2 False)\<^sup>*\<^sup>* (demo, \<lambda>_. (Outside, 0)) demo_called"
proof -
  have "fence_step 2 False (demo, \<lambda>_. (Outside, 0)) (demo, (\<lambda>_. (Outside, 0))(0 := (Entry, 0)))"
    by (rule fence_step.call) auto
  moreover have "fence_step 2 False (demo, (\<lambda>_. (Outside, 0))(0 := (Entry, 0))) demo_called"
    unfolding demo_called_def by (rule fence_step.call) auto
  ultimately show ?thesis by auto
qed

lemma demo_arrives: "fence_move 2 False demo_called demo_arrived"
proof -
  have nx: "fence_next False 0 demo Entry = (demo\<lparr>currthreads := 1\<rparr>, SetWait)"
    using demo_fence
    by (simp add: fence_next_def fence_spins_def arrive_def fence_arrive_eq Let_def word_le_nat_alt)
  show ?thesis
    unfolding fence_move_def demo_called_def demo_arrived_def
    by (rule exI [of _ 0], intro conjI exI [of _ "Entry"] exI [of _ "0::nat"] exI [of _ "demo\<lparr>currthreads := 1\<rparr>"] exI [of _ "SetWait"])
      (simp_all add: nx fun_eq_iff)
qed

lemma demo_overtakes: "fence_move 2 False demo_arrived demo_ahead"
proof -
  let ?s = "demo\<lparr>currthreads := 1, is_arrival_phase := False, fence_cond := {}\<rparr>"
  have nx: "fence_next False 1 (demo\<lparr>currthreads := 1\<rparr>) Entry = (?s, Outside)"
    using demo_fence
    by (simp add: fence_next_def fence_spins_def arrive_def fence_arrive_eq Let_def fence_depart_def)
  show ?thesis
    unfolding fence_move_def demo_arrived_def demo_ahead_def
    by (rule exI [of _ 1], intro conjI exI [of _ "Entry"] exI [of _ "0::nat"] exI [of _ ?s] exI [of _ "Outside"])
      (simp_all add: nx [unfolded One_nat_def] nx fun_eq_iff)
qed

theorem fence_barrier_witness: "snd (snd demo_ahead 0) < snd (snd demo_ahead 1) \<and> waiting (fst (snd demo_ahead 0))"
proof -
  have "(fence_step 2 False)\<^sup>*\<^sup>* (demo, \<lambda>_. (Outside, 0)) (fst demo_ahead, snd demo_ahead)"
    using demo_called_reach fence_move_step [OF demo_arrives] fence_move_step [OF demo_overtakes] by simp
  from fence_barrier [OF demo_fence(1) _ _ _ this, of 1 0] show ?thesis
    by (simp add: demo_ahead_def)
qed

theorem fence_live_witness: "(1::nat) \<le> 7 * 2 \<and> (\<exists>S. fence_move 2 False demo_arrived S)"
proof -
  have m: "(fence_move 2 False ^^ 1) demo_called demo_arrived" using demo_arrives by (simp add: eq_OO)
  have "\<forall>i<2. fst (snd demo_arrived i) \<noteq> Outside" by (auto simp: demo_arrived_def)
  with fence_live [OF demo_fence(1) demo_fence(6) _ _ demo_called_reach m] show ?thesis by simp
qed

end
