(* ===== verification/Xpersist.thy ===== *)
theory Xpersist
  imports Page_Tables
begin

text \<open>
  \<^verbatim>\<open>src/include/xpersist.h\<close>: a region of memory that each process sees through a private
  copy-on-write mapping and commits to a shared one.

  A region is a number of pages. The shared state holds the backing file (\<open>persistent\<close>, a page at a
  time), the versions, the users and twin index and the owner of every page and the pool of twins
  (\<open>xbitmap\<close>). Every process has its own mapping: a protection per page, a private copy of the pages it
  has written while the mapping was \<open>MAP_PRIVATE\<close>, and the bookkeeping of \<open>xpersist\<close>. \<open>load\<close> and
  \<open>store\<close> are memory accesses of the program: they run the fault handler while the protection does
  not allow the access, and try again.

  \<open>mmap\<close>, \<open>mprotect\<close>, \<open>madvise\<close> and \<open>sigqueue\<close> do what POSIX and Linux say: \<open>MADV_DONTNEED\<close> drops the
  private copy, a page without one shows the backing file, and a signal queued to a live process runs
  its handler.
\<close>

subsection \<open>The state\<close>

definition SHARED_PAGE :: int where "SHARED_PAGE = 2147483647"

datatype page_access_info = PAGE_ACCESS_NONE | PAGE_ACCESS_READ | PAGE_ACCESS_READ_WRITE | PAGE_UNUSED

datatype prot = Prot_None | Prot_Read | Prot_RW

type_synonym page = "nat \<Rightarrow> u8"

record plocal =
  isCopyOnWrite :: bool
  mapPrivate :: bool
  prot :: "nat \<Rightarrow> prot"
  copies :: "nat \<Rightarrow> page option"
  pageInfo :: "nat \<Rightarrow> page_access_info"
  ownedblockinfo :: "nat \<Rightarrow> nat"
  ownedblocks :: nat
  trans :: u32
  dirtied :: "(nat \<times> nat) list"
  entrypool :: xpageentry
  accesslog :: "(bool \<times> u64 \<times> u64) list"

record xpersist =
  isHeap :: bool
  startaddr :: u64
  pages :: nat
  persistent :: "nat \<Rightarrow> page"
  versions :: "nat \<Rightarrow> u64"
  users :: "nat \<Rightarrow> u16"
  bitmapIndex :: "nat \<Rightarrow> u16"
  pageOwner :: "nat \<Rightarrow> int"
  twins :: xbitmap
  procs :: "int \<Rightarrow> plocal"
  alive :: "int \<Rightarrow> bool"

abbreviation upd_proc :: "int \<Rightarrow> (plocal \<Rightarrow> plocal) \<Rightarrow> xpersist \<Rightarrow> xpersist" where
  "upd_proc pid f s \<equiv> s\<lparr>procs := (procs s)(pid := f (procs s pid))\<rparr>"

text \<open>What a process reads in a page, whatever the protection.\<close>

definition view :: "xpersist \<Rightarrow> int \<Rightarrow> nat \<Rightarrow> page" where
  "view s pid p = (case copies (procs s pid) p of Some c \<Rightarrow> c | None \<Rightarrow> persistent s p)"

definition computePage :: "nat \<Rightarrow> nat" where
  "computePage index = index div 4096"

definition getPageStart :: "xpersist \<Rightarrow> nat \<Rightarrow> u64" where
  "getPageStart s pageNo = startaddr s + of_nat (4096 * pageNo)"

definition pageAt :: "xpersist \<Rightarrow> u64 \<Rightarrow> nat" where
  "pageAt s addr = computePage (unat (addr - startaddr s))"

definition inRange :: "xpersist \<Rightarrow> u64 \<Rightarrow> bool" where
  "inRange s addr = (startaddr s \<le> addr \<and> addr < startaddr s + of_nat (4096 * pages s))"

subsection \<open>Construction and protection of the whole region\<close>

text \<open>
  The constructor. \<open>img\<close> is the content at \<open>startaddr\<close> (the globals), \<open>startsize\<close> its size;
  \<open>os_ok\<close> says whether \<open>mkstemp\<close>, \<open>ftruncate\<close> and \<open>mmap\<close> succeed, \<open>area\<close> where the mapping is when
  \<open>startaddr\<close> is \<open>NULL\<close>. The child of a \<open>fork\<close> starts with a copy of \<open>plocal\<close>.
\<close>

definition xpersist_new :: "u64 \<Rightarrow> nat \<Rightarrow> (nat \<Rightarrow> u8) \<Rightarrow> nat \<Rightarrow> bool \<Rightarrow> u64 \<Rightarrow> xbitmap \<Rightarrow> xpageentry \<Rightarrow> xpersist res" where
  "xpersist_new start startsize img npages os_ok area bm pool =
     (if startsize > 4096 * npages then Inl Abort
      else if \<not> os_ok then Inl Abort
      else Inr \<lparr>isHeap = (start = 0), startaddr = (if start = 0 then area else start), pages = npages,
        persistent = (\<lambda>p k. if start \<noteq> 0 \<and> 4096 * p + k < startsize then img (4096 * p + k) else 0),
        versions = (\<lambda>_. 0), users = (\<lambda>_. 0), bitmapIndex = (\<lambda>_. 0), pageOwner = (\<lambda>_. 0), twins = bm,
        procs = (\<lambda>_. \<lparr>isCopyOnWrite = False, mapPrivate = False, prot = (\<lambda>_. Prot_RW), copies = (\<lambda>_. None),
          pageInfo = (\<lambda>_. PAGE_ACCESS_NONE), ownedblockinfo = (\<lambda>_. 0), ownedblocks = 0, trans = 0,
          dirtied = [], entrypool = pool, accesslog = []\<rparr>),
        alive = (\<lambda>_. False)\<rparr>)"

definition xpersist_fork :: "int \<Rightarrow> int \<Rightarrow> xpersist \<Rightarrow> xpersist" where
  "xpersist_fork parent child s =
     s\<lparr>procs := (procs s)(child := procs s parent), alive := (alive s)(child := True)\<rparr>"

definition xpersist_initialize :: "int \<Rightarrow> xpersist \<Rightarrow> xpersist" where
  "xpersist_initialize pid s = upd_proc pid (dirtied_update (\<lambda>_. [])) s"

text \<open>\<open>mmap\<close> with \<open>MAP_FIXED\<close> over the whole region: the private copies are gone.\<close>

definition setProtection :: "int \<Rightarrow> prot \<Rightarrow> bool \<Rightarrow> xpersist \<Rightarrow> xpersist" where
  "setProtection pid pr private s =
     upd_proc pid (\<lambda>l. l\<lparr>prot := (\<lambda>_. pr), mapPrivate := private, copies := (\<lambda>_. None)\<rparr>) s"

definition closeProtection :: "int \<Rightarrow> xpersist \<Rightarrow> xpersist" where
  "closeProtection pid s = upd_proc pid (isCopyOnWrite_update (\<lambda>_. False)) (setProtection pid Prot_RW False s)"

definition xpersist_finalize :: "int \<Rightarrow> xpersist \<Rightarrow> xpersist" where
  "xpersist_finalize pid s = (if isCopyOnWrite (procs s pid) then setProtection pid Prot_RW False s else s)"

text \<open>
  \<open>allocSize\<close> is an \<open>int\<close>, divided towards zero; with a negative quotient the second loop starts
  before the arrays.
\<close>

definition allocPages :: "u64 \<Rightarrow> xpersist \<Rightarrow> int" where
  "allocPages end s = (let d = sint (ucast (end - startaddr s) :: 32 word) in
     if 0 \<le> d then d div 4096 else - ((- d) div 4096))"

definition setCopyOnWrite :: "int \<Rightarrow> u64 \<Rightarrow> bool \<Rightarrow> xpersist \<Rightarrow> xpersist res" where
  "setCopyOnWrite pid end copyOnWrite s =
     rbind (if isHeap s then
              let s1 = setProtection pid Prot_None copyOnWrite s; n = allocPages end s in
              if n < 0 then Inl Segv
              else Inr (upd_proc pid (pageInfo_update (\<lambda>f p. if p < nat n then PAGE_ACCESS_NONE
                                     else if p < pages s then PAGE_UNUSED else f p))
                     (s1\<lparr>pageOwner := (\<lambda>p. if p < nat n then SHARED_PAGE
                                     else if p < pages s then 0 else pageOwner s p)\<rparr>))
            else
              let s1 = setProtection pid Prot_Read copyOnWrite s in
              Inr (upd_proc pid (pageInfo_update (\<lambda>f p. if p < pages s then PAGE_ACCESS_READ else f p))
                     (s1\<lparr>pageOwner := (\<lambda>p. if p < pages s then SHARED_PAGE else pageOwner s p)\<rparr>)))
       (\<lambda>s2. Inr (upd_proc pid (\<lambda>l. l\<lparr>ownedblocks := 0, trans := 0, isCopyOnWrite := copyOnWrite\<rparr>) s2))"

text \<open>\<open>mem_write\<close>: eight bytes, little endian, straight into the shared mapping.\<close>

definition mem_write :: "u64 \<Rightarrow> u64 \<Rightarrow> xpersist \<Rightarrow> xpersist" where
  "mem_write addr val s =
     (let off = unat (addr - startaddr s) in
      s\<lparr>persistent := (\<lambda>p k. if k < 4096 \<and> off \<le> 4096 * p + k \<and> 4096 * p + k < off + 8
                            then ucast (drop_bit (8 * (4096 * p + k - off)) val) else persistent s p k)\<rparr>)"

subsection \<open>Protection and ownership of pages\<close>

definition mprotect :: "int \<Rightarrow> nat \<Rightarrow> prot \<Rightarrow> xpersist \<Rightarrow> xpersist" where
  "mprotect pid p pr s = upd_proc pid (prot_update (\<lambda>f. f(p := pr))) s"

definition madvise_dontneed :: "int \<Rightarrow> nat \<Rightarrow> xpersist \<Rightarrow> xpersist" where
  "madvise_dontneed pid p s = upd_proc pid (copies_update (\<lambda>f. f(p := None))) s"

definition mprotectRead :: "int \<Rightarrow> nat \<Rightarrow> xpersist \<Rightarrow> xpersist" where
  "mprotectRead pid pageNo s =
     mprotect pid pageNo Prot_Read (upd_proc pid (pageInfo_update (\<lambda>f. f(pageNo := PAGE_ACCESS_READ))) s)"

definition mprotectReadWrite :: "int \<Rightarrow> nat \<Rightarrow> xpersist \<Rightarrow> xpersist" where
  "mprotectReadWrite pid pageNo s =
     mprotect pid pageNo Prot_RW
       (if pageOwner s pageNo = pid
        then upd_proc pid (pageInfo_update (\<lambda>f. f(pageNo := PAGE_ACCESS_READ_WRITE))) s else s)"

definition isSharedPage :: "nat \<Rightarrow> xpersist \<Rightarrow> bool" where
  "isSharedPage pageNo s = (pageOwner s pageNo = SHARED_PAGE)"

text \<open>
  \<open>_ownedblockinfo\<close> is one page, 512 numbers: the entry of the 257th block lies behind it. The check that
  follows the entry counts to 2048.
\<close>

definition setOwnedPage :: "int \<Rightarrow> u64 \<Rightarrow> u64 \<Rightarrow> xpersist \<Rightarrow> xpersist res" where
  "setOwnedPage pid addr sz s =
     (if \<not> isCopyOnWrite (procs s pid) then Inr s
      else
        let startPage = pageAt s addr; n = unat sz div 4096; blocks = ownedblocks (procs s pid);
            own = {startPage ..< startPage + n};
            s1 = upd_proc pid (\<lambda>l. l\<lparr>prot := (\<lambda>p. if p \<in> own then Prot_None else prot l p),
                   pageInfo := (\<lambda>p. if p \<in> own then PAGE_ACCESS_NONE else pageInfo l p),
                   ownedblockinfo := (ownedblockinfo l)(2 * blocks := startPage, 2 * blocks + 1 := startPage + n),
                   ownedblocks := Suc blocks\<rparr>)
                 (s\<lparr>pageOwner := (\<lambda>p. if p \<in> own then pid else pageOwner s p)\<rparr>) in
        if 4096 div 8 \<le> 2 * blocks + 1 then Inl Undefined
        else if Suc blocks = 4096 div 2 then Inl Exit else Inr s1)"

text \<open>
  The exchange is eight bytes wide, \<open>_pageOwner\<close> an array of four-byte integers: the entry of the
  next page becomes the high half of \<open>SHARED_PAGE\<close>, which is zero.
\<close>

definition setSharedPage :: "int \<Rightarrow> nat \<Rightarrow> xpersist \<Rightarrow> xpersist" where
  "setSharedPage pid pageNo s =
     (if pageOwner s pageNo \<noteq> SHARED_PAGE
      then upd_proc pid (pageInfo_update (\<lambda>f. f(pageNo := PAGE_ACCESS_READ)))
             (s\<lparr>pageOwner := (pageOwner s)(pageNo := SHARED_PAGE, Suc pageNo := 0)\<rparr>)
      else s)"

definition cleanupOwnedBlocks :: "int \<Rightarrow> xpersist \<Rightarrow> xpersist" where
  "cleanupOwnedBlocks pid s = upd_proc pid (ownedblocks_update (\<lambda>_. 0)) s"

definition bump :: "nat \<Rightarrow> xpersist \<Rightarrow> xpersist" where
  "bump pageNo s = s\<lparr>versions := (versions s)(pageNo := versions s pageNo + 1)\<rparr>"

text \<open>
  \<open>commitOwnedPage\<close>. The \<open>memcpy\<close> reads the page through the private mapping; if an earlier commit
  left it without read access, the nested fault marks it as read first.
\<close>

definition commitOwnedPage :: "int \<Rightarrow> nat \<Rightarrow> bool \<Rightarrow> xpersist \<Rightarrow> xpersist" where
  "commitOwnedPage pid pageNo setShared s =
     (let s1 = (if pageInfo (procs s pid) pageNo \<noteq> PAGE_ACCESS_NONE \<and>
                   pageInfo (procs s pid) pageNo \<noteq> PAGE_ACCESS_READ
                then
                  let s0 = (if prot (procs s pid) pageNo = Prot_None then mprotectRead pid pageNo s else s) in
                  mprotect pid pageNo Prot_None
                    (s0\<lparr>persistent := (persistent s0)(pageNo := view s0 pid pageNo)\<rparr>)
                else s);
          s2 = (if setShared then madvise_dontneed pid pageNo (setSharedPage pid pageNo s1) else s1) in
      bump pageNo s2)"

text \<open>
  A live owner runs \<open>commitOwnedPage(pageNo, true)\<close> in its signal handler while the caller spins on
  the owner entry.
\<close>

definition notifyOwnerToCommit :: "int \<Rightarrow> nat \<Rightarrow> xpersist \<Rightarrow> xpersist" where
  "notifyOwnerToCommit pid pageNo s =
     (let owner = pageOwner s pageNo in
      if owner = SHARED_PAGE then s
      else if owner = 0 then setSharedPage pid pageNo s
      else if alive s owner then commitOwnedPage owner pageNo True s
      else setSharedPage pid pageNo s)"

definition forceCommitOwnedPages :: "int \<Rightarrow> int \<Rightarrow> u64 \<Rightarrow> xpersist \<Rightarrow> xpersist" where
  "forceCommitOwnedPages me pid end s =
     fold (\<lambda>i t. if pageOwner t i = pid then notifyOwnerToCommit me i t else t) [0 ..< pageAt s end] s"

definition finalcommit :: "int \<Rightarrow> bool \<Rightarrow> xpersist \<Rightarrow> xpersist" where
  "finalcommit pid release s =
     fold (\<lambda>i t. fold (\<lambda>j u. if pageOwner u j = pid then commitOwnedPage pid j release u else u)
                   [ownedblockinfo (procs t pid) (2 * i) ..< ownedblockinfo (procs t pid) (2 * i + 1)] t)
       [0 ..< ownedblocks (procs s pid)] s"

subsection \<open>The fault handler\<close>

definition handleRead :: "int \<Rightarrow> nat \<Rightarrow> xpersist \<Rightarrow> xpersist" where
  "handleRead pid pageNo s =
     mprotectRead pid pageNo
       (case pageInfo (procs s pid) pageNo of
          PAGE_UNUSED \<Rightarrow> notifyOwnerToCommit pid pageNo s
        | _ \<Rightarrow> s)"

text \<open>The multimap keeps equal keys in the order of their insertion.\<close>

fun mm_insert :: "nat \<Rightarrow> nat \<Rightarrow> (nat \<times> nat) list \<Rightarrow> (nat \<times> nat) list" where
  "mm_insert k v [] = [(k, v)]"
| "mm_insert k v ((k', v') # xs) = (if k < k' then (k, v) # (k', v') # xs else (k', v') # mm_insert k v xs)"

text \<open>\<open>incl\<close> on the eight bytes at \<open>_pageUsers[pageNo]\<close>: the low half is \<open>users\<close>, the carry goes to the index.\<close>

definition addUser :: "nat \<Rightarrow> xpersist \<Rightarrow> xpersist" where
  "addUser pageNo s =
     s\<lparr>users := (users s)(pageNo := users s pageNo + 1),
       bitmapIndex := (if users s pageNo = 0xFFFF then (bitmapIndex s)(pageNo := bitmapIndex s pageNo + 1)
                       else bitmapIndex s)\<rparr>"

definition addDirty :: "int \<Rightarrow> nat \<Rightarrow> xpersist \<Rightarrow> xpersist res" where
  "addDirty pid pageNo s =
     rbind (xpageentry_alloc (entrypool (procs s pid))) (\<lambda>(i, e).
       let info = \<lparr>pi_pageNo = pageNo, pi_version = ucast (versions s pageNo),
                   pi_pageStart = getPageStart s pageNo, pi_isShared = pi_isShared (pe_pool e i),
                   pi_release = True\<rparr> in
       Inr (upd_proc pid (\<lambda>l. l\<lparr>entrypool := e\<lparr>pe_pool := (pe_pool e)(i := info)\<rparr>,
                               dirtied := mm_insert pageNo i (dirtied l)\<rparr>) s))"

definition handleWrite :: "int \<Rightarrow> nat \<Rightarrow> xpersist \<Rightarrow> xpersist res" where
  "handleWrite pid pageNo s =
     (let s1 = (case pageInfo (procs s pid) pageNo of
                  PAGE_UNUSED \<Rightarrow> mprotectReadWrite pid pageNo (notifyOwnerToCommit pid pageNo s)
                | PAGE_ACCESS_READ_WRITE \<Rightarrow> commitOwnedPage pid pageNo False (mprotectReadWrite pid pageNo s)
                | _ \<Rightarrow> mprotectReadWrite pid pageNo s) in
      if \<not> isCopyOnWrite (procs s1 pid) then Inr s1
      else if pageOwner s1 pageNo = pid then Inr s1
      else addDirty pid pageNo (addUser pageNo s1))"

definition handleAccess :: "int \<Rightarrow> u64 \<Rightarrow> bool \<Rightarrow> u64 \<Rightarrow> xpersist \<Rightarrow> xpersist res" where
  "handleAccess pid addr is_write issuer s =
     (let pageNo = pageAt s addr;
          s1 = upd_proc pid (accesslog_update (\<lambda>l. l @ [(is_write, issuer, drop_bit PageShift addr)])) s in
      if is_write then handleWrite pid pageNo s1 else Inr (handleRead pid pageNo s1))"

subsection \<open>Accesses of the program\<close>

text \<open>
  One byte at offset \<open>off\<close> of the region, by the instruction at \<open>pc\<close>, tried \<open>n\<close> times: \<open>None\<close> or
  \<open>False\<close> if it faults every time.
\<close>

fun load :: "nat \<Rightarrow> int \<Rightarrow> u64 \<Rightarrow> nat \<Rightarrow> xpersist \<Rightarrow> (u8 option \<times> xpersist) res" where
  "load 0 pid pc off s = Inr (None, s)"
| "load (Suc n) pid pc off s =
     (if prot (procs s pid) (off div 4096) \<noteq> Prot_None
      then Inr (Some (view s pid (off div 4096) (off mod 4096)), s)
      else rbind (handleAccess pid (startaddr s + of_nat off) False pc s) (load n pid pc off))"

definition write_byte :: "int \<Rightarrow> nat \<Rightarrow> u8 \<Rightarrow> xpersist \<Rightarrow> xpersist" where
  "write_byte pid off v s =
     (let p = off div 4096; k = off mod 4096 in
      if mapPrivate (procs s pid)
      then upd_proc pid (copies_update (\<lambda>f. f(p := Some ((view s pid p)(k := v))))) s
      else s\<lparr>persistent := (persistent s)(p := (persistent s p)(k := v))\<rparr>)"

fun store :: "nat \<Rightarrow> int \<Rightarrow> u64 \<Rightarrow> nat \<Rightarrow> u8 \<Rightarrow> xpersist \<Rightarrow> (bool \<times> xpersist) res" where
  "store 0 pid pc off v s = Inr (False, s)"
| "store (Suc n) pid pc off v s =
     (if prot (procs s pid) (off div 4096) = Prot_RW then Inr (True, write_byte pid off v s)
      else rbind (handleAccess pid (startaddr s + of_nat off) True pc s) (store n pid pc off v))"

subsection \<open>The page difference\<close>

text \<open>The vector instructions on sixteen bytes.\<close>

type_synonym m128 = "u8 list"

definition mm_load :: "page \<Rightarrow> nat \<Rightarrow> m128" where
  "mm_load p i = map (\<lambda>j. p (16 * i + j)) [0..<16]"

definition mm_cmpeq_epi8 :: "m128 \<Rightarrow> m128 \<Rightarrow> m128" where
  "mm_cmpeq_epi8 a b = map2 (\<lambda>x y. if x = y then 0xFF else 0) a b"

definition mm_xor_si128 :: "m128 \<Rightarrow> m128 \<Rightarrow> m128" where
  "mm_xor_si128 a b = map2 (XOR) a b"

definition mm_maskmoveu :: "m128 \<Rightarrow> m128 \<Rightarrow> nat \<Rightarrow> page \<Rightarrow> page" where
  "mm_maskmoveu a m i dest =
     (\<lambda>k. if 16 * i \<le> k \<and> k < 16 * i + 16 \<and> bit (m ! (k - 16 * i)) 7 then a ! (k - 16 * i) else dest k)"

definition allones :: m128 where "allones = replicate 16 0xFF"

definition writeChunk :: "page \<Rightarrow> page \<Rightarrow> nat \<Rightarrow> page \<Rightarrow> page" where
  "writeChunk localp twin i dest =
     (let localChunk = mm_load localp i; twinChunk = mm_load twin i;
          eqChunk = mm_cmpeq_epi8 localChunk twinChunk; neqChunk = mm_xor_si128 allones eqChunk in
      mm_maskmoveu localChunk neqChunk i dest)"

definition writePageDiffs :: "page \<Rightarrow> page \<Rightarrow> page \<Rightarrow> page" where
  "writePageDiffs localp twin dest = fold (writeChunk localp twin) [0 ..< 256] dest"

text \<open>The variant without vector instructions: words of eight bytes, then the bytes of a word that differs.\<close>

definition commitWord :: "page \<Rightarrow> page \<Rightarrow> nat \<Rightarrow> page \<Rightarrow> page" where
  "commitWord src twin w dest =
     fold (\<lambda>i d. if src (8 * w + i) \<noteq> twin (8 * w + i) then d(8 * w + i := src (8 * w + i)) else d) [0 ..< 8] dest"

definition writePageDiffs_words :: "page \<Rightarrow> page \<Rightarrow> page \<Rightarrow> page" where
  "writePageDiffs_words localp twin dest =
     fold (\<lambda>w d. if map (\<lambda>i. localp (8 * w + i)) [0 ..< 8] \<noteq> map (\<lambda>i. twin (8 * w + i)) [0 ..< 8]
                  then commitWord localp twin w d else d) [0 ..< 512] dest"

subsection \<open>Commit and update\<close>

definition createTwinPage :: "nat \<Rightarrow> xpersist \<Rightarrow> xpersist" where
  "createTwinPage pageNo s =
     (let (index, bm) = xbitmap_get (twins s) in
      s\<lparr>bitmapIndex := (bitmapIndex s)(pageNo := of_nat index),
        twins := xbitmap_setVersion index (ucast (versions s pageNo))
                   (twin_store index (persistent s pageNo) bm)\<rparr>)"

definition set_release :: "int \<Rightarrow> nat \<Rightarrow> bool \<Rightarrow> xpersist \<Rightarrow> xpersist" where
  "set_release pid i b s =
     upd_proc pid (entrypool_update (\<lambda>e. e\<lparr>pe_pool := (pe_pool e)(i := (pe_pool e i)\<lparr>pi_release := b\<rparr>)\<rparr>)) s"

definition write_back :: "int \<Rightarrow> xpageinfo \<Rightarrow> xpersist \<Rightarrow> xpersist" where
  "write_back pid info s =
     (let pageNo = pi_pageNo info; localp = view s pid (pageAt s (pi_pageStart info)) in
      if ucast (pi_version info) = versions s pageNo
      then s\<lparr>persistent := (persistent s)(pageNo := localp)\<rparr>
      else
        let s1 = setSharedPage pid pageNo s in
        s1\<lparr>persistent := (persistent s1)(pageNo :=
              writePageDiffs localp (twin_bytes (twins s1) (unat (bitmapIndex s1 pageNo))) (persistent s1 pageNo))\<rparr>)"

definition commit_page :: "int \<Rightarrow> nat \<Rightarrow> xpersist \<Rightarrow> xpersist" where
  "commit_page pid i s =
     (let info = pe_pool (entrypool (procs s pid)) i; pageNo = pi_pageNo info;
          s1 = (if 1 < users s pageNo \<and> bitmapIndex s pageNo = 0 then createTwinPage pageNo s else s) in
      if users s1 pageNo \<noteq> 1 \<or> pageOwner s1 pageNo \<noteq> pid then
        let s2 = write_back pid info (set_release pid i True s1);
            s3 = (if users s2 pageNo = 1 then s2\<lparr>bitmapIndex := (bitmapIndex s2)(pageNo := 0)\<rparr> else s2) in
        bump pageNo (s3\<lparr>users := (users s3)(pageNo := users s3 pageNo - 1)\<rparr>)
      else set_release pid i False s1)"

definition checkandcommit :: "int \<Rightarrow> xpersist \<Rightarrow> xpersist" where
  "checkandcommit pid s =
     (if dirtied (procs s pid) = [] then s
      else fold (commit_page pid) (map snd (dirtied (procs s pid)))
             (upd_proc pid (trans_update (\<lambda>t. t + 1)) s))"

definition updatePage :: "int \<Rightarrow> u64 \<Rightarrow> bool \<Rightarrow> xpersist \<Rightarrow> xpersist" where
  "updatePage pid localp release s =
     (let p = pageAt s localp; s1 = (if release then madvise_dontneed pid p s else s) in
      mprotect pid p (if isHeap s1 then Prot_None else Prot_Read) s1)"

definition updateAll :: "int \<Rightarrow> xpersist \<Rightarrow> xpersist" where
  "updateAll pid s =
     (let s1 = fold (\<lambda>i t. let info = pe_pool (entrypool (procs t pid)) i in
                          updatePage pid (pi_pageStart info) (pi_release info) t)
                 (map snd (dirtied (procs s pid))) s in
      upd_proc pid (\<lambda>l. l\<lparr>dirtied := [], entrypool := xpageentry_cleanup (entrypool l)\<rparr>) s1)"

definition nop :: "int \<Rightarrow> xpersist \<Rightarrow> bool" where
  "nop pid s = (dirtied (procs s pid) = [])"

definition begin_trans :: "int \<Rightarrow> xpersist \<Rightarrow> xpersist" where
  "begin_trans pid s = updateAll pid s"

end
