(* ===== verification/Xpersist_Commit.thy ===== *)
theory Xpersist_Commit
  imports Xpersist
begin

text \<open>
  Commits of \<^verbatim>\<open>xpersist.h\<close>: the page difference is a bytewise merge, and \<open>page_inv\<close>, the invariant of
  the users, versions and twins of a page that makes \<open>checkandcommit\<close> merge what a process has written
  into what the processes before it have committed.
\<close>

subsection \<open>The page difference is a bytewise merge\<close>

lemma writeChunk_at:
  "writeChunk l t i d k = (if 16 * i \<le> k \<and> k < 16 * i + 16 \<and> l k \<noteq> t k then l k else d k)"
proof (cases "16 * i \<le> k \<and> k < 16 * i + 16")
  case True
  then have j: "k - 16 * i < 16" "16 * i + (k - 16 * i) = k" by linarith+
  have "bit (0xFF :: u8) 7" by simp
  then show ?thesis
    using True j
    by (simp add: writeChunk_def Let_def mm_maskmoveu_def mm_load_def mm_cmpeq_epi8_def mm_xor_si128_def
        allones_def)
next
  case False
  then show ?thesis by (auto simp: writeChunk_def Let_def mm_maskmoveu_def)
qed

lemma writeChunks_at:
  "fold (writeChunk l t) [0 ..< n] d k = (if k < 16 * n \<and> l k \<noteq> t k then l k else d k)"
  by (induction n arbitrary: k) (auto simp: writeChunk_at)

lemma writePageDiffs_at:
  "writePageDiffs l t d = (\<lambda>k. if k < 4096 \<and> l k \<noteq> t k then l k else d k)"
  by (simp add: writePageDiffs_def writeChunks_at fun_eq_iff)

lemma commitWord_bytes:
  "fold (\<lambda>i d. if l (a + i) \<noteq> t (a + i) then d(a + i := l (a + i)) else d) [0 ..< n] d k =
    (if a \<le> k \<and> k < a + n \<and> l k \<noteq> t k then l k else d k)"
  by (induction n) auto

lemma commitWord_at:
  "commitWord l t w d k = (if 8 * w \<le> k \<and> k < 8 * w + 8 \<and> l k \<noteq> t k then l k else d k)"
  unfolding commitWord_def by (rule commitWord_bytes)

lemma word_step:
  "(if map (\<lambda>i. l (8 * w + i)) [0 ..< 8] \<noteq> map (\<lambda>i. t (8 * w + i)) [0 ..< 8] then commitWord l t w d else d) k =
    (if 8 * w \<le> k \<and> k < 8 * w + 8 \<and> l k \<noteq> t k then l k else d k)"
proof (cases "8 * w \<le> k \<and> k < 8 * w + 8 \<and> l k \<noteq> t k")
  case True
  then have "k - 8 * w \<in> set [0 ..< 8]" "l (8 * w + (k - 8 * w)) \<noteq> t (8 * w + (k - 8 * w))" by auto
  then have "map (\<lambda>i. l (8 * w + i)) [0 ..< 8] \<noteq> map (\<lambda>i. t (8 * w + i)) [0 ..< 8]" unfolding map_eq_conv by blast
  then show ?thesis using True by (simp only: commitWord_at if_True not_True_eq_False simp_thms)
next
  case False
  then have "(if 8 * w \<le> k \<and> k < 8 * w + 8 \<and> l k \<noteq> t k then l k else d k) = d k" by auto
  then show ?thesis by (simp only: commitWord_at split: if_split) blast
qed

lemma words_at:
  "fold (\<lambda>w d. if map (\<lambda>i. l (8 * w + i)) [0 ..< 8] \<noteq> map (\<lambda>i. t (8 * w + i)) [0 ..< 8] then commitWord l t w d else d)
     [0 ..< n] d k = (if k < 8 * n \<and> l k \<noteq> t k then l k else d k)"
  by (induction n arbitrary: k) (auto simp only: word_step upt_Suc fold_append fold_simps comp_apply split: if_split, auto)

text \<open>
  C29: The page difference is a bytewise merge, in the variant with vector instructions and in the one with
  words: every byte of the page that differs from the twin is copied to the destination and no other byte
  is written.
\<close>

theorem writePageDiffs_merge:
  "writePageDiffs localp twin dest = (\<lambda>k. if k < 4096 \<and> localp k \<noteq> twin k then localp k else dest k) \<and>
   writePageDiffs_words localp twin dest = writePageDiffs localp twin dest"
  by (simp add: writePageDiffs_at writePageDiffs_words_def words_at fun_eq_iff del: upt.simps upt_Suc map_eq_conv)

subsection \<open>Addresses and single operations\<close>

lemma pageAt_offset:
  assumes "off < 4096 * pages s" "4096 * pages s < 2 ^ 64"
  shows "pageAt s (startaddr s + of_nat off) = off div 4096"
proof -
  have "off < 2 ^ 64" using assms by linarith
  then show ?thesis by (simp add: pageAt_def computePage_def unat_of_nat_u64)
qed

lemma pageAt_pageStart:
  assumes "p < pages s" "4096 * pages s < 2 ^ 64"
  shows "pageAt s (getPageStart s p) = p"
proof -
  have "4096 * p < 4096 * pages s" using assms(1) by simp
  from pageAt_offset [OF this assms(2)] show ?thesis unfolding getPageStart_def by simp
qed

definition dpages :: "xpersist \<Rightarrow> int \<Rightarrow> nat set" where
  "dpages s i = fst ` set (dirtied (procs s i))"

lemma set_mm_insert [simp]: "set (mm_insert k v xs) = insert (k, v) (set xs)"
  by (induction k v xs rule: mm_insert.induct) auto

lemma distinct_mm_insert_fst:
  "distinct (map fst (mm_insert k v xs)) \<longleftrightarrow> k \<notin> fst ` set xs \<and> distinct (map fst xs)"
  by (induction k v xs rule: mm_insert.induct) auto

lemma distinct_mm_insert_snd:
  "distinct (map snd (mm_insert k v xs)) \<longleftrightarrow> v \<notin> snd ` set xs \<and> distinct (map snd xs)"
  by (induction k v xs rule: mm_insert.induct) auto

text \<open>
  What every dirty entry records, and what the mapping of a process in a transaction looks like; \<open>vb\<close>
  are the versions its pages had when they became dirty.
\<close>

definition entries_ok :: "xpersist \<Rightarrow> int \<Rightarrow> (nat \<Rightarrow> u64) \<Rightarrow> bool" where
  "entries_ok s i vb \<longleftrightarrow>
     distinct (map fst (dirtied (procs s i))) \<and> distinct (map snd (dirtied (procs s i))) \<and>
     (\<forall>(p, x) \<in> set (dirtied (procs s i)). p < pages s \<and> int x < pe_cur (entrypool (procs s i)) \<and>
        pi_pageNo (pe_pool (entrypool (procs s i)) x) = p \<and>
        pi_pageStart (pe_pool (entrypool (procs s i)) x) = getPageStart s p \<and>
        pi_version (pe_pool (entrypool (procs s i)) x) = ucast (vb p))"

definition mapping_ok :: "xpersist \<Rightarrow> int \<Rightarrow> bool" where
  "mapping_ok s i \<longleftrightarrow>
     isCopyOnWrite (procs s i) \<and> mapPrivate (procs s i) \<and> 0 \<le> pe_cur (entrypool (procs s i)) \<and>
     (\<forall>p. copies (procs s i) p \<noteq> None \<longleftrightarrow> p \<in> dpages s i) \<and>
     (\<forall>p<pages s. (prot (procs s i) p = Prot_RW \<longleftrightarrow> p \<in> dpages s i) \<and>
        pageInfo (procs s i) p \<in> {PAGE_ACCESS_NONE, PAGE_ACCESS_READ})"

lemma entries_okD:
  assumes "entries_ok s i vb" "(p, x) \<in> set (dirtied (procs s i))"
  shows "p < pages s" "int x < pe_cur (entrypool (procs s i))"
    "pi_pageNo (pe_pool (entrypool (procs s i)) x) = p"
    "pi_pageStart (pe_pool (entrypool (procs s i)) x) = getPageStart s p"
    "pi_version (pe_pool (entrypool (procs s i)) x) = ucast (vb p)"
  using assms unfolding entries_ok_def by auto

text \<open>The effect of \<open>commit_page\<close> on a shared page.\<close>

definition commit_twins :: "nat \<Rightarrow> xpersist \<Rightarrow> u16 \<times> xbitmap" where
  "commit_twins p s =
     (if 1 < users s p \<and> bitmapIndex s p = 0
      then let s1 = createTwinPage p s in (bitmapIndex s1 p, twins s1)
      else (bitmapIndex s p, twins s))"

definition commit_content :: "nat \<Rightarrow> u32 \<Rightarrow> page \<Rightarrow> xpersist \<Rightarrow> page" where
  "commit_content p v localp s =
     (if ucast v = versions s p then localp
      else let (bi, tw) = commit_twins p s in writePageDiffs localp (twin_bytes tw (unat bi)) (persistent s p))"

lemma createTwinPage_eq:
  "createTwinPage p s =
     s\<lparr>bitmapIndex := (bitmapIndex s)(p := bitmapIndex (createTwinPage p s) p), twins := twins (createTwinPage p s)\<rparr>"
  by (simp add: createTwinPage_def case_prod_beta Let_def)

lemma commit_page_shared:
  assumes x: "pe_pool (entrypool (procs s i)) x = info" "pi_pageNo info = p" "pageAt s (pi_pageStart info) = p"
    and o: "pageOwner s p = SHARED_PAGE" "i \<noteq> SHARED_PAGE"
  shows "commit_page i x s =
    (set_release i x True s)
      \<lparr>persistent := (persistent s)(p := commit_content p (pi_version info) (view s i p) s),
       users := (users s)(p := users s p - 1),
       bitmapIndex := (bitmapIndex s)(p := if users s p = 1 then 0 else fst (commit_twins p s)),
       twins := snd (commit_twins p s), versions := (versions s)(p := versions s p + 1)\<rparr>"
proof -
  define s1 where "s1 = (if 1 < users s p \<and> bitmapIndex s p = 0 then createTwinPage p s else s)"
  have s1: "s1 = s\<lparr>bitmapIndex := (bitmapIndex s)(p := fst (commit_twins p s)), twins := snd (commit_twins p s)\<rparr>"
    using createTwinPage_eq [of p s] by (auto simp: s1_def commit_twins_def Let_def)
  have "commit_page i x s =
     (if users s1 p \<noteq> 1 \<or> pageOwner s1 p \<noteq> i then
        let s2 = write_back i info (set_release i x True s1);
            s3 = (if users s2 p = 1 then s2\<lparr>bitmapIndex := (bitmapIndex s2)(p := 0)\<rparr> else s2) in
        bump p (s3\<lparr>users := (users s3)(p := users s3 p - 1)\<rparr>)
      else set_release i x False s1)"
    by (simp only: commit_page_def Let_def x(1,2) s1_def)
  also have "\<dots> = (let s2 = write_back i info (set_release i x True s1);
          s3 = (if users s2 p = 1 then s2\<lparr>bitmapIndex := (bitmapIndex s2)(p := 0)\<rparr> else s2) in
      bump p (s3\<lparr>users := (users s3)(p := users s3 p - 1)\<rparr>))"
    using o by (simp add: s1)
  also have "\<dots> = (set_release i x True s)
      \<lparr>persistent := (persistent s)(p := commit_content p (pi_version info) (view s i p) s),
       users := (users s)(p := users s p - 1),
       bitmapIndex := (bitmapIndex s)(p := if users s p = 1 then 0 else fst (commit_twins p s)),
       twins := snd (commit_twins p s), versions := (versions s)(p := versions s p + 1)\<rparr>"
    using x(2,3) o(1)
    by (intro xpersist.equality)
      (auto simp: s1 write_back_def Let_def set_release_def setSharedPage_def bump_def commit_content_def
        case_prod_beta pageAt_def view_def split: option.split)
  finally show ?thesis .
qed

subsection \<open>The invariant of the shared tables during a round\<close>

text \<open>
  \<open>M0\<close> and \<open>V0\<close> are contents and versions at the start of the round, \<open>D i\<close> the pages process \<open>i\<close> has
  dirtied in its first transaction and not committed, \<open>C\<close> the pages the running critical section has
  dirtied, \<open>b\<close> the number of commits so far and \<open>U\<close> the pages the running commit has still to bump.
\<close>

definition cnt :: "int set \<Rightarrow> (int \<Rightarrow> nat set) \<Rightarrow> nat \<Rightarrow> nat" where
  "cnt PS D p = card {i \<in> PS. p \<in> D i}"

definition page_inv ::
  "int set \<Rightarrow> (nat \<Rightarrow> page) \<Rightarrow> (nat \<Rightarrow> u64) \<Rightarrow> (int \<Rightarrow> nat set) \<Rightarrow> nat set \<Rightarrow> nat set \<Rightarrow> nat \<Rightarrow> xpersist \<Rightarrow> nat \<Rightarrow> bool" where
  "page_inv PS M0 V0 D C U b s p \<longleftrightarrow>
     pageOwner s p = SHARED_PAGE \<and> users s p = of_nat (cnt PS D p + (if p \<in> C then 1 else 0)) \<and>
     (if bitmapIndex s p = 0 then 0 < cnt PS D p \<longrightarrow> persistent s p = M0 p \<and> versions s p = V0 p
      else 0 < cnt PS D p \<and> int (unat (bitmapIndex s p)) < bm_cur (twins s) \<and>
        (\<forall>k<4096. twin_bytes (twins s) (unat (bitmapIndex s p)) k = M0 p k)) \<and>
     (0 < cnt PS D p \<longrightarrow> versions s p = V0 p \<longrightarrow> persistent s p = M0 p) \<and>
     unat (V0 p) \<le> unat (versions s p) \<and> unat (versions s p) + (if p \<in> U then 1 else 0) \<le> unat (V0 p) + b"

lemma of_nat_eq_u16: "m < 2 ^ 16 \<Longrightarrow> n < 2 ^ 16 \<Longrightarrow> (of_nat m :: u16) = of_nat n \<longleftrightarrow> m = n"
  by (simp add: word_of_nat_eq_iff take_bit_nat_eq_self)

lemma unat_of_nat_u16: "n < 2 ^ 16 \<Longrightarrow> unat (of_nat n :: u16) = n"
  by (simp add: unsigned_of_nat take_bit_nat_eq_self)

lemma ucast_ucast_u64:
  fixes v :: u64
  assumes "unat v < 2 ^ 32" shows "(ucast (ucast v :: u32) :: u64) = v"
proof -
  have "(ucast (ucast v :: u32) :: u64) = take_bit 32 v"
    by (rule bit_eqI) (auto simp: bit_simps)
  moreover have "unat (take_bit 32 v) = unat v" using assms by (simp add: unat_take_bit_mod)
  then have "take_bit 32 v = v" by (rule unsigned_word_eqI)
  ultimately show ?thesis by simp
qed

lemma version_eq_iff:
  fixes v w :: u64
  assumes "unat v < 2 ^ 32" shows "ucast (ucast v :: u32) = w \<longleftrightarrow> v = w"
  using ucast_ucast_u64 [OF assms] by simp

lemma cnt_remove:
  assumes "finite PS" "i \<in> PS" "p \<in> D i"
  shows "cnt PS D p = Suc (cnt PS (D(i := D i - {p})) p)"
proof -
  have "{j \<in> PS. p \<in> D j} = insert i {j \<in> PS. p \<in> (D(i := D i - {p})) j}" using assms by auto
  moreover have "i \<notin> {j \<in> PS. p \<in> (D(i := D i - {p})) j}" by simp
  ultimately show ?thesis using assms(1) unfolding cnt_def by (simp add: card_insert_if)
qed

lemma cnt_other: "q \<noteq> p \<Longrightarrow> cnt PS (D(i := D i - {p})) q = cnt PS D q"
  unfolding cnt_def by (rule arg_cong [where f = card]) auto

lemma cnt_le: "finite PS \<Longrightarrow> cnt PS D p \<le> card PS"
  unfolding cnt_def by (intro card_mono) auto

text \<open>The twin that a commit needs: made now, or already there.\<close>

lemma commit_twins_old:
  "\<not> (1 < users s p \<and> bitmapIndex s p = 0) \<Longrightarrow> commit_twins p s = (bitmapIndex s p, twins s)"
  by (auto simp: commit_twins_def)

lemma commit_twins_new:
  assumes "1 < users s p" "bitmapIndex s p = 0" "bm_total (twins s) = 81920"
    and "bm_cur (snd (commit_twins p s)) \<le> 3071"
  shows "commit_twins p s = (of_nat (nat (bm_cur (twins s))),
      xbitmap_setVersion (nat (bm_cur (twins s))) (ucast (versions s p))
        (twin_store (nat (bm_cur (twins s))) (persistent s p) ((twins s)\<lparr>bm_cur := bm_cur (twins s) + 1\<rparr>)))"
    "bm_cur (twins s) < 3071"
proof -
  have "bm_cur (twins s) \<le> bm_cur (snd (xbitmap_get (twins s)))" by (simp add: xbitmap_get_def)
  then have "bm_cur (twins s) \<le> 3071"
    using assms(1,2,4) by (simp add: commit_twins_def createTwinPage_def Let_def case_prod_beta)
  then have get: "xbitmap_get (twins s) =
      (nat (bm_cur (twins s)), (twins s)\<lparr>bm_cur := bm_cur (twins s) + 1\<rparr>)"
    using assms(3) by (simp add: xbitmap_get_def)
  show e: "commit_twins p s = (of_nat (nat (bm_cur (twins s))),
      xbitmap_setVersion (nat (bm_cur (twins s))) (ucast (versions s p))
        (twin_store (nat (bm_cur (twins s))) (persistent s p) ((twins s)\<lparr>bm_cur := bm_cur (twins s) + 1\<rparr>)))"
    using assms(1,2) by (simp add: commit_twins_def createTwinPage_def Let_def get)
  show "bm_cur (twins s) < 3071" using assms(4) by (simp add: e)
qed

lemma twin_bytes_cur [simp]: "twin_bytes (b\<lparr>bm_cur := c\<rparr>) j k = twin_bytes b j k"
  by (simp add: twin_bytes_def)

text \<open>All other twins stay as they are.\<close>

lemma commit_twins_keep:
  assumes "bm_total (twins s) = 81920" "1 \<le> bm_cur (twins s)" "bm_cur (snd (commit_twins p s)) \<le> 3071"
  shows "bm_total (snd (commit_twins p s)) = 81920" "bm_cur (twins s) \<le> bm_cur (snd (commit_twins p s))"
    "0 < j \<Longrightarrow> int j < bm_cur (twins s) \<Longrightarrow> k < 4096 \<Longrightarrow>
      twin_bytes (snd (commit_twins p s)) j k = twin_bytes (twins s) j k"
proof -
  note n = commit_twins_new [OF _ _ assms(1,3)]
  note o' = commit_twins_old [of s p]
  show "bm_total (snd (commit_twins p s)) = 81920"
    using n(1) o' assms(1) by (cases "1 < users s p \<and> bitmapIndex s p = 0") auto
  show "bm_cur (twins s) \<le> bm_cur (snd (commit_twins p s))"
    using n(1) o' by (cases "1 < users s p \<and> bitmapIndex s p = 0") auto
  show "twin_bytes (snd (commit_twins p s)) j k = twin_bytes (twins s) j k"
    if j: "0 < j" "int j < bm_cur (twins s)" "k < 4096"
  proof (cases "1 < users s p \<and> bitmapIndex s p = 0")
    case True
    then have "nat (bm_cur (twins s)) < 3071" "j \<noteq> nat (bm_cur (twins s))" using n(2) j(2) by auto
    then show ?thesis using True n(1) j by simp
  qed (simp add: o')
qed

lemma commit_twins_made:
  assumes "bm_total (twins s) = 81920" "1 \<le> bm_cur (twins s)" "bm_cur (snd (commit_twins p s)) \<le> 3071"
    and "1 < users s p" "bitmapIndex s p = 0"
  shows "fst (commit_twins p s) \<noteq> 0" "int (unat (fst (commit_twins p s))) < bm_cur (snd (commit_twins p s))"
    "k < 4096 \<Longrightarrow> twin_bytes (snd (commit_twins p s)) (unat (fst (commit_twins p s))) k = persistent s p k"
proof -
  note n = commit_twins_new [OF assms(4,5,1,3)]
  have "nat (bm_cur (twins s)) < 2 ^ 16" "0 < nat (bm_cur (twins s))" using n(2) assms(2) by simp_all
  then have u: "unat (of_nat (nat (bm_cur (twins s))) :: u16) = nat (bm_cur (twins s))"
    by (intro unat_of_nat_u16)
  show "fst (commit_twins p s) \<noteq> 0"
    using u \<open>0 < nat (bm_cur (twins s))\<close> by (metis n(1) fst_conv less_irrefl unsigned_0)
  show "int (unat (fst (commit_twins p s))) < bm_cur (snd (commit_twins p s))"
    using u assms(2) by (simp add: n(1))
  have "nat (bm_cur (twins s)) < 3071" using n(2) by linarith
  then show "twin_bytes (snd (commit_twins p s)) (unat (fst (commit_twins p s))) k = persistent s p k" if "k < 4096"
    using that u \<open>0 < nat (bm_cur (twins s))\<close> by (simp add: n(1))
qed

text \<open>What \<open>commit_page\<close> needs to know of the entry it is given.\<close>

definition entry_for :: "xpersist \<Rightarrow> int \<Rightarrow> nat \<Rightarrow> nat \<Rightarrow> u64 \<Rightarrow> bool" where
  "entry_for s i x p v \<longleftrightarrow>
     pi_pageNo (pe_pool (entrypool (procs s i)) x) = p \<and>
     pageAt s (pi_pageStart (pe_pool (entrypool (procs s i)) x)) = p \<and>
     pi_version (pe_pool (entrypool (procs s i)) x) = ucast v"

lemma commit_page_fields:
  assumes "entry_for s i x p v" "pageOwner s p = SHARED_PAGE" "i \<noteq> SHARED_PAGE"
  shows "persistent (commit_page i x s) = (persistent s)(p := commit_content p (ucast v) (view s i p) s)"
    "users (commit_page i x s) = (users s)(p := users s p - 1)"
    "bitmapIndex (commit_page i x s) = (bitmapIndex s)(p := if users s p = 1 then 0 else fst (commit_twins p s))"
    "twins (commit_page i x s) = snd (commit_twins p s)"
    "versions (commit_page i x s) = (versions s)(p := versions s p + 1)"
    "pageOwner (commit_page i x s) = pageOwner s" "pages (commit_page i x s) = pages s"
    "startaddr (commit_page i x s) = startaddr s" "isHeap (commit_page i x s) = isHeap s"
    "procs (commit_page i x s) = procs (set_release i x True s)"
  using commit_page_shared [of s i x, OF refl _ _ assms(2,3)] assms(1) unfolding entry_for_def
  by (simp_all add: set_release_def)

lemma page_inv_other:
  assumes inv: "page_inv PS M0 V0 D C U b s q"
    and tw: "bm_total (twins s) = 81920" "1 \<le> bm_cur (twins s)"
    and cur: "bm_cur (twins s') \<le> 3071"
    and e: "entry_for s i x p v" "pageOwner s p = SHARED_PAGE" "i \<noteq> SHARED_PAGE" "s' = commit_page i x s"
    and q: "q \<noteq> p"
  shows "page_inv PS M0 V0 (D(i := D i - {p})) C (U - {p}) b s' q" "page_inv PS M0 V0 D (C - {p}) (U - {p}) b s' q"
proof -
  note f = commit_page_fields [OF e(1-3), folded e(4)]
  have c: "bm_cur (snd (commit_twins p s)) \<le> 3071" using cur f(4) by simp
  note k = commit_twins_keep [OF tw c]
  have t: "twin_bytes (twins s') (unat (bitmapIndex s q)) j = twin_bytes (twins s) (unat (bitmapIndex s q)) j"
    if "bitmapIndex s q \<noteq> 0" "j < 4096" for j
    using k(3) [of "unat (bitmapIndex s q)" j] that inv f(4) by (simp add: page_inv_def unat_gt_0)
  have cu: "int (unat (bitmapIndex s q)) < bm_cur (twins s) \<Longrightarrow> int (unat (bitmapIndex s q)) < bm_cur (twins s')"
    using k(2) f(4) by simp
  show "page_inv PS M0 V0 (D(i := D i - {p})) C (U - {p}) b s' q"
    using inv t cu cnt_other [OF q, of PS D i] q
    unfolding page_inv_def by (simp add: f split: if_splits)
  show "page_inv PS M0 V0 D (C - {p}) (U - {p}) b s' q"
    using inv t cu q unfolding page_inv_def by (simp add: f split: if_splits)
qed

lemma users_one:
  assumes "users s p = of_nat (Suc m)" "m < 65535"
  shows "users s p = 1 \<longleftrightarrow> m = 0" "1 < users s p \<longleftrightarrow> 0 < m" "users s p - 1 = of_nat m"
proof -
  have u: "unat (users s p) = Suc m" using assms unat_of_nat_u16 [of "Suc m"] by simp
  have "users s p = 1 \<longleftrightarrow> unat (users s p) = 1" by (metis unsigned_1 unsigned_word_eqI)
  then show "users s p = 1 \<longleftrightarrow> m = 0" using u by simp
  show "1 < users s p \<longleftrightarrow> 0 < m" using u by (simp add: word_less_nat_alt)
  show "users s p - 1 = of_nat m" using assms(1) by simp
qed

lemma unat_plus_one_u64: "unat v < 2 ^ 63 \<Longrightarrow> unat (v + 1) = Suc (unat v)" for v :: u64
  by (simp add: unat_word_ariths)

text \<open>Committing a page dirtied in the first transaction of a process.\<close>

lemma commit_first:
  assumes PS: "finite PS" "card PS < 65535" "i \<in> PS" "i \<noteq> SHARED_PAGE"
    and inv: "page_inv PS M0 V0 D {} U b s p"
    and tw: "bm_total (twins s) = 81920" "1 \<le> bm_cur (twins s)"
    and p: "p \<in> D i" "p \<in> U" and e: "entry_for s i x p (V0 p)"
    and b: "unat (V0 p) + b < 2 ^ 32" and s': "s' = commit_page i x s" and cur: "bm_cur (twins s') \<le> 3071"
  shows "page_inv PS M0 V0 (D(i := D i - {p})) {} (U - {p}) b s' p \<and>
    (\<forall>k<4096. persistent s' p k = (if view s i p k \<noteq> M0 p k then view s i p k else persistent s p k))"
proof -
  let ?m = "cnt PS (D(i := D i - {p})) p"
  have own: "pageOwner s p = SHARED_PAGE" using inv by (simp add: page_inv_def)
  note f = commit_page_fields [OF e own PS(4), folded s']
  have c: "bm_cur (snd (commit_twins p s)) \<le> 3071" using cur f(4) by simp
  have cnt: "cnt PS D p = Suc ?m" using PS(1,3) p(1) by (rule cnt_remove)
  have m: "?m < 65535" using cnt_le [OF PS(1), of D p] cnt PS(2) by linarith
  have "users s p = of_nat (Suc ?m)" using inv cnt by (simp add: page_inv_def)
  note u = users_one [OF this m]
  have vb: "unat (versions s p) + 1 \<le> unat (V0 p) + b" "unat (V0 p) \<le> unat (versions s p)"
    using inv p(2) by (auto simp: page_inv_def)
  have "unat (versions s p) < 2 ^ 63" using vb(1) b by simp
  then have v1: "unat (versions s p + 1) = Suc (unat (versions s p))" by (rule unat_plus_one_u64)
  have "unat (V0 p) < 2 ^ 32" using b by linarith
  note veq = version_eq_iff [OF this]
  have idx0: "bitmapIndex s p = 0 \<Longrightarrow> persistent s p = M0 p \<and> versions s p = V0 p"
    using inv cnt by (simp add: page_inv_def)
  have tw0: "bitmapIndex s p \<noteq> 0 \<Longrightarrow> int (unat (bitmapIndex s p)) < bm_cur (twins s) \<and>
      (\<forall>k<4096. twin_bytes (twins s) (unat (bitmapIndex s p)) k = M0 p k)"
    using inv by (simp add: page_inv_def)
  have same: "versions s p = V0 p \<Longrightarrow> persistent s p = M0 p" using inv cnt by (simp add: page_inv_def)
  have content: "persistent s' p k = (if view s i p k \<noteq> M0 p k then view s i p k else persistent s p k)"
    if "k < 4096" for k
  proof (cases "versions s p = V0 p")
    case True then show ?thesis using same by (simp add: f commit_content_def veq)
  next
    case False
    then have nz: "bitmapIndex s p \<noteq> 0" using idx0 by blast
    then have "commit_twins p s = (bitmapIndex s p, twins s)" by (intro commit_twins_old) simp
    then show ?thesis
      using False tw0 [OF nz] that by (simp add: f commit_content_def veq writePageDiffs_at)
  qed
  have twin: "0 < ?m \<Longrightarrow> fst (commit_twins p s) \<noteq> 0 \<and>
      int (unat (fst (commit_twins p s))) < bm_cur (snd (commit_twins p s)) \<and>
      (\<forall>k<4096. twin_bytes (snd (commit_twins p s)) (unat (fst (commit_twins p s))) k = M0 p k)"
  proof (cases "bitmapIndex s p = 0")
    case True
    assume "0 < ?m"
    then have "1 < users s p" using u(2) by simp
    from commit_twins_made [OF tw c this True] idx0 [OF True] show ?thesis by auto
  next
    case False
    then show ?thesis using tw0 by (simp add: commit_twins_old)
  qed
  have "page_inv PS M0 V0 (D(i := D i - {p})) {} (U - {p}) b s' p"
  proof -
    have ne: "versions s' p \<noteq> V0 p" using v1 vb(2) f(5) by auto
    have "if bitmapIndex s' p = 0 then 0 < ?m \<longrightarrow> persistent s' p = M0 p \<and> versions s' p = V0 p
      else 0 < ?m \<and> int (unat (bitmapIndex s' p)) < bm_cur (twins s') \<and>
        (\<forall>k<4096. twin_bytes (twins s') (unat (bitmapIndex s' p)) k = M0 p k)"
      using twin u(1) by (simp add: f)
    then show ?thesis
      unfolding page_inv_def using own u(3) ne vb v1 by (simp add: f)
  qed
  with content show ?thesis by blast
qed

text \<open>Committing a page dirtied in a critical section.\<close>

lemma commit_serial:
  assumes PS: "finite PS" "card PS < 65535" "i \<noteq> SHARED_PAGE"
    and inv: "page_inv PS M0 V0 D C U b s p"
    and tw: "bm_total (twins s) = 81920" "1 \<le> bm_cur (twins s)"
    and p: "p \<in> C" "p \<in> U" and e: "entry_for s i x p (versions s p)"
    and b: "unat (V0 p) + b < 2 ^ 32" and s': "s' = commit_page i x s" and cur: "bm_cur (twins s') \<le> 3071"
  shows "page_inv PS M0 V0 D (C - {p}) (U - {p}) b s' p \<and> persistent s' p = view s i p"
proof -
  let ?m = "cnt PS D p"
  have own: "pageOwner s p = SHARED_PAGE" using inv by (simp add: page_inv_def)
  note f = commit_page_fields [OF e own PS(3), folded s']
  have c: "bm_cur (snd (commit_twins p s)) \<le> 3071" using cur f(4) by simp
  have m: "?m < 65535" using cnt_le [OF PS(1), of D p] PS(2) by linarith
  have "users s p = of_nat (Suc ?m)" using inv p by (simp add: page_inv_def)
  note u = users_one [OF this m]
  have vb: "unat (versions s p) + 1 \<le> unat (V0 p) + b" "unat (V0 p) \<le> unat (versions s p)"
    using inv p(2) by (auto simp: page_inv_def)
  have "unat (versions s p) < 2 ^ 63" using vb(1) b by simp
  then have v1: "unat (versions s p + 1) = Suc (unat (versions s p))" by (rule unat_plus_one_u64)
  have "unat (versions s p) < 2 ^ 32" using b vb by linarith
  note veq = version_eq_iff [OF this]
  have idx0: "bitmapIndex s p = 0 \<Longrightarrow> 0 < ?m \<Longrightarrow> persistent s p = M0 p"
    using inv by (simp add: page_inv_def)
  have tw0: "bitmapIndex s p \<noteq> 0 \<Longrightarrow> int (unat (bitmapIndex s p)) < bm_cur (twins s) \<and>
      (\<forall>k<4096. twin_bytes (twins s) (unat (bitmapIndex s p)) k = M0 p k)"
    using inv by (simp add: page_inv_def)
  have content: "persistent s' p = view s i p" by (simp add: f commit_content_def veq)
  have twin: "0 < ?m \<Longrightarrow> fst (commit_twins p s) \<noteq> 0 \<and>
      int (unat (fst (commit_twins p s))) < bm_cur (snd (commit_twins p s)) \<and>
      (\<forall>k<4096. twin_bytes (snd (commit_twins p s)) (unat (fst (commit_twins p s))) k = M0 p k)"
  proof (cases "bitmapIndex s p = 0")
    case True
    assume m0: "0 < ?m"
    then have "1 < users s p" using u(2) by simp
    from commit_twins_made [OF tw c this True] idx0 [OF True m0] show ?thesis by auto
  next
    case False
    then show ?thesis using tw0 by (simp add: commit_twins_old)
  qed
  have "page_inv PS M0 V0 D (C - {p}) (U - {p}) b s' p"
  proof -
    have ne: "versions s' p \<noteq> V0 p" using v1 vb(2) f(5) by auto
    have "if bitmapIndex s' p = 0 then 0 < ?m \<longrightarrow> persistent s' p = M0 p \<and> versions s' p = V0 p
      else 0 < ?m \<and> int (unat (bitmapIndex s' p)) < bm_cur (twins s') \<and>
        (\<forall>k<4096. twin_bytes (twins s') (unat (bitmapIndex s' p)) k = M0 p k)"
      using twin u(1) by (simp add: f)
    then show ?thesis
      unfolding page_inv_def using own u(3) ne vb v1 by (simp add: f)
  qed
  with content show ?thesis by blast
qed

subsection \<open>A whole commit\<close>

definition mark_released :: "nat set \<Rightarrow> xpageentry \<Rightarrow> xpageentry" where
  "mark_released X e = e\<lparr>pe_pool := (\<lambda>x. if x \<in> X then (pe_pool e x)\<lparr>pi_release := True\<rparr> else pe_pool e x)\<rparr>"

text \<open>What a commit leaves alone.\<close>

definition commit_frame :: "int \<Rightarrow> nat set \<Rightarrow> xpersist \<Rightarrow> xpersist \<Rightarrow> bool" where
  "commit_frame i X s s' \<longleftrightarrow>
     procs s' = (procs s)(i := entrypool_update (mark_released X) (procs s i)) \<and> pages s' = pages s \<and>
     startaddr s' = startaddr s \<and> isHeap s' = isHeap s \<and> alive s' = alive s"

lemma commit_cur_mono: "bm_cur (twins s) \<le> bm_cur (twins (commit_page i x s))"
  by (auto simp: commit_page_def write_back_def setSharedPage_def bump_def set_release_def createTwinPage_def
      Let_def case_prod_beta xbitmap_get_def)

lemma commits_cur_mono: "bm_cur (twins s) \<le> bm_cur (twins (fold (commit_page i) xs s))"
proof (induction xs arbitrary: s)
  case (Cons x xs)
  show ?case using commit_cur_mono [of s i x] Cons.IH [of "commit_page i x s"] by simp
qed simp

lemma commit_frame_refl: "commit_frame i {} s s"
proof -
  have "mark_released {} = (\<lambda>e. e)" by (simp add: mark_released_def fun_eq_iff)
  then have "entrypool_update (mark_released {}) l = l" for l :: plocal by simp
  then show ?thesis by (simp add: commit_frame_def)
qed

lemma commit_frame_step:
  assumes "entry_for s i x p v" "pageOwner s p = SHARED_PAGE" "i \<noteq> SHARED_PAGE"
    and "commit_frame i X (commit_page i x s) s'"
  shows "commit_frame i (insert x X) s s'"
proof -
  have "alive (commit_page i x s) = alive s"
    using commit_page_shared [of s i x, OF refl _ _ assms(2,3)] assms(1) unfolding entry_for_def
    by (simp add: set_release_def)
  then show ?thesis
    using assms(4) commit_page_fields [OF assms(1-3)]
    unfolding commit_frame_def by (auto simp: set_release_def mark_released_def fun_eq_iff)
qed

lemma entry_for_set_release:
  "entry_for s i y q w \<Longrightarrow> procs t = procs (set_release i x True s) \<Longrightarrow> startaddr t = startaddr s \<Longrightarrow>
   entry_for t i y q w"
  by (auto simp: entry_for_def set_release_def pageAt_def)

lemma view_commit:
  assumes "procs t = procs (set_release i x True s)" "persistent t = (persistent s)(p := c)" "q \<noteq> p"
  shows "view t j q = view s j q"
  using assms by (auto simp: view_def set_release_def split: option.split)

lemma commits_first:
  assumes PS: "finite PS" "card PS < 65535" "i \<in> PS" "i \<noteq> SHARED_PAGE"
    and b: "\<forall>p<pages s. unat (V0 p) + b < 2 ^ 32"
    and inv: "\<forall>q<pages s. page_inv PS M0 V0 D {} (D i) b s q"
    and tw: "bm_total (twins s) = 81920" "1 \<le> bm_cur (twins s)"
    and xs: "D i = fst ` set xs" "distinct (map fst xs)" "\<forall>(p, x) \<in> set xs. p < pages s \<and> entry_for s i x p (V0 p)"
    and s': "s' = fold (commit_page i) (map snd xs) s" and cur: "bm_cur (twins s') \<le> 3071"
  shows "(\<forall>q<pages s. page_inv PS M0 V0 (D(i := {})) {} {} b s' q) \<and> bm_total (twins s') = 81920 \<and>
    1 \<le> bm_cur (twins s') \<and> commit_frame i (snd ` set xs) s s' \<and>
    (\<forall>q. \<forall>k<4096. persistent s' q k =
       (if q \<in> D i \<and> view s i q k \<noteq> M0 q k then view s i q k else persistent s q k))"
  using b inv tw xs s' cur
proof (induction xs arbitrary: s D)
  case Nil
  then have "D(i := {}) = D" by (simp add: fun_eq_iff)
  then show ?case using Nil by (simp add: commit_frame_refl)
next
  case (Cons a xs)
  obtain p x where a: "a = (p, x)" by (cases a)
  let ?t = "commit_page i x s" and ?D = "D(i := D i - {p})"
  have p: "p \<in> D i" "p < pages s" "entry_for s i x p (V0 p)" and np: "p \<notin> fst ` set xs"
    using Cons.prems(5-7) a by auto
  have own: "pageOwner s p = SHARED_PAGE" using Cons.prems(2) p(2) by (simp add: page_inv_def)
  note f = commit_page_fields [OF p(3) own PS(4)]
  have s': "s' = fold (commit_page i) (map snd xs) ?t" using Cons.prems(8) a by simp
  have cur: "bm_cur (twins ?t) \<le> 3071"
    using commits_cur_mono [of ?t i "map snd xs"] Cons.prems(9) s' by simp
  have c: "bm_cur (snd (commit_twins p s)) \<le> 3071" using cur f(4) by simp
  note k = commit_twins_keep [OF Cons.prems(3,4) c]
  have Dx: "?D i = fst ` set xs" using Cons.prems(5) a np by auto
  have U: "D i - {p} = fst ` set xs" using Dx by simp
  have "page_inv PS M0 V0 D {} (D i) b s p" using Cons.prems(2) p(2) by blast
  note here = commit_first [OF PS this Cons.prems(3,4) p(1,1,3) Cons.prems(1) [rule_format, OF p(2)] refl cur]
  have inv: "\<forall>q<pages ?t. page_inv PS M0 V0 ?D {} (?D i) b ?t q"
  proof (intro allI impI)
    fix q assume "q < pages ?t"
    then have q: "q < pages s" by (simp add: f)
    show "page_inv PS M0 V0 ?D {} (?D i) b ?t q"
    proof (cases "q = p")
      case True then show ?thesis using here by simp
    next
      case False
      have "page_inv PS M0 V0 D {} (D i) b s q" using Cons.prems(2) q by blast
      from page_inv_other(1) [OF this Cons.prems(3,4) cur p(3) own PS(4) refl False] show ?thesis by simp
    qed
  qed
  have es: "\<forall>(q, y) \<in> set xs. q < pages ?t \<and> entry_for ?t i y q (V0 q)"
    using Cons.prems(7) a entry_for_set_release [OF _ f(10) f(8)] by (auto simp: f(7))
  have tw': "bm_total (twins ?t) = 81920" "1 \<le> bm_cur (twins ?t)"
    using k(1,2) Cons.prems(4) f(4) by auto
  have ds: "distinct (map fst xs)" using Cons.prems(6) by simp
  have b': "\<forall>q<pages ?t. unat (V0 q) + b < 2 ^ 32" using Cons.prems(1) f(7) by simp
  have ih: "(\<forall>q<pages ?t. page_inv PS M0 V0 (?D(i := {})) {} {} b s' q) \<and> bm_total (twins s') = 81920 \<and>
      1 \<le> bm_cur (twins s') \<and> commit_frame i (snd ` set xs) ?t s' \<and>
      (\<forall>q. \<forall>k<4096. persistent s' q k =
         (if q \<in> ?D i \<and> view ?t i q k \<noteq> M0 q k then view ?t i q k else persistent ?t q k))"
    by (rule Cons.IH [OF b' inv tw' Dx ds es s' Cons.prems(9)])
  have "persistent s' q k = (if q \<in> D i \<and> view s i q k \<noteq> M0 q k then view s i q k else persistent s q k)"
    if q: "k < 4096" for q k
  proof (cases "q = p")
    case True
    then show ?thesis using ih here p(1) by (simp add: q)
  next
    case False
    have "view ?t i q = view s i q" by (rule view_commit [OF f(10) f(1) False])
    then show ?thesis using ih q f(1) False by simp
  qed
  moreover have "commit_frame i (snd ` set (a # xs)) s s'"
    using commit_frame_step [OF p(3) own PS(4)] ih a by simp
  ultimately show ?case using ih unfolding f(7) fun_upd_upd by blast
qed

lemma commits_serial:
  assumes PS: "finite PS" "card PS < 65535" "i \<noteq> SHARED_PAGE"
    and b: "\<forall>p<pages s. unat (V0 p) + b < 2 ^ 32"
    and inv: "\<forall>q<pages s. page_inv PS M0 V0 D C C b s q"
    and tw: "bm_total (twins s) = 81920" "1 \<le> bm_cur (twins s)"
    and xs: "C = fst ` set xs" "distinct (map fst xs)"
      "\<forall>(p, x) \<in> set xs. p < pages s \<and> entry_for s i x p (versions s p)"
    and s': "s' = fold (commit_page i) (map snd xs) s" and cur: "bm_cur (twins s') \<le> 3071"
  shows "(\<forall>q<pages s. page_inv PS M0 V0 D {} {} b s' q) \<and> bm_total (twins s') = 81920 \<and>
    1 \<le> bm_cur (twins s') \<and> commit_frame i (snd ` set xs) s s' \<and>
    (\<forall>q. persistent s' q = (if q \<in> C then view s i q else persistent s q))"
  using b inv tw xs s' cur
proof (induction xs arbitrary: s C)
  case Nil
  then show ?case by (simp add: commit_frame_refl)
next
  case (Cons a xs)
  obtain p x where a: "a = (p, x)" by (cases a)
  let ?t = "commit_page i x s"
  have p: "p \<in> C" "p < pages s" "entry_for s i x p (versions s p)" and np: "p \<notin> fst ` set xs"
    using Cons.prems(5-7) a by auto
  have own: "pageOwner s p = SHARED_PAGE" using Cons.prems(2) p(2) by (simp add: page_inv_def)
  note f = commit_page_fields [OF p(3) own PS(3)]
  have s': "s' = fold (commit_page i) (map snd xs) ?t" using Cons.prems(8) a by simp
  have cur: "bm_cur (twins ?t) \<le> 3071"
    using commits_cur_mono [of ?t i "map snd xs"] Cons.prems(9) s' by simp
  have c: "bm_cur (snd (commit_twins p s)) \<le> 3071" using cur f(4) by simp
  note k = commit_twins_keep [OF Cons.prems(3,4) c]
  have Cx: "C - {p} = fst ` set xs" using Cons.prems(5) a np by auto
  have "page_inv PS M0 V0 D C C b s p" using Cons.prems(2) p(2) by blast
  note here = commit_serial [OF PS this Cons.prems(3,4) p(1,1,3) Cons.prems(1) [rule_format, OF p(2)] refl cur]
  have inv: "\<forall>q<pages ?t. page_inv PS M0 V0 D (C - {p}) (C - {p}) b ?t q"
  proof (intro allI impI)
    fix q assume "q < pages ?t"
    then have q: "q < pages s" by (simp add: f)
    show "page_inv PS M0 V0 D (C - {p}) (C - {p}) b ?t q"
    proof (cases "q = p")
      case True then show ?thesis using here by simp
    next
      case False
      have "page_inv PS M0 V0 D C C b s q" using Cons.prems(2) q by blast
      from page_inv_other(2) [OF this Cons.prems(3,4) cur p(3) own PS(3) refl False] show ?thesis .
    qed
  qed
  have es: "\<forall>(q, y) \<in> set xs. q < pages ?t \<and> entry_for ?t i y q (versions ?t q)"
    using Cons.prems(7) a entry_for_set_release [OF _ f(10) f(8)] np by (force simp: f(5,7))
  have tw': "bm_total (twins ?t) = 81920" "1 \<le> bm_cur (twins ?t)"
    using k(1,2) Cons.prems(4) f(4) by auto
  have ds: "distinct (map fst xs)" using Cons.prems(6) by simp
  have b': "\<forall>q<pages ?t. unat (V0 q) + b < 2 ^ 32" using Cons.prems(1) f(7) by simp
  have ih: "(\<forall>q<pages ?t. page_inv PS M0 V0 D {} {} b s' q) \<and> bm_total (twins s') = 81920 \<and>
      1 \<le> bm_cur (twins s') \<and> commit_frame i (snd ` set xs) ?t s' \<and>
      (\<forall>q. persistent s' q = (if q \<in> C - {p} then view ?t i q else persistent ?t q))"
    by (rule Cons.IH [OF b' inv tw' Cx ds es s' Cons.prems(9)])
  have "persistent s' q = (if q \<in> C then view s i q else persistent s q)" for q
  proof (cases "q = p")
    case True
    then show ?thesis using ih here p(1) by simp
  next
    case False
    have "view ?t i q = view s i q" by (rule view_commit [OF f(10) f(1) False])
    then show ?thesis using ih f(1) False by simp
  qed
  moreover have "commit_frame i (snd ` set (a # xs)) s s'"
    using commit_frame_step [OF p(3) own PS(3)] ih a by simp
  ultimately show ?case using ih f(7) by simp
qed

end
