(* ===== verification/Xpersist_Round.thy ===== *)
theory Xpersist_Round
  imports Xpersist_Commit
begin

text \<open>
  A round of the program: the processes run concurrently on their private views, then take turns; a
  turn commits what the process has written and may go on with critical sections, each a transaction
  of its own. The theorems say that nobody sees another process's writes before they are committed, and
  that the memory after the round depends only on what each process wrote and on the order of the
  turns, not on how the processes were interleaved.
\<close>

subsection \<open>Accesses, turns and rounds\<close>

datatype acc = Rd u64 nat | Wr u64 nat u8   \<comment> \<open>instruction, offset, value\<close>

fun acc_off :: "acc \<Rightarrow> nat" where
  "acc_off (Rd pc off) = off"
| "acc_off (Wr pc off v) = off"

fun do_acc :: "int \<Rightarrow> acc \<Rightarrow> xpersist \<Rightarrow> xpersist res" where
  "do_acc i (Rd pc off) s = rbind (load 2 i pc off s) (\<lambda>(r, t). Inr t)"
| "do_acc i (Wr pc off v) s = rbind (store 2 i pc off v s) (\<lambda>(r, t). Inr t)"

definition transaction :: "int \<Rightarrow> acc list \<Rightarrow> xpersist \<Rightarrow> xpersist res" where
  "transaction i as s = rbind (rfold (do_acc i) as s) (\<lambda>t. Inr (begin_trans i (checkandcommit i t)))"

definition do_turn :: "int \<times> acc list list \<Rightarrow> xpersist \<Rightarrow> xpersist res" where
  "do_turn t s = rfold (transaction (fst t)) (snd t) (begin_trans (fst t) (checkandcommit (fst t) s))"

definition do_round :: "(int \<times> acc) list \<Rightarrow> (int \<times> acc list list) list \<Rightarrow> xpersist \<Rightarrow> xpersist res" where
  "do_round evs turns s = rbind (rfold (\<lambda>e. do_acc (fst e) (snd e)) evs s) (rfold do_turn turns)"

text \<open>The specification, on a flat memory.\<close>

definition flat :: "(nat \<Rightarrow> page) \<Rightarrow> nat \<Rightarrow> u8" where
  "flat P off = P (off div 4096) (off mod 4096)"

fun apply_acc :: "acc \<Rightarrow> (nat \<Rightarrow> u8) \<Rightarrow> nat \<Rightarrow> u8" where
  "apply_acc (Rd pc off) m = m"
| "apply_acc (Wr pc off v) m = m(off := v)"

definition overlay :: "(nat \<Rightarrow> u8) \<Rightarrow> acc list \<Rightarrow> nat \<Rightarrow> u8" where
  "overlay m as = fold apply_acc as m"

definition merge_mem :: "(nat \<Rightarrow> u8) \<Rightarrow> (nat \<Rightarrow> u8) \<Rightarrow> (nat \<Rightarrow> u8) \<Rightarrow> nat \<Rightarrow> u8" where
  "merge_mem old new m = (\<lambda>a. if new a \<noteq> old a then new a else m a)"

definition accs_of :: "int \<Rightarrow> (int \<times> acc) list \<Rightarrow> acc list" where
  "accs_of i evs = map snd (filter (\<lambda>e. fst e = i) evs)"

definition spec_turn :: "(nat \<Rightarrow> u8) \<Rightarrow> (int \<times> acc) list \<Rightarrow> int \<times> acc list list \<Rightarrow> (nat \<Rightarrow> u8) \<Rightarrow> nat \<Rightarrow> u8" where
  "spec_turn m0 evs t m =
     fold (\<lambda>as m. overlay m as) (snd t) (merge_mem m0 (overlay m0 (accs_of (fst t) evs)) m)"

definition spec_round :: "(int \<times> acc) list \<Rightarrow> (int \<times> acc list list) list \<Rightarrow> (nat \<Rightarrow> u8) \<Rightarrow> nat \<Rightarrow> u8" where
  "spec_round evs turns m0 = fold (spec_turn m0 evs) turns m0"

subsection \<open>One access\<close>

abbreviation proc_ok :: "xpersist \<Rightarrow> int \<Rightarrow> (nat \<Rightarrow> u64) \<Rightarrow> bool" where
  "proc_ok s i vb \<equiv> mapping_ok s i \<and> entries_ok s i vb"

definition same_shared :: "xpersist \<Rightarrow> xpersist \<Rightarrow> bool" where
  "same_shared s t \<longleftrightarrow> persistent t = persistent s \<and> versions t = versions s \<and> bitmapIndex t = bitmapIndex s \<and>
     pageOwner t = pageOwner s \<and> twins t = twins s \<and> pages t = pages s \<and> startaddr t = startaddr s \<and>
     isHeap t = isHeap s \<and> alive t = alive s"

lemma same_shared_trans: "same_shared s t \<Longrightarrow> same_shared t u \<Longrightarrow> same_shared s u"
  by (simp add: same_shared_def)

definition acc_ready :: "xpersist \<Rightarrow> int \<Rightarrow> bool" where
  "acc_ready s i \<longleftrightarrow> 4096 * pages s < 2 ^ 64 \<and> i \<noteq> SHARED_PAGE \<and> proc_ok s i (versions s) \<and>
     (\<forall>p<pages s. pageOwner s p = SHARED_PAGE \<and> (p \<notin> dpages s i \<longrightarrow> users s p \<noteq> 0xFFFF))"

definition acc_done :: "int \<Rightarrow> xpersist \<Rightarrow> xpersist \<Rightarrow> bool" where
  "acc_done i s t \<longleftrightarrow> same_shared s t \<and> proc_ok t i (versions t) \<and> (\<forall>j. j \<noteq> i \<longrightarrow> procs t j = procs s j) \<and>
     dpages s i \<subseteq> dpages t i \<and> dpages t i \<subseteq> dpages s i \<union> {..<pages s} \<and>
     (\<forall>q. users t q = users s q + (if q \<in> dpages t i - dpages s i then 1 else 0))"

lemma load_eval:
  assumes r: "acc_ready s i" and off: "off < 4096 * pages s"
  shows "\<exists>t. load 2 i pc off s = Inr (Some (flat (view s i) off), t) \<and> acc_done i s t \<and>
    dpages t i = dpages s i \<and> view t i = view s i \<and>
    (\<exists>new. accesslog (procs t i) = accesslog (procs s i) @ new \<and> (\<forall>e\<in>set new. \<not> fst e))"
proof -
  let ?p = "off div 4096"
  have p: "?p < pages s" using off by (simp add: less_mult_imp_div_less mult.commute)
  have "pageAt s (startaddr s + of_nat off) = ?p" using r off by (intro pageAt_offset) (auto simp: acc_ready_def)
  then have at: "pageAt s (startaddr s + word_of_nat off) = ?p" .
  show ?thesis
  proof (cases "prot (procs s i) ?p = Prot_None")
    case False
    have "acc_done i s s" using r by (auto simp: acc_done_def acc_ready_def same_shared_def)
    then show ?thesis using False by (auto simp: flat_def numeral_2_eq_2)
  next
    case True
    then have nd: "?p \<notin> dpages s i" using r p unfolding acc_ready_def mapping_ok_def by auto
    have info: "pageInfo (procs s i) ?p = PAGE_ACCESS_NONE \<or> pageInfo (procs s i) ?p = PAGE_ACCESS_READ"
      using r p unfolding acc_ready_def mapping_ok_def by auto
    define l where "l = prot_update (\<lambda>f. f(?p := Prot_Read)) (pageInfo_update (\<lambda>f. f(?p := PAGE_ACCESS_READ))
      (accesslog_update (\<lambda>l. l @ [(False, pc, drop_bit PageShift (startaddr s + word_of_nat off))]) (procs s i)))"
    let ?t = "s\<lparr>procs := (procs s)(i := l)\<rparr>"
    have h: "handleAccess i (startaddr s + word_of_nat off) False pc s = Inr ?t"
      using info at by (auto simp: handleAccess_def Let_def handleRead_def mprotectRead_def mprotect_def l_def)
    have l: "dirtied l = dirtied (procs s i)" "entrypool l = entrypool (procs s i)" "copies l = copies (procs s i)"
      "isCopyOnWrite l = isCopyOnWrite (procs s i)" "mapPrivate l = mapPrivate (procs s i)"
      by (simp_all add: l_def)
    have v: "view ?t i = view s i" by (simp add: view_def l fun_eq_iff split: option.split)
    have d: "dpages ?t i = dpages s i" by (simp add: dpages_def l)
    have "proc_ok ?t i (versions s)"
      using r nd unfolding acc_ready_def mapping_ok_def entries_ok_def
      by (simp add: d l getPageStart_def) (simp add: l_def)
    then have "acc_done i s ?t" using d by (auto simp: acc_done_def same_shared_def)
    moreover have "load 2 i pc off s = Inr (Some (flat (view s i) off), ?t)"
      using True h v by (simp add: numeral_2_eq_2 flat_def l_def)
    moreover have "accesslog (procs ?t i) = accesslog (procs s i) @
        [(False, pc, drop_bit PageShift (startaddr s + word_of_nat off))]" by (simp add: l_def)
    then have "\<exists>new. accesslog (procs ?t i) = accesslog (procs s i) @ new \<and> (\<forall>e\<in>set new. \<not> fst e)"
      by (intro exI conjI) auto
    ultimately show ?thesis using d v by blast
  qed
qed


text \<open>A store, to a page that is dirty already and to one that becomes dirty.\<close>

lemma view_write_byte:
  assumes "mapPrivate (procs s i)"
  shows "view (write_byte i off v s) i q k =
    (if q = off div 4096 \<and> k = off mod 4096 then v else view s i q k)"
  using assms by (auto simp: write_byte_def Let_def view_def split: option.split)

lemma store_dirty:
  assumes r: "acc_ready s i" and off: "off < 4096 * pages s" and d: "off div 4096 \<in> dpages s i"
  shows "store 2 i pc off v s = Inr (True, write_byte i off v s)" "acc_done i s (write_byte i off v s)"
    "dpages (write_byte i off v s) i = dpages s i" "accesslog (procs (write_byte i off v s) i) = accesslog (procs s i)"
proof -
  let ?t = "write_byte i off v s"
  have p: "off div 4096 < pages s" using off by (simp add: less_mult_imp_div_less mult.commute)
  show "store 2 i pc off v s = Inr (True, ?t)"
    using r p d by (simp add: numeral_2_eq_2 acc_ready_def mapping_ok_def)
  have priv: "mapPrivate (procs s i)" using r by (simp add: acc_ready_def mapping_ok_def)
  then have t: "?t = upd_proc i (copies_update (\<lambda>f. f(off div 4096 := Some ((view s i (off div 4096))(off mod 4096 := v))))) s"
    by (simp add: write_byte_def Let_def)
  show dp: "dpages ?t i = dpages s i" by (simp add: t dpages_def)
  show "accesslog (procs ?t i) = accesslog (procs s i)" by (simp add: t)
  have "proc_ok ?t i (versions s)"
    using r d dp unfolding acc_ready_def mapping_ok_def entries_ok_def
    by (auto simp: t getPageStart_def)
  then show "acc_done i s ?t" using dp by (auto simp: acc_done_def same_shared_def t)
qed

lemma handleWrite_clean:
  assumes r: "acc_ready s i" and p: "p < pages s" and d: "p \<notin> dpages s i"
    and h: "handleWrite i p s = Inr t"
  shows "same_shared s t" "\<forall>j. j \<noteq> i \<longrightarrow> procs t j = procs s j" "users t = (users s)(p := users s p + 1)"
    "mapPrivate (procs t i)" "view t i = view s i" "prot (procs t i) = (prot (procs s i))(p := Prot_RW)"
    "copies (procs t i) = copies (procs s i)" "dpages t i = insert p (dpages s i)" "entries_ok t i (versions s)"
    "isCopyOnWrite (procs t i)" "0 \<le> pe_cur (entrypool (procs t i))" "pageInfo (procs t i) = pageInfo (procs s i)"
    "accesslog (procs t i) = accesslog (procs s i)"
proof -
  let ?l = "prot_update (\<lambda>f. f(p := Prot_RW)) (procs s i)"
  have own: "pageOwner s p = SHARED_PAGE" "i \<noteq> SHARED_PAGE" "users s p \<noteq> 0xFFFF" "isCopyOnWrite (procs s i)"
    "mapPrivate (procs s i)" "0 \<le> pe_cur (entrypool (procs s i))"
    using r p d by (auto simp: acc_ready_def mapping_ok_def)
  have acc: "pageInfo (procs s i) p = PAGE_ACCESS_NONE \<or> pageInfo (procs s i) p = PAGE_ACCESS_READ"
    using r p unfolding acc_ready_def mapping_ok_def by auto
  let ?s = "s\<lparr>users := (users s)(p := users s p + 1), procs := (procs s)(i := ?l)\<rparr>"
  have au: "addUser p (upd_proc i (\<lambda>_. ?l) s) = ?s" using own(3) by (simp add: addUser_def)
  have "handleWrite i p s = addDirty i p (addUser p (upd_proc i (\<lambda>_. ?l) s))"
    using acc own by (auto simp: handleWrite_def Let_def mprotectReadWrite_def mprotect_def)
  then have h': "addDirty i p ?s = Inr t" using h unfolding au by simp
  obtain x e where al: "xpageentry_alloc (entrypool (procs s i)) = Inr (x, e)"
    using h' by (cases "xpageentry_alloc (entrypool (procs s i))") (auto simp: addDirty_def)
  define info where "info = \<lparr>pi_pageNo = p, pi_version = ucast (versions s p),
    pi_pageStart = getPageStart s p, pi_isShared = pi_isShared (pe_pool e x), pi_release = True\<rparr>"
  define l where "l = ?l\<lparr>entrypool := e\<lparr>pe_pool := (pe_pool e)(x := info)\<rparr>, dirtied := mm_insert p x (dirtied ?l)\<rparr>"
  have t: "t = s\<lparr>users := (users s)(p := users s p + 1), procs := (procs s)(i := l)\<rparr>"
    using h' al by (simp add: addDirty_def Let_def getPageStart_def l_def info_def)
  have l: "dirtied l = mm_insert p x (dirtied (procs s i))" "entrypool l = e\<lparr>pe_pool := (pe_pool e)(x := info)\<rparr>"
    "copies l = copies (procs s i)" "prot l = (prot (procs s i))(p := Prot_RW)" "pageInfo l = pageInfo (procs s i)"
    "isCopyOnWrite l = isCopyOnWrite (procs s i)" "mapPrivate l = mapPrivate (procs s i)"
    "accesslog l = accesslog (procs s i)"
    by (simp_all add: l_def)
  have x: "int x = pe_cur (entrypool (procs s i))" "e = (entrypool (procs s i))\<lparr>pe_cur := pe_cur (entrypool (procs s i)) + 1\<rparr>"
    using xpageentry_alloc_props [OF al own(6)] by auto
  show "same_shared s t" by (simp add: t same_shared_def)
  show "\<forall>j. j \<noteq> i \<longrightarrow> procs t j = procs s j" "users t = (users s)(p := users s p + 1)" "mapPrivate (procs t i)"
    "prot (procs t i) = (prot (procs s i))(p := Prot_RW)" "copies (procs t i) = copies (procs s i)"
    "isCopyOnWrite (procs t i)" "pageInfo (procs t i) = pageInfo (procs s i)"
    "accesslog (procs t i) = accesslog (procs s i)"
    using own by (simp_all add: t l)
  show "0 \<le> pe_cur (entrypool (procs t i))" using own(6) by (simp add: t l x)
  show "view t i = view s i" by (simp add: view_def t l fun_eq_iff split: option.split)
  show dp: "dpages t i = insert p (dpages s i)" by (simp add: dpages_def t l)
  have ent: "entries_ok s i (versions s)" using r by (simp add: acc_ready_def)
  have new: "p \<notin> fst ` set (dirtied (procs s i))" using d by (simp add: dpages_def)
  have newx: "x \<notin> snd ` set (dirtied (procs s i))"
  proof
    assume "x \<in> snd ` set (dirtied (procs s i))"
    then obtain q where "(q, x) \<in> set (dirtied (procs s i))" by auto
    from entries_okD(2) [OF ent this] x(1) show False by simp
  qed
  have dt: "dirtied (procs t i) = mm_insert p x (dirtied (procs s i))"
    "entrypool (procs t i) = e\<lparr>pe_pool := (pe_pool e)(x := info)\<rparr>" "pages t = pages s" "getPageStart t = getPageStart s"
    by (simp_all add: t l getPageStart_def fun_eq_iff)
  have old: "q < pages s \<and> int y < pe_cur (entrypool (procs s i)) + 1 \<and> y \<noteq> x \<and>
      pi_pageNo (pe_pool (entrypool (procs s i)) y) = q \<and>
      pi_pageStart (pe_pool (entrypool (procs s i)) y) = getPageStart s q \<and>
      pi_version (pe_pool (entrypool (procs s i)) y) = ucast (versions s q)"
    if "(q, y) \<in> set (dirtied (procs s i))" for q y
    using entries_okD [OF ent that] newx that by force
  show "entries_ok t i (versions s)"
    using ent new newx p x old unfolding entries_ok_def dt distinct_mm_insert_fst distinct_mm_insert_snd
    by (auto simp: x(2) info_def)
qed

lemma flat_upd:
  assumes "\<And>q k. P' q k = (if q = off div 4096 \<and> k = off mod 4096 then v else P q k)"
  shows "flat P' = (flat P)(off := v)"
proof
  fix a
  have "a = off \<longleftrightarrow> a div 4096 = off div 4096 \<and> a mod 4096 = off mod 4096"
    by (metis div_mult_mod_eq)
  then show "flat P' a = ((flat P)(off := v)) a" by (auto simp: flat_def assms)
qed

lemma acc_ready_log:
  assumes "acc_ready s i" "t = upd_proc i (accesslog_update f) s"
  shows "acc_ready t i" "dpages t i = dpages s i" "view t i = view s i"
proof -
  show d: "dpages t i = dpages s i" by (simp add: dpages_def assms(2))
  show "view t i = view s i" by (simp add: view_def assms(2) fun_eq_iff split: option.split)
  show "acc_ready t i"
    using assms(1) unfolding acc_ready_def mapping_ok_def entries_ok_def d
    by (simp add: assms(2) getPageStart_def)
qed

lemma store_clean:
  assumes r: "acc_ready s i" and off: "off < 4096 * pages s" and d: "off div 4096 \<notin> dpages s i"
    and st: "store 2 i pc off v s = Inr (b, u)"
  shows "b \<and> acc_done i s u \<and> dpages u i = insert (off div 4096) (dpages s i) \<and>
    flat (view u i) = (flat (view s i))(off := v) \<and>
    accesslog (procs u i) = accesslog (procs s i) @ [(True, pc, drop_bit PageShift (startaddr s + word_of_nat off))]"
proof -
  let ?p = "off div 4096"
  have p: "?p < pages s" using off by (simp add: less_mult_imp_div_less mult.commute)
  have at: "pageAt s (startaddr s + word_of_nat off) = ?p"
    using r off by (intro pageAt_offset) (auto simp: acc_ready_def)
  have nrw: "prot (procs s i) ?p \<noteq> Prot_RW" using r p d by (auto simp: acc_ready_def mapping_ok_def)
  define s0 where "s0 = upd_proc i (accesslog_update (\<lambda>l. l @ [(True, pc, drop_bit PageShift (startaddr s + word_of_nat off))])) s"
  note s0 = acc_ready_log [OF r s0_def]
  have ha: "handleAccess i (startaddr s + word_of_nat off) True pc s = handleWrite i ?p s0"
    using at by (simp add: handleAccess_def Let_def s0_def)
  have "\<exists>t. handleWrite i ?p s0 = Inr t"
    using st nrw ha by (cases "handleWrite i ?p s0") (simp_all add: numeral_2_eq_2)
  then obtain t where t: "handleWrite i ?p s0 = Inr t" by blast
  have "?p < pages s0" "?p \<notin> dpages s0 i" using p d s0(2) by (simp_all add: s0_def)
  note hw = handleWrite_clean [OF s0(1) this t]
  have u: "b" "u = write_byte i off v t"
    using st nrw ha t hw(6) by (auto simp: numeral_2_eq_2 split: if_splits)
  have ue: "u = upd_proc i (copies_update (\<lambda>f. f(?p := Some ((view t i ?p)(off mod 4096 := v))))) t"
    using hw(4) by (simp add: u(2) write_byte_def Let_def)
  have dp: "dpages u i = insert ?p (dpages s i)" using hw(8) s0(2) by (simp add: ue dpages_def)
  have sh: "same_shared s u"
    using hw(1) by (simp add: ue same_shared_def s0_def)
  have pr: "prot (procs u i) = (prot (procs s i))(?p := Prot_RW)" "pageInfo (procs u i) = pageInfo (procs s i)"
    "copies (procs u i) = (copies (procs s i))(?p := Some ((view t i ?p)(off mod 4096 := v)))"
    "isCopyOnWrite (procs u i)" "mapPrivate (procs u i)" "0 \<le> pe_cur (entrypool (procs u i))"
    using hw by (simp_all add: ue s0_def)
  have "mapping_ok u i"
    using r p sh unfolding mapping_ok_def acc_ready_def same_shared_def
    by (simp add: pr dp)
  moreover have "entries_ok u i (versions u)"
    using hw(9) hw(1) unfolding entries_ok_def by (simp add: ue getPageStart_def same_shared_def)
  moreover have "users u q = users s q + (if q \<in> dpages u i - dpages s i then 1 else 0)" for q
    using hw(3) d dp by (auto simp: ue s0_def)
  moreover have "procs u j = procs s j" if "j \<noteq> i" for j using hw(2) that by (simp add: ue s0_def)
  ultimately have "acc_done i s u" using sh dp p by (auto simp: acc_done_def)
  moreover have "flat (view u i) = (flat (view s i))(off := v)"
    using view_write_byte [where off = off and v = v, OF hw(4)] hw(5) s0(3) by (intro flat_upd) (simp add: u(2))
  moreover have "accesslog (procs u i) = accesslog (procs s i) @
      [(True, pc, drop_bit PageShift (startaddr s + word_of_nat off))]" using hw(13) by (simp add: ue s0_def)
  ultimately show ?thesis using u(1) dp by blast
qed

text \<open>Any access.\<close>

lemma do_acc_spec:
  assumes r: "acc_ready s i" and off: "acc_off a < 4096 * pages s" and st: "do_acc i a s = Inr t"
  shows "acc_done i s t \<and> flat (view t i) = apply_acc a (flat (view s i))"
proof (cases a)
  case (Rd pc off)
  then show ?thesis using load_eval [OF r, of off pc] assms(2,3) by auto
next
  case (Wr pc off v)
  then have off: "off < 4096 * pages s" using assms(2) by simp
  show ?thesis
  proof (cases "off div 4096 \<in> dpages s i")
    case True
    note d = store_dirty [OF r off True]
    have "t = write_byte i off v s" using st Wr d(1) by simp
    moreover have "mapPrivate (procs s i)" using r by (simp add: acc_ready_def mapping_ok_def)
    then have "flat (view (write_byte i off v s) i) = (flat (view s i))(off := v)"
      by (intro flat_upd view_write_byte)
    ultimately show ?thesis using d(2) Wr by simp
  next
    case False
    obtain b where "store 2 i pc off v s = Inr (b, t)" using st Wr by (auto simp: rbind_Inr_iff)
    from store_clean [OF r off False this] show ?thesis using Wr by simp
  qed
qed

text \<open>The user counts stay below the width of their field.\<close>

lemma acc_done_trans:
  assumes "acc_done i s t" "acc_done i t u" shows "acc_done i s u"
proof -
  have "users u q = users s q + (if q \<in> dpages u i - dpages s i then 1 else 0)" for q
    using assms unfolding acc_done_def by (cases "q \<in> dpages s i"; cases "q \<in> dpages t i") auto
  then show ?thesis
    using assms unfolding acc_done_def by (auto simp: same_shared_def)
qed

subsection \<open>The parallel phase\<close>

text \<open>Process \<open>i\<close> has made the accesses \<open>W i\<close>.\<close>

definition parallel_inv :: "int set \<Rightarrow> (nat \<Rightarrow> page) \<Rightarrow> (nat \<Rightarrow> u64) \<Rightarrow> (int \<Rightarrow> acc list) \<Rightarrow> xpersist \<Rightarrow> bool" where
  "parallel_inv PS M0 V0 W s \<longleftrightarrow>
     persistent s = M0 \<and> versions s = V0 \<and> 4096 * pages s < 2 ^ 64 \<and>
     (\<forall>q<pages s. pageOwner s q = SHARED_PAGE \<and> bitmapIndex s q = 0 \<and> users s q = of_nat (cnt PS (dpages s) q)) \<and>
     (\<forall>i\<in>PS. proc_ok s i V0 \<and> flat (view s i) = overlay (flat M0) (W i))"

lemma cnt_lt:
  assumes "finite PS" "i \<in> PS" "p \<notin> D i" shows "cnt PS D p < card PS"
proof -
  have "{j \<in> PS. p \<in> D j} \<subset> PS" using assms(2,3) by auto
  then show ?thesis unfolding cnt_def using assms(1) by (rule psubset_card_mono [rotated])
qed

lemma cnt_grow:
  assumes "finite PS" "i \<in> PS" "\<forall>j. j \<noteq> i \<longrightarrow> D' j = D j" "D i \<subseteq> D' i"
  shows "cnt PS D' p = cnt PS D p + (if p \<in> D' i - D i then 1 else 0)"
proof (cases "p \<in> D' i - D i")
  case True
  then have "{j \<in> PS. p \<in> D' j} = insert i {j \<in> PS. p \<in> D j}" using assms by force
  then show ?thesis using True assms(1) by (simp add: cnt_def)
next
  case False
  then have "{j \<in> PS. p \<in> D' j} = {j \<in> PS. p \<in> D j}" using assms by (metis (no_types, opaque_lifting) Diff_iff subsetD)
  then show ?thesis unfolding cnt_def using False by (simp del: Diff_iff)
qed

lemma overlay_snoc: "overlay m (as @ [a]) = apply_acc a (overlay m as)"
  by (simp add: overlay_def)

lemma view_other:
  assumes "procs t j = procs s j" "persistent t = persistent s" shows "view t j = view s j"
  using assms by (intro ext) (simp add: view_def split: option.split)

lemma dpages_other: "procs t j = procs s j \<Longrightarrow> dpages t j = dpages s j"
  by (simp add: dpages_def)

lemma proc_ok_other:
  assumes "procs t j = procs s j" "pages t = pages s" "startaddr t = startaddr s" "proc_ok s j vb"
  shows "proc_ok t j vb"
  using assms unfolding mapping_ok_def entries_ok_def by (simp add: dpages_def getPageStart_def)

lemma parallel_acc_ready:
  assumes inv: "parallel_inv PS M0 V0 W s" and PS: "finite PS" "card PS < 65535" "i \<in> PS" "i \<noteq> SHARED_PAGE"
  shows "acc_ready s i"
proof -
  have "users s p \<noteq> 0xFFFF" if "p < pages s" "p \<notin> dpages s i" for p
  proof -
    have "cnt PS (dpages s) p < 65535" using cnt_lt [where D = "dpages s", OF PS(1,3) that(2)] PS(2) by linarith
    moreover have "users s p = of_nat (cnt PS (dpages s) p)" using inv that(1) by (simp add: parallel_inv_def)
    ultimately show ?thesis using of_nat_eq_u16 [of "cnt PS (dpages s) p" 65535] by simp
  qed
  then show ?thesis using inv PS(3,4) by (auto simp: acc_ready_def parallel_inv_def)
qed

lemma parallel_step:
  assumes inv: "parallel_inv PS M0 V0 W s" and PS: "finite PS" "card PS < 65535" "i \<in> PS" "i \<noteq> SHARED_PAGE"
    and off: "acc_off a < 4096 * pages s" and st: "do_acc i a s = Inr t"
  shows "parallel_inv PS M0 V0 (W(i := W i @ [a])) t \<and> same_shared s t"
proof -
  have i: "proc_ok s i V0" "flat (view s i) = overlay (flat M0) (W i)" "versions s = V0"
    using inv PS(3) by (auto simp: parallel_inv_def)
  have r: "acc_ready s i" by (rule parallel_acc_ready [OF inv PS])
  note d = do_acc_spec [OF r off st]
  then have ad: "acc_done i s t" and v: "flat (view t i) = apply_acc a (flat (view s i))" by auto
  have sh: "same_shared s t" and oth: "\<And>j. j \<noteq> i \<Longrightarrow> procs t j = procs s j" and pi: "proc_ok t i (versions t)"
    and sub: "dpages s i \<subseteq> dpages t i"
    and us: "\<And>q. users t q = users s q + (if q \<in> dpages t i - dpages s i then 1 else 0)"
    using ad by (auto simp: acc_done_def)
  have eqs: "persistent t = persistent s" "versions t = versions s" "pages t = pages s" "pageOwner t = pageOwner s"
    "bitmapIndex t = bitmapIndex s" "startaddr t = startaddr s" using sh by (auto simp: same_shared_def)
  have "users t q = of_nat (cnt PS (dpages t) q)" if "q < pages s" for q
  proof -
    have "\<forall>j. j \<noteq> i \<longrightarrow> dpages t j = dpages s j" using oth dpages_other by blast
    from cnt_grow [OF PS(1,3) this sub, of q] us [of q] show ?thesis
      using inv that by (simp add: parallel_inv_def del: Diff_iff)
  qed
  moreover have "proc_ok t j V0 \<and> flat (view t j) = overlay (flat M0) ((W(i := W i @ [a])) j)" if j: "j \<in> PS" for j
  proof (cases "j = i")
    case True
    then show ?thesis using pi v i eqs by (simp add: overlay_snoc)
  next
    case False
    have s: "proc_ok s j V0" "flat (view s j) = overlay (flat M0) (W j)" using inv j by (auto simp: parallel_inv_def)
    have "proc_ok t j V0" by (rule proc_ok_other [OF oth [OF False] eqs(3,6) s(1)])
    then show ?thesis using view_other [OF oth [OF False] eqs(1)] s(2) False by simp
  qed
  ultimately have "parallel_inv PS M0 V0 (W(i := W i @ [a])) t"
    using inv by (simp add: parallel_inv_def eqs)
  then show ?thesis using sh by blast
qed

lemma parallel_run:
  assumes "parallel_inv PS M0 V0 W s" "finite PS" "card PS < 65535" "SHARED_PAGE \<notin> PS"
    and "\<forall>e \<in> set evs. fst e \<in> PS \<and> acc_off (snd e) < 4096 * pages s"
    and "rfold (\<lambda>e. do_acc (fst e) (snd e)) evs s = Inr t"
  shows "parallel_inv PS M0 V0 (\<lambda>i. W i @ accs_of i evs) t \<and> same_shared s t"
  using assms(1,5,6)
proof (induction evs arbitrary: s W)
  case Nil
  then show ?case by (simp add: accs_of_def same_shared_def)
next
  case (Cons e evs)
  obtain u where u: "do_acc (fst e) (snd e) s = Inr u" "rfold (\<lambda>e. do_acc (fst e) (snd e)) evs u = Inr t"
    using Cons.prems(3) by (auto simp: rbind_Inr_iff)
  have e: "fst e \<in> PS" "fst e \<noteq> SHARED_PAGE" "acc_off (snd e) < 4096 * pages s" using Cons.prems(2) assms(4) by auto
  note p = parallel_step [OF Cons.prems(1) assms(2,3) e u(1)]
  have "\<forall>e \<in> set evs. fst e \<in> PS \<and> acc_off (snd e) < 4096 * pages u"
    using Cons.prems(2) p by (simp add: same_shared_def)
  from Cons.IH [OF conjunct1 [OF p] this u(2)]
  have ih: "parallel_inv PS M0 V0 (\<lambda>i. (W(fst e := W (fst e) @ [snd e])) i @ accs_of i evs) t \<and> same_shared u t" .
  have "(\<lambda>i. (W(fst e := W (fst e) @ [snd e])) i @ accs_of i evs) = (\<lambda>i. W i @ accs_of i (e # evs))"
    by (auto simp: accs_of_def fun_eq_iff)
  then show ?case using ih p same_shared_trans by metis
qed

subsection \<open>The serial phase\<close>

lemma updatePages:
  assumes "\<forall>(p, x) \<in> set xs. pageAt s (pi_pageStart (pe_pool (entrypool (procs s i)) x)) = p \<and>
      pi_release (pe_pool (entrypool (procs s i)) x)"
  shows "fold (\<lambda>x t. let info = pe_pool (entrypool (procs t i)) x in
             updatePage i (pi_pageStart info) (pi_release info) t) (map snd xs) s =
    upd_proc i (\<lambda>l. prot_update (\<lambda>f q. if q \<in> fst ` set xs then (if isHeap s then Prot_None else Prot_Read) else f q)
      (copies_update (\<lambda>f q. if q \<in> fst ` set xs then None else f q) l)) s"
  using assms
proof (induction xs arbitrary: s)
  case Nil
  show ?case by (intro xpersist.equality) (auto simp: fun_eq_iff intro!: plocal.equality)
next
  case (Cons a xs)
  obtain p x where a: "a = (p, x)" by (cases a)
  define u where "u = updatePage i (pi_pageStart (pe_pool (entrypool (procs s i)) x)) True s"
  have u: "u = upd_proc i (\<lambda>l. prot_update (\<lambda>f. f(p := if isHeap s then Prot_None else Prot_Read))
      (copies_update (\<lambda>f. f(p := None)) l)) s"
    using Cons.prems a by (auto simp: u_def updatePage_def Let_def madvise_dontneed_def mprotect_def)
  have st: "fold (\<lambda>x t. let info = pe_pool (entrypool (procs t i)) x in
             updatePage i (pi_pageStart info) (pi_release info) t) (map snd (a # xs)) s =
      fold (\<lambda>x t. let info = pe_pool (entrypool (procs t i)) x in
             updatePage i (pi_pageStart info) (pi_release info) t) (map snd xs) u"
    using Cons.prems a by (simp add: u_def Let_def)
  have "\<forall>(q, y) \<in> set xs. pageAt u (pi_pageStart (pe_pool (entrypool (procs u i)) y)) = q \<and>
      pi_release (pe_pool (entrypool (procs u i)) y)"
    using Cons.prems by (auto simp: u pageAt_def)
  note ih = Cons.IH [OF this]
  show ?case
    unfolding st ih
    by (intro xpersist.equality) (auto simp: u a fun_eq_iff intro!: plocal.equality)
qed

lemma commit_begin:
  assumes ok: "proc_ok s i vb" and n: "4096 * pages s < 2 ^ 64"
    and fr: "commit_frame i (snd ` set (dirtied (procs s i))) s0 s'" "procs s0 = procs s \<or> s0 = upd_proc i (trans_update f) s"
    and sh: "pages s0 = pages s" "startaddr s0 = startaddr s"
  shows "\<forall>j. j \<noteq> i \<longrightarrow> procs (begin_trans i s') j = procs s j" "dpages (begin_trans i s') i = {}"
    "proc_ok (begin_trans i s') i vb'" "view (begin_trans i s') i = persistent s'"
    "same_shared s' (begin_trans i s')" "users (begin_trans i s') = users s'" "pages s' = pages s"
    "startaddr s' = startaddr s"
proof -
  let ?X = "snd ` set (dirtied (procs s i))" and ?t = "begin_trans i s'"
  have pg: "pages s' = pages s" "startaddr s' = startaddr s" using fr(1) sh by (auto simp: commit_frame_def)
  then show "pages s' = pages s" "startaddr s' = startaddr s" .
  have p0: "procs s0 j = procs s j" if "j \<noteq> i" for j using fr(2) that by auto
  have l0: "dirtied (procs s0 i) = dirtied (procs s i)" "entrypool (procs s0 i) = entrypool (procs s i)"
    "copies (procs s0 i) = copies (procs s i)" "prot (procs s0 i) = prot (procs s i)"
    "pageInfo (procs s0 i) = pageInfo (procs s i)" "isCopyOnWrite (procs s0 i) = isCopyOnWrite (procs s i)"
    "mapPrivate (procs s0 i) = mapPrivate (procs s i)" using fr(2) by auto
  have l: "procs s' i = entrypool_update (mark_released ?X) (procs s0 i)" and pj: "\<And>j. j \<noteq> i \<Longrightarrow> procs s' j = procs s j"
    using fr(1) p0 by (auto simp: commit_frame_def)
  have rel: "\<forall>(p, x) \<in> set (dirtied (procs s' i)). pageAt s' (pi_pageStart (pe_pool (entrypool (procs s' i)) x)) = p \<and>
      pi_release (pe_pool (entrypool (procs s' i)) x)"
  proof (clarify)
    fix p x assume "(p, x) \<in> set (dirtied (procs s' i))"
    then have px: "(p, x) \<in> set (dirtied (procs s i))" by (simp add: l l0)
    note e = entries_okD [OF conjunct2 [OF ok] px]
    have "x \<in> ?X" using px by force
    moreover have "pageAt s' (getPageStart s p) = p"
      using pageAt_pageStart [OF e(1) n] pg by (simp add: pageAt_def)
    ultimately show "pageAt s' (pi_pageStart (pe_pool (entrypool (procs s' i)) x)) = p \<and>
        pi_release (pe_pool (entrypool (procs s' i)) x)"
      using e(4) by (simp add: l l0 mark_released_def)
  qed
  let ?pr = "\<lambda>q. if q \<in> dpages s i then (if isHeap s' then Prot_None else Prot_Read) else prot (procs s i) q"
  have d: "dpages s i = fst ` set (dirtied (procs s' i))" by (simp add: dpages_def l l0)
  have t: "?t = upd_proc i (\<lambda>l. l\<lparr>dirtied := [], entrypool := xpageentry_cleanup (entrypool l)\<rparr>)
      (upd_proc i (\<lambda>l. prot_update (\<lambda>f q. if q \<in> dpages s i then (if isHeap s' then Prot_None else Prot_Read) else f q)
      (copies_update (\<lambda>f q. if q \<in> dpages s i then None else f q) l)) s')"
    unfolding begin_trans_def updateAll_def Let_def [of _ "\<lambda>x. upd_proc i _ x"] d
    using updatePages [OF rel] by simp
  show "\<forall>j. j \<noteq> i \<longrightarrow> procs ?t j = procs s j" using pj by (simp add: t)
  show dp: "dpages ?t i = {}" by (simp add: t dpages_def)
  have cp: "copies (procs ?t i) q = None" for q
    using ok by (auto simp: t l l0 mapping_ok_def)
  then show "view ?t i = persistent s'" by (simp add: view_def fun_eq_iff t)
  show "same_shared s' ?t" "users ?t = users s'" by (simp_all add: t same_shared_def)
  have "mapping_ok ?t i"
    using ok cp dp unfolding mapping_ok_def by (simp add: t l l0 pg xpageentry_cleanup_def mark_released_def)
  moreover have "entries_ok ?t i vb'" by (simp add: entries_ok_def t)
  ultimately show "proc_ok ?t i vb'" by blast
qed

text \<open>Only \<open>createTwinPage\<close> takes twins, so the number in use only grows.\<close>

lemma twins_small [simp]:
  "twins (mprotectRead i p s) = twins s" "twins (mprotectReadWrite i p s) = twins s"
  "twins (setSharedPage i p s) = twins s" "twins (commitOwnedPage i p b s) = twins s"
  "twins (notifyOwnerToCommit i p s) = twins s" "twins (addUser p s) = twins s" "twins (write_byte i off v s) = twins s"
  by (simp_all add: mprotectRead_def mprotectReadWrite_def mprotect_def setSharedPage_def commitOwnedPage_def Let_def
      madvise_dontneed_def bump_def notifyOwnerToCommit_def addUser_def write_byte_def)

lemma twins_addDirty: "addDirty i p s = Inr t \<Longrightarrow> twins t = twins s"
  by (auto simp: addDirty_def rbind_Inr_iff Let_def)

lemma twins_handleWrite:
  assumes "handleWrite i p s = Inr t" shows "twins t = twins s"
proof -
  let ?s1 = "case pageInfo (procs s i) p of
      PAGE_UNUSED \<Rightarrow> mprotectReadWrite i p (notifyOwnerToCommit i p s)
    | PAGE_ACCESS_READ_WRITE \<Rightarrow> commitOwnedPage i p False (mprotectReadWrite i p s)
    | _ \<Rightarrow> mprotectReadWrite i p s"
  have "twins ?s1 = twins s" by (simp split: page_access_info.split)
  moreover have "?s1 = t \<or> addDirty i p (addUser p ?s1) = Inr t"
    using assms unfolding handleWrite_def Let_def by (metis sum.inject(2))
  ultimately show ?thesis using twins_addDirty [of i p "addUser p ?s1" t] by auto
qed

lemma twins_handleAccess:
  assumes "handleAccess i a w pc s = Inr t" shows "twins t = twins s"
proof (cases w)
  case True
  then show ?thesis using assms twins_handleWrite by (fastforce simp: handleAccess_def Let_def)
next
  case False
  then show ?thesis
    using assms by (auto simp: handleAccess_def Let_def handleRead_def split: page_access_info.splits)
qed

lemma twins_load: "load n i pc off s = Inr (r, t) \<Longrightarrow> twins t = twins s"
  by (induction n arbitrary: s) (auto simp: rbind_Inr_iff twins_handleAccess split: if_splits)

lemma twins_store: "store n i pc off v s = Inr (r, t) \<Longrightarrow> twins t = twins s"
  by (induction n arbitrary: s) (auto simp: rbind_Inr_iff twins_handleAccess split: if_splits)

lemma twins_do_acc: "do_acc i a s = Inr t \<Longrightarrow> twins t = twins s"
  by (cases a) (auto simp: rbind_Inr_iff twins_load twins_store)

lemma twins_run: "rfold f as s = Inr t \<Longrightarrow> (\<And>a s t. f a s = Inr t \<Longrightarrow> twins t = twins s) \<Longrightarrow> twins t = twins s"
  by (induction as arbitrary: s) (fastforce simp: rbind_Inr_iff)+

lemma twins_begin [simp]: "twins (begin_trans i s) = twins s"
proof -
  have "twins (fold (\<lambda>x t. let info = pe_pool (entrypool (procs t i)) x in
             updatePage i (pi_pageStart info) (pi_release info) t) xs u) = twins u" for xs u
    by (induction xs arbitrary: u) (simp_all add: Let_def updatePage_def madvise_dontneed_def mprotect_def)
  then show ?thesis by (simp add: begin_trans_def updateAll_def Let_def)
qed

text \<open>The state in which \<open>checkandcommit\<close> starts its loop.\<close>

definition commit_start :: "int \<Rightarrow> xpersist \<Rightarrow> xpersist" where
  "commit_start i s = (if dirtied (procs s i) = [] then s else upd_proc i (trans_update (\<lambda>t. t + 1)) s)"

lemma checkandcommit_fold:
  "checkandcommit i s = fold (commit_page i) (map snd (dirtied (procs s i))) (commit_start i s)"
  by (simp add: checkandcommit_def commit_start_def)

lemma commit_start_simps [simp]:
  "same_shared s (commit_start i s)" "users (commit_start i s) = users s" "pages (commit_start i s) = pages s"
  "startaddr (commit_start i s) = startaddr s" "twins (commit_start i s) = twins s"
  "persistent (commit_start i s) = persistent s" "versions (commit_start i s) = versions s"
  "dirtied (procs (commit_start i s) i) = dirtied (procs s i)"
  "view (commit_start i s) j = view s j" "entry_for (commit_start i s) i x p v = entry_for s i x p v"
  by (auto simp: commit_start_def same_shared_def view_def entry_for_def pageAt_def fun_eq_iff split: option.split)

lemma commit_start_procs:
  "procs (commit_start i s) = procs s \<or> commit_start i s = upd_proc i (trans_update (\<lambda>t. t + 1)) s"
  by (simp add: commit_start_def)

lemma checkandcommit_mono: "bm_cur (twins s) \<le> bm_cur (twins (checkandcommit i s))"
  using commits_cur_mono [of "commit_start i s" i] by (simp add: checkandcommit_fold)

lemma transaction_mono:
  assumes "transaction i as s = Inr t" shows "bm_cur (twins s) \<le> bm_cur (twins t)"
proof -
  obtain u where u: "rfold (do_acc i) as s = Inr u" "t = begin_trans i (checkandcommit i u)"
    using assms by (auto simp: transaction_def rbind_Inr_iff)
  have "twins u = twins s" using twins_run [OF u(1)] twins_do_acc by blast
  then show ?thesis using checkandcommit_mono [of u i] u(2) by simp
qed

lemma rfold_mono:
  assumes "\<And>a s t. f a s = Inr t \<Longrightarrow> bm_cur (twins s) \<le> bm_cur (twins t)" "rfold f xs s = Inr t"
  shows "bm_cur (twins s) \<le> bm_cur (twins t)"
  using assms(2)
proof (induction xs arbitrary: s)
  case (Cons x xs)
  then obtain u where u: "f x s = Inr u" "rfold f xs u = Inr t" by (auto simp: rbind_Inr_iff)
  show ?case using assms(1) [OF u(1)] Cons.IH [OF u(2)] by linarith
qed simp

lemma do_turn_mono:
  assumes "do_turn u s = Inr t" shows "bm_cur (twins s) \<le> bm_cur (twins t)"
proof -
  let ?s = "begin_trans (fst u) (checkandcommit (fst u) s)"
  have "rfold (transaction (fst u)) (snd u) ?s = Inr t" using assms by (simp add: do_turn_def)
  then have "bm_cur (twins ?s) \<le> bm_cur (twins t)" using transaction_mono by (rule rfold_mono [rotated])
  then show ?thesis using checkandcommit_mono [of s "fst u"] by simp
qed

lemma page_inv_cong:
  assumes "same_shared s t" "users t = users s"
  shows "page_inv PS M0 V0 D C U b t q = page_inv PS M0 V0 D C U b s q"
  using assms by (simp add: page_inv_def same_shared_def)

lemma page_inv_weaken:
  assumes "page_inv PS M0 V0 D C {} b s q" shows "page_inv PS M0 V0 D C U (Suc b) s q"
  using assms unfolding page_inv_def by (cases "bitmapIndex s q = 0") auto

lemma view_private:
  assumes "mapping_ok s j" "q \<in> dpages s j" "procs t j = procs s j" shows "view t j q = view s j q"
proof -
  obtain c where "copies (procs s j) q = Some c" using assms(1,2) by (auto simp: mapping_ok_def)
  then show ?thesis using assms(3) by (simp add: view_def)
qed

lemma view_clean:
  assumes "mapping_ok s j" "q \<notin> dpages s j" shows "view s j q = persistent s q"
  using assms by (auto simp: mapping_ok_def view_def split: option.split)

definition serial_inv ::
  "int set \<Rightarrow> (nat \<Rightarrow> page) \<Rightarrow> (nat \<Rightarrow> u64) \<Rightarrow> (int \<Rightarrow> nat set) \<Rightarrow> (int \<Rightarrow> nat \<Rightarrow> page) \<Rightarrow> nat \<Rightarrow> xpersist \<Rightarrow> bool" where
  "serial_inv PS M0 V0 D L b s \<longleftrightarrow>
     4096 * pages s < 2 ^ 64 \<and> bm_total (twins s) = 81920 \<and> 1 \<le> bm_cur (twins s) \<and>
     (\<forall>q<pages s. page_inv PS M0 V0 D {} {} b s q) \<and>
     (\<forall>i\<in>PS. proc_ok s i V0 \<and> dpages s i = D i \<and> (\<forall>q\<in>D i. view s i q = L i q))"

lemma entries_for:
  assumes "entries_ok s i vb" "4096 * pages s < 2 ^ 64"
  shows "\<forall>(p, x) \<in> set (dirtied (procs s i)). p < pages s \<and> entry_for s i x p (vb p)"
proof (clarify)
  fix p x assume "(p, x) \<in> set (dirtied (procs s i))"
  note e = entries_okD [OF assms(1) this]
  show "p < pages s \<and> entry_for s i x p (vb p)"
    using e pageAt_pageStart [OF e(1) assms(2)] by (simp add: entry_for_def)
qed

lemma serial_others:
  assumes "\<forall>i\<in>PS. proc_ok s i V0 \<and> dpages s i = D i \<and> (\<forall>q\<in>D i. view s i q = L i q)"
    and "\<forall>j. j \<noteq> i \<longrightarrow> procs t j = procs s j" "pages t = pages s" "startaddr t = startaddr s"
    and "j \<in> PS" "j \<noteq> i"
  shows "proc_ok t j V0 \<and> dpages t j = D j \<and> (\<forall>q\<in>D j. view t j q = L j q)"
proof -
  have p: "procs t j = procs s j" and ok: "proc_ok s j V0" and d: "dpages s j = D j"
    and v: "\<forall>q\<in>D j. view s j q = L j q" using assms by auto
  have "view t j q = L j q" if "q \<in> D j" for q
    using view_private [OF conjunct1 [OF ok], of q t] that d v p by simp
  then show ?thesis using proc_ok_other [OF p assms(3,4) ok] dpages_other [OF p] d by blast
qed

lemma serial_first:
  assumes PS: "finite PS" "card PS < 65535" "i \<in> PS" "i \<noteq> SHARED_PAGE"
    and inv: "serial_inv PS M0 V0 D L b s"
    and b: "\<forall>p<pages s. unat (V0 p) + Suc b < 2 ^ 32"
    and t: "t = begin_trans i (checkandcommit i s)" and cur: "bm_cur (twins t) \<le> 3071"
  shows "serial_inv PS M0 V0 (D(i := {})) L (Suc b) t \<and> pages t = pages s \<and>
    (\<forall>q. \<forall>k<4096. persistent t q k = (if q \<in> D i \<and> L i q k \<noteq> M0 q k then L i q k else persistent s q k))"
proof -
  let ?s0 = "commit_start i s" and ?s' = "checkandcommit i s"
  have n: "4096 * pages s < 2 ^ 64" and tw: "bm_total (twins ?s0) = 81920" "1 \<le> bm_cur (twins ?s0)"
    and ok: "proc_ok s i V0" and di: "dpages s i = D i" and li: "\<forall>q\<in>D i. view s i q = L i q"
    and pinv: "\<forall>q<pages s. page_inv PS M0 V0 D {} {} b s q"
    using inv PS(3) by (auto simp: serial_inv_def)
  have p0: "\<forall>q<pages ?s0. page_inv PS M0 V0 D {} (D i) (Suc b) ?s0 q"
    using pinv page_inv_weaken page_inv_cong [of s ?s0] by simp
  have b': "\<forall>p<pages ?s0. unat (V0 p) + Suc b < 2 ^ 32" using b by simp
  have xs: "D i = fst ` set (dirtied (procs s i))" "distinct (map fst (dirtied (procs s i)))"
    using di ok by (auto simp: dpages_def entries_ok_def)
  have es: "\<forall>(p, x) \<in> set (dirtied (procs s i)). p < pages ?s0 \<and> entry_for ?s0 i x p (V0 p)"
    using entries_for [OF conjunct2 [OF ok] n] by simp
  have cur': "bm_cur (twins ?s') \<le> 3071" using cur t by simp
  note c = commits_first [OF PS b' p0 tw xs es checkandcommit_fold cur']
  note cb = commit_begin [OF ok n conjunct1 [OF conjunct2 [OF conjunct2 [OF conjunct2 [OF c]]]]
      commit_start_procs commit_start_simps(3,4), folded t]
  have sh: "same_shared ?s' t" "users t = users ?s'" using cb(5,6) .
  have pt: "pages t = pages s" "startaddr t = startaddr s" "twins t = twins ?s'" "persistent t = persistent ?s'"
    using sh cb(7,8) by (auto simp: same_shared_def)
  have "\<forall>q<pages t. page_inv PS M0 V0 (D(i := {})) {} {} (Suc b) t q"
    using c page_inv_cong [OF sh] pt by simp
  moreover have "proc_ok t j V0 \<and> dpages t j = (D(i := {})) j \<and> (\<forall>q\<in>(D(i := {})) j. view t j q = L j q)"
    if "j \<in> PS" for j
  proof (cases "j = i")
    case True then show ?thesis using cb(2,3) by simp
  next
    case False
    have "\<forall>i\<in>PS. proc_ok s i V0 \<and> dpages s i = D i \<and> (\<forall>q\<in>D i. view s i q = L i q)"
      using inv by (simp add: serial_inv_def)
    from serial_others [OF this cb(1) pt(1,2) that False] False show ?thesis by simp
  qed
  ultimately have "serial_inv PS M0 V0 (D(i := {})) L (Suc b) t"
    using n c by (simp add: serial_inv_def pt)
  moreover have "persistent t q k = (if q \<in> D i \<and> L i q k \<noteq> M0 q k then L i q k else persistent s q k)"
    if "k < 4096" for q k
    using c that li by (auto simp: pt)
  ultimately show ?thesis using pt(1) by blast
qed

lemma acc_ready_done:
  assumes "acc_ready s i" "acc_done i s t" shows "acc_ready t i"
proof -
  have "users t p \<noteq> 0xFFFF" if "p < pages s" "p \<notin> dpages t i" for p
    using assms that unfolding acc_ready_def acc_done_def by (simp del: Diff_iff) blast
  moreover have "same_shared s t" "proc_ok t i (versions t)" using assms(2) by (auto simp: acc_done_def)
  ultimately show ?thesis using assms(1) by (auto simp: acc_ready_def same_shared_def)
qed

lemma acc_run:
  assumes "acc_ready s i" "\<forall>a\<in>set as. acc_off a < 4096 * pages s" "rfold (do_acc i) as s = Inr t"
  shows "acc_done i s t \<and> flat (view t i) = overlay (flat (view s i)) as"
  using assms
proof (induction as arbitrary: s)
  case Nil
  then show ?case by (auto simp: acc_done_def acc_ready_def same_shared_def overlay_def)
next
  case (Cons a as)
  obtain u where u: "do_acc i a s = Inr u" "rfold (do_acc i) as u = Inr t"
    using Cons.prems(3) by (auto simp: rbind_Inr_iff)
  have "acc_off a < 4096 * pages s" using Cons.prems(2) by simp
  note d = do_acc_spec [OF Cons.prems(1) this u(1)]
  have "\<forall>a\<in>set as. acc_off a < 4096 * pages u"
    using Cons.prems(2) d by (simp add: acc_done_def same_shared_def)
  note ih = Cons.IH [OF acc_ready_done [OF Cons.prems(1) conjunct1 [OF d]] this u(2)]
  show ?case using ih d acc_done_trans by (auto simp: overlay_def)
qed

lemma serial_acc_ready:
  assumes PS: "finite PS" "card PS < 65535" "i \<in> PS" "i \<noteq> SHARED_PAGE"
    and inv: "serial_inv PS M0 V0 D L b s" and "D i = {}"
  shows "acc_ready s i"
proof -
  have ok: "mapping_ok s i" "dpages s i = {}" using inv PS(3) assms(6) by (auto simp: serial_inv_def)
  have "entries_ok s i (versions s)" using ok(2) by (simp add: entries_ok_def dpages_def)
  moreover have "users s p \<noteq> 0xFFFF" if "p < pages s" for p
  proof -
    have "p \<notin> D i" using assms(6) by simp
    from cnt_lt [where D = D, OF PS(1,3) this] have "cnt PS D p < 65535" using PS(2) by linarith
    moreover have "users s p = of_nat (cnt PS D p)" using inv that by (simp add: serial_inv_def page_inv_def)
    ultimately show ?thesis using of_nat_eq_u16 [of "cnt PS D p" 65535] by simp
  qed
  ultimately show ?thesis using inv PS(4) ok by (auto simp: acc_ready_def serial_inv_def page_inv_def)
qed

lemma serial_transaction:
  assumes PS: "finite PS" "card PS < 65535" "i \<in> PS" "i \<noteq> SHARED_PAGE"
    and inv: "serial_inv PS M0 V0 D L b s" and Di: "D i = {}"
    and b: "\<forall>p<pages s. unat (V0 p) + Suc b < 2 ^ 32"
    and off: "\<forall>a\<in>set as. acc_off a < 4096 * pages s"
    and tr: "transaction i as s = Inr t" and cur: "bm_cur (twins t) \<le> 3071"
  shows "serial_inv PS M0 V0 D L (Suc b) t \<and> pages t = pages s \<and> flat (persistent t) = overlay (flat (persistent s)) as"
proof -
  obtain r where r: "rfold (do_acc i) as s = Inr r" "t = begin_trans i (checkandcommit i r)"
    using tr by (auto simp: transaction_def rbind_Inr_iff)
  note rd = serial_acc_ready [OF PS inv Di]
  note run = acc_run [OF rd off r(1)]
  let ?C = "dpages r i" and ?r0 = "commit_start i r" and ?r' = "checkandcommit i r"
  have all: "\<forall>i\<in>PS. proc_ok s i V0 \<and> dpages s i = D i \<and> (\<forall>q\<in>D i. view s i q = L i q)"
    and pinv: "\<forall>q<pages s. page_inv PS M0 V0 D {} {} b s q" and n: "4096 * pages s < 2 ^ 64"
    using inv by (auto simp: serial_inv_def)
  have di: "dpages s i = {}" and ok: "mapping_ok s i" using all PS(3) Di by auto
  have sh: "same_shared s r" and okr: "proc_ok r i (versions r)" and oth: "\<forall>j. j \<noteq> i \<longrightarrow> procs r j = procs s j"
    and us: "\<forall>q. users r q = users s q + (if q \<in> ?C then 1 else 0)"
    using run di by (auto simp: acc_done_def)
  have eqs: "pages r = pages s" "startaddr r = startaddr s" "twins r = twins s" "persistent r = persistent s"
    "versions r = versions s" "bitmapIndex r = bitmapIndex s" "pageOwner r = pageOwner s"
    using sh by (auto simp: same_shared_def)
  have "page_inv PS M0 V0 D ?C {} b r q" if "q < pages r" for q
    using pinv that us unfolding page_inv_def by (cases "bitmapIndex s q = 0") (auto simp: eqs)
  then have p0: "\<forall>q<pages ?r0. page_inv PS M0 V0 D ?C ?C (Suc b) ?r0 q"
    using page_inv_weaken page_inv_cong [of r ?r0] by simp
  have tw: "bm_total (twins ?r0) = 81920" "1 \<le> bm_cur (twins ?r0)" using inv by (simp_all add: serial_inv_def eqs)
  have b': "\<forall>p<pages ?r0. unat (V0 p) + Suc b < 2 ^ 32" using b by (simp add: eqs)
  have xs: "?C = fst ` set (dirtied (procs r i))" "distinct (map fst (dirtied (procs r i)))"
    using okr by (auto simp: dpages_def entries_ok_def)
  have nr: "4096 * pages r < 2 ^ 64" using n by (simp add: eqs)
  have es: "\<forall>(p, x) \<in> set (dirtied (procs r i)). p < pages ?r0 \<and> entry_for ?r0 i x p (versions ?r0 p)"
    using entries_for [OF conjunct2 [OF okr] nr] by simp
  have cur': "bm_cur (twins ?r') \<le> 3071" using cur r(2) by simp
  note c = commits_serial [OF PS(1,2,4) b' p0 tw xs es checkandcommit_fold cur']
  note cb = commit_begin [OF okr nr conjunct1 [OF conjunct2 [OF conjunct2 [OF conjunct2 [OF c]]]]
      commit_start_procs commit_start_simps(3,4), folded r(2)]
  have sht: "same_shared ?r' t" "users t = users ?r'" using cb(5,6) .
  have pt: "pages t = pages s" "startaddr t = startaddr s" "twins t = twins ?r'" "persistent t = persistent ?r'"
    using sht cb(7,8) eqs by (auto simp: same_shared_def)
  have "\<forall>q<pages t. page_inv PS M0 V0 D {} {} (Suc b) t q"
    using c page_inv_cong [OF sht] pt eqs by simp
  moreover have "proc_ok t j V0 \<and> dpages t j = D j \<and> (\<forall>q\<in>D j. view t j q = L j q)" if "j \<in> PS" for j
  proof (cases "j = i")
    case True then show ?thesis using cb(2,3) Di by simp
  next
    case False
    have "\<forall>j. j \<noteq> i \<longrightarrow> procs t j = procs s j" using cb(1) oth by simp
    from serial_others [OF all this pt(1,2) that False] show ?thesis .
  qed
  ultimately have "serial_inv PS M0 V0 D L (Suc b) t"
    using n c by (simp add: serial_inv_def pt)
  moreover have "persistent t q = view r i q" for q
    using c view_clean [OF conjunct1 [OF okr], of q] by (simp add: pt)
  then have "flat (persistent t) = overlay (flat (view s i)) as" using run by (simp add: flat_def fun_eq_iff)
  moreover have "view s i = persistent s" using view_clean [OF ok] di by auto
  ultimately show ?thesis using pt(1) by simp
qed

lemma serial_transactions:
  assumes PS: "finite PS" "card PS < 65535" "i \<in> PS" "i \<noteq> SHARED_PAGE" and Di: "D i = {}"
  shows "serial_inv PS M0 V0 D L b s \<Longrightarrow> \<forall>p<pages s. unat (V0 p) + (b + length css) < 2 ^ 32 \<Longrightarrow>
    \<forall>as\<in>set css. \<forall>a\<in>set as. acc_off a < 4096 * pages s \<Longrightarrow>
    rfold (transaction i) css s = Inr t \<Longrightarrow> bm_cur (twins t) \<le> 3071 \<Longrightarrow>
    serial_inv PS M0 V0 D L (b + length css) t \<and> pages t = pages s \<and>
      flat (persistent t) = fold (\<lambda>as m. overlay m as) css (flat (persistent s))"
proof (induction css arbitrary: s b)
  case (Cons as css)
  obtain u where u: "transaction i as s = Inr u" "rfold (transaction i) css u = Inr t"
    using Cons.prems(4) by (auto simp: rbind_Inr_iff)
  have "bm_cur (twins u) \<le> bm_cur (twins t)" by (rule rfold_mono [OF transaction_mono u(2)])
  then have cu: "bm_cur (twins u) \<le> 3071" using Cons.prems(5) by linarith
  have b1: "\<forall>p<pages s. unat (V0 p) + Suc b < 2 ^ 32" using Cons.prems(2) by fastforce
  have "\<forall>a\<in>set as. acc_off a < 4096 * pages s" using Cons.prems(3) by simp
  note st = serial_transaction [OF PS Cons.prems(1) Di b1 this u(1) cu]
  have "serial_inv PS M0 V0 D L (Suc b + length css) t \<and> pages t = pages u \<and>
      flat (persistent t) = fold (\<lambda>as m. overlay m as) css (flat (persistent u))"
    by (rule Cons.IH) (use st Cons.prems u in auto)
  then show ?case using st by simp
qed simp

lemma serial_turn:
  assumes PS: "finite PS" "card PS < 65535" "i \<in> PS" "i \<noteq> SHARED_PAGE"
    and inv: "serial_inv PS M0 V0 D L b s" and L: "\<forall>q. q \<notin> D i \<longrightarrow> L i q = M0 q"
    and b: "\<forall>p<pages s. unat (V0 p) + (b + Suc (length css)) < 2 ^ 32"
    and off: "\<forall>as\<in>set css. \<forall>a\<in>set as. acc_off a < 4096 * pages s"
    and tr: "do_turn (i, css) s = Inr t" and cur: "bm_cur (twins t) \<le> 3071"
  shows "serial_inv PS M0 V0 (D(i := {})) L (b + Suc (length css)) t \<and> pages t = pages s \<and>
    flat (persistent t) =
      fold (\<lambda>as m. overlay m as) css (merge_mem (flat M0) (flat (L i)) (flat (persistent s)))"
proof -
  let ?u = "begin_trans i (checkandcommit i s)"
  have run: "rfold (transaction i) css ?u = Inr t" using tr by (simp add: do_turn_def)
  have "bm_cur (twins ?u) \<le> bm_cur (twins t)" by (rule rfold_mono [OF transaction_mono run])
  then have cu: "bm_cur (twins ?u) \<le> 3071" using cur by linarith
  have b1: "\<forall>p<pages s. unat (V0 p) + Suc b < 2 ^ 32" using b by fastforce
  note f = serial_first [OF PS inv b1 refl cu]
  have "serial_inv PS M0 V0 (D(i := {})) L (Suc b + length css) t \<and> pages t = pages ?u \<and>
      flat (persistent t) = fold (\<lambda>as m. overlay m as) css (flat (persistent ?u))"
    by (rule serial_transactions [OF PS]) (use f b off run cur in auto)
  moreover have "flat (persistent ?u) = merge_mem (flat M0) (flat (L i)) (flat (persistent s))"
  proof
    fix a
    have "(a :: nat) mod 4096 < 4096" by simp
    then show "flat (persistent ?u) a = merge_mem (flat M0) (flat (L i)) (flat (persistent s)) a"
      using f L by (auto simp: flat_def merge_mem_def)
  qed
  ultimately show ?thesis using f by simp
qed

lemma serial_turns:
  assumes PS: "finite PS" "card PS < 65535" "SHARED_PAGE \<notin> PS"
  shows "serial_inv PS M0 V0 D L b s \<Longrightarrow> distinct (map fst turns) \<Longrightarrow> fst ` set turns \<subseteq> PS \<Longrightarrow>
    \<forall>i\<in>fst ` set turns. \<forall>q. q \<notin> D i \<longrightarrow> L i q = M0 q \<Longrightarrow>
    \<forall>p<pages s. unat (V0 p) + (b + (\<Sum>t\<leftarrow>turns. Suc (length (snd t)))) < 2 ^ 32 \<Longrightarrow>
    \<forall>t\<in>set turns. \<forall>as\<in>set (snd t). \<forall>a\<in>set as. acc_off a < 4096 * pages s \<Longrightarrow>
    rfold do_turn turns s = Inr r \<Longrightarrow> bm_cur (twins r) \<le> 3071 \<Longrightarrow>
    serial_inv PS M0 V0 (\<lambda>i. if i \<in> fst ` set turns then {} else D i) L
      (b + (\<Sum>t\<leftarrow>turns. Suc (length (snd t)))) r \<and> pages r = pages s \<and>
    flat (persistent r) = fold (\<lambda>t m. fold (\<lambda>as m. overlay m as) (snd t)
      (merge_mem (flat M0) (flat (L (fst t))) m)) turns (flat (persistent s))"
proof (induction turns arbitrary: s D b)
  case Nil
  then show ?case by simp
next
  case (Cons t turns)
  obtain i css where t: "t = (i, css)" by (cases t)
  obtain u where u: "do_turn t s = Inr u" "rfold do_turn turns u = Inr r"
    using Cons.prems(7) by (auto simp: rbind_Inr_iff)
  let ?n = "\<Sum>t\<leftarrow>turns. Suc (length (snd t))"
  have i: "i \<in> PS" "i \<noteq> SHARED_PAGE" "i \<notin> fst ` set turns" using Cons.prems(2,3) t PS(3) by auto
  have "bm_cur (twins u) \<le> bm_cur (twins r)" by (rule rfold_mono [OF do_turn_mono u(2)])
  then have cu: "bm_cur (twins u) \<le> 3071" using Cons.prems(8) by linarith
  have b1: "\<forall>p<pages s. unat (V0 p) + (b + Suc (length css)) < 2 ^ 32" using Cons.prems(5) t by fastforce
  have L: "\<forall>q. q \<notin> D i \<longrightarrow> L i q = M0 q" using Cons.prems(4) t by simp
  have off: "\<forall>as\<in>set css. \<forall>a\<in>set as. acc_off a < 4096 * pages s" using Cons.prems(6) t by simp
  have tr: "do_turn (i, css) s = Inr u" using u(1) t by simp
  note st = serial_turn [OF PS(1,2) i(1,2) Cons.prems(1) L b1 off tr cu]
  have Ls: "\<forall>j\<in>fst ` set turns. \<forall>q. q \<notin> (D(i := {})) j \<longrightarrow> L j q = M0 q" using Cons.prems(4) i(3) t by auto
  have b2: "\<forall>p<pages u. unat (V0 p) + (b + Suc (length css) + ?n) < 2 ^ 32"
    using Cons.prems(5) t st by (simp add: add.assoc)
  have off2: "\<forall>t\<in>set turns. \<forall>as\<in>set (snd t). \<forall>a\<in>set as. acc_off a < 4096 * pages u" using Cons.prems(6) st by simp
  have ds: "distinct (map fst turns)" "fst ` set turns \<subseteq> PS" using Cons.prems(2,3) by auto
  note ih = Cons.IH [OF conjunct1 [OF st] ds Ls b2 off2 u(2) Cons.prems(8)]
  have D: "(\<lambda>j. if j \<in> fst ` set turns then {} else (D(i := {})) j) =
      (\<lambda>j. if j \<in> fst ` set (t # turns) then {} else D j)"
    using i(3) t by (auto simp: fun_eq_iff)
  have n: "b + Suc (length css) + ?n = b + (\<Sum>t\<leftarrow>t # turns. Suc (length (snd t)))" using t by simp
  show ?case using ih st unfolding D n by (simp add: t)
qed

subsection \<open>A round\<close>

text \<open>Nothing dirty, no page owned: the state in which a round begins and ends.\<close>

definition quiescent :: "int set \<Rightarrow> xpersist \<Rightarrow> bool" where
  "quiescent PS s \<longleftrightarrow>
     4096 * pages s < 2 ^ 64 \<and> bm_total (twins s) = 81920 \<and> 1 \<le> bm_cur (twins s) \<and>
     (\<forall>q<pages s. pageOwner s q = SHARED_PAGE \<and> users s q = 0 \<and> bitmapIndex s q = 0) \<and>
     (\<forall>i\<in>PS. mapping_ok s i \<and> dpages s i = {})"

lemma quiescent_parallel:
  assumes "quiescent PS s" shows "parallel_inv PS (persistent s) (versions s) (\<lambda>_. []) s"
proof -
  have "cnt PS (dpages s) q = 0" for q
  proof -
    have "{i \<in> PS. q \<in> dpages s i} = {}" using assms by (auto simp: quiescent_def)
    then show ?thesis unfolding cnt_def by (simp only: card.empty)
  qed
  moreover have "entries_ok s i vb" "view s i = persistent s" if "i \<in> PS" for i vb
    using assms that view_clean [of s i] by (auto simp: quiescent_def entries_ok_def dpages_def fun_eq_iff)
  ultimately show ?thesis using assms by (auto simp: parallel_inv_def quiescent_def overlay_def)
qed

lemma parallel_serial:
  assumes "parallel_inv PS M0 V0 W s" "bm_total (twins s) = 81920" "1 \<le> bm_cur (twins s)"
  shows "serial_inv PS M0 V0 (dpages s) (view s) 0 s"
  using assms by (auto simp: parallel_inv_def serial_inv_def page_inv_def)

text \<open>
  C28: Isolation: while the processes run in parallel, whatever their interleaving, the shared memory does
  not change and every process reads the memory of the start of the round with its own writes on top.
\<close>

theorem parallel_isolation:
  assumes "quiescent PS s" "finite PS" "card PS < 65535" "SHARED_PAGE \<notin> PS"
    and "\<forall>e\<in>set evs. fst e \<in> PS \<and> acc_off (snd e) < 4096 * pages s"
    and "rfold (\<lambda>e. do_acc (fst e) (snd e)) evs s = Inr t"
    and "i \<in> PS" "off < 4096 * pages s"
  shows "persistent t = persistent s \<and>
    (\<exists>u. load 2 i pc off t = Inr (Some (overlay (flat (persistent s)) (accs_of i evs) off), u))"
proof -
  note run = parallel_run [OF quiescent_parallel [OF assms(1)] assms(2-6)]
  then have inv: "parallel_inv PS (persistent s) (versions s) (\<lambda>i. accs_of i evs) t" by simp
  have "i \<noteq> SHARED_PAGE" using assms(4,7) by auto
  then have rd: "acc_ready t i" by (rule parallel_acc_ready [OF inv assms(2,3,7)])
  have "off < 4096 * pages t" using run assms(8) by (simp add: same_shared_def)
  then obtain u where "load 2 i pc off t = Inr (Some (flat (view t i) off), u)" using load_eval [OF rd] by blast
  moreover have "flat (view t i) = overlay (flat (persistent s)) (accs_of i evs)" "persistent t = persistent s"
    using inv assms(7) by (auto simp: parallel_inv_def)
  ultimately show ?thesis by auto
qed

text \<open>
  C3: Determinism of a round: after the processes have run in parallel under any interleaving and taken
  their turns (a commit, then critical sections), the shared memory is the one the specification
  computes from what each process wrote and from the order of the turns: each turn overwrites exactly
  the bytes its process has changed, then applies its critical sections. All tables are clean again.
\<close>

theorem round_deterministic:
  assumes "quiescent PS s" "finite PS" "card PS < 65535" "SHARED_PAGE \<notin> PS"
    and "\<forall>e\<in>set evs. fst e \<in> PS \<and> acc_off (snd e) < 4096 * pages s"
    and "distinct (map fst turns)" "fst ` set turns = PS"
    and "\<forall>t\<in>set turns. \<forall>as\<in>set (snd t). \<forall>a\<in>set as. acc_off a < 4096 * pages s"
    and "\<forall>p<pages s. unat (versions s p) + (\<Sum>t\<leftarrow>turns. Suc (length (snd t))) < 2 ^ 32"
    and "do_round evs turns s = Inr r" "bm_cur (twins r) \<le> 3071"
  shows "flat (persistent r) = spec_round evs turns (flat (persistent s)) \<and> quiescent PS r"
proof -
  let ?M = "persistent s" and ?V = "versions s"
  obtain u where u: "rfold (\<lambda>e. do_acc (fst e) (snd e)) evs s = Inr u" "rfold do_turn turns u = Inr r"
    using assms(10) by (auto simp: do_round_def rbind_Inr_iff)
  note run = parallel_run [OF quiescent_parallel [OF assms(1)] assms(2-5) u(1)]
  then have inv: "parallel_inv PS ?M ?V (\<lambda>i. accs_of i evs) u" by simp
  have sh: "twins u = twins s" "pages u = pages s" "persistent u = ?M" using run by (auto simp: same_shared_def)
  have tw: "bm_total (twins u) = 81920" "1 \<le> bm_cur (twins u)" using assms(1) sh by (auto simp: quiescent_def)
  note si = parallel_serial [OF inv tw]
  have ok: "proc_ok u i ?V" if "i \<in> PS" for i using inv that by (simp add: parallel_inv_def)
  have L: "\<forall>i\<in>fst ` set turns. \<forall>q. q \<notin> dpages u i \<longrightarrow> view u i q = ?M q"
    using ok view_clean assms(7) sh(3) by auto
  have sub: "fst ` set turns \<subseteq> PS" using assms(7) by simp
  have b: "\<forall>p<pages u. unat (?V p) + (0 + (\<Sum>t\<leftarrow>turns. Suc (length (snd t)))) < 2 ^ 32"
    using assms(9) sh by simp
  have off: "\<forall>t\<in>set turns. \<forall>as\<in>set (snd t). \<forall>a\<in>set as. acc_off a < 4096 * pages u" using assms(8) sh by simp
  note res = serial_turns [OF assms(2-4) si assms(6) sub L b off u(2) assms(11)]
  have Lf: "flat (view u i) = overlay (flat ?M) (accs_of i evs)" if "i \<in> PS" for i
    using inv that by (simp add: parallel_inv_def)
  have "fold (\<lambda>t m. fold (\<lambda>as m. overlay m as) (snd t) (merge_mem (flat ?M) (flat (view u (fst t))) m)) turns m =
      fold (spec_turn (flat ?M) evs) turns m" for m
  proof (rule fold_cong)
    fix t assume "t \<in> set turns"
    then have "fst t \<in> PS" using sub by auto
    then show "(\<lambda>m. fold (\<lambda>as m. overlay m as) (snd t) (merge_mem (flat ?M) (flat (view u (fst t))) m)) =
        spec_turn (flat ?M) evs t"
      using Lf [of "fst t"] by (intro ext) (simp add: spec_turn_def)
  qed simp_all
  then have mem: "flat (persistent r) = spec_round evs turns (flat ?M)"
    using res sh by (simp add: spec_round_def)
  let ?D = "\<lambda>i. if i \<in> fst ` set turns then {} else dpages u i"
  have fin: "serial_inv PS ?M ?V ?D (view u) (0 + (\<Sum>t\<leftarrow>turns. Suc (length (snd t)))) r" using res by blast
  have c0: "cnt PS ?D q = 0" for q
  proof -
    have "{i \<in> PS. q \<in> ?D i} = {}" using assms(7) by auto
    then show ?thesis unfolding cnt_def by (simp only: card.empty)
  qed
  have "pageOwner r q = SHARED_PAGE \<and> users r q = 0 \<and> bitmapIndex r q = 0" if "q < pages r" for q
  proof -
    have p: "page_inv PS ?M ?V ?D {} {} (0 + (\<Sum>t\<leftarrow>turns. Suc (length (snd t)))) r q"
      using fin that by (simp add: serial_inv_def)
    then have "bitmapIndex r q = 0" unfolding page_inv_def c0 by (metis less_irrefl)
    then show ?thesis using p unfolding page_inv_def c0 by simp
  qed
  then have "quiescent PS r" using fin assms(7) by (simp add: quiescent_def serial_inv_def)
  with mem show ?thesis by blast
qed

subsection \<open>The log of a transaction\<close>

text \<open>An access adds to the log; a write to a page that was clean adds its \<open>WRITE\<close> event.\<close>

lemma do_acc_log:
  assumes r: "acc_ready s i" and off: "acc_off a < 4096 * pages s" and st: "do_acc i a s = Inr t"
  shows "\<exists>new. accesslog (procs t i) = accesslog (procs s i) @ new \<and>
    (\<forall>p\<in>dpages t i. p \<in> dpages s i \<or> (\<exists>pc off v. a = Wr pc off v \<and> off div 4096 = p \<and>
       (True, pc, drop_bit PageShift (startaddr s + of_nat off)) \<in> set new)) \<and>
    (\<forall>pc g. (True, pc, g) \<in> set new \<longrightarrow> (\<exists>off v. a = Wr pc off v \<and> g = drop_bit PageShift (startaddr s + of_nat off))) \<and>
    (\<forall>pc off v. a = Wr pc off v \<longrightarrow> off div 4096 \<in> dpages t i)"
proof (cases a)
  case (Rd pc off)
  obtain new where "load 2 i pc off s = Inr (Some (flat (view s i) off), t)" "dpages t i = dpages s i"
    "accesslog (procs t i) = accesslog (procs s i) @ new" "\<forall>e\<in>set new. \<not> fst e"
    using load_eval [OF r, of off pc] off st Rd by auto
  then show ?thesis using Rd by (intro exI [of _ new]) auto
next
  case (Wr pc off v)
  then have o: "off < 4096 * pages s" using off by simp
  show ?thesis
  proof (cases "off div 4096 \<in> dpages s i")
    case True
    note d = store_dirty [OF r o True]
    have "t = write_byte i off v s" using st Wr d(1) by simp
    then show ?thesis using d(3,4) True Wr by (intro exI [of _ "[]"]) auto
  next
    case False
    obtain b where "store 2 i pc off v s = Inr (b, t)" using st Wr by (auto simp: rbind_Inr_iff)
    note d = store_clean [OF r o False this]
    show ?thesis
      by (intro exI [of _ "[(True, pc, drop_bit PageShift (startaddr s + word_of_nat off))]"])
        (use d Wr in auto)
  qed
qed

text \<open>
  C30: Tracking of writes: in a transaction that starts with no dirty page, the events a process adds to the
  log name every page it writes, and every write event comes from a write instruction of the
  transaction and names its page.
\<close>

theorem writes_tracked:
  assumes "acc_ready s i" "dpages s i = {}" "\<forall>a\<in>set as. acc_off a < 4096 * pages s"
    and "rfold (do_acc i) as s = Inr t"
  shows "\<exists>new. accesslog (procs t i) = accesslog (procs s i) @ new \<and>
    (\<forall>pc off v. Wr pc off v \<in> set as \<longrightarrow> (\<exists>pc' off'. off' div 4096 = off div 4096 \<and>
       (True, pc', drop_bit PageShift (startaddr s + of_nat off')) \<in> set new)) \<and>
    (\<forall>pc g. (True, pc, g) \<in> set new \<longrightarrow>
       (\<exists>off v. Wr pc off v \<in> set as \<and> g = drop_bit PageShift (startaddr s + of_nat off)))"
proof -
  let ?logged = "\<lambda>new p. \<exists>pc off. off div 4096 = p \<and> (True, pc, drop_bit PageShift (startaddr s + of_nat off)) \<in> set new"
  have "\<exists>new. accesslog (procs t i) = accesslog (procs u i) @ new \<and>
      (\<forall>p\<in>dpages t i. p \<in> dpages u i \<or> ?logged new p) \<and> dpages u i \<subseteq> dpages t i \<and>
      (\<forall>pc off v. Wr pc off v \<in> set bs \<longrightarrow> off div 4096 \<in> dpages t i) \<and>
      (\<forall>pc g. (True, pc, g) \<in> set new \<longrightarrow>
         (\<exists>off v. Wr pc off v \<in> set bs \<and> g = drop_bit PageShift (startaddr s + of_nat off)))"
    if "acc_ready u i" "startaddr u = startaddr s" "\<forall>a\<in>set bs. acc_off a < 4096 * pages u"
      "rfold (do_acc i) bs u = Inr t" for u bs
    using that
  proof (induction bs arbitrary: u)
    case (Cons a bs)
    obtain w where w: "do_acc i a u = Inr w" "rfold (do_acc i) bs w = Inr t"
      using Cons.prems(4) by (auto simp: rbind_Inr_iff)
    have off: "acc_off a < 4096 * pages u" using Cons.prems(3) by simp
    note d = conjunct1 [OF do_acc_spec [OF Cons.prems(1) off w(1)]]
    have sh: "startaddr w = startaddr s" "\<forall>a\<in>set bs. acc_off a < 4096 * pages w" "dpages u i \<subseteq> dpages w i"
      using d Cons.prems(2,3) by (auto simp: acc_done_def same_shared_def)
    obtain n1 where n1: "accesslog (procs w i) = accesslog (procs u i) @ n1"
      "\<forall>p\<in>dpages w i. p \<in> dpages u i \<or> (\<exists>pc off v. a = Wr pc off v \<and> off div 4096 = p \<and>
         (True, pc, drop_bit PageShift (startaddr s + of_nat off)) \<in> set n1)"
      "\<forall>pc g. (True, pc, g) \<in> set n1 \<longrightarrow> (\<exists>off v. a = Wr pc off v \<and> g = drop_bit PageShift (startaddr s + of_nat off))"
      "\<forall>pc off v. a = Wr pc off v \<longrightarrow> off div 4096 \<in> dpages w i"
      using do_acc_log [OF Cons.prems(1) off w(1)] unfolding Cons.prems(2) by (elim exE conjE)
    have l1: "\<forall>p\<in>dpages w i. p \<in> dpages u i \<or> ?logged n1 p" using n1(2) by blast
    obtain n2 where n2: "accesslog (procs t i) = accesslog (procs w i) @ n2"
      "\<forall>p\<in>dpages t i. p \<in> dpages w i \<or> ?logged n2 p" "dpages w i \<subseteq> dpages t i"
      "\<forall>pc off v. Wr pc off v \<in> set bs \<longrightarrow> off div 4096 \<in> dpages t i"
      "\<forall>pc g. (True, pc, g) \<in> set n2 \<longrightarrow> (\<exists>off v. Wr pc off v \<in> set bs \<and> g = drop_bit PageShift (startaddr s + of_nat off))"
      using Cons.IH [OF acc_ready_done [OF Cons.prems(1) d] sh(1,2) w(2)] by blast
    have "\<forall>p\<in>dpages t i. p \<in> dpages u i \<or> ?logged (n1 @ n2) p" using l1 n2(2) by (metis Un_iff set_append)
    moreover have "\<forall>pc off v. Wr pc off v \<in> set (a # bs) \<longrightarrow> off div 4096 \<in> dpages t i"
      using n1(4) n2(3,4) by (metis set_ConsD subsetD)
    moreover have "\<forall>pc g. (True, pc, g) \<in> set (n1 @ n2) \<longrightarrow>
        (\<exists>off v. Wr pc off v \<in> set (a # bs) \<and> g = drop_bit PageShift (startaddr s + of_nat off))"
      using n1(3) n2(5) by (metis Un_iff list.set_intros(1,2) set_append)
    ultimately show ?case using n1(1) n2(1,3) sh(3) by (intro exI [of _ "n1 @ n2"]) auto
  qed (auto intro!: exI [of _ "[]"])
  from this [OF assms(1) refl assms(3,4)] assms(2) show ?thesis by blast
qed

subsection \<open>Two processes that write the same page\<close>

definition ex_pool :: xpageentry where
  "ex_pool = \<lparr>pe_total = 800000, pe_cur = 0, pe_pool = (\<lambda>_. \<lparr>pi_pageNo = 0, pi_version = 0, pi_pageStart = 0,
     pi_isShared = False, pi_release = False\<rparr>)\<rparr>"

definition ex_proc :: plocal where
  "ex_proc = \<lparr>isCopyOnWrite = True, mapPrivate = True, prot = (\<lambda>_. Prot_None), copies = (\<lambda>_. None),
     pageInfo = (\<lambda>_. PAGE_ACCESS_NONE), ownedblockinfo = (\<lambda>_. 0), ownedblocks = 0, trans = 0, dirtied = [],
     entrypool = ex_pool, accesslog = []\<rparr>"

definition ex_region :: xpersist where
  "ex_region = \<lparr>isHeap = True, startaddr = 65536, pages = 4, persistent = (\<lambda>_ _. 0), versions = (\<lambda>_. 0),
     users = (\<lambda>_. 0), bitmapIndex = (\<lambda>_. 0), pageOwner = (\<lambda>_. SHARED_PAGE),
     twins = \<lparr>bm_total = 81920, bm_cur = 1, bm_mem = (\<lambda>_. 0)\<rparr>, procs = (\<lambda>_. ex_proc), alive = (\<lambda>_. True)\<rparr>"

definition ex_evs :: "(int \<times> acc) list" where "ex_evs = [(1, Wr 0 0 5), (2, Wr 0 1 6)]"
definition ex_turns :: "(int \<times> acc list list) list" where "ex_turns = [(1, []), (2, [[Wr 0 2 7]])]"

lemma store_2:
  "store 2 pid pc off v s =
     (if prot (procs s pid) (off div 4096) = Prot_RW then Inr (True, write_byte pid off v s)
      else rbind (handleAccess pid (startaddr s + of_nat off) True pc s) (\<lambda>t.
        if prot (procs t pid) (off div 4096) = Prot_RW then Inr (True, write_byte pid off v t)
        else rbind (handleAccess pid (startaddr t + of_nat off) True pc t) (\<lambda>u. Inr (False, u))))"
  by (auto simp: numeral_2_eq_2 intro!: arg_cong [where f = "rbind _"] ext)

lemmas run_defs = do_round_def ex_evs_def ex_turns_def ex_region_def ex_proc_def ex_pool_def store_2
  handleAccess_def Let_def handleWrite_def pageAt_def computePage_def PageShift_def mprotectReadWrite_def
  mprotect_def SHARED_PAGE_def addDirty_def addUser_def xpageentry_alloc_def getPageStart_def write_byte_def
  do_turn_def checkandcommit_def commit_page_def view_def createTwinPage_def xbitmap_get_def write_back_def
  set_release_def setSharedPage_def bump_def begin_trans_def updateAll_def updatePage_def madvise_dontneed_def
  transaction_def xpageentry_cleanup_def

lemma ex_run: "\<exists>r. do_round ex_evs ex_turns ex_region = Inr r \<and> bm_cur (twins r) \<le> 3071"
  by (simp add: run_defs)

lemma ex_parallel: "\<exists>t. rfold (\<lambda>e. do_acc (fst e) (snd e)) ex_evs ex_region = Inr t"
  by (simp add: run_defs)

lemma ex_quiescent: "quiescent {1, 2} ex_region"
  by (auto simp: quiescent_def ex_region_def mapping_ok_def ex_proc_def ex_pool_def dpages_def)

theorem round_deterministic_witness:
  "\<exists>r. do_round ex_evs ex_turns ex_region = Inr r \<and> quiescent {1, 2} r \<and>
     map (flat (persistent r)) [0, 1, 2, 3] = [5, 6, 7, 0]"
proof -
  obtain r where r: "do_round ex_evs ex_turns ex_region = Inr r" "bm_cur (twins r) \<le> 3071" using ex_run by blast
  have "flat (persistent r) = spec_round ex_evs ex_turns (flat (persistent ex_region)) \<and> quiescent {1, 2} r"
    by (rule round_deterministic [OF ex_quiescent _ _ _ _ _ _ _ _ r])
      (auto simp: ex_evs_def ex_turns_def SHARED_PAGE_def ex_region_def)
  moreover have "map (spec_round ex_evs ex_turns (flat (persistent ex_region))) [0, 1, 2, 3] = [5, 6, 7, 0]"
    by (simp add: spec_round_def spec_turn_def ex_evs_def ex_turns_def ex_region_def flat_def accs_of_def
        overlay_def merge_mem_def)
  ultimately show ?thesis using r(1) by simp
qed

theorem parallel_isolation_witness:
  "\<exists>t u. rfold (\<lambda>e. do_acc (fst e) (snd e)) ex_evs ex_region = Inr t \<and> load 2 1 0 1 t = Inr (Some 0, u)"
proof -
  obtain t where t: "rfold (\<lambda>e. do_acc (fst e) (snd e)) ex_evs ex_region = Inr t" using ex_parallel by blast
  have "persistent t = persistent ex_region \<and>
      (\<exists>u. load 2 1 0 1 t = Inr (Some (overlay (flat (persistent ex_region)) (accs_of 1 ex_evs) 1), u))"
    by (rule parallel_isolation [OF ex_quiescent _ _ _ _ t])
      (auto simp: ex_evs_def SHARED_PAGE_def ex_region_def)
  then show ?thesis
    using t by (simp add: overlay_def accs_of_def ex_evs_def ex_region_def flat_def)
qed

theorem writes_tracked_witness:
  "\<exists>t pc off. rfold (do_acc 1) [Wr 0 5 7] ex_region = Inr t \<and> off div 4096 = (0 :: nat) \<and>
     (True, pc, drop_bit PageShift (65536 + of_nat off)) \<in> set (accesslog (procs t 1))"
proof -
  obtain t where t: "rfold (do_acc 1) [Wr 0 5 7] ex_region = Inr t" by (simp add: run_defs)
  have "acc_ready ex_region 1" "dpages ex_region 1 = {}"
    by (auto simp: acc_ready_def ex_region_def SHARED_PAGE_def mapping_ok_def entries_ok_def ex_proc_def
        ex_pool_def dpages_def)
  from writes_tracked [OF this _ t] obtain new where
    "accesslog (procs t 1) = accesslog (procs ex_region 1) @ new"
    "\<exists>pc' off'. off' div 4096 = 5 div 4096 \<and> (True, pc', drop_bit PageShift (startaddr ex_region + of_nat off')) \<in> set new"
    by (auto simp: ex_region_def)
  then show ?thesis using t by (auto simp: ex_region_def)
qed

end
