(* ===== verification/Xpersist_Owned.thy ===== *)
theory Xpersist_Owned
  imports Xpersist_Round
begin

text \<open>
  Pages that belong to one process (\<open>setOwnedPage\<close>) are committed lazily: another process that touches
  one signals the owner, which commits the page and gives it up. The theorems say that this hands over
  what the owner wrote, and that it takes the following page away from the owner by accident.
\<close>

text \<open>Page \<open>p\<close> is owned and written by \<open>i\<close>; \<open>j\<close> has not touched it.\<close>

definition owned_by :: "int \<Rightarrow> int \<Rightarrow> nat \<Rightarrow> xpersist \<Rightarrow> bool" where
  "owned_by i j p s \<longleftrightarrow>
     pageOwner s p = i \<and> i \<noteq> 0 \<and> i \<noteq> SHARED_PAGE \<and> alive s i \<and> j \<noteq> i \<and>
     pageInfo (procs s i) p = PAGE_ACCESS_READ_WRITE \<and> prot (procs s i) p = Prot_RW \<and>
     pageInfo (procs s j) p = PAGE_UNUSED \<and> prot (procs s j) p = Prot_None \<and> copies (procs s j) p = None"

lemma load_2:
  "load 2 pid pc off s =
     (if prot (procs s pid) (off div 4096) \<noteq> Prot_None
      then Inr (Some (view s pid (off div 4096) (off mod 4096)), s)
      else rbind (handleAccess pid (startaddr s + of_nat off) False pc s) (\<lambda>t.
        if prot (procs t pid) (off div 4096) \<noteq> Prot_None
        then Inr (Some (view t pid (off div 4096) (off mod 4096)), t)
        else rbind (handleAccess pid (startaddr t + of_nat off) False pc t) (\<lambda>u. Inr (None, u))))"
  by (auto simp: numeral_2_eq_2 intro!: arg_cong [where f = "rbind _"] ext)

text \<open>The fault of \<open>j\<close> on a page nobody shares yet.\<close>

lemma load_unused:
  assumes "off < 4096 * pages s" "4096 * pages s < 2 ^ 64" "p = off div 4096"
    and "pageInfo (procs s j) p = PAGE_UNUSED" "prot (procs s j) p = Prot_None"
    and "s0 = upd_proc j (accesslog_update (\<lambda>l. l @ [(False, pc, drop_bit PageShift (startaddr s + of_nat off))])) s"
    and "t = mprotectRead j p (notifyOwnerToCommit j p s0)"
  shows "load 2 j pc off s = Inr (Some (view t j p (off mod 4096)), t)"
proof -
  have "pageAt s (startaddr s + word_of_nat off) = p"
    using pageAt_offset [OF assms(1,2)] assms(3) by simp
  then have "handleAccess j (startaddr s + of_nat off) False pc s = Inr t"
    using assms(4,6,7) by (simp add: handleAccess_def Let_def handleRead_def)
  moreover have "prot (procs t j) p = Prot_Read"
    by (simp add: assms(7) mprotectRead_def mprotect_def)
  ultimately show ?thesis using assms(3,5) by (simp add: load_2)
qed

lemma handover_state:
  assumes "owned_by i j p s" "off < 4096 * pages s" "4096 * pages s < 2 ^ 64" "p = off div 4096"
  obtains t where "load 2 j pc off s = Inr (Some (view s i p (off mod 4096)), t)"
    "pageOwner t = (pageOwner s)(p := SHARED_PAGE, Suc p := 0)"
    "persistent t = (persistent s)(p := view s i p)" "versions t p = versions s p + 1"
    "\<forall>q. q \<noteq> p \<longrightarrow> pageInfo (procs t j) q = pageInfo (procs s j) q" "\<forall>q. q \<noteq> p \<longrightarrow> prot (procs t j) q = prot (procs s j) q"
    "\<forall>q. q \<noteq> p \<longrightarrow> copies (procs t j) q = copies (procs s j) q" "pages t = pages s" "startaddr t = startaddr s"
proof -
  let ?s0 = "upd_proc j (accesslog_update (\<lambda>l. l @ [(False, pc, drop_bit PageShift (startaddr s + of_nat off))])) s"
  let ?t = "mprotectRead j p (notifyOwnerToCommit j p ?s0)"
  have o: "pageOwner s p = i" "i \<noteq> 0" "i \<noteq> SHARED_PAGE" "alive s i" "j \<noteq> i"
    "pageInfo (procs s i) p = PAGE_ACCESS_READ_WRITE" "prot (procs s i) p = Prot_RW"
    "pageInfo (procs s j) p = PAGE_UNUSED" "prot (procs s j) p = Prot_None" "copies (procs s j) p = None"
    using assms(1) by (auto simp: owned_by_def)
  have n: "notifyOwnerToCommit j p ?s0 = commitOwnedPage i p True ?s0"
    using o by (simp add: notifyOwnerToCommit_def Let_def)
  have v0: "view ?s0 i = view s i" using o(5) by (simp add: view_def fun_eq_iff split: option.split)
  note defs = mprotectRead_def mprotect_def commitOwnedPage_def Let_def setSharedPage_def madvise_dontneed_def bump_def
  have pt: "persistent ?t = (persistent s)(p := view s i p)"
    using o v0 unfolding n by (simp add: defs)
  have cj: "copies (procs ?t j) = copies (procs s j)" using o unfolding n by (simp add: defs)
  have "view ?t j p = view s i p" using pt cj o(10) by (simp add: view_def)
  then have "load 2 j pc off s = Inr (Some (view s i p (off mod 4096)), ?t)"
    using load_unused [OF assms(2-4) o(8,9) refl refl, of pc] by simp
  then show thesis
    by (rule that) (use o pt cj in \<open>simp_all add: n defs\<close>)
qed

text \<open>
  C32: Handing over an owned page: a process that reads a page another live process owns gets the byte
  the owner sees; the owner's copy is in the shared memory then and the page is shared.
\<close>

theorem owned_handover:
  assumes "owned_by i j p s" "off < 4096 * pages s" "4096 * pages s < 2 ^ 64" "p = off div 4096"
  shows "\<exists>t. load 2 j pc off s = Inr (Some (view s i p (off mod 4096)), t) \<and> isSharedPage p t \<and>
    persistent t p = view s i p \<and> versions t p = versions s p + 1"
proof -
  obtain t where "load 2 j pc off s = Inr (Some (view s i p (off mod 4096)), t)"
    "pageOwner t = (pageOwner s)(p := SHARED_PAGE, Suc p := 0)"
    "persistent t = (persistent s)(p := view s i p)" "versions t p = versions s p + 1"
    by (rule handover_state [where pc = pc, OF assms])
  then show ?thesis by (auto simp: isSharedPage_def)
qed

text \<open>
  Handing over page \<open>p\<close> clears the owner of page \<open>p + 1\<close>, because the owner entries are four bytes and
  the exchange is eight: when the other process then reads page \<open>p + 1\<close>, which the same owner has
  written, it gets the old content, and the owner no longer commits that page.
\<close>

lemma handover_loses_next_page:
  assumes "owned_by i j p s" "owned_by i j (Suc p) s" "off + 4096 < 4096 * pages s" "4096 * pages s < 2 ^ 64"
    and "p = off div 4096"
  shows "\<exists>t u. load 2 j pc off s = Inr (Some (view s i p (off mod 4096)), t) \<and>
    load 2 j pc (off + 4096) t = Inr (Some (persistent s (Suc p) (off mod 4096)), u) \<and>
    pageOwner u (Suc p) \<noteq> i"
proof -
  have off: "off < 4096 * pages s" using assms(3) by linarith
  obtain t where t: "load 2 j pc off s = Inr (Some (view s i p (off mod 4096)), t)"
    "pageOwner t = (pageOwner s)(p := SHARED_PAGE, Suc p := 0)"
    "persistent t = (persistent s)(p := view s i p)" "versions t p = versions s p + 1"
    "\<forall>q. q \<noteq> p \<longrightarrow> pageInfo (procs t j) q = pageInfo (procs s j) q" "\<forall>q. q \<noteq> p \<longrightarrow> prot (procs t j) q = prot (procs s j) q"
    "\<forall>q. q \<noteq> p \<longrightarrow> copies (procs t j) q = copies (procs s j) q" "pages t = pages s" "startaddr t = startaddr s"
    by (rule handover_state [where pc = pc, OF assms(1) off assms(4,5)])
  have o: "pageInfo (procs t j) (Suc p) = PAGE_UNUSED" "prot (procs t j) (Suc p) = Prot_None"
    "copies (procs t j) (Suc p) = None" "i \<noteq> SHARED_PAGE"
    using assms(2) t(5-7) by (auto simp: owned_by_def)
  have p1: "Suc p = (off + 4096) div 4096" "(off + 4096) mod 4096 = off mod 4096" using assms(5) by auto
  have r: "off + 4096 < 4096 * pages t" "4096 * pages t < 2 ^ 64" using assms(3,4) t(8) by auto
  let ?t0 = "upd_proc j (accesslog_update (\<lambda>l. l @ [(False, pc, drop_bit PageShift (startaddr t + of_nat (off + 4096)))])) t"
  let ?u = "mprotectRead j (Suc p) (notifyOwnerToCommit j (Suc p) ?t0)"
  have "notifyOwnerToCommit j (Suc p) ?t0 = setSharedPage j (Suc p) ?t0"
    using t(2) by (simp add: notifyOwnerToCommit_def Let_def SHARED_PAGE_def)
  then have u: "view ?u j (Suc p) = persistent s (Suc p)" "pageOwner ?u (Suc p) = SHARED_PAGE"
    using t(2,3) o(3) by (simp_all add: view_def mprotectRead_def mprotect_def setSharedPage_def SHARED_PAGE_def)
  have "load 2 j pc (off + 4096) t = Inr (Some (persistent s (Suc p) (off mod 4096)), ?u)"
    using load_unused [OF r p1(1) o(1,2) refl refl, of pc] u(1) p1(2) by simp
  then show ?thesis using t(1) u(2) o(4) by metis
qed

subsection \<open>The table of blocks\<close>

text \<open>The table overflows with the 257th block; the check that exits comes too late for any number of blocks.\<close>

lemma owned_table_overflows:
  assumes "isCopyOnWrite (procs s pid)"
  shows "setOwnedPage pid addr sz s = Inl Undefined \<longleftrightarrow> 256 \<le> ownedblocks (procs s pid)"
    "setOwnedPage pid addr sz s \<noteq> Inl Exit"
  using assms by (auto simp: setOwnedPage_def Let_def)

subsection \<open>Process 1 owns two pages, process 2 reads them\<close>

definition ex_owned :: xpersist where
  "ex_owned = ex_region\<lparr>pageOwner := (\<lambda>_. 1),
     procs := (\<lambda>_. ex_proc\<lparr>pageInfo := (\<lambda>_. PAGE_UNUSED)\<rparr>)
       (1 := ex_proc\<lparr>pageInfo := (\<lambda>_. PAGE_ACCESS_READ_WRITE), prot := (\<lambda>_. Prot_RW), copies := (\<lambda>_. Some (\<lambda>_. 9))\<rparr>)\<rparr>"

lemma ex_owned: "owned_by 1 2 0 ex_owned" "owned_by 1 2 (Suc 0) ex_owned" "pages ex_owned = 4"
    "view ex_owned 1 p k = 9" "persistent ex_owned p k = 0"
  by (simp_all add: owned_by_def ex_owned_def ex_region_def ex_proc_def SHARED_PAGE_def view_def)

theorem owned_handover_witness:
  "\<exists>t. load 2 2 0 7 ex_owned = Inr (Some 9, t) \<and> isSharedPage 0 t \<and> persistent t 0 7 = 9"
  using owned_handover [OF ex_owned(1), of 7 0] by (auto simp: ex_owned)

lemma handover_loses_next_page_witness:
  "\<exists>t u. view ex_owned 1 1 7 = 9 \<and> load 2 2 0 7 ex_owned = Inr (Some 9, t) \<and> load 2 2 0 4103 t = Inr (Some 0, u)"
  using handover_loses_next_page [OF ex_owned(1,2), of 7 0] by (auto simp: ex_owned)

end
