(* ===== verification/Bytes.thy ===== *)
theory Bytes
  imports Prelude
begin

text \<open>
  Words as the machine stores them: the bytes of a word, least significant first, and the words read
  back from them. The log and the binary schedule are files of such words.
\<close>

subsection \<open>Words in memory\<close>

definition le_byte :: "'a::len word \<Rightarrow> nat \<Rightarrow> u8" where
  "le_byte w k = ucast (drop_bit (8 * k) w)"

definition le32 :: "(nat \<Rightarrow> u8) \<Rightarrow> u32" where
  "le32 f = ucast (f 0) OR push_bit 8 (ucast (f 1)) OR push_bit 16 (ucast (f 2)) OR push_bit 24 (ucast (f 3))"

definition le64 :: "(nat \<Rightarrow> u8) \<Rightarrow> u64" where
  "le64 f = ucast (le32 f) OR push_bit 32 (ucast (le32 (\<lambda>k. f (4 + k))))"

lemma bit_u8_beyond: "8 \<le> n \<Longrightarrow> \<not> bit w n" for w :: u8
  using bit_imp_le_length [of w n] by auto

lemma bit_le32: "bit (le32 f) n \<longleftrightarrow> n < 32 \<and> bit (f (n div 8)) (n mod 8)"
proof (cases "n < 32")
  case True
  then consider "n < 8" | "8 \<le> n" "n < 16" | "16 \<le> n" "n < 24" | "24 \<le> n" "n < 32" by linarith
  then show ?thesis
  proof cases
    case 1 then show ?thesis by (simp add: le32_def bit_simps)
  next
    case 2
    then have "n div 8 = 1" "n mod 8 = n - 8" by presburger+
    then show ?thesis using 2 bit_u8_beyond [of n "f 0"] by (auto simp add: le32_def bit_simps)
  next
    case 3
    then have "n div 8 = 2" "n mod 8 = n - 16" by presburger+
    then show ?thesis
      using 3 bit_u8_beyond [of n "f 0"] bit_u8_beyond [of "n - 8" "f 1"] by (auto simp add: le32_def bit_simps)
  next
    case 4
    then have "n div 8 = 3" "n mod 8 = n - 24" by presburger+
    then show ?thesis
      using 4 bit_u8_beyond [of n "f 0"] bit_u8_beyond [of "n - 8" "f 1"] bit_u8_beyond [of "n - 16" "f 2"]
      by (auto simp add: le32_def bit_simps)
  qed
next
  case False
  then show ?thesis using bit_imp_le_length [of "le32 f" n] by auto
qed

lemma le32_le_byte [simp]: "le32 (le_byte w) = w" for w :: u32
  by (rule bit_eqI) (simp add: bit_le32 le_byte_def bit_simps)

lemma le64_le_byte [simp]: "le64 (le_byte w) = w" for w :: u64
proof (rule bit_eqI)
  fix n assume "possible_bit TYPE(u64) n"
  then have n: "n < 64" by simp
  show "bit (le64 (le_byte w)) n = bit w n"
  proof (cases "n < 32")
    case True
    then show ?thesis by (simp add: le64_def bit_simps bit_le32 le_byte_def)
  next
    case False
    have "8 * (4 + (n - 32) div 8) + (n - 32) mod 8 = n" using False by presburger
    then show ?thesis using False n by (auto simp add: le64_def bit_simps bit_le32 le_byte_def)
  qed
qed

lemma le64_cong: "(\<And>k. k < 8 \<Longrightarrow> f k = g k) \<Longrightarrow> le64 f = le64 g"
  by (simp add: le64_def le32_def)

lemma le32_cong: "(\<And>k. k < 4 \<Longrightarrow> f k = g k) \<Longrightarrow> le32 f = le32 g"
  by (simp add: le32_def)

subsection \<open>Integers\<close>

text \<open>An \<open>int\<close> of 32 bits.\<close>

abbreviation in_int32 :: "int \<Rightarrow> bool" where
  "in_int32 x \<equiv> - (2 ^ 31) \<le> x \<and> x < 2 ^ 31"

lemma sint_of_int32: "in_int32 x \<Longrightarrow> sint (word_of_int x :: u32) = x"
  by (simp add: sint_sbintrunc' signed_take_bit_int_eq_self)

end
