(* ===== verification/Xlogger.thy ===== *)
theory Xlogger
  imports Bytes
begin

text \<open>
  The log of memory accesses: the event and header formats of \<^verbatim>\<open>tthread/logevent.h\<close> and
  \<^verbatim>\<open>tthread/logheader.h\<close>, the writer of \<^verbatim>\<open>xlogger.h\<close> and \<^verbatim>\<open>xlogger.cpp\<close>, which every process runs over
  its own window of the shared log file, and the reader of \<^verbatim>\<open>log.h\<close> and \<^verbatim>\<open>log.cpp\<close>.

  The file is its bytes by offset. A write outside the window a process has mapped is \<open>Segv\<close>.
  \<open>ftruncate\<close> and \<open>mmap\<close> succeed (their failures abort the process).
\<close>

subsection \<open>Events\<close>

datatype event_type = INVALID | WRITE | READ | THUNK | FINISH | END

definition type_code :: "event_type \<Rightarrow> u8" where
  "type_code t = (case t of INVALID \<Rightarrow> 0 | WRITE \<Rightarrow> 1 | READ \<Rightarrow> 2 | THUNK \<Rightarrow> 3 | FINISH \<Rightarrow> 4 | END \<Rightarrow> 5)"

text \<open>The union \<open>EventData\<close> is eight bytes; its members are views of them.\<close>

type_synonym event_data = u64

definition data_thunk :: "u32 \<Rightarrow> u32 \<Rightarrow> event_data" where
  "data_thunk i cpu = ucast i OR push_bit 32 (ucast cpu)"

definition thunk_id :: "event_data \<Rightarrow> u32" where "thunk_id d = ucast d"
definition thunk_cpu :: "event_data \<Rightarrow> u32" where "thunk_cpu d = ucast (drop_bit 32 d)"

record logevent =
  ev_type :: u8
  ev_returnAddress :: u64
  ev_threadId :: u32
  ev_data :: event_data

definition logevent_new :: "event_type \<Rightarrow> u64 \<Rightarrow> event_data \<Rightarrow> logevent" where
  "logevent_new t ret d = \<lparr>ev_type = type_code t, ev_returnAddress = ret, ev_threadId = 0, ev_data = d\<rparr>"

definition setThreadId :: "u32 \<Rightarrow> logevent \<Rightarrow> logevent" where
  "setThreadId t e = e\<lparr>ev_threadId := t\<rparr>"

text \<open>The class is packed: 21 bytes.\<close>

definition EVENT_SIZE :: nat where "EVENT_SIZE = 21"

definition event_byte :: "logevent \<Rightarrow> nat \<Rightarrow> u8" where
  "event_byte e k =
     (if k = 0 then ev_type e
      else if k < 9 then le_byte (ev_returnAddress e) (k - 1)
      else if k < 13 then le_byte (ev_threadId e) (k - 9)
      else le_byte (ev_data e) (k - 13))"

definition event_at :: "(nat \<Rightarrow> u8) \<Rightarrow> logevent" where
  "event_at f = \<lparr>ev_type = f 0, ev_returnAddress = le64 (\<lambda>k. f (1 + k)), ev_threadId = le32 (\<lambda>k. f (9 + k)),
     ev_data = le64 (\<lambda>k. f (13 + k))\<rparr>"

lemma event_at_byte: "event_at (event_byte e) = e"
proof -
  have "le64 (\<lambda>k. event_byte e (1 + k)) = ev_returnAddress e" "le32 (\<lambda>k. event_byte e (9 + k)) = ev_threadId e"
    "le64 (\<lambda>k. event_byte e (13 + k)) = ev_data e"
    using le64_cong [of "\<lambda>k. event_byte e (1 + k)" "le_byte (ev_returnAddress e)"]
      le32_cong [of "\<lambda>k. event_byte e (9 + k)" "le_byte (ev_threadId e)"]
      le64_cong [of "\<lambda>k. event_byte e (13 + k)" "le_byte (ev_data e)"]
    by (simp_all add: event_byte_def)
  then show ?thesis by (simp add: event_at_def event_byte_def)
qed

lemma event_at_cong:
  assumes "\<And>k. k < 21 \<Longrightarrow> f k = g k" shows "event_at f = event_at g"
proof -
  have "le64 (\<lambda>k. f (1 + k)) = le64 (\<lambda>k. g (1 + k))" "le64 (\<lambda>k. f (13 + k)) = le64 (\<lambda>k. g (13 + k))"
    by (rule le64_cong, simp add: assms)+
  moreover have "le32 (\<lambda>k. f (9 + k)) = le32 (\<lambda>k. g (9 + k))" by (rule le32_cong) (simp add: assms)
  ultimately show ?thesis by (simp add: event_at_def assms)
qed

subsection \<open>The header and the log file\<close>

record memorylayout =
  globalStart :: u64
  globalEnd :: u64
  heapStart :: u64
  heapEnd :: u64

definition FILE_MAGIC :: u32 where "FILE_MAGIC = 0xC3D2C3D2"
definition LOG_VERSION :: u32 where "LOG_VERSION = 1"
definition HEADER_SIZE :: nat where "HEADER_SIZE = 4096"

record logheader =
  fileMagic :: u32
  fileVersion :: u32
  headerSize :: u64
  eventCount :: u64
  memoryLayout :: memorylayout

definition logheader_new :: "memorylayout \<Rightarrow> logheader" where
  "logheader_new l = \<lparr>fileMagic = FILE_MAGIC, fileVersion = LOG_VERSION, headerSize = of_nat HEADER_SIZE,
     eventCount = 0, memoryLayout = l\<rparr>"

definition validFileMagick :: "logheader \<Rightarrow> bool" where
  "validFileMagick h = (fileMagic h = FILE_MAGIC)"

text \<open>
  \<open>fileSize\<close> is the shared variable, \<open>fileLength\<close> the size \<open>ftruncate\<close> has set; \<open>mmapOffset\<close> is each
  process's window, \<open>threadId\<close> the index of its thread once \<open>setThread\<close> was called.
\<close>

record logfile =
  header :: logheader
  fileSize :: int
  fileLength :: int
  fileBytes :: "nat \<Rightarrow> u8"
  enable_logging :: bool
  mmapOffset :: "int \<Rightarrow> int"
  threadId :: "int \<Rightarrow> u32 option"

definition REQUEST_SIZE :: int where "REQUEST_SIZE = 65536"

definition growLog :: "int \<Rightarrow> logfile \<Rightarrow> logfile" where
  "growLog pid s =
     (let currentSize = fileSize s;
          s1 = (if mmapOffset s pid + REQUEST_SIZE \<ge> currentSize
                then let newSize = currentSize + REQUEST_SIZE in
                  s\<lparr>fileLength := newSize + int HEADER_SIZE,
                    fileBytes := (\<lambda>a. if int a < fileLength s then fileBytes s a else 0), fileSize := newSize\<rparr>
                else s) in
      s1\<lparr>mmapOffset := (mmapOffset s1)(pid := fileSize s1 - REQUEST_SIZE)\<rparr>)"

text \<open>The constructor; \<open>fork\<close> copies the window.\<close>

definition xlogger_new :: "int \<Rightarrow> memorylayout \<Rightarrow> bool \<Rightarrow> logfile" where
  "xlogger_new pid l enabled =
     growLog pid \<lparr>header = logheader_new l, fileSize = 0, fileLength = int HEADER_SIZE, fileBytes = (\<lambda>_. 0),
       enable_logging = enabled, mmapOffset = (\<lambda>_. - REQUEST_SIZE), threadId = (\<lambda>_. None)\<rparr>"

definition xlogger_fork :: "int \<Rightarrow> int \<Rightarrow> logfile \<Rightarrow> logfile" where
  "xlogger_fork parent child s =
     s\<lparr>mmapOffset := (mmapOffset s)(child := mmapOffset s parent), threadId := (threadId s)(child := threadId s parent)\<rparr>"

definition setThread :: "int \<Rightarrow> u32 \<Rightarrow> logfile \<Rightarrow> logfile" where
  "setThread pid t s = s\<lparr>threadId := (threadId s)(pid := Some t)\<rparr>"

text \<open>
  \<open>add\<close> in two steps, between which other processes may run: the atomic increment that reserves the
  place \<open>next\<close>, and the write.
\<close>

definition stamp :: "int \<Rightarrow> logevent \<Rightarrow> logfile \<Rightarrow> logevent" where
  "stamp pid e s = (case threadId s pid of None \<Rightarrow> e | Some t \<Rightarrow> setThreadId t e)"

definition add_reserve :: "logfile \<Rightarrow> u64 \<times> logfile" where
  "add_reserve s = (eventCount (header s), s\<lparr>header := (header s)\<lparr>eventCount := eventCount (header s) + 1\<rparr>\<rparr>)"

definition add_write :: "int \<Rightarrow> u64 \<Rightarrow> logevent \<Rightarrow> logfile \<Rightarrow> logfile res" where
  "add_write pid next e s =
     (let required_size = (next + 1) * of_nat EVENT_SIZE - of_int (mmapOffset s pid);
          s1 = (if required_size > of_int REQUEST_SIZE then growLog pid s else s);
          pos = int (unat next) * int EVENT_SIZE - mmapOffset s1 pid in
      if 0 \<le> pos \<and> pos + int EVENT_SIZE \<le> REQUEST_SIZE
      then let a = nat (int HEADER_SIZE + mmapOffset s1 pid + pos) in
        Inr (s1\<lparr>fileBytes := (\<lambda>b. if a \<le> b \<and> b < a + EVENT_SIZE then event_byte e (b - a) else fileBytes s1 b)\<rparr>)
      else Inl Segv)"

definition xlogger_add :: "int \<Rightarrow> logevent \<Rightarrow> logfile \<Rightarrow> logfile res" where
  "xlogger_add pid e s =
     (if \<not> enable_logging s then Inr s
      else let (next, s1) = add_reserve s in add_write pid next (stamp pid e s) s1)"

subsection \<open>The reader\<close>

record log =
  logOffset :: u64
  logSize :: u64
  logNull :: bool   \<comment> \<open>\<open>_log\<close> is \<open>NULL\<close>\<close>

definition log_open :: "u64 \<Rightarrow> logfile \<Rightarrow> log" where
  "log_open offset s =
     (let sz = eventCount (header s) * of_nat EVENT_SIZE in \<lparr>logOffset = offset, logSize = sz, logNull = (sz = 0)\<rparr>)"

definition log_length :: "log \<Rightarrow> u64" where
  "log_length l = (logSize l - logOffset l) div of_nat EVENT_SIZE"

definition log_end :: "log \<Rightarrow> u64" where "log_end l = logSize l"

text \<open>\<open>_log[i]\<close> lies in the mapping, whole pages from \<open>alignedOffset\<close>, or the access faults.\<close>

definition log_get :: "u64 \<Rightarrow> log \<Rightarrow> logfile \<Rightarrow> logevent res" where
  "log_get i l s =
     (if i > log_length l then Inl OutOfRange
      else if logNull l then Inl Segv
      else
        let alignedOffset = PAGE_ALIGN_DOWN (logOffset l); diff = logOffset l - alignedOffset;
            alignedSize = logSize l + diff; pos = unat diff + unat i * EVENT_SIZE in
        if pos + EVENT_SIZE \<le> unat (PAGE_ALIGN_UP alignedSize) \<and>
           int HEADER_SIZE + int (unat alignedOffset) + int (pos + EVENT_SIZE) \<le> fileLength s
        then Inr (event_at (\<lambda>k. fileBytes s (HEADER_SIZE + unat alignedOffset + pos + k)))
        else Inl Segv)"

end
