(* ===== verification/Log_Props.thy ===== *)
theory Log_Props
  imports Xlogger
begin

text \<open>
  The properties of the log: what processes add concurrently is what a reader gets, from the start and
  from any earlier end, as long as the log stays within its first window; the first event that does
  not fit into the window is written in front of the next one; and the reader's range check is off by
  one.
\<close>

subsection \<open>Concurrent writers\<close>

text \<open>
  A process reserves a place, later writes it; \<open>pd\<close> holds what each process has reserved and not
  written, \<open>es\<close> the events in the order of their places. An action that does not fit the state of its
  process is no step.
\<close>

datatype log_act = Reserve int logevent | Commit int

type_synonym log_sys = "logfile \<times> (int \<rightharpoonup> u64 \<times> logevent) \<times> logevent list"

fun log_step :: "log_act \<Rightarrow> log_sys \<Rightarrow> log_sys res" where
  "log_step (Reserve p e) (s, pd, es) =
     (case pd p of
        Some _ \<Rightarrow> Inr (s, pd, es)
      | None \<Rightarrow> let (n, s1) = add_reserve s in Inr (s1, pd(p \<mapsto> (n, stamp p e s)), es @ [stamp p e s]))"
| "log_step (Commit p) (s, pd, es) =
     (case pd p of
        None \<Rightarrow> Inr (s, pd, es)
      | Some (n, e) \<Rightarrow> rbind (add_write p n e s) (\<lambda>s1. Inr (s1, pd(p := None), es)))"

fun act_pid :: "log_act \<Rightarrow> int" where
  "act_pid (Reserve p e) = p"
| "act_pid (Commit p) = p"

fun is_reserve :: "log_act \<Rightarrow> bool" where
  "is_reserve (Reserve p e) = True"
| "is_reserve (Commit p) = False"

definition event_pos :: "nat \<Rightarrow> nat" where "event_pos i = HEADER_SIZE + 21 * i"

definition stored :: "logfile \<Rightarrow> nat \<Rightarrow> logevent" where
  "stored s i = event_at (\<lambda>k. fileBytes s (event_pos i + k))"

definition log_inv :: "int set \<Rightarrow> nat \<Rightarrow> log_sys \<Rightarrow> bool" where
  "log_inv PS room S \<longleftrightarrow> (case S of (s, pd, es) \<Rightarrow>
     length es + room \<le> 3120 \<and> eventCount (header s) = of_nat (length es) \<and> fileSize s = 65536 \<and>
     fileLength s = 69632 \<and> (\<forall>p\<in>PS. mmapOffset s p = 0) \<and>
     (\<forall>p n e. pd p = Some (n, e) \<longrightarrow> unat n < length es \<and> es ! unat n = e) \<and>
     (\<forall>p q n e n' e'. pd p = Some (n, e) \<longrightarrow> pd q = Some (n', e') \<longrightarrow> p \<noteq> q \<longrightarrow> n \<noteq> n') \<and>
     (\<forall>i<length es. (\<exists>p n e. pd p = Some (n, e) \<and> unat n = i) \<or> stored s i = es ! i))"

lemma add_write_first:
  assumes "unat n < 3120" "mmapOffset s p = 0"
  shows "add_write p n e s = Inr (s\<lparr>fileBytes := (\<lambda>b. if event_pos (unat n) \<le> b \<and> b < event_pos (unat n) + 21
           then event_byte e (b - event_pos (unat n)) else fileBytes s b)\<rparr>)"
proof -
  have "unat (n + 1) = unat n + 1" using assms(1) by (simp add: unat_word_ariths)
  then have "unat ((n + 1) * 21) = (unat n + 1) * 21" using assms(1) by (simp add: unat_word_ariths)
  then have "\<not> (n + 1) * 21 > 65536" using assms(1) by (simp add: word_less_nat_alt)
  moreover define m where "m = unat n"
  then have m: "uint n = int m" "unat n = m" by simp_all
  moreover have "nat (4096 + int m * 21) = event_pos m" by (simp add: event_pos_def HEADER_SIZE_def)
  moreover have "int m * 21 + 21 \<le> 65536" using assms(1) m(2) by linarith
  ultimately show ?thesis
    using assms(2) by (simp add: add_write_def Let_def EVENT_SIZE_def REQUEST_SIZE_def HEADER_SIZE_def
        cong: if_cong)
qed

lemma stored_write:
  "stored (s\<lparr>fileBytes := (\<lambda>b. if event_pos n \<le> b \<and> b < event_pos n + 21
       then event_byte e (b - event_pos n) else fileBytes s b)\<rparr>) i = (if i = n then e else stored s i)"
proof (cases "i = n")
  case True
  then show ?thesis
    unfolding stored_def
    using event_at_cong [of "\<lambda>k. if k < 21 then event_byte e k else fileBytes s (event_pos n + k)" "event_byte e"]
    by (simp add: event_at_byte cong: if_cong)
next
  case False
  then have "i < n \<or> n < i" by linarith
  then show ?thesis
    using False unfolding stored_def by (auto intro!: event_at_cong simp: event_pos_def)
qed

lemma log_inv_step:
  assumes "log_inv PS (room + (if is_reserve a then 1 else 0)) S" "act_pid a \<in> PS"
  shows "\<exists>S'. log_step a S = Inr S' \<and> log_inv PS room S'"
proof -
  obtain s pd es where S: "S = (s, pd, es)" by (cases S)
  note inv = assms(1) [unfolded log_inv_def S prod.case]
  show ?thesis
  proof (cases a)
    case (Reserve p e)
    show ?thesis
    proof (cases "pd p")
      case (Some x)
      then show ?thesis using inv S Reserve by (auto simp: log_inv_def)
    next
      case None
      let ?n = "eventCount (header s)" and ?e = "stamp p e s"
      let ?s = "s\<lparr>header := (header s)\<lparr>eventCount := ?n + 1\<rparr>\<rparr>"
      have n: "unat ?n = length es" using inv by (simp add: unat_of_nat_u64)
      have st: "log_step a S = Inr (?s, pd(p \<mapsto> (?n, ?e)), es @ [?e])"
        using None by (simp add: Reserve S add_reserve_def)
      have "stored ?s i = stored s i" for i by (simp add: stored_def)
      moreover have "\<forall>q n' e'. pd q = Some (n', e') \<longrightarrow> n' \<noteq> ?n" using inv n by fastforce
      ultimately have "log_inv PS room (?s, pd(p \<mapsto> (?n, ?e)), es @ [?e])"
        using inv n Reserve unfolding log_inv_def
        by (auto simp: nth_append less_Suc_eq split: if_splits) (metis None option.distinct(1))+
      then show ?thesis using st by blast
    qed
  next
    case (Commit p)
    show ?thesis
    proof (cases "pd p")
      case None
      then show ?thesis using inv S Commit by (auto simp: log_inv_def)
    next
      case (Some x)
      obtain n e where x: "pd p = Some (n, e)" using Some by (cases x) auto
      have n: "unat n < length es" "es ! unat n = e" using inv x by auto
      let ?s = "s\<lparr>fileBytes := (\<lambda>b. if event_pos (unat n) \<le> b \<and> b < event_pos (unat n) + 21
           then event_byte e (b - event_pos (unat n)) else fileBytes s b)\<rparr>"
      have "mmapOffset s p = 0" using inv assms(2) Commit by simp
      then have st: "log_step a S = Inr (?s, pd(p := None), es)"
        using add_write_first [of n s p e] n(1) inv x by (simp add: Commit S)
      have "(\<exists>q m f. (pd(p := None)) q = Some (m, f) \<and> unat m = i) \<or> stored ?s i = es ! i" if "i < length es" for i
      proof (cases "i = unat n")
        case True
        then show ?thesis using n(2) stored_write [where s = s and n = "unat n" and e = e and i = i] by simp
      next
        case False
        then show ?thesis
          using inv that x stored_write [where s = s and n = "unat n" and e = e and i = i] by (metis (no_types, lifting) fun_upd_other option.inject prod.inject)
      qed
      then have "log_inv PS room (?s, pd(p := None), es)"
        using inv Commit unfolding log_inv_def by simp
      then show ?thesis using st by blast
    qed
  qed
qed

lemma log_inv_run:
  assumes "log_inv PS (length (filter is_reserve as)) S" "\<forall>a\<in>set as. act_pid a \<in> PS"
  shows "\<exists>S'. rfold log_step as S = Inr S' \<and> log_inv PS 0 S'"
  using assms
proof (induction as arbitrary: S)
  case (Cons a as)
  then have "log_inv PS (length (filter is_reserve as) + (if is_reserve a then 1 else 0)) S" by (simp split: if_splits)
  from log_inv_step [OF this] Cons.prems(2) obtain T where
    T: "log_step a S = Inr T" "log_inv PS (length (filter is_reserve as)) T" by auto
  show ?case using Cons.IH [OF T(2)] Cons.prems(2) T(1) by simp
qed simp

text \<open>The log when the first process has created it and forked the others.\<close>

definition log_started :: "int \<Rightarrow> int list \<Rightarrow> memorylayout \<Rightarrow> logfile" where
  "log_started pid children l = fold (xlogger_fork pid) children (xlogger_new pid l True)"

lemma log_started_fields:
  "eventCount (header (log_started pid children l)) = 0 \<and> fileSize (log_started pid children l) = 65536 \<and>
   fileLength (log_started pid children l) = 69632 \<and> mmapOffset (log_started pid children l) pid = 0 \<and>
   (\<forall>p\<in>set children. mmapOffset (log_started pid children l) p = 0)"
proof (induction children rule: rev_induct)
  case Nil
  show ?case
    by (simp add: log_started_def xlogger_new_def growLog_def REQUEST_SIZE_def HEADER_SIZE_def logheader_new_def)
next
  case (snoc c cs)
  then show ?case by (auto simp: log_started_def xlogger_fork_def)
qed

lemma log_get_stored:
  assumes "eventCount (header s) = of_nat n" "n \<le> 3120" "fileLength s = 69632" "k + i < n"
  shows "log_get (of_nat i) (log_open (of_nat (21 * k)) s) s = Inr (stored s (k + i))"
    "unat (log_length (log_open (of_nat (21 * k)) s)) = n - k"
proof -
  let ?l = "log_open (of_nat (21 * k)) s"
  have o: "logOffset ?l = of_nat (21 * k)" "logSize ?l = of_nat (21 * n)" "\<not> logNull ?l"
  proof -
    show "logOffset ?l = of_nat (21 * k)" by (simp add: log_open_def Let_def)
    show sz: "logSize ?l = of_nat (21 * n)" using assms(1) by (simp add: log_open_def Let_def EVENT_SIZE_def mult.commute)
    have "unat (logSize ?l) = 21 * n" unfolding sz using assms(2) by (intro unat_of_nat_u64) simp
    then show "\<not> logNull ?l" using assms(4) by (auto simp: log_open_def Let_def)
  qed
  have uo: "unat (logOffset ?l) = 21 * k" "unat (logSize ?l) = 21 * n" "unat (of_nat i :: u64) = i"
    unfolding o(1,2) by (rule unat_of_nat_u64, use assms(2,4) in simp)+
  have "logSize ?l - logOffset ?l = of_nat (21 * (n - k))"
    using o(1,2) assms(4) by (simp add: of_nat_diff algebra_simps)
  then have "unat (logSize ?l - logOffset ?l) = 21 * (n - k)" using assms(2) by (simp only:) (intro unat_of_nat_u64, simp)
  then show len: "unat (log_length ?l) = n - k" by (simp add: log_length_def EVENT_SIZE_def unat_div)
  have rng: "\<not> of_nat i > log_length ?l" using len uo(3) assms(4) by (simp add: word_less_nat_alt)
  let ?a = "PAGE_ALIGN_DOWN (logOffset ?l)"
  have a: "unat ?a = 21 * k - 21 * k mod 4096" using uo(1) by (simp add: unat_PAGE_ALIGN_DOWN)
  have d: "unat (logOffset ?l - ?a) = 21 * k mod 4096"
    using PAGE_ALIGN_DOWN_le [of "logOffset ?l"] a uo(1) by (simp add: unat_sub)
  have "unat (logSize ?l + (logOffset ?l - ?a)) = 21 * n + 21 * k mod 4096"
    using d uo(2) assms(2) by (simp add: unat_word_ariths)
  then have "21 * n + 21 * k mod 4096 \<le> unat (PAGE_ALIGN_UP (logSize ?l + (logOffset ?l - ?a)))"
    using unat_PAGE_ALIGN_UP [of "logSize ?l + (logOffset ?l - ?a)"] assms(2) by simp
  then have m: "unat (logOffset ?l - ?a) + i * 21 + 21 \<le> unat (PAGE_ALIGN_UP (logSize ?l + (logOffset ?l - ?a)))"
    using d assms(4) by linarith
  have pos: "4096 + unat ?a + (unat (logOffset ?l - ?a) + i * 21) = event_pos (k + i)"
    using a d by (simp add: event_pos_def HEADER_SIZE_def)
  have fl: "int (4096 + unat ?a + (unat (logOffset ?l - ?a) + i * 21)) + 21 \<le> 69632"
    unfolding pos using assms(2,4) by (simp add: event_pos_def HEADER_SIZE_def)
  have "log_get (of_nat i) ?l s =
      Inr (event_at (\<lambda>b. fileBytes s (4096 + unat ?a + (unat (logOffset ?l - ?a) + i * 21) + b)))"
    using rng o(3) m fl assms(3) uo(3) unfolding log_get_def Let_def EVENT_SIZE_def HEADER_SIZE_def
    by (simp add: algebra_simps)
  then show "log_get (of_nat i) ?l s = Inr (stored s (k + i))" unfolding pos by (simp add: stored_def)
qed

subsection \<open>Reading back\<close>

text \<open>
  C17: Whatever the processes log, interleaved in any way between reserving a place and writing it, no
  write faults and every event that has been written reads back as it was, in the order of the
  reservations, from the start of the log or from the end of an earlier reading, as long as at most
  3120 events are logged.
\<close>

theorem log_roundtrip:
  assumes "\<forall>a\<in>set as. act_pid a \<in> insert pid (set children)" "length (filter is_reserve as) \<le> 3120"
  shows "\<exists>s pd es. rfold log_step as (log_started pid children l, Map.empty, []) = Inr (s, pd, es) \<and>
    (\<forall>k i. k + i < length es \<longrightarrow> (\<forall>p n e. pd p = Some (n, e) \<longrightarrow> unat n \<noteq> k + i) \<longrightarrow>
       unat (log_length (log_open (of_nat (21 * k)) s)) = length es - k \<and>
       log_get (of_nat i) (log_open (of_nat (21 * k)) s) s = Inr (es ! (k + i)))"
proof -
  have "log_inv (insert pid (set children)) (length (filter is_reserve as)) (log_started pid children l, Map.empty, [])"
    using log_started_fields [of pid children l] assms(2) by (auto simp: log_inv_def)
  from log_inv_run [OF this assms(1)] obtain s pd es where
    r: "rfold log_step as (log_started pid children l, Map.empty, []) = Inr (s, pd, es)"
    and inv: "log_inv (insert pid (set children)) 0 (s, pd, es)" by (metis prod_cases3)
  have f: "eventCount (header s) = of_nat (length es)" "length es \<le> 3120" "fileLength s = 69632"
    using inv by (auto simp: log_inv_def)
  have "unat (log_length (log_open (of_nat (21 * k)) s)) = length es - k \<and>
      log_get (of_nat i) (log_open (of_nat (21 * k)) s) s = Inr (es ! (k + i))"
    if "k + i < length es" "\<forall>p n e. pd p = Some (n, e) \<longrightarrow> unat n \<noteq> k + i" for k i
  proof -
    have "stored s (k + i) = es ! (k + i)" using inv that unfolding log_inv_def prod.case by blast
    then show ?thesis using log_get_stored [OF f that(1)] by simp
  qed
  then show ?thesis using r by blast
qed

definition demo_layout :: memorylayout where
  "demo_layout = \<lparr>globalStart = 4096, globalEnd = 8192, heapStart = 65536, heapEnd = 131072\<rparr>"

definition demo_acts :: "log_act list" where
  "demo_acts = [Reserve 1 (logevent_new WRITE 7 16), Reserve 2 (logevent_new READ 9 17), Commit 2, Commit 1]"

theorem log_roundtrip_witness:
  "\<exists>s es. rfold log_step demo_acts (log_started 1 [2] demo_layout, Map.empty, []) = Inr (s, Map.empty, es) \<and>
     log_get 1 (log_open 0 s) s = Inr (es ! 1) \<and> log_get 0 (log_open 21 s) s = Inr (logevent_new READ 9 17)"
proof -
  obtain s pd es where s: "rfold log_step demo_acts (log_started 1 [2] demo_layout, Map.empty, []) = Inr (s, pd, es)"
    and g: "\<forall>k i. k + i < length es \<longrightarrow> (\<forall>p n e. pd p = Some (n, e) \<longrightarrow> unat n \<noteq> k + i) \<longrightarrow>
       unat (log_length (log_open (of_nat (21 * k)) s)) = length es - k \<and>
       log_get (of_nat i) (log_open (of_nat (21 * k)) s) s = Inr (es ! (k + i))"
    using log_roundtrip [of demo_acts 1 "[2]" demo_layout] by (auto simp: demo_acts_def)
  have "pd = Map.empty \<and> es = [logevent_new WRITE 7 16, logevent_new READ 9 17]"
    using s
    by (simp add: demo_acts_def log_started_def xlogger_new_def xlogger_fork_def growLog_def REQUEST_SIZE_def
        HEADER_SIZE_def logheader_new_def add_reserve_def stamp_def add_write_def Let_def EVENT_SIZE_def)
  then show ?thesis using s g [rule_format, of 0 1] g [rule_format, of 1 0] by simp
qed

text \<open>
  The 3121st event does not fit into the first window; the window is moved past its start and the
  event is written in front of it, outside the mapping.
\<close>

lemma event_3120_faults:
  assumes "enable_logging s" "eventCount (header s) = 3120" "mmapOffset s p = 0" "fileSize s = 65536"
  shows "xlogger_add p e s = Inl Segv"
  using assms
  by (simp add: xlogger_add_def add_reserve_def add_write_def Let_def EVENT_SIZE_def REQUEST_SIZE_def growLog_def)

lemma event_3120_faults_witness:
  "xlogger_add 1 (logevent_new END 0 0) ((xlogger_new 1 demo_layout True)
     \<lparr>header := (logheader_new demo_layout)\<lparr>eventCount := 3120\<rparr>\<rparr>) = Inl Segv"
  by (rule event_3120_faults)
    (simp_all add: xlogger_new_def growLog_def REQUEST_SIZE_def logheader_new_def)

text \<open>
  \<open>get(length())\<close> is accepted: with one event in the log, index 1 passes the range check and returns
  the bytes after the last event.
\<close>

lemma log_get_past_end:
  assumes "eventCount (header s) = 1" "8192 \<le> fileLength s"
  shows "log_length (log_open 0 s) = 1 \<and>
    log_get 1 (log_open 0 s) s = Inr (event_at (\<lambda>k. fileBytes s (HEADER_SIZE + 21 + k)))"
  using assms
  by (simp add: log_length_def log_open_def Let_def EVENT_SIZE_def log_get_def PAGE_ALIGN_DOWN_def
      PAGE_ALIGN_UP_def PAGE_SIZE_MASK_def PageSize_def HEADER_SIZE_def)

end
