(* ===== verification/Schedule.thy ===== *)
theory Schedule
  imports Bytes
begin

text \<open>
  The thunk schedule. \<^verbatim>\<open>schas.cpp\<close> compiles its text, one line "thread thunk cpu" per thunk, to a file
  of 32-bit integers; \<^verbatim>\<open>xsched.cpp\<close> maps that file into every process, finds the piece of the process's
  thread and binds each thunk to the processor named there. The schedule of pages is compiled the same
  way; no part of the library reads it yet.

  A text is a \<open>string\<close>, a file the list of its bytes, a \<open>std::map\<close> the list of its entries in the order
  of the keys. What is printed on the standard output is left out. An exception ends the compiler.
\<close>

subsection \<open>Reading numbers from a stream\<close>

definition is_ws :: "char \<Rightarrow> bool" where
  "is_ws c \<longleftrightarrow> c \<in> {CHR '' '', CHR 0x09, CHR 0x0A, CHR 0x0B, CHR 0x0C, CHR 0x0D}"

definition is_digit :: "char \<Rightarrow> bool" where
  "is_digit c \<longleftrightarrow> 48 \<le> (of_char c :: nat) \<and> (of_char c :: nat) \<le> 57"

fun read_digits :: "int \<Rightarrow> string \<Rightarrow> int \<times> string" where
  "read_digits n [] = (n, [])"
| "read_digits n (c # cs) = (if is_digit c then read_digits (10 * n + (of_char c - 48)) cs else (n, c # cs))"

text \<open>\<open>iss >> x\<close> for a signed integer of \<open>w\<close> bits; \<open>None\<close> when the stream fails.\<close>

definition read_int :: "nat \<Rightarrow> string \<Rightarrow> (int \<times> string) option" where
  "read_int w s =
     (let s1 = dropWhile is_ws s;
          neg = (s1 \<noteq> [] \<and> hd s1 = CHR ''-'');
          s2 = (if s1 \<noteq> [] \<and> hd s1 \<in> {CHR ''-'', CHR ''+''} then tl s1 else s1) in
      if s2 \<noteq> [] \<and> is_digit (hd s2)
      then let (n, rest) = read_digits 0 s2; x = (if neg then - n else n) in
        if - (2 ^ (w - 1)) \<le> x \<and> x < 2 ^ (w - 1) then Some (x, rest) else None
      else None)"

text \<open>\<open>iss >> word\<close> for a string.\<close>

definition read_word :: "string \<Rightarrow> (string \<times> string) option" where
  "read_word s =
     (let s1 = dropWhile is_ws s in
      if s1 = [] then None else Some (takeWhile (\<lambda>c. \<not> is_ws c) s1, dropWhile (\<lambda>c. \<not> is_ws c) s1))"

fun getlines :: "string \<Rightarrow> string \<Rightarrow> string list" where
  "getlines acc [] = (if acc = [] then [] else [rev acc])"
| "getlines acc (c # cs) = (if c = CHR 0x0A then rev acc # getlines [] cs else getlines (c # acc) cs)"

subsection \<open>Ordered maps\<close>

fun omap_put :: "int \<Rightarrow> 'v \<Rightarrow> (int \<times> 'v) list \<Rightarrow> (int \<times> 'v) list" where
  "omap_put k v [] = [(k, v)]"
| "omap_put k v ((k', v') # m) =
     (if k < k' then (k, v) # (k', v') # m else if k = k' then (k, v) # m else (k', v') # omap_put k v m)"

text \<open>\<open>m[k]\<close> of a map creates an empty entry.\<close>

definition omap_at :: "int \<Rightarrow> (int \<times> 'v list) list \<Rightarrow> 'v list" where
  "omap_at k m = (case map_of m k of None \<Rightarrow> [] | Some v \<Rightarrow> v)"

abbreviation omap :: "(int \<times> 'v) list \<Rightarrow> bool" where
  "omap m \<equiv> sorted_wrt (<) (map fst m)"

lemma map_of_omap_put: "map_of (omap_put k v m) = (map_of m)(k \<mapsto> v)"
  by (induction m) auto

lemma keys_omap_put: "fst ` set (omap_put k v m) = insert k (fst ` set m)"
  using map_of_omap_put [of k v m, THEN arg_cong, of dom] by (simp add: dom_map_of_conv_image_fst)

lemma omap_omap_put: "omap m \<Longrightarrow> omap (omap_put k v m)"
proof (induction m)
  case (Cons x m)
  obtain k' v' where x: "x = (k', v')" by (cases x)
  show ?case using Cons keys_omap_put [of k v m] by (auto simp: x)
qed simp

subsection \<open>The compiler\<close>

type_synonym thunk_map = "(int \<times> (int \<times> int) list) list"

definition parse_thunk :: "string \<Rightarrow> (int \<times> int \<times> int) option" where
  "parse_thunk l =
     (case read_int 32 l of None \<Rightarrow> None | Some (pid, r1) \<Rightarrow>
      case read_int 32 r1 of None \<Rightarrow> None | Some (tid, r2) \<Rightarrow>
      case read_int 32 r2 of None \<Rightarrow> None | Some (cpu, _) \<Rightarrow> Some (pid, tid, cpu))"

fun load_thunks :: "string list \<Rightarrow> thunk_map \<Rightarrow> thunk_map res" where
  "load_thunks [] m = Inr m"
| "load_thunks (l # ls) m =
     (case parse_thunk l of
        None \<Rightarrow> Inl RuntimeError
      | Some (pid, tid, cpu) \<Rightarrow> load_thunks ls (omap_put pid (omap_put tid cpu (omap_at pid m)) m))"

definition int_bytes :: "int \<Rightarrow> u8 list" where
  "int_bytes x = map (le_byte (word_of_int x :: u32)) [0..<4]"

definition thread_ints :: "int \<times> (int \<times> int) list \<Rightarrow> int list" where
  "thread_ints e = fst e # int (length (snd e)) # concat (map (\<lambda>(k, c). [k, c]) (snd e))"

text \<open>The bytes of the file \<open>schedule_file.bin\<close>.\<close>

definition thunk_scheduler :: "string \<Rightarrow> u8 list res" where
  "thunk_scheduler text =
     rbind (load_thunks (getlines [] text) [])
       (\<lambda>m. Inr (concat (map int_bytes (concat (map thread_ints m)))))"

record MemoryRange =
  range_start :: int
  range_end :: int
  range_cpu :: int
  range_flags :: int

type_synonym page_map = "(int \<times> (int \<times> MemoryRange list) list) list"

definition parse_page :: "string \<Rightarrow> (int \<times> int \<times> MemoryRange) option" where
  "parse_page l =
     (case read_word l of None \<Rightarrow> None | Some (_, r0) \<Rightarrow>
      case read_int 32 r0 of None \<Rightarrow> None | Some (pid, r1) \<Rightarrow>
      case read_int 32 r1 of None \<Rightarrow> None | Some (tid, r2) \<Rightarrow>
      case read_int 64 r2 of None \<Rightarrow> None | Some (s, r3) \<Rightarrow>
      case read_int 64 r3 of None \<Rightarrow> None | Some (e, r4) \<Rightarrow>
      case read_int 32 r4 of None \<Rightarrow> None | Some (cpu, r5) \<Rightarrow>
      case read_int 32 r5 of None \<Rightarrow> None | Some (flags, _) \<Rightarrow>
        Some (pid, tid, \<lparr>range_start = s, range_end = e, range_cpu = cpu, range_flags = flags\<rparr>))"

fun load_pages :: "string list \<Rightarrow> page_map \<Rightarrow> page_map res" where
  "load_pages [] m = Inr m"
| "load_pages (l # ls) m =
     (case parse_page l of
        None \<Rightarrow> Inl RuntimeError
      | Some (pid, tid, r) \<Rightarrow>
          load_pages ls (omap_put pid (omap_put tid (omap_at tid (omap_at pid m) @ [r]) (omap_at pid m)) m))"

definition off_bytes :: "int \<Rightarrow> u8 list" where
  "off_bytes x = map (le_byte (word_of_int x :: u64)) [0..<8]"

text \<open>
  The packed range is 24 bytes; so many are written because the vector, whose size is asked for, has
  24 bytes too.
\<close>

definition range_bytes :: "MemoryRange \<Rightarrow> u8 list" where
  "range_bytes r = off_bytes (range_start r) @ off_bytes (range_end r) @ int_bytes (range_cpu r) @ int_bytes (range_flags r)"

definition page_thunk_bytes :: "int \<times> MemoryRange list \<Rightarrow> u8 list" where
  "page_thunk_bytes e = int_bytes (int (length (snd e))) @ concat (map (\<lambda>r. int_bytes (fst e) @ range_bytes r) (snd e))"

definition page_scheduler :: "string \<Rightarrow> u8 list res" where
  "page_scheduler text =
     rbind (load_pages (getlines [] text) [])
       (\<lambda>m. Inr (concat (map (\<lambda>e. int_bytes (fst e) @ int_bytes (int (length (snd e))) @
          concat (map page_thunk_bytes (snd e))) m)))"

subsection \<open>The scheduler of the library\<close>

text \<open>
  \<open>thunk_schedule\<close> is the mapped file, \<open>None\<close> without one, and \<open>mapped\<close> the length of the mapping;
  \<open>thread_schedule\<close> is the place of the thread's piece in it, counted in integers. All are private to
  a process and copied by \<open>fork\<close>. The mapping ends at a page boundary and reads zero after the end of
  the file.
\<close>

record xsched =
  thunk_schedule :: "u8 list option"
  mapped :: int
  sched_size :: int
  thread_schedule :: "int option"

text \<open>
  The variable \<open>TTHREAD_SCHED\<close> is not set, names a file that cannot be opened (then \<open>lseek\<close> fails), or
  names one with these bytes. An empty file is not mapped; its pointer is not read either, because
  \<open>_sched_size\<close> is 0.
\<close>

definition xsched_new :: "u8 list option option \<Rightarrow> xsched res" where
  "xsched_new env =
     (case env of
        None \<Rightarrow> Inr \<lparr>thunk_schedule = None, mapped = 0, sched_size = 0, thread_schedule = None\<rparr>
      | Some None \<Rightarrow> Inl Abort
      | Some (Some bs) \<Rightarrow>
          let ret = sint (of_nat (length bs) :: u32) in
          if ret < 0 then Inl Abort
          else Inr \<lparr>thunk_schedule = Some bs, mapped = ret, sched_size = ret div 4, thread_schedule = None\<rparr>)"

definition sched_int :: "xsched \<Rightarrow> int \<Rightarrow> int option" where
  "sched_int s i =
     (case thunk_schedule s of
        None \<Rightarrow> None
      | Some bs \<Rightarrow>
          if 0 \<le> i \<and> 4 * i + 4 \<le> (mapped s + 4095) div 4096 * 4096
          then Some (sint (le32 (\<lambda>k. if 4 * nat i + k < length bs then bs ! (4 * nat i + k) else 0)))
          else None)"

partial_function (option) find_thread :: "xsched \<Rightarrow> int \<Rightarrow> int \<Rightarrow> xsched res option" where
  "find_thread s tid cur =
     (if cur < sched_size s then
        case sched_int s cur of
          None \<Rightarrow> Some (Inl Segv)
        | Some v \<Rightarrow>
            if v < tid then
              case sched_int s (cur + 1) of
                None \<Rightarrow> Some (Inl Segv)
              | Some n \<Rightarrow> find_thread s tid (cur + (n * 2 + 2))
            else if v \<noteq> tid then Some (Inl Abort)
            else Some (Inr (s\<lparr>thread_schedule := Some cur\<rparr>))
      else Some (Inr s))"

definition updateThread :: "int \<Rightarrow> xsched \<Rightarrow> xsched res option" where
  "updateThread tid s =
     (case thunk_schedule s of None \<Rightarrow> Some (Inr s) | Some _ \<Rightarrow> find_thread s tid 0)"

text \<open>The message of the abort reads the schedule once more.\<close>

definition get_affinity :: "int \<Rightarrow> xsched \<Rightarrow> int res" where
  "get_affinity thunk s =
     (case thread_schedule s of
        None \<Rightarrow> Inl Segv
      | Some t \<Rightarrow>
          case sched_int s (t + thunk * 2) of
            None \<Rightarrow> Inl Segv
          | Some v \<Rightarrow>
              case sched_int s (t + (thunk * 2 + 1)) of
                None \<Rightarrow> Inl Segv
              | Some c \<Rightarrow> if v \<noteq> thunk then Inl Abort else Inr c)"

text \<open>
  The processor the process is bound to, \<open>None\<close> if it is not. \<open>CPU_SET\<close> ignores a number that is out of
  range, and the system refuses a set without one of its processors, \<open>cpus\<close>.
\<close>

definition trigger :: "nat set \<Rightarrow> int \<Rightarrow> xsched \<Rightarrow> int option res" where
  "trigger cpus thunk s =
     (case thread_schedule s of
        None \<Rightarrow> Inr None
      | Some _ \<Rightarrow>
          rbind (get_affinity thunk s)
            (\<lambda>c. if 0 \<le> c \<and> c < 1024 \<and> nat c \<in> cpus then Inr (Some c) else Inl Exit))"

end
