(* ===== verification/Schedule_Props.thy ===== *)
theory Schedule_Props
  imports Schedule
begin

text \<open>
  What the compiler of thunk schedules writes is what the library's scheduler reads: it finds the piece
  of a thread, and every thunk of the thread gets the processor of its last line. The search through a
  compiled schedule always ends; in a file with a negative count it does not.
\<close>

subsection \<open>The text as assignments\<close>

definition entries :: "string \<Rightarrow> (int \<times> int \<times> int) list" where
  "entries text = map (\<lambda>l. the (parse_thunk l)) (getlines [] text)"

text \<open>The processor the last line for a thunk names.\<close>

definition assigned :: "(int \<times> int \<times> int) list \<Rightarrow> int \<Rightarrow> int \<Rightarrow> int option" where
  "assigned es t k = map_of (rev (map (\<lambda>(t, k, c). ((t, k), c)) es)) (t, k)"

lemma assigned_Cons:
  "assigned ((t', k', c) # es) t k =
     (case assigned es t k of Some d \<Rightarrow> Some d | None \<Rightarrow> if t = t' \<and> k = k' then Some c else None)"
  by (auto simp: assigned_def map_add_def split: option.splits)

definition named :: "(int \<times> int \<times> int) list \<Rightarrow> int \<Rightarrow> bool" where
  "named es t \<longleftrightarrow> (\<exists>k. assigned es t k \<noteq> None)"

definition look :: "thunk_map \<Rightarrow> int \<Rightarrow> int \<Rightarrow> int option" where
  "look m t k = map_of (omap_at t m) k"

lemma look_put:
  "look (omap_put t (omap_put k c (omap_at t m)) m) t' k' = (if t' = t \<and> k' = k then Some c else look m t' k')"
  by (simp add: look_def omap_at_def map_of_omap_put)

lemma load_thunks_look:
  "load_thunks ls m = Inr m' \<Longrightarrow>
     look m' t k = (case assigned (map (\<lambda>l. the (parse_thunk l)) ls) t k of Some c \<Rightarrow> Some c | None \<Rightarrow> look m t k)"
proof (induction ls m rule: load_thunks.induct)
  case (2 l ls m)
  then obtain pid tid cpu where p: "parse_thunk l = Some (pid, tid, cpu)"
    by (cases "parse_thunk l") auto
  show ?case using 2 p by (auto simp: assigned_Cons look_put split: option.splits)
qed (simp add: assigned_def)

text \<open>The maps the compiler builds.\<close>

definition thread_ok :: "int \<times> (int \<times> int) list \<Rightarrow> bool" where
  "thread_ok e \<longleftrightarrow> in_int32 (fst e) \<and> omap (snd e) \<and> snd e \<noteq> [] \<and> (\<forall>x\<in>set (snd e). in_int32 (fst x) \<and> in_int32 (snd x))"

definition thunks_ok :: "thunk_map \<Rightarrow> bool" where
  "thunks_ok m \<longleftrightarrow> omap m \<and> (\<forall>e\<in>set m. thread_ok e)"

lemma read_int_range: "read_int w s = Some (x, r) \<Longrightarrow> - (2 ^ (w - 1)) \<le> x \<and> x < 2 ^ (w - 1)"
  by (simp add: read_int_def Let_def split: prod.splits if_splits)

lemma parse_thunk_range:
  assumes "parse_thunk l = Some (pid, tid, cpu)" shows "in_int32 pid \<and> in_int32 tid \<and> in_int32 cpu"
  using assms read_int_range [of 32] by (fastforce simp: parse_thunk_def split: option.splits prod.splits)

lemma set_omap_put: "set (omap_put k v m) \<subseteq> insert (k, v) (set m)"
  by (induction m) (auto split: if_splits)

lemma omap_put_ne [simp]: "omap_put k v m \<noteq> []"
  by (induction k v m rule: omap_put.induct) auto

lemma thread_ok_put:
  assumes "\<forall>e\<in>set m. thread_ok e" "in_int32 t" "in_int32 k" "in_int32 c"
  shows "thread_ok (t, omap_put k c (omap_at t m))"
proof -
  have at: "omap (omap_at t m)" "\<forall>x\<in>set (omap_at t m). in_int32 (fst x) \<and> in_int32 (snd x)"
    using assms(1) map_of_SomeD [of m t] by (cases "map_of m t"; fastforce simp: omap_at_def thread_ok_def)+
  have "in_int32 (fst x) \<and> in_int32 (snd x)" if "x \<in> set (omap_put k c (omap_at t m))" for x
    using subsetD [OF set_omap_put that] at(2) assms(3,4) by auto
  then show ?thesis using at(1) omap_omap_put assms(2) by (simp add: thread_ok_def)
qed

lemma thunks_ok_put:
  assumes "thunks_ok m" "in_int32 t" "in_int32 k" "in_int32 c"
  shows "thunks_ok (omap_put t (omap_put k c (omap_at t m)) m)"
  unfolding thunks_ok_def
proof
  show "omap (omap_put t (omap_put k c (omap_at t m)) m)"
    by (rule omap_omap_put) (use assms(1) in \<open>simp add: thunks_ok_def\<close>)
  have "thread_ok (t, omap_put k c (omap_at t m))" by (rule thread_ok_put) (use assms in \<open>auto simp: thunks_ok_def\<close>)
  then show "\<forall>e\<in>set (omap_put t (omap_put k c (omap_at t m)) m). thread_ok e"
    using set_omap_put [of t "omap_put k c (omap_at t m)" m] assms(1) by (auto simp: thunks_ok_def)
qed

lemma load_thunks_ok: "load_thunks ls m = Inr m' \<Longrightarrow> thunks_ok m \<Longrightarrow> thunks_ok m'"
proof (induction ls m rule: load_thunks.induct)
  case (2 l ls m)
  then obtain pid tid cpu where p: "parse_thunk l = Some (pid, tid, cpu)"
    by (cases "parse_thunk l") auto
  show ?case using 2 p parse_thunk_range [OF p] thunks_ok_put by auto
qed simp

subsection \<open>The integers of a file\<close>

lemma length_int_bytes [simp]: "length (int_bytes x) = 4"
  by (simp add: int_bytes_def)

lemma length_concat_int_bytes [simp]: "length (concat (map int_bytes xs)) = 4 * length xs"
  by (induction xs) auto

lemma nth_concat_int_bytes:
  "i < length xs \<Longrightarrow> k < 4 \<Longrightarrow> concat (map int_bytes xs) ! (4 * i + k) = le_byte (word_of_int (xs ! i) :: u32) k"
proof (induction xs arbitrary: i)
  case (Cons x xs)
  show ?case
  proof (cases i)
    case 0
    then show ?thesis using Cons.prems by (simp add: nth_append int_bytes_def)
  next
    case (Suc j)
    then have "4 * i + k - 4 = 4 * j + k" by simp
    then show ?thesis using Cons.IH [of j] Cons.prems Suc by (simp add: nth_append)
  qed
qed simp

definition file_of :: "int list \<Rightarrow> xsched \<Rightarrow> bool" where
  "file_of xs s \<longleftrightarrow> thunk_schedule s = Some (concat (map int_bytes xs)) \<and> mapped s = 4 * int (length xs) \<and>
     sched_size s = int (length xs)"

lemma file_of_thread_schedule [simp]: "file_of xs (s\<lparr>thread_schedule := c\<rparr>) = file_of xs s"
  by (simp add: file_of_def)

lemma sched_int_file:
  assumes "file_of xs s" "i < length xs" "in_int32 (xs ! i)"
  shows "sched_int s (int i) = Some (xs ! i)"
proof -
  have "le32 (\<lambda>k. if 4 * i + k < length (concat (map int_bytes xs)) then concat (map int_bytes xs) ! (4 * i + k) else 0)
      = le32 (le_byte (word_of_int (xs ! i) :: u32))"
    by (rule le32_cong) (use assms(2) nth_concat_int_bytes [OF assms(2)] in simp)
  moreover have "4 * int i + 4 \<le> (mapped s + 4095) div 4096 * 4096"
    using assms(1,2) unfolding file_of_def by linarith
  ultimately show ?thesis
    using assms sint_of_int32 [OF assms(3)] by (simp add: sched_int_def file_of_def cong: if_cong)
qed

lemma xsched_new_file:
  assumes "4 * length xs < 2 ^ 31"
  shows "\<exists>s. xsched_new (Some (Some (concat (map int_bytes xs)))) = Inr s \<and> file_of xs s"
proof -
  have "sint (of_nat (4 * length xs) :: u32) = int (4 * length xs)"
    using sint_of_int32 [of "int (4 * length xs)"] assms by simp
  then show ?thesis unfolding xsched_new_def by (simp add: Let_def file_of_def)
qed

lemma length_thread_ints: "length (thread_ints e) = 2 + 2 * length (snd e)"
proof -
  have "length (concat (map (\<lambda>(k, c). [k, c]) l)) = 2 * length l" for l :: "(int \<times> int) list"
    by (induction l) auto
  then show ?thesis by (simp add: thread_ints_def)
qed

lemma nth_thread_ints:
  assumes "j < length (snd e)"
  shows "thread_ints e ! (2 + 2 * j) = fst (snd e ! j)" "thread_ints e ! (3 + 2 * j) = snd (snd e ! j)"
proof -
  have "concat (map (\<lambda>(k, c). [k, c]) l) ! (2 * j) = fst (l ! j) \<and>
      concat (map (\<lambda>(k, c). [k, c]) l) ! Suc (2 * j) = snd (l ! j)" if "j < length l" for l :: "(int \<times> int) list" and j
    using that
  proof (induction l arbitrary: j)
    case (Cons x l)
    show ?case
      using Cons by (cases j) (auto simp: nth_append numeral_2_eq_2 split: prod.splits)
  qed simp
  from this [OF assms] show "thread_ints e ! (2 + 2 * j) = fst (snd e ! j)" "thread_ints e ! (3 + 2 * j) = snd (snd e ! j)"
    by (simp_all add: thread_ints_def numeral_3_eq_3)
qed

subsection \<open>The search\<close>

abbreviation ints_of :: "thunk_map \<Rightarrow> int list" where
  "ints_of m \<equiv> concat (map thread_ints m)"

lemma nth_ints_of:
  "i < length (thread_ints e) \<Longrightarrow> ints_of (m1 @ e # m2) ! (length (ints_of m1) + i) = thread_ints e ! i"
  by (simp add: nth_append)

lemma read_ints_of:
  assumes "file_of (ints_of (m1 @ e # m2)) s" "i < length (thread_ints e)" "in_int32 (thread_ints e ! i)"
  shows "sched_int s (int (length (ints_of m1)) + int i) = Some (thread_ints e ! i)"
proof -
  have "length (ints_of m1) + i < length (ints_of (m1 @ e # m2))" using assms(2) by simp
  from sched_int_file [OF assms(1) this] show ?thesis
    using nth_ints_of [OF assms(2)] assms(3) by (simp only: of_nat_add)
qed

definition search_result :: "int \<Rightarrow> thunk_map \<Rightarrow> xsched \<Rightarrow> xsched res" where
  "search_result t m s =
     (case dropWhile (\<lambda>e. fst e < t) m of
        [] \<Rightarrow> Inr s
      | e # _ \<Rightarrow>
          if fst e = t then Inr (s\<lparr>thread_schedule := Some (int (length (ints_of (takeWhile (\<lambda>e. fst e < t) m))))\<rparr>)
          else Inl Abort)"

lemma find_thread_search:
  assumes "file_of (ints_of (m1 @ m2)) s" "\<forall>e\<in>set (m1 @ m2). in_int32 (fst e) \<and> length (snd e) < 2 ^ 31"
    "\<forall>e\<in>set m1. fst e < t"
  shows "find_thread s t (int (length (ints_of m1))) = Some (search_result t (m1 @ m2) s)"
  using assms
proof (induction m2 arbitrary: m1)
  case Nil
  have "dropWhile (\<lambda>e. fst e < t) (m1 @ []) = []" using Nil by simp
  then have "search_result t (m1 @ []) s = Inr s" by (simp only: search_result_def list.case)
  moreover have "\<not> int (length (ints_of m1)) < sched_size s" using Nil by (simp add: file_of_def)
  ultimately show ?case by (subst find_thread.simps) simp
next
  case (Cons e m2)
  have sz: "int (length (ints_of m1)) < sched_size s"
    using Cons.prems(1) by (simp add: file_of_def length_thread_ints)
  have ti: "thread_ints e ! 0 = fst e" "thread_ints e ! 1 = int (length (snd e))"
    by (simp_all add: thread_ints_def)
  have r0: "sched_int s (int (length (ints_of m1))) = Some (fst e)"
    using read_ints_of [OF Cons.prems(1), of 0] Cons.prems(2) ti by (simp add: length_thread_ints)
  have r1: "sched_int s (int (length (ints_of m1)) + 1) = Some (int (length (snd e)))"
    using read_ints_of [OF Cons.prems(1), of 1] Cons.prems(2) ti by (simp add: length_thread_ints)
  have tw: "dropWhile (\<lambda>e. fst e < t) (m1 @ e # m2) = dropWhile (\<lambda>e. fst e < t) (e # m2)"
    "takeWhile (\<lambda>e. fst e < t) (m1 @ e # m2) = m1 @ takeWhile (\<lambda>e. fst e < t) (e # m2)"
    using Cons.prems(3) by (simp_all add: dropWhile_append takeWhile_append)
  show ?case
  proof (cases "fst e < t")
    case True
    have "find_thread s t (int (length (ints_of (m1 @ [e])))) = Some (search_result t ((m1 @ [e]) @ m2) s)"
      by (rule Cons.IH) (use Cons.prems True in auto)
    moreover have "int (length (ints_of (m1 @ [e]))) = int (length (ints_of m1)) + (int (length (snd e)) * 2 + 2)"
      by (simp add: length_thread_ints)
    ultimately show ?thesis
      using True sz r0 r1 by (subst find_thread.simps) simp
  next
    case False
    then show ?thesis
      using sz r0 tw by (subst find_thread.simps) (simp add: search_result_def)
  qed
qed

lemma compiled_file:
  assumes "thunk_scheduler text = Inr bs"
  obtains m where "load_thunks (getlines [] text) [] = Inr m" "thunks_ok m" "bs = concat (map int_bytes (ints_of m))"
    "\<And>t k. look m t k = assigned (entries text) t k"
proof -
  obtain m where m: "load_thunks (getlines [] text) [] = Inr m" "bs = concat (map int_bytes (ints_of m))"
    using assms by (auto simp: thunk_scheduler_def rbind_Inr_iff)
  have "look m t k = assigned (entries text) t k" for t k
    using load_thunks_look [OF m(1)]
    by (simp add: entries_def look_def [of "[]"] omap_at_def split: option.splits)
  moreover have "thunks_ok m" using load_thunks_ok [OF m(1)] by (simp add: thunks_ok_def)
  ultimately show ?thesis using that m by blast
qed

lemma length_snd_le: "e \<in> set m \<Longrightarrow> 2 * length (snd e) \<le> length (ints_of m)"
  by (induction m) (auto simp: length_thread_ints)

lemma compiled_search:
  assumes "thunk_scheduler text = Inr bs" "length bs < 2 ^ 31"
  obtains m s where "thunks_ok m" "\<And>t k. look m t k = assigned (entries text) t k"
    "xsched_new (Some (Some bs)) = Inr s" "file_of (ints_of m) s"
    "\<And>t c. updateThread t (s\<lparr>thread_schedule := c\<rparr>) = Some (search_result t m (s\<lparr>thread_schedule := c\<rparr>))"
proof -
  obtain m where m: "thunks_ok m" "bs = concat (map int_bytes (ints_of m))" "\<And>t k. look m t k = assigned (entries text) t k"
    using compiled_file [OF assms(1)] by metis
  have len: "4 * length (ints_of m) < 2 ^ 31" using assms(2) m(2) by (simp only: length_concat_int_bytes)
  obtain s where s: "xsched_new (Some (Some bs)) = Inr s" "file_of (ints_of m) s"
    using xsched_new_file [OF len] m(2) by blast
  have "in_int32 (fst e) \<and> length (snd e) < 2 ^ 31" if "e \<in> set m" for e
    using length_snd_le [OF that] len m(1) that by (auto simp: thunks_ok_def thread_ok_def)
  then have "find_thread (s\<lparr>thread_schedule := c\<rparr>) t 0 = Some (search_result t m (s\<lparr>thread_schedule := c\<rparr>))" for t c
    using find_thread_search [of "[]" m "s\<lparr>thread_schedule := c\<rparr>" t] s(2) by simp
  then have "updateThread t (s\<lparr>thread_schedule := c\<rparr>) = Some (search_result t m (s\<lparr>thread_schedule := c\<rparr>))" for t c
    using s(2) by (simp add: updateThread_def file_of_def)
  then show ?thesis using that m s by blast
qed

subsection \<open>Round trip and termination\<close>

lemma look_Some_iff:
  assumes "thunks_ok m"
  shows "(\<exists>k. look m t k \<noteq> None) \<longleftrightarrow> t \<in> fst ` set m"
proof -
  have "\<exists>k. map_of th k \<noteq> None" if "map_of m t = Some th" for th
    using assms map_of_SomeD [OF that] by (cases th) (force simp: thunks_ok_def thread_ok_def)+
  moreover have "(\<exists>th. map_of m t = Some th) \<longleftrightarrow> t \<in> fst ` set m"
    by (metis map_of_eq_None_iff not_None_eq)
  ultimately show ?thesis
    by (cases "map_of m t") (auto simp: look_def omap_at_def)
qed

lemma dropWhile_omap:
  assumes "omap m" "(t, th) \<in> set m"
  shows "\<exists>m1 m2. m = m1 @ (t, th) # m2 \<and> takeWhile (\<lambda>e. fst e < t) m = m1 \<and>
    dropWhile (\<lambda>e. fst e < t) m = (t, th) # m2"
proof -
  obtain m1 m2 where m: "m = m1 @ (t, th) # m2" using assms(2) by (auto dest: split_list)
  then have "\<forall>e\<in>set m1. fst e < t" using assms(1) by (auto simp: sorted_wrt_append)
  then show ?thesis using m by (intro exI [of _ m1] exI [of _ m2]) (simp add: takeWhile_append dropWhile_append)
qed

lemma search_result_cases:
  assumes "omap m"
  shows "t \<in> fst ` set m \<Longrightarrow> \<exists>c. search_result t m s = Inr (s\<lparr>thread_schedule := Some c\<rparr>)"
    "t \<notin> fst ` set m \<Longrightarrow> search_result t m s = (if \<exists>u\<in>fst ` set m. t < u then Inl Abort else Inr s)"
proof -
  show "\<exists>c. search_result t m s = Inr (s\<lparr>thread_schedule := Some c\<rparr>)" if "t \<in> fst ` set m"
    using that dropWhile_omap [OF assms] by (fastforce simp: search_result_def)
  show "search_result t m s = (if \<exists>u\<in>fst ` set m. t < u then Inl Abort else Inr s)" if "t \<notin> fst ` set m"
  proof (cases "dropWhile (\<lambda>e. fst e < t) m")
    case Nil
    then have "\<not> (\<exists>u\<in>fst ` set m. t < u)" by (auto simp: dropWhile_eq_Nil_conv)
    then show ?thesis using Nil by (simp only: search_result_def list.case if_False)
  next
    case (Cons e m')
    then have "e \<in> set m" by (metis list.set_intros(1) set_dropWhileD)
    moreover have "\<not> fst e < t" using hd_dropWhile [of "\<lambda>e. fst e < t" m] Cons by auto
    ultimately have "fst e \<noteq> t" "t < fst e" using that by force+
    then show ?thesis using Cons \<open>e \<in> set m\<close> by (auto simp: search_result_def)
  qed
qed

lemma omap_upto:
  assumes "omap (th :: (int \<times> int) list)" "fst ` set th = {1..n}"
  shows "map fst th = [1..n]"
proof (rule sorted_distinct_set_unique)
  show "sorted (map fst th)" "distinct (map fst th)"
    using assms(1) strict_sorted_iff by auto
qed (use assms(2) in auto)

text \<open>
  The search for a thread in a compiled schedule always ends, whatever piece the process pointed to
  before: in the thread's piece if the text names the thread, in an abort if it does not but names a
  later one, and with the old piece, the one inherited from the parent, if all threads it names come
  before.
\<close>

lemma updateThread_returns:
  assumes "thunk_scheduler text = Inr bs" "length bs < 2 ^ 31"
  shows "\<exists>s. xsched_new (Some (Some bs)) = Inr s \<and> (\<forall>c. \<exists>r. updateThread t (s\<lparr>thread_schedule := c\<rparr>) = Some r \<and>
    (if named (entries text) t then \<exists>d. r = Inr (s\<lparr>thread_schedule := Some d\<rparr>)
     else if \<exists>u>t. named (entries text) u then r = Inl Abort
     else r = Inr (s\<lparr>thread_schedule := c\<rparr>)))"
proof -
  obtain m s where m: "thunks_ok m" "\<And>t k. look m t k = assigned (entries text) t k"
    and s: "xsched_new (Some (Some bs)) = Inr s"
    and u: "\<And>t c. updateThread t (s\<lparr>thread_schedule := c\<rparr>) = Some (search_result t m (s\<lparr>thread_schedule := c\<rparr>))"
    using compiled_search [OF assms] by metis
  have om: "omap m" using m(1) by (simp add: thunks_ok_def)
  have mem: "named (entries text) t \<longleftrightarrow> t \<in> fst ` set m" for t
    using look_Some_iff [OF m(1), of t] m(2) by (simp add: named_def)
  have "\<exists>r. updateThread t (s\<lparr>thread_schedule := c\<rparr>) = Some r \<and>
    (if named (entries text) t then \<exists>d. r = Inr (s\<lparr>thread_schedule := Some d\<rparr>)
     else if \<exists>u>t. named (entries text) u then r = Inl Abort
     else r = Inr (s\<lparr>thread_schedule := c\<rparr>))" for c
    using search_result_cases [OF om, of t "s\<lparr>thread_schedule := c\<rparr>"] unfolding u mem
    by (cases "t \<in> fst ` set m") auto
  then show ?thesis using s by blast
qed

text \<open>
  C19: A thread whose thunks the text numbers \<open>1\<close> to \<open>n\<close> runs each of them on the processor of the last line
  that names it: the compiler followed by the search and the lookup returns the assignments of the
  text.
\<close>

theorem schedule_roundtrip:
  assumes "thunk_scheduler text = Inr bs" "length bs < 2 ^ 31" "1 \<le> n"
    "\<forall>k. assigned (entries text) t k \<noteq> None \<longleftrightarrow> 1 \<le> k \<and> k \<le> n"
  shows "\<exists>s0 s. xsched_new (Some (Some bs)) = Inr s0 \<and> updateThread t s0 = Some (Inr s) \<and>
    (\<forall>k. 1 \<le> k \<and> k \<le> n \<longrightarrow> (\<exists>c. assigned (entries text) t k = Some c \<and> get_affinity k s = Inr c))"
proof -
  obtain m s where m: "thunks_ok m" "\<And>t k. look m t k = assigned (entries text) t k"
    and s: "xsched_new (Some (Some bs)) = Inr s" "file_of (ints_of m) s"
    and u: "\<And>t c. updateThread t (s\<lparr>thread_schedule := c\<rparr>) = Some (search_result t m (s\<lparr>thread_schedule := c\<rparr>))"
    using compiled_search [OF assms(1,2)] by metis
  have "t \<in> fst ` set m"
    using look_Some_iff [OF m(1), of t] m(2) assms(3,4) by (metis order_refl)
  then obtain th where th: "(t, th) \<in> set m" by auto
  then obtain m1 m2 where sp: "m = m1 @ (t, th) # m2" "takeWhile (\<lambda>e. fst e < t) m = m1"
    "dropWhile (\<lambda>e. fst e < t) m = (t, th) # m2"
    using dropWhile_omap [of m t th] m(1) by (auto simp: thunks_ok_def)
  have ok: "thread_ok (t, th)" using m(1) th by (auto simp: thunks_ok_def)
  have "distinct (map fst m)" using m(1) strict_sorted_iff by (auto simp: thunks_ok_def)
  then have lk: "assigned (entries text) t k = map_of th k" for k
    using m(2) [of t k] th by (simp add: look_def omap_at_def)
  then have "fst ` set th = {1..n}"
    using assms(4) by (force simp flip: dom_map_of_conv_image_fst)
  then have keys: "map fst th = [1..n]" using omap_upto ok by (simp add: thread_ok_def)
  let ?c = "int (length (ints_of m1))" and ?s = "s\<lparr>thread_schedule := Some (int (length (ints_of m1)))\<rparr>"
  have "updateThread t s = Some (Inr ?s)"
    using u [of t "thread_schedule s"] sp by (simp add: search_result_def)
  moreover have "\<exists>c. assigned (entries text) t k = Some c \<and> get_affinity k ?s = Inr c" if k: "1 \<le> k" "k \<le> n" for k
  proof -
    define j where "j = nat (k - 1)"
    have j: "j < length th" "k = int j + 1"
      using arg_cong [OF keys, of length] k by (auto simp: j_def)
    have fk: "fst (th ! j) = k"
      using arg_cong [OF keys, of "\<lambda>l. l ! j"] j k by (simp add: nth_upto)
    have rng: "in_int32 (fst (th ! j))" "in_int32 (snd (th ! j))"
      using ok nth_mem [OF j(1)] by (auto simp: thread_ok_def)
    have f: "file_of (ints_of (m1 @ (t, th) # m2)) ?s" using s(2) sp(1) by simp
    have "sched_int ?s (?c + int (2 + 2 * j)) = Some k"
      using read_ints_of [OF f, of "2 + 2 * j"] nth_thread_ints [of j "(t, th)"] j rng fk
      by (simp add: length_thread_ints)
    moreover have "sched_int ?s (?c + int (3 + 2 * j)) = Some (snd (th ! j))"
      using read_ints_of [OF f, of "3 + 2 * j"] nth_thread_ints [of j "(t, th)"] j rng
      by (simp add: length_thread_ints)
    ultimately have "get_affinity k ?s = Inr (snd (th ! j))"
      using j(2) by (simp add: get_affinity_def algebra_simps)
    moreover have "map_of th k = Some (snd (th ! j))"
      using map_of_is_SomeI [of th k "snd (th ! j)"] nth_mem [OF j(1)] fk ok strict_sorted_iff [of "map fst th"]
      by (metis thread_ok_def prod.collapse snd_conv)
    ultimately show ?thesis using lk by simp
  qed
  ultimately show ?thesis using s(1) by blast
qed

definition demo_text :: string where
  "demo_text = ''2 1 0'' @ [CHR 0x0A] @ ''1 1 3'' @ [CHR 0x0A] @ ''1 2 5''"

lemma demo_entries: "entries demo_text = [(2, 1, 0), (1, 1, 3), (1, 2, 5)]"
  by code_simp

lemma demo_compiled:
  "thunk_scheduler demo_text = Inr (concat (map int_bytes [1, 2, 1, 3, 2, 5, 2, 1, 1, 0]))"
  by code_simp

theorem updateThread_returns_witness:
  "\<exists>s d. xsched_new (Some (Some (concat (map int_bytes [1, 2, 1, 3, 2, 5, 2, 1, 1, 0])))) = Inr s \<and>
     updateThread 2 s = Some (Inr (s\<lparr>thread_schedule := Some d\<rparr>)) \<and>
     updateThread 0 s = Some (Inl Abort) \<and> updateThread 3 (s\<lparr>thread_schedule := Some 4\<rparr>) = Some (Inr (s\<lparr>thread_schedule := Some 4\<rparr>))"
proof -
  let ?bs = "concat (map int_bytes [1, 2, 1, 3, 2, 5, 2, 1, 1, 0])"
  have n: "named (entries demo_text) t \<longleftrightarrow> t = 1 \<or> t = 2" for t
    by (auto simp: named_def demo_entries assigned_def)
  have l: "length ?bs < 2 ^ 31" by (simp only: length_concat_int_bytes) simp
  obtain s where s: "xsched_new (Some (Some ?bs)) = Inr s" using updateThread_returns [OF demo_compiled l] by blast
  have e: "x = s" if "xsched_new (Some (Some ?bs)) = Inr x" for x using that s by (simp only: sum.inject)
  have r: "\<exists>r. updateThread t (s\<lparr>thread_schedule := c\<rparr>) = Some r \<and>
    (if t = 1 \<or> t = 2 then \<exists>d. r = Inr (s\<lparr>thread_schedule := Some d\<rparr>)
     else if \<exists>u>t. u = 1 \<or> u = 2 then r = Inl Abort
     else r = Inr (s\<lparr>thread_schedule := c\<rparr>))" for t c
  proof -
    obtain x where x: "xsched_new (Some (Some ?bs)) = Inr x" "\<forall>c. \<exists>r. updateThread t (x\<lparr>thread_schedule := c\<rparr>) = Some r \<and>
      (if t = 1 \<or> t = 2 then \<exists>d. r = Inr (x\<lparr>thread_schedule := Some d\<rparr>)
       else if \<exists>u>t. u = 1 \<or> u = 2 then r = Inl Abort
       else r = Inr (x\<lparr>thread_schedule := c\<rparr>))"
      using updateThread_returns [OF demo_compiled l, of t, unfolded n] by (elim exE conjE)
    show ?thesis using x(2) unfolding e [OF x(1)] by (rule spec)
  qed
  have "\<exists>d. updateThread 2 s = Some (Inr (s\<lparr>thread_schedule := Some d\<rparr>))"
    using r [of 2 "thread_schedule s"] by auto
  moreover have "\<exists>u>0. u = 1 \<or> u = (2 :: int)" by (intro exI [of _ 1]) simp
  then have "updateThread 0 s = Some (Inl Abort)"
    using r [of 0 "thread_schedule s"] by (simp only: if_P) simp
  moreover have "updateThread 3 (s\<lparr>thread_schedule := Some 4\<rparr>) = Some (Inr (s\<lparr>thread_schedule := Some 4\<rparr>))"
    using r [of 3 "Some 4"] by (auto split: if_splits)
  ultimately show ?thesis using s by (intro exI [of _ s]) simp
qed

theorem schedule_roundtrip_witness:
  "\<exists>s0 s. xsched_new (Some (Some (concat (map int_bytes [1, 2, 1, 3, 2, 5, 2, 1, 1, 0])))) = Inr s0 \<and>
    updateThread 1 s0 = Some (Inr s) \<and> get_affinity 1 s = Inr 3 \<and> get_affinity 2 s = Inr 5"
proof -
  let ?bs = "concat (map int_bytes [1, 2, 1, 3, 2, 5, 2, 1, 1, 0])"
  have "\<forall>k. assigned (entries demo_text) 1 k \<noteq> None \<longleftrightarrow> 1 \<le> k \<and> k \<le> 2"
    by (auto simp: demo_entries assigned_def)
  then obtain s0 s where "xsched_new (Some (Some ?bs)) = Inr s0" "updateThread 1 s0 = Some (Inr s)"
    and a: "\<forall>k. 1 \<le> k \<and> k \<le> 2 \<longrightarrow> (\<exists>c. assigned (entries demo_text) 1 k = Some c \<and> get_affinity k s = Inr c)"
    using schedule_roundtrip [OF demo_compiled, of 2 1] by (auto simp del: concat.simps list.map)
  moreover have "get_affinity 1 s = Inr 3" "get_affinity 2 s = Inr 5"
    using a [rule_format, of 1] a [rule_format, of 2] by (simp_all add: demo_entries assigned_def)
  ultimately show ?thesis by blast
qed

text \<open>A piece with a negative count leads the search back to its start for ever.\<close>

lemma updateThread_loops:
  assumes "file_of [0, - 1] s" "0 < t" shows "updateThread t s = None"
proof -
  have "sched_int s 0 = Some 0" "sched_int s 1 = Some (- 1)" "sched_size s = 2"
    using sched_int_file [OF assms(1), of 0] sched_int_file [OF assms(1), of 1] assms(1)
    by (simp_all add: file_of_def)
  note rd = this
  have "s' = s \<longrightarrow> u = t \<longrightarrow> c \<noteq> 0" if "find_thread s' u c = Some r" for s' u c r
  proof (rule find_thread.raw_induct [where P = "\<lambda>s' u c r. s' = s \<longrightarrow> u = t \<longrightarrow> c \<noteq> 0", OF _ that])
    fix f s' u c y
    assume IH: "\<And>s' u c y. f s' u c = Some y \<Longrightarrow> s' = s \<longrightarrow> u = t \<longrightarrow> c \<noteq> 0"
      and eq: "(if c < sched_size s' then
        case sched_int s' c of
          None \<Rightarrow> Some (Inl Segv)
        | Some v \<Rightarrow>
            if v < u then
              case sched_int s' (c + 1) of
                None \<Rightarrow> Some (Inl Segv)
              | Some n \<Rightarrow> f s' u (c + (n * 2 + 2))
            else if v \<noteq> u then Some (Inl Abort)
            else Some (Inr (s'\<lparr>thread_schedule := Some c\<rparr>))
      else Some (Inr s')) = Some y"
    show "s' = s \<longrightarrow> u = t \<longrightarrow> c \<noteq> 0"
      using eq IH [of s t 0] rd assms(2) by auto
  qed
  then have "find_thread s t 0 = None" by (cases "find_thread s t 0") blast+
  then show ?thesis using assms(1) by (simp add: updateThread_def file_of_def)
qed

end
