(* ===== verification/Xmmap.thy ===== *)
theory Xmmap
  imports Prelude
begin

text \<open>
  Mappings of the program: \<^verbatim>\<open>xmmap.h\<close> replaces \<open>mmap\<close> and keeps the sorted vector of the pages it has
  mapped without access, \<^verbatim>\<open>mmappage.h\<close> opens a page when it faults, and \<^verbatim>\<open>accessedmmappages.h\<close> keeps the
  addresses that faulted, to close their pages at the next commit.

  All of this is private to a process. \<open>kernel\<close> is the current protection of the pages that came from
  these mappings. \<open>mprotect\<close> and \<open>munmap\<close> do what POSIX says; the address \<open>mmap\<close> returns is an argument
  of the model.
\<close>

definition PROT_NONE :: u32 where "PROT_NONE = 0"
definition PROT_READ :: u32 where "PROT_READ = 1"
definition PROT_WRITE :: u32 where "PROT_WRITE = 2"
definition MAP_SHARED :: u32 where "MAP_SHARED = 1"
definition MAP_PRIVATE :: u32 where "MAP_PRIVATE = 2"
definition MAP_FAILED :: u64 where "MAP_FAILED = - 1"

record mmappage =
  page_addr :: u64
  page_fd :: int
  page_protection :: u32

record xmmap =
  mpages :: "mmappage list"
  accessed :: "u64 list"
  kernel :: "u64 \<rightharpoonup> u32"

definition xmmap_new :: xmmap where
  "xmmap_new = \<lparr>mpages = [], accessed = [], kernel = Map.empty\<rparr>"

subsection \<open>The system\<close>

definition aligned :: "u64 \<Rightarrow> bool" where "aligned a \<longleftrightarrow> unat a mod 4096 = 0"

text \<open>The pages of the \<open>len\<close> bytes from \<open>start\<close>.\<close>

definition page_range :: "u64 \<Rightarrow> u64 \<Rightarrow> u64 set" where
  "page_range start len = {a. aligned a \<and> unat start \<le> unat a \<and> unat a < unat start + unat len}"

definition sys_mprotect :: "u64 \<Rightarrow> u32 \<Rightarrow> xmmap \<Rightarrow> int \<times> xmmap" where
  "sys_mprotect a p s =
     (if aligned a \<and> kernel s a \<noteq> None then (0, s\<lparr>kernel := (kernel s)(a \<mapsto> p)\<rparr>) else (- 1, s))"

definition sys_munmap :: "u64 \<Rightarrow> u64 \<Rightarrow> xmmap \<Rightarrow> int \<times> xmmap" where
  "sys_munmap a len s =
     (if aligned a \<and> len \<noteq> 0
      then (0, s\<lparr>kernel := (\<lambda>x. if x \<in> page_range a len then None else kernel s x)\<rparr>)
      else (- 1, s))"

subsection \<open>The vector of pages\<close>

text \<open>\<open>std::lower_bound\<close> between \<open>first\<close> and \<open>first + len\<close>.\<close>

function lower_bound :: "mmappage list \<Rightarrow> u64 \<Rightarrow> nat \<Rightarrow> nat \<Rightarrow> nat" where
  "lower_bound ps v first len =
     (if len = 0 then first
      else let half = len div 2; mid = first + half in
        if page_addr (ps ! mid) < v then lower_bound ps v (mid + 1) (len - half - 1)
        else lower_bound ps v first half)"
  by pat_completeness auto

termination lower_bound
  by (relation "measure (\<lambda>(ps, v, first, len). len)") auto

declare lower_bound.simps [simp del]

definition getEnd :: "u64 \<Rightarrow> u64 \<Rightarrow> u64" where
  "getEnd start len = PAGE_ALIGN_UP (start + len)"

text \<open>
  Both the count and the offset of a page are \<open>int\<close>s; the product is taken to wrap. Reserving a
  negative number of pages throws, which ends the process.
\<close>

definition mmap_add :: "u64 \<Rightarrow> u64 \<Rightarrow> int \<Rightarrow> u32 \<Rightarrow> xmmap \<Rightarrow> xmmap res" where
  "mmap_add start len fd prot s =
     (let it = lower_bound (mpages s) start 0 (length (mpages s));
          d = sint (getEnd start len - start);
          numberOfPages = sint (of_int (if 0 \<le> d then d div 4096 else - ((- d) div 4096)) :: u32) in
      if numberOfPages < 0 then Inl Abort
      else
        let temp = map (\<lambda>i. \<lparr>page_addr = start + of_int (sint (of_nat (i * 4096) :: u32)), page_fd = fd,
                            page_protection = prot\<rparr>) [0 ..< nat numberOfPages] in
        Inr (s\<lparr>mpages := take it (mpages s) @ temp @ drop it (mpages s)\<rparr>))"

definition mmap_remove :: "u64 \<Rightarrow> u64 \<Rightarrow> xmmap \<Rightarrow> xmmap" where
  "mmap_remove addr len s =
     (let ps = mpages s; lower = lower_bound ps addr 0 (length ps) in
      if lower < length ps \<and> page_addr (ps ! lower) \<le> addr
      then let upper = lower_bound ps (getEnd addr len) (lower + 1) (length ps - (lower + 1)) in
        s\<lparr>mpages := take lower ps @ drop upper ps\<rparr>
      else s)"

definition mmap_find :: "u64 \<Rightarrow> xmmap \<Rightarrow> mmappage option" where
  "mmap_find ptr s =
     (let ps = mpages s; it = lower_bound ps (PAGE_ALIGN_DOWN ptr) 0 (length ps) in
      if it < length ps \<and> page_addr (ps ! it) \<le> ptr then Some (ps ! it) else None)"

text \<open>What \<open>mmap\<close> is asked for in place of \<open>prot\<close> and \<open>flags\<close>.\<close>

definition map_request :: "u32 \<Rightarrow> u32 \<times> u32" where
  "map_request flags =
     (PROT_NONE, if flags AND MAP_PRIVATE \<noteq> 0 then (flags AND NOT MAP_PRIVATE) OR MAP_SHARED else flags)"

definition xmmap_map :: "u64 \<Rightarrow> u64 \<Rightarrow> u32 \<Rightarrow> u32 \<Rightarrow> int \<Rightarrow> xmmap \<Rightarrow> (u64 \<times> xmmap) res" where
  "xmmap_map res len prot flags fd s =
     (if res = MAP_FAILED then Inr (res, s)
      else rbind (mmap_add res len fd prot
                   (s\<lparr>kernel := (\<lambda>x. if x \<in> page_range res len then Some (fst (map_request flags)) else kernel s x)\<rparr>))
             (\<lambda>s1. Inr (res, s1)))"

definition xmmap_unmap :: "u64 \<Rightarrow> u64 \<Rightarrow> xmmap \<Rightarrow> int \<times> xmmap" where
  "xmmap_unmap addr len s =
     (let (res, s1) = sys_munmap addr len s in (res, if res = 0 then mmap_remove addr len s1 else s1))"

subsection \<open>Faults and commits\<close>

definition mmappage_handleWrite :: "mmappage \<Rightarrow> xmmap \<Rightarrow> xmmap res" where
  "mmappage_handleWrite p s =
     (if page_protection p AND PROT_WRITE \<noteq> 0 then Inr (snd (sys_mprotect (page_addr p) PROT_WRITE s)) else Inl Abort)"

definition mmappage_handleRead :: "mmappage \<Rightarrow> u64 \<Rightarrow> xmmap \<Rightarrow> xmmap res" where
  "mmappage_handleRead p addr s =
     (if page_protection p AND PROT_READ \<noteq> 0 then Inr (snd (sys_mprotect addr PROT_READ s)) else Inl Abort)"

definition mmappage_handleAccess :: "mmappage \<Rightarrow> u64 \<Rightarrow> bool \<Rightarrow> xmmap \<Rightarrow> xmmap res" where
  "mmappage_handleAccess p addr isWrite s =
     (if isWrite then mmappage_handleWrite p s else mmappage_handleRead p (PAGE_ALIGN_DOWN addr) s)"

definition accessed_add :: "u64 \<Rightarrow> xmmap \<Rightarrow> xmmap" where
  "accessed_add addr s = s\<lparr>accessed := accessed s @ [addr]\<rparr>"

definition accessed_reset :: "xmmap \<Rightarrow> xmmap" where
  "accessed_reset s =
     (fold (\<lambda>a t. snd (sys_mprotect a PROT_NONE t)) (accessed s) s)\<lparr>accessed := []\<rparr>"

text \<open>What the processor lets the program do; on x86 a page that is writable is readable.\<close>

definition allows :: "xmmap \<Rightarrow> u64 \<Rightarrow> bool \<Rightarrow> bool" where
  "allows s addr is_write \<longleftrightarrow>
     (case kernel s (PAGE_ALIGN_DOWN addr) of
        None \<Rightarrow> False
      | Some p \<Rightarrow> if is_write then p AND PROT_WRITE \<noteq> 0 else p AND (PROT_READ OR PROT_WRITE) \<noteq> 0)"

end
