(* ===== verification/Xmmap_Props.thy ===== *)
theory Xmmap_Props
  imports Xmmap Bytes
begin

text \<open>
  The vector of pages is the map from page addresses to mappings, as long as every range given to
  \<open>munmap\<close> begins at a mapped page; a page of a mapping that was accessed once stays open for good,
  unless the access was to its first byte.
\<close>

subsection \<open>Binary search\<close>

abbreviation addrs :: "mmappage list \<Rightarrow> u64 list" where
  "addrs ps \<equiv> map page_addr ps"

lemma sorted_addrs_nth: "sorted_wrt (<) (addrs ps) \<Longrightarrow> i < j \<Longrightarrow> j < length ps \<Longrightarrow> page_addr (ps ! i) < page_addr (ps ! j)"
  by (simp add: sorted_wrt_iff_nth_less)

lemma lower_bound_split:
  assumes "sorted_wrt (<) (addrs ps)" "first + len \<le> length ps"
    "\<forall>i<first. page_addr (ps ! i) < v" "\<forall>i<length ps. first + len \<le> i \<longrightarrow> v \<le> page_addr (ps ! i)"
  shows "lower_bound ps v first len \<le> length ps \<and>
    (\<forall>i<length ps. page_addr (ps ! i) < v \<longleftrightarrow> i < lower_bound ps v first len)"
  using assms
proof (induction ps v first len rule: lower_bound.induct)
  case (1 ps v first len)
  let ?mid = "first + len div 2"
  note so = 1(3) and le = 1(4) and lo = 1(5) and hi = 1(6)
  show ?case
  proof (cases "len = 0")
    case True
    then have e: "lower_bound ps v first len = first" by (subst lower_bound.simps) simp
    show ?thesis unfolding e using True le lo hi by (auto simp: not_less)
  next
    case False
    then have mid: "?mid < length ps" "len div 2 < len" using le by auto
    show ?thesis
    proof (cases "page_addr (ps ! ?mid) < v")
      case True
      have e: "lower_bound ps v first len = lower_bound ps v (?mid + 1) (len - len div 2 - 1)"
        using False True by (subst lower_bound.simps) (simp add: Let_def)
      have "page_addr (ps ! i) < v" if "i < ?mid + 1" for i
        using True sorted_addrs_nth [OF so _ mid(1), of i] that by (cases "i = ?mid") (auto intro: less_trans)
      moreover have "\<forall>i<length ps. ?mid + 1 + (len - len div 2 - 1) \<le> i \<longrightarrow> v \<le> page_addr (ps ! i)"
        using hi mid(2) by auto
      ultimately show ?thesis
        unfolding e using 1(1) [OF False refl refl True so] le mid(2) by simp
    next
      case False': False
      have e: "lower_bound ps v first len = lower_bound ps v first (len div 2)"
        using False False' by (subst lower_bound.simps) (simp add: Let_def)
      have "v \<le> page_addr (ps ! i)" if "i < length ps" "?mid \<le> i" for i
        using False' sorted_addrs_nth [OF so, of ?mid i] that by (cases "i = ?mid") (auto simp: not_less intro: order.trans)
      then show ?thesis
        unfolding e using 1(2) [OF False refl refl False' so] le lo mid(1) by simp
    qed
  qed
qed

lemma take_split:
  assumes "r \<le> length ps" "\<And>i. i < length ps \<Longrightarrow> P (ps ! i) \<longleftrightarrow> i < r"
  shows "take r ps = filter P ps" "drop r ps = filter (\<lambda>p. \<not> P p) ps"
proof -
  have "\<forall>p\<in>set (take r ps). P p" using assms by (auto simp: in_set_conv_nth)
  moreover have "\<forall>p\<in>set (drop r ps). \<not> P p"
    using assms(2) by (auto simp: in_set_conv_nth less_diff_conv add.commute)
  ultimately have t: "filter P (take r ps) = take r ps" "filter P (drop r ps) = []"
    "filter (\<lambda>p. \<not> P p) (take r ps) = []" "filter (\<lambda>p. \<not> P p) (drop r ps) = drop r ps"
    by (auto simp: filter_id_conv filter_empty_conv)
  have f: "filter Q ps = filter Q (take r ps) @ filter Q (drop r ps)" for Q
    by (metis append_take_drop_id filter_append)
  show "take r ps = filter P ps" "drop r ps = filter (\<lambda>p. \<not> P p) ps"
    unfolding f t by simp_all
qed

lemma take_lower_bound:
  assumes "sorted_wrt (<) (addrs ps)" "\<forall>i<first. page_addr (ps ! i) < v" "first \<le> length ps"
  shows "take (lower_bound ps v first (length ps - first)) ps = filter (\<lambda>p. page_addr p < v) ps"
    "drop (lower_bound ps v first (length ps - first)) ps = filter (\<lambda>p. \<not> page_addr p < v) ps"
proof -
  have r: "lower_bound ps v first (length ps - first) \<le> length ps"
    "\<And>i. i < length ps \<Longrightarrow> page_addr (ps ! i) < v \<longleftrightarrow> i < lower_bound ps v first (length ps - first)"
    using lower_bound_split [OF assms(1) _ assms(2), of "length ps - first"] assms(3) by simp_all
  show "take (lower_bound ps v first (length ps - first)) ps = filter (\<lambda>p. page_addr p < v) ps"
    by (rule take_split(1) [where P = "\<lambda>p. page_addr p < v", OF r])
  show "drop (lower_bound ps v first (length ps - first)) ps = filter (\<lambda>p. \<not> page_addr p < v) ps"
    by (rule take_split(2) [where P = "\<lambda>p. page_addr p < v", OF r])
qed

lemmas take_lower_bound0 = take_lower_bound [where first = 0, simplified]

subsection \<open>The vector as a map\<close>

definition table :: "mmappage list \<Rightarrow> u64 \<rightharpoonup> int \<times> u32" where
  "table ps = map_of (map (\<lambda>p. (page_addr p, page_fd p, page_protection p)) ps)"

definition mm_ok :: "xmmap \<Rightarrow> bool" where
  "mm_ok s \<longleftrightarrow> sorted_wrt (<) (addrs (mpages s)) \<and> (\<forall>p\<in>set (mpages s). aligned (page_addr p))"

lemma table_filter: "table (filter (\<lambda>p. P (page_addr p)) ps) a = (if P a then table ps a else None)"
  by (induction ps) (auto simp: table_def)

lemma table_append: "table (ps @ qs) a = (case table ps a of Some x \<Rightarrow> Some x | None \<Rightarrow> table qs a)"
  by (auto simp: table_def map_add_def split: option.splits)

lemma table_Some:
  assumes "table ps a = Some x"
  shows "\<exists>p\<in>set ps. page_addr p = a \<and> (page_fd p, page_protection p) = x"
  using assms unfolding table_def by (fastforce dest!: map_of_SomeD)

lemma table_mem:
  assumes "sorted_wrt (<) (addrs ps)" "p \<in> set ps"
  shows "table ps (page_addr p) = Some (page_fd p, page_protection p)"
proof -
  have "distinct (addrs ps)" using assms(1) strict_sorted_iff by auto
  then show ?thesis using assms(2) unfolding table_def by (intro map_of_is_SomeI) (auto simp: comp_def)
qed

lemma aligned_down: "aligned (PAGE_ALIGN_DOWN x)"
  by (simp add: aligned_def unat_PAGE_ALIGN_DOWN minus_mod_eq_mult_div)

lemma aligned_down_id: "aligned a \<Longrightarrow> PAGE_ALIGN_DOWN a = a"
  by (simp add: word_unat_eq_iff unat_PAGE_ALIGN_DOWN aligned_def)

lemma aligned_between:
  assumes "aligned a" "PAGE_ALIGN_DOWN x \<le> a" "a \<le> x"
  shows "a = PAGE_ALIGN_DOWN x"
proof -
  have "unat x div 4096 * 4096 \<le> unat a" "unat a \<le> unat x" "unat a div 4096 * 4096 = unat a"
    using assms by (simp_all add: word_le_nat_alt unat_PAGE_ALIGN_DOWN aligned_def minus_mod_eq_div_mult
        flip: minus_mod_eq_div_mult [of "unat a" 4096])
  then have "unat a div 4096 = unat x div 4096" by linarith
  then have "unat a = unat x - unat x mod 4096"
    using \<open>unat a div 4096 * 4096 = unat a\<close> by (simp add: minus_mod_eq_div_mult)
  then show ?thesis by (simp add: word_unat_eq_iff unat_PAGE_ALIGN_DOWN)
qed

lemma mmap_find_table:
  assumes "mm_ok s"
  shows "map_option (\<lambda>p. (page_addr p, page_fd p, page_protection p)) (mmap_find ptr s) =
    map_option (\<lambda>(fd, pr). (PAGE_ALIGN_DOWN ptr, fd, pr)) (table (mpages s) (PAGE_ALIGN_DOWN ptr))"
proof -
  let ?ps = "mpages s" and ?a = "PAGE_ALIGN_DOWN ptr"
  define r where "r = lower_bound ?ps ?a 0 (length ?ps)"
  have so: "sorted_wrt (<) (addrs ?ps)" and al: "\<forall>p\<in>set ?ps. aligned (page_addr p)"
    using assms by (auto simp: mm_ok_def)
  have r: "i < length ?ps \<Longrightarrow> page_addr (?ps ! i) < ?a \<longleftrightarrow> i < r" for i
    using lower_bound_split [OF so, of 0 "length ?ps" ?a] by (auto simp: r_def)
  show ?thesis
  proof (cases "r < length ?ps \<and> page_addr (?ps ! r) \<le> ptr")
    case True
    then have e: "page_addr (?ps ! r) = ?a"
      using aligned_between [of "page_addr (?ps ! r)" ptr] al r [of r] by simp
    then have "table ?ps ?a = Some (page_fd (?ps ! r), page_protection (?ps ! r))"
      using table_mem [OF so, of "?ps ! r"] True by simp
    then show ?thesis using True e by (simp add: mmap_find_def Let_def flip: r_def)
  next
    case False
    have "table ?ps ?a = None"
    proof (rule ccontr)
      assume "table ?ps ?a \<noteq> None"
      then obtain i where i: "i < length ?ps" "page_addr (?ps ! i) = ?a"
        using table_Some [of ?ps ?a] by (fastforce simp: in_set_conv_nth)
      then have "\<not> i < r" using r [of i] by simp
      then have "r < length ?ps" "page_addr (?ps ! r) \<le> page_addr (?ps ! i)"
        using i(1) sorted_addrs_nth [OF so, of r i] by (cases "r = i"; auto)+
      then show False using False i(2) PAGE_ALIGN_DOWN_le [of ptr] by (metis order_trans)
    qed
    then show ?thesis using False by (auto simp: mmap_find_def Let_def simp flip: r_def)
  qed
qed

subsection \<open>Mapping and unmapping\<close>

text \<open>What the system can map: below \<open>2^47\<close>; the code counts on less than 2 GB.\<close>

definition range_ok :: "u64 \<Rightarrow> u64 \<Rightarrow> bool" where
  "range_ok a len \<longleftrightarrow> aligned a \<and> 0 < unat len \<and> unat len \<le> 2 ^ 31 \<and> unat a + unat len \<le> 2 ^ 47"

definition npages :: "u64 \<Rightarrow> nat" where "npages len = (unat len + 4095) div 4096"

definition new_pages :: "u64 \<Rightarrow> u64 \<Rightarrow> int \<Rightarrow> u32 \<Rightarrow> mmappage list" where
  "new_pages a len fd pr =
     map (\<lambda>i. \<lparr>page_addr = a + of_nat (4096 * i), page_fd = fd, page_protection = pr\<rparr>) [0 ..< npages len]"

lemma npages_less: "i < npages len \<longleftrightarrow> 4096 * i < unat len"
  by (auto simp: npages_def)

lemma npages_bound: "range_ok a len \<Longrightarrow> npages len \<le> 2 ^ 19"
  by (auto simp: npages_def range_ok_def)

lemma unat_new_page: "range_ok a len \<Longrightarrow> i \<le> npages len \<Longrightarrow> unat (a + of_nat (4096 * i)) = unat a + 4096 * i"
proof -
  assume r: "range_ok a len" and i: "i \<le> npages len"
  have "4096 * i \<le> 2 ^ 31" using i npages_bound [OF r] by simp
  moreover have "unat a \<le> 2 ^ 47" using r by (simp add: range_ok_def)
  ultimately show ?thesis
    using unat_of_nat_u64 [of "4096 * i"] by (simp add: unat_word_ariths)
qed

lemma getEnd_eq: "range_ok a len \<Longrightarrow> getEnd a len = a + of_nat (4096 * npages len)"
proof -
  assume r: "range_ok a len"
  then have s: "unat (a + len) = unat a + unat len" by (simp add: range_ok_def unat_word_ariths)
  moreover have "unat a + unat len \<le> 2 ^ 47" using r by (simp add: range_ok_def)
  ultimately have "unat (PAGE_ALIGN_UP (a + len)) = (unat a + unat len + 4095) div 4096 * 4096"
    using unat_PAGE_ALIGN_UP [of "a + len"] by (simp add: minus_mod_eq_div_mult)
  also have "\<dots> = unat a + 4096 * npages len"
  proof -
    obtain k where k: "unat a = 4096 * k" using r by (auto simp: range_ok_def aligned_def)
    show ?thesis unfolding k npages_def by (simp add: add.assoc)
  qed
  finally show ?thesis
    using unat_new_page [OF r order_refl] by (simp add: getEnd_def word_unat_eq_iff)
qed

lemma sint_of_nat_u32: "n < 2 ^ 31 \<Longrightarrow> sint (of_nat n :: u32) = int n"
  by (metis of_int_of_nat_eq sint_of_int32 [of "int n"] of_nat_0_le_iff of_nat_less_numeral_power_cancel_iff
      neg_0_le_iff_le order_trans zero_le_numeral zero_le_power neg_le_0_iff_le)

lemma mmap_add_ok:
  assumes "range_ok a len" "sorted_wrt (<) (addrs (mpages s))"
  shows "mmap_add a len fd pr s = Inr (s\<lparr>mpages := filter (\<lambda>p. page_addr p < a) (mpages s) @ new_pages a len fd pr @
      filter (\<lambda>p. \<not> page_addr p < a) (mpages s)\<rparr>)"
proof -
  have n: "npages len \<le> 2 ^ 19" by (rule npages_bound [OF assms(1)])
  have "getEnd a len - a = of_nat (4096 * npages len)" by (simp add: getEnd_eq [OF assms(1)])
  moreover have "sint (of_int (int (4096 * npages len)) :: u64) = int (4096 * npages len)"
    using n by (subst sint_sbintrunc') (simp add: signed_take_bit_int_eq_self)
  ultimately have d: "sint (getEnd a len - a) = int (4096 * npages len)" by (simp only: of_int_of_nat_eq)
  have np: "sint (of_nat (npages len) :: u32) = int (npages len)"
    using sint_of_nat_u32 [of "npages len"] n by simp
  have o: "(of_int (sint (of_nat (i * 4096) :: u32)) :: u64) = of_nat (4096 * i)" if "i < npages len" for i
    using sint_of_nat_u32 [of "i * 4096"] that n by (simp add: mult.commute)
  have "map (\<lambda>i. \<lparr>page_addr = a + of_int (sint (of_nat (i * 4096) :: u32)), page_fd = fd, page_protection = pr\<rparr>)
      [0 ..< npages len] = new_pages a len fd pr"
    unfolding new_pages_def by (rule map_cong) (simp_all only: o refl set_upt atLeastLessThan_iff)
  then show ?thesis
    using take_lower_bound0 [OF assms(2), of a] by (simp add: mmap_add_def Let_def d np)
qed

lemma table_new_pages:
  assumes "range_ok a len"
  shows "table (new_pages a len fd pr) x = (if x \<in> page_range a len then Some (fd, pr) else None)"
proof -
  have "x \<in> page_range a len \<longleftrightarrow> (\<exists>i<npages len. x = a + of_nat (4096 * i))" (is "?l = ?r")
  proof
    assume ?l
    then have x: "unat x mod 4096 = 0" "unat a \<le> unat x" "unat x < unat a + unat len" "unat a mod 4096 = 0"
      using assms by (auto simp: page_range_def aligned_def range_ok_def)
    then have "4096 * ((unat x - unat a) div 4096) = unat x - unat a"
      by (metis mod_eq_0_iff_dvd dvd_diff_nat dvd_mult_div_cancel)
    moreover from this x have "(unat x - unat a) div 4096 < npages len" unfolding npages_less by linarith
    ultimately show ?r
      using unat_new_page [OF assms, of "(unat x - unat a) div 4096"] x(2)
      by (intro exI [of _ "(unat x - unat a) div 4096"]) (auto simp: word_unat_eq_iff)
  next
    assume ?r
    then obtain i where "i < npages len" "x = a + of_nat (4096 * i)" by blast
    then show ?l
      using assms unat_new_page [OF assms, of i] npages_less [of i len]
      by (auto simp: page_range_def aligned_def range_ok_def mod_add_eq [symmetric])
  qed
  moreover have "table (map (\<lambda>i. \<lparr>page_addr = f i, page_fd = fd, page_protection = pr\<rparr>) xs) x =
      (if \<exists>i\<in>set xs. x = f i then Some (fd, pr) else None)" for f :: "nat \<Rightarrow> u64" and xs
    by (induction xs) (auto simp: table_def)
  ultimately show ?thesis by (simp add: new_pages_def Bex_def atLeast0LessThan)
qed

lemma not_in_range:
  assumes "range_ok a len" "aligned x"
  shows "x \<notin> page_range a len \<longleftrightarrow> x < a \<or> \<not> x < getEnd a len"
proof -
  have e: "unat (getEnd a len) = unat a + 4096 * npages len"
    using unat_new_page [OF assms(1) order_refl] by (simp add: getEnd_eq [OF assms(1)])
  obtain i j where ij: "unat x = 4096 * i" "unat a = 4096 * j"
    using assms by (auto simp: aligned_def range_ok_def elim!: dvdE)
  have "unat x < unat a + unat len \<longleftrightarrow> unat x < unat a + 4096 * npages len" if "unat a \<le> unat x"
    using npages_less [of "i - j" len] that ij by auto
  then show ?thesis using assms(2) e by (auto simp: page_range_def word_less_nat_alt)
qed

lemma first_in_range: "range_ok a len \<Longrightarrow> a \<in> page_range a len"
  by (auto simp: page_range_def range_ok_def)

lemma add_keeps:
  assumes "mm_ok s" "range_ok a len" "\<forall>x\<in>page_range a len. table (mpages s) x = None"
  shows "\<exists>s'. mmap_add a len fd pr s = Inr s' \<and> mm_ok s' \<and>
    (\<forall>x. table (mpages s') x = (if x \<in> page_range a len then Some (fd, pr) else table (mpages s) x))"
proof -
  let ?ps = "mpages s" and ?new = "new_pages a len fd pr"
  let ?qs = "filter (\<lambda>p. page_addr p < a) ?ps @ ?new @ filter (\<lambda>p. \<not> page_addr p < a) ?ps"
  have so: "sorted_wrt (<) (addrs ?ps)" and al: "\<forall>p\<in>set ?ps. aligned (page_addr p)"
    using assms(1) by (auto simp: mm_ok_def)
  have out: "page_addr p \<notin> page_range a len" if "p \<in> set ?ps" for p
    using assms(3) table_mem [OF so that] by auto
  have mem: "\<exists>i<npages len. unat (page_addr p) = unat a + 4096 * i" if "p \<in> set ?new" for p
    using that unat_new_page [OF assms(2)] by (auto simp: new_pages_def)
  have s1: "sorted_wrt (<) (addrs ?new)"
    using unat_new_page [OF assms(2)] by (auto simp: new_pages_def sorted_wrt_map word_less_nat_alt sorted_wrt_iff_nth_less)
  have "sorted_wrt (<) (addrs ?qs)"
    unfolding map_append sorted_wrt_append
  proof (intro conjI ballI)
    show "sorted_wrt (<) (addrs (filter (\<lambda>p. page_addr p < a) ?ps))"
      "sorted_wrt (<) (addrs (filter (\<lambda>p. \<not> page_addr p < a) ?ps))"
      using so by (simp_all add: sorted_wrt_map sorted_wrt_filter)
    show "sorted_wrt (<) (addrs ?new)" by (rule s1)
  next
    fix x y
    assume "x \<in> set (addrs ?new)" "y \<in> set (addrs (filter (\<lambda>p. \<not> page_addr p < a) ?ps))"
    then obtain p q where pq: "p \<in> set ?new" "x = page_addr p" "q \<in> set ?ps" "y = page_addr q" "\<not> y < a" by auto
    have "unat a + unat len \<le> unat y"
      using out [OF pq(3)] pq(4,5) al pq(3) by (auto simp: page_range_def word_less_nat_alt)
    moreover obtain i where "i < npages len" "unat x = unat a + 4096 * i" using mem [OF pq(1)] pq(2) by auto
    ultimately show "x < y" using npages_less [of i len] by (simp add: word_less_nat_alt)
  next
    fix x y
    assume x: "x \<in> set (addrs (filter (\<lambda>p. page_addr p < a) ?ps))"
      and y: "y \<in> set (addrs ?new @ addrs (filter (\<lambda>p. \<not> page_addr p < a) ?ps))"
    have "x < a" using x by auto
    moreover have "a \<le> y" using y mem by (fastforce simp: word_le_nat_alt word_less_nat_alt)
    ultimately show "x < y" by simp
  qed
  moreover have "\<forall>p\<in>set ?qs. aligned (page_addr p)"
    using al mem assms(2) by (fastforce simp: aligned_def range_ok_def)
  moreover have "table ?qs x = (if x \<in> page_range a len then Some (fd, pr) else table ?ps x)" for x
    using assms(3) table_filter [of "\<lambda>y. y < a" ?ps x] table_filter [of "\<lambda>y. \<not> y < a" ?ps x]
    by (auto simp: table_append table_new_pages [OF assms(2)] split: option.split)
  ultimately show ?thesis using mmap_add_ok [OF assms(2) so] by (simp add: mm_ok_def)
qed

lemma remove_keeps:
  assumes "mm_ok s" "range_ok a len" "table (mpages s) a \<noteq> None \<or> (\<forall>x\<in>page_range a len. table (mpages s) x = None)"
  shows "mm_ok (mmap_remove a len s) \<and>
    (\<forall>x. table (mpages (mmap_remove a len s)) x = (if x \<in> page_range a len then None else table (mpages s) x))"
proof -
  let ?ps = "mpages s"
  define r where "r = lower_bound ?ps a 0 (length ?ps)"
  have so: "sorted_wrt (<) (addrs ?ps)" and al: "\<forall>p\<in>set ?ps. aligned (page_addr p)"
    using assms(1) by (auto simp: mm_ok_def)
  have r: "r \<le> length ?ps" "\<And>i. i < length ?ps \<Longrightarrow> page_addr (?ps ! i) < a \<longleftrightarrow> i < r"
    using lower_bound_split [OF so, of 0 "length ?ps" a] by (auto simp: r_def)
  show ?thesis
  proof (cases "r < length ?ps \<and> page_addr (?ps ! r) \<le> a")
    case True
    then have ra: "page_addr (?ps ! r) = a" using r(2) [of r] by simp
    have ae: "a < getEnd a len"
      using not_in_range [OF assms(2), of a] first_in_range [OF assms(2)] assms(2) by (auto simp: range_ok_def)
    have lo: "\<forall>i<r + 1. page_addr (?ps ! i) < getEnd a len"
      using r True ra ae by (metis Suc_eq_plus1 less_Suc_eq order.strict_trans order_less_le_trans)
    define e where "e = getEnd a len"
    have kept: "mpages (mmap_remove a len s) = filter (\<lambda>p. page_addr p < a) ?ps @ filter (\<lambda>p. \<not> page_addr p < e) ?ps"
      using True take_lower_bound0(1) [OF so, of a] take_lower_bound(2) [OF so lo]
      by (simp add: mmap_remove_def Let_def e_def flip: r_def)
    have "sorted_wrt (<) (addrs (mpages (mmap_remove a len s)))"
      using so ae unfolding kept by (auto simp: sorted_wrt_append sorted_wrt_map sorted_wrt_filter e_def)
    moreover have "table (mpages (mmap_remove a len s)) x = (if x \<in> page_range a len then None else table ?ps x)" for x
    proof (cases "aligned x")
      case True
      then show ?thesis
        using not_in_range [OF assms(2) True] table_filter [of "\<lambda>y. y < a" ?ps x] table_filter [of "\<lambda>y. \<not> y < e" ?ps x] ae
        unfolding kept table_append by (auto simp: e_def split: option.split)
    next
      case False
      then have "table ?ps x = None" using table_Some [of ?ps x] al by (cases "table ?ps x") auto
      then show ?thesis
        using table_filter [of "\<lambda>y. y < a" ?ps x] table_filter [of "\<lambda>y. \<not> y < e" ?ps x]
        unfolding kept table_append by simp
    qed
    ultimately show ?thesis using al kept by (auto simp: mm_ok_def)
  next
    case False
    have "table ?ps a = None"
    proof (rule ccontr)
      assume "table ?ps a \<noteq> None"
      then obtain i where i: "i < length ?ps" "page_addr (?ps ! i) = a"
        using table_Some [of ?ps a] by (fastforce simp: in_set_conv_nth)
      then have "r \<le> i" using r(2) [of i] by simp
      then show False using False i sorted_addrs_nth [OF so, of r i] by (cases "r = i") auto
    qed
    then show ?thesis using False assms by (auto simp: mmap_remove_def Let_def simp flip: r_def)
  qed
qed

subsection \<open>Every sequence of calls\<close>

datatype mm_act = Map u64 u64 u32 u32 int | Unmap u64 u64

fun mm_step :: "mm_act \<Rightarrow> xmmap \<Rightarrow> xmmap res" where
  "mm_step (Map a len pr flags fd) s = rbind (xmmap_map a len pr flags fd s) (\<lambda>(_, s'). Inr s')"
| "mm_step (Unmap a len) s = Inr (snd (xmmap_unmap a len s))"

text \<open>The mappings of the program: what was mapped, less what was unmapped.\<close>

fun spec_step :: "mm_act \<Rightarrow> (u64 \<rightharpoonup> int \<times> u32) \<Rightarrow> (u64 \<rightharpoonup> int \<times> u32)" where
  "spec_step (Map a len pr flags fd) T = (\<lambda>x. if x \<in> page_range a len then Some (fd, pr) else T x)"
| "spec_step (Unmap a len) T = (\<lambda>x. if x \<in> page_range a len then None else T x)"

text \<open>
  \<open>mmap\<close> returns a range that is free; \<open>munmap\<close> is given a range that begins at a mapped page, or that
  has none.
\<close>

fun act_ok :: "(u64 \<rightharpoonup> int \<times> u32) \<Rightarrow> mm_act \<Rightarrow> bool" where
  "act_ok T (Map a len pr flags fd) \<longleftrightarrow> range_ok a len \<and> (\<forall>x\<in>page_range a len. T x = None)"
| "act_ok T (Unmap a len) \<longleftrightarrow> range_ok a len \<and> (T a \<noteq> None \<or> (\<forall>x\<in>page_range a len. T x = None))"

fun acts_ok :: "(u64 \<rightharpoonup> int \<times> u32) \<Rightarrow> mm_act list \<Rightarrow> bool" where
  "acts_ok T [] \<longleftrightarrow> True"
| "acts_ok T (a # as) \<longleftrightarrow> act_ok T a \<and> acts_ok (spec_step a T) as"

lemma MAP_FAILED_not_ok: "range_ok a len \<Longrightarrow> a \<noteq> MAP_FAILED"
  by (auto simp: range_ok_def MAP_FAILED_def unsigned_minus_1_eq_mask mask_eq_exp_minus_1)

lemma mm_ok_kernel [simp]: "mm_ok (s\<lparr>kernel := k\<rparr>) = mm_ok s"
  by (simp add: mm_ok_def)

lemma mm_step_refines:
  assumes "mm_ok s" "table (mpages s) = T" "act_ok T a"
  shows "\<exists>s'. mm_step a s = Inr s' \<and> mm_ok s' \<and> table (mpages s') = spec_step a T"
proof (cases a)
  case (Map x len pr flags fd)
  let ?s = "s\<lparr>kernel := (\<lambda>y. if y \<in> page_range x len then Some (fst (map_request flags)) else kernel s y)\<rparr>"
  from add_keeps [of ?s x len fd pr] obtain s' where
    "mmap_add x len fd pr ?s = Inr s'" "mm_ok s'" "table (mpages s') = spec_step a T"
    using assms Map by (auto simp: fun_eq_iff)
  then show ?thesis using MAP_FAILED_not_ok [of x len] assms(3) Map by (simp add: xmmap_map_def)
next
  case (Unmap x len)
  let ?s = "s\<lparr>kernel := (\<lambda>y. if y \<in> page_range x len then None else kernel s y)\<rparr>"
  have r: "range_ok x len" using assms(3) Unmap by simp
  then have "aligned x \<and> len \<noteq> 0" by (auto simp: range_ok_def)
  then have "mm_step a s = Inr (mmap_remove x len ?s)"
    using Unmap by (simp add: xmmap_unmap_def sys_munmap_def)
  moreover have "mm_ok (mmap_remove x len ?s) \<and> table (mpages (mmap_remove x len ?s)) = spec_step a T"
    using remove_keeps [of ?s x len] r assms Unmap by (auto simp: fun_eq_iff)
  ultimately show ?thesis by simp
qed

lemma mm_run_refines:
  assumes "acts_ok T as" "mm_ok s" "table (mpages s) = T"
  shows "\<exists>s'. rfold mm_step as s = Inr s' \<and> mm_ok s' \<and> table (mpages s') = fold spec_step as T"
  using assms
proof (induction as arbitrary: s T)
  case (Cons a as)
  then obtain s1 where "mm_step a s = Inr s1" "mm_ok s1" "table (mpages s1) = spec_step a T"
    using mm_step_refines [of s T a] by auto
  then show ?case using Cons.IH [of "spec_step a T" s1] Cons.prems(1) by simp
qed simp

text \<open>
  C18: The vector of mapped pages implements the map of the program's mappings, for the calls that
  \<open>acts_ok\<close> allows: every range is at most 2 GB long, a mapping does not cover pages that are mapped
  already, and an \<open>munmap\<close> begins at a mapped page or covers none. After any such calls a fault finds the
  mapping of its page, with its descriptor and protection, if and only if the page is mapped. Outside
  these limits the code does not: the pages of an \<open>munmap\<close> that begins in a hole stay in the vector
  (\<open>unmap_from_hole_stale\<close>), a mapping over a mapped page leaves two entries for it, and the number of
  pages of a longer range is computed in an \<open>int\<close>.
\<close>

theorem mmap_refines:
  assumes "acts_ok Map.empty as"
  shows "\<exists>s. rfold mm_step as xmmap_new = Inr s \<and>
    (\<forall>ptr. map_option (\<lambda>p. (page_addr p, page_fd p, page_protection p)) (mmap_find ptr s) =
       map_option (\<lambda>(fd, pr). (PAGE_ALIGN_DOWN ptr, fd, pr)) (fold spec_step as Map.empty (PAGE_ALIGN_DOWN ptr)))"
  using mm_run_refines [OF assms, of xmmap_new] mmap_find_table
  by (fastforce simp: xmmap_new_def mm_ok_def table_def)

definition demo_acts :: "mm_act list" where
  "demo_acts = [Map 8192 8192 3 2 7, Map 4096 100 1 1 8, Unmap 8192 4096]"

lemma page_range_demo:
  "x \<in> page_range 8192 8192 \<Longrightarrow> x \<notin> page_range 4096 100"
  "8192 \<in> page_range 8192 8192" "8192 \<in> page_range 8192 4096"
  "12288 \<in> page_range 8192 8192" "12288 \<notin> page_range 8192 4096" "12288 \<notin> page_range 4096 100"
  "8192 \<notin> page_range 4096 100"
  by (auto simp: page_range_def aligned_def)

theorem mmap_refines_witness:
  "\<exists>s. rfold mm_step demo_acts xmmap_new = Inr s \<and> mmap_find 8200 s = None \<and>
    map_option page_fd (mmap_find 12300 s) = Some 7"
proof -
  have "acts_ok Map.empty demo_acts"
    using page_range_demo by (auto simp: demo_acts_def range_ok_def aligned_def)
  from mmap_refines [OF this] obtain s where s: "rfold mm_step demo_acts xmmap_new = Inr s"
    and f: "\<And>ptr. map_option (\<lambda>p. (page_addr p, page_fd p, page_protection p)) (mmap_find ptr s) =
       map_option (\<lambda>(fd, pr). (PAGE_ALIGN_DOWN ptr, fd, pr)) (fold spec_step demo_acts Map.empty (PAGE_ALIGN_DOWN ptr))"
    by blast
  have "PAGE_ALIGN_DOWN 8200 = 8192" "PAGE_ALIGN_DOWN 12300 = 12288"
    by (simp_all add: PAGE_ALIGN_DOWN_def PAGE_SIZE_MASK_def PageSize_def)
  then have "fold spec_step demo_acts Map.empty (PAGE_ALIGN_DOWN 8200) = None"
    "fold spec_step demo_acts Map.empty (PAGE_ALIGN_DOWN 12300) = Some (7, 3)"
    using page_range_demo by (simp_all add: demo_acts_def)
  then show ?thesis using s f [of 8200] f [of 12300] by auto
qed

subsection \<open>What goes wrong\<close>

text \<open>
  A range that begins before the first mapped page is unmapped by the system, but its pages stay in
  the vector.
\<close>

lemma unmap_from_hole_stale:
  assumes "mm_ok s" "range_ok a len" "aligned a" "\<forall>p\<in>set (mpages s). page_addr p \<noteq> a"
  shows "mpages (snd (xmmap_unmap a len s)) = mpages s \<and>
    (\<forall>x\<in>page_range a len. kernel (snd (xmmap_unmap a len s)) x = None)"
proof -
  let ?ps = "mpages s"
  define r where "r = lower_bound ?ps a 0 (length ?ps)"
  have so: "sorted_wrt (<) (addrs ?ps)" using assms(1) by (auto simp: mm_ok_def)
  have "\<not> (r < length ?ps \<and> page_addr (?ps ! r) \<le> a)"
    using lower_bound_split [OF so, of 0 "length ?ps" a] assms(4) nth_mem [of r ?ps] by (fastforce simp: r_def)
  then show ?thesis
    using assms(2,3) by (auto simp: xmmap_unmap_def sys_munmap_def mmap_remove_def Let_def range_ok_def simp flip: r_def)
qed

end
