(* ===== verification/Heap_Api.thy ===== *)
theory Heap_Api
  imports Heap_Clients Bytes
begin

text \<open>
  The allocation functions above the heap: \<open>realloc\<close> of \<^verbatim>\<open>xmemory.h\<close>, \<open>calloc\<close>, \<open>realloc\<close> and
  \<open>memalign\<close> of \<^verbatim>\<open>xrun.h\<close>, and the functions \<^verbatim>\<open>tthread.cpp\<close> exports, with the table of mappings that
  serves the calls made before the library is initialised.

  \<open>heapid\<close> is the index of the thread modulo the number of heaps. \<open>memcpy\<close> and \<open>memset\<close> work on the
  cells of the store, the last one partly.
\<close>

subsection \<open>memcpy and memset\<close>

definition part :: "nat \<Rightarrow> nat \<Rightarrow> u64" where
  "part n k = mask (8 * min 8 (n - 8 * k))"

definition cell_at :: "u64 \<Rightarrow> nat \<Rightarrow> u64" where
  "cell_at p k = p + of_nat (8 * k)"

definition copy_cell :: "u64 \<Rightarrow> u64 \<Rightarrow> nat \<Rightarrow> nat \<Rightarrow> mem \<Rightarrow> mem" where
  "copy_cell dst src n k m =
     m(cell_at dst k := (m (cell_at src k) AND part n k) OR (m (cell_at dst k) AND NOT (part n k)))"

definition memcpy :: "u64 \<Rightarrow> u64 \<Rightarrow> nat \<Rightarrow> mem \<Rightarrow> mem" where
  "memcpy dst src n m = fold (copy_cell dst src n) [0 ..< (n + 7) div 8] m"

definition zero_cell :: "u64 \<Rightarrow> nat \<Rightarrow> nat \<Rightarrow> mem \<Rightarrow> mem" where
  "zero_cell dst n k m = m(cell_at dst k := m (cell_at dst k) AND NOT (part n k))"

definition memset0 :: "u64 \<Rightarrow> nat \<Rightarrow> mem \<Rightarrow> mem" where
  "memset0 dst n m = fold (zero_cell dst n) [0 ..< (n + 7) div 8] m"

abbreviation upd_cells :: "(mem \<Rightarrow> mem) \<Rightarrow> 's ppheap \<Rightarrow> 's ppheap" where
  "upd_cells f P \<equiv> P\<lparr>stored := (stored P)\<lparr>cells := f (cells (stored P))\<rparr>\<rparr>"

subsection \<open>The heap of xmemory and xrun\<close>

definition heap_id :: "nat \<Rightarrow> nat" where
  "heap_id threadindex = threadindex mod unat NUM_HEAPS"

definition mem_realloc :: "'s malloc_fn \<Rightarrow> u64 \<Rightarrow> nat \<Rightarrow> u64 \<Rightarrow> u64 \<Rightarrow> 's ppheap \<Rightarrow> (u64 \<times> 's ppheap) res" where
  "mem_realloc smalloc chunk heapid ptr sz P =
     rbind (pp_getSize ptr P) (\<lambda>s.
     rbind (pp_malloc smalloc chunk heapid sz P) (\<lambda>(newptr, P1).
       let copySz = (if s < sz then s else sz);
           P2 = (if newptr \<noteq> 0 then upd_cells (memcpy newptr ptr (unat copySz)) P1 else P1) in
       rbind (pp_free heapid ptr P2) (\<lambda>P3. Inr (newptr, P3))))"

text \<open>The product may wrap. \<open>memset\<close> of a null pointer faults.\<close>

definition run_calloc :: "'s malloc_fn \<Rightarrow> u64 \<Rightarrow> nat \<Rightarrow> u64 \<Rightarrow> u64 \<Rightarrow> 's ppheap \<Rightarrow> (u64 \<times> 's ppheap) res" where
  "run_calloc smalloc chunk heapid nmemb sz P =
     rbind (pp_malloc smalloc chunk heapid (nmemb * sz) P) (\<lambda>(ptr, P1).
       if ptr = 0 \<and> nmemb * sz \<noteq> 0 then Inl Segv
       else Inr (ptr, upd_cells (memset0 ptr (unat (nmemb * sz))) P1))"

definition run_realloc :: "'s malloc_fn \<Rightarrow> u64 \<Rightarrow> nat \<Rightarrow> u64 \<Rightarrow> u64 \<Rightarrow> 's ppheap \<Rightarrow> (u64 \<times> 's ppheap) res" where
  "run_realloc smalloc chunk heapid ptr sz P =
     (if ptr = 0 then pp_malloc smalloc chunk heapid sz P
      else if sz = 0 then rbind (pp_free heapid ptr P) (\<lambda>P1. Inr (0, P1))
      else mem_realloc smalloc chunk heapid ptr sz P)"

text \<open>
  A size class is free for an alignment of at most 32 bytes; a larger one is cut out of a larger
  object, whose header gets a negative size before it is freed, and the new object a header of its
  own.
\<close>

definition run_memalign :: "'s malloc_fn \<Rightarrow> u64 \<Rightarrow> nat \<Rightarrow> u64 \<Rightarrow> u64 \<Rightarrow> 's ppheap \<Rightarrow> (u64 \<times> 's ppheap) res" where
  "run_memalign smalloc chunk heapid align sz P =
     (if align AND (- align) \<noteq> align then Inr (0, P)
      else if align \<le> 4 * 8 then pp_malloc smalloc chunk heapid sz P
      else
        rbind (pp_malloc smalloc chunk heapid (sz + align - 1) P) (\<lambda>(mem, P1).
          if mem = 0 then Inr (0, P1)
          else
            let aligned = (mem + align - 1) AND (- align) in
            if aligned = mem then Inr (mem, P1)
            else
              rbind (pp_free heapid mem
                (upd_cells (objectHeader_init (mem - sizeof_objectHeader) (mem - aligned - sizeof_objectHeader)) P1))
                (\<lambda>P2. Inr (aligned, upd_cells (objectHeader_init (aligned - sizeof_objectHeader) sz) P2))))"

subsection \<open>The exported functions\<close>

text \<open>
  \<open>preinit\<close> is the table of mappings, 1024 entries of address and size; the address \<open>res\<close> a mapping
  is placed at comes from the system.
\<close>

record 's api =
  initialized :: bool
  preinit :: "(u64 \<times> u64) list"
  api_heap :: "'s ppheap"

definition MAX_MMAP_ALLOCATIONS :: nat where "MAX_MMAP_ALLOCATIONS = 1024"

definition api_new :: "'s ppheap \<Rightarrow> 's api" where
  "api_new P = \<lparr>initialized = False, preinit = replicate MAX_MMAP_ALLOCATIONS (0, 0), api_heap = P\<rparr>"

definition SYS_FAILED :: u64 where "SYS_FAILED = - 1"

text \<open>The loops over the table stop at the first entry with the address.\<close>

fun find_entry :: "u64 \<Rightarrow> (u64 \<times> u64) list \<Rightarrow> nat option" where
  "find_entry ptr [] = None"
| "find_entry ptr (e # es) = (if fst e = ptr then Some 0 else map_option Suc (find_entry ptr es))"

definition pre_malloc :: "u64 \<Rightarrow> u64 \<Rightarrow> 's api \<Rightarrow> (u64 \<times> 's api) res" where
  "pre_malloc res sz A =
     (case find_entry 0 (preinit A) of
        None \<Rightarrow> Inl Abort
      | Some i \<Rightarrow> Inr (if res = SYS_FAILED then 0 else res, A\<lparr>preinit := (preinit A)[i := (res, sz)]\<rparr>))"

definition api_malloc :: "'s malloc_fn \<Rightarrow> u64 \<Rightarrow> nat \<Rightarrow> u64 \<Rightarrow> u64 \<Rightarrow> 's api \<Rightarrow> (u64 \<times> 's api) res" where
  "api_malloc smalloc chunk heapid res sz A =
     (if initialized A
      then rbind (pp_malloc smalloc chunk heapid sz (api_heap A)) (\<lambda>(ptr, P).
             if ptr = 0 then Inl Abort else Inr (ptr, A\<lparr>api_heap := P\<rparr>))
      else pre_malloc res sz A)"

text \<open>A fresh mapping is zero; before the initialisation only the null pointer matters.\<close>

definition api_calloc :: "'s malloc_fn \<Rightarrow> u64 \<Rightarrow> nat \<Rightarrow> u64 \<Rightarrow> u64 \<Rightarrow> u64 \<Rightarrow> 's api \<Rightarrow> (u64 \<times> 's api) res" where
  "api_calloc smalloc chunk heapid res nmemb sz A =
     (if initialized A
      then rbind (run_calloc smalloc chunk heapid nmemb sz (api_heap A)) (\<lambda>(ptr, P).
             if ptr = 0 then Inl Abort
             else Inr (ptr, A\<lparr>api_heap := upd_cells (memset0 ptr (unat (sz * nmemb))) P\<rparr>))
      else rbind (api_malloc smalloc chunk heapid res (nmemb * sz) A) (\<lambda>(ptr, A1).
             if ptr = 0 then Inl (if nmemb * sz \<noteq> 0 then Segv else Abort) else Inr (ptr, A1)))"

definition api_free :: "nat \<Rightarrow> u64 \<Rightarrow> 's api \<Rightarrow> 's api res" where
  "api_free heapid ptr A =
     (if initialized A then rbind (pp_free heapid ptr (api_heap A)) (\<lambda>P. Inr (A\<lparr>api_heap := P\<rparr>))
      else
        case find_entry ptr (preinit A) of
          None \<Rightarrow> Inr A
        | Some i \<Rightarrow> Inr (A\<lparr>preinit := (preinit A)[i := (0, 0)]\<rparr>))"

definition api_memalign :: "'s malloc_fn \<Rightarrow> u64 \<Rightarrow> nat \<Rightarrow> u64 \<Rightarrow> u64 \<Rightarrow> 's api \<Rightarrow> (u64 \<times> 's api) res" where
  "api_memalign smalloc chunk heapid boundary sz A =
     (if initialized A
      then rbind (run_memalign smalloc chunk heapid boundary sz (api_heap A)) (\<lambda>(ptr, P). Inr (ptr, A\<lparr>api_heap := P\<rparr>))
      else Inr (0, A))"

definition api_malloc_usable_size :: "u64 \<Rightarrow> 's api \<Rightarrow> u64 res" where
  "api_malloc_usable_size ptr A =
     (if initialized A then pp_getSize ptr (api_heap A)
      else
        case find_entry ptr (preinit A) of
          None \<Rightarrow> Inr 0
        | Some i \<Rightarrow> Inr (snd (preinit A ! i)))"

text \<open>\<open>mremap\<close> without \<open>MREMAP_MAYMOVE\<close>; \<open>ok\<close> says whether the system could resize in place.\<close>

definition api_realloc :: "'s malloc_fn \<Rightarrow> u64 \<Rightarrow> nat \<Rightarrow> bool \<Rightarrow> u64 \<Rightarrow> u64 \<Rightarrow> 's api \<Rightarrow> (u64 \<times> 's api) res" where
  "api_realloc smalloc chunk heapid ok ptr sz A =
     (if initialized A
      then rbind (run_realloc smalloc chunk heapid ptr sz (api_heap A)) (\<lambda>(p, P). Inr (p, A\<lparr>api_heap := P\<rparr>))
      else
        case find_entry ptr (preinit A) of
          None \<Rightarrow> Inr (0, A)
        | Some i \<Rightarrow> if \<not> ok then Inr (0, A) else Inr (ptr, A\<lparr>preinit := (preinit A)[i := (ptr, sz)]\<rparr>))"

end
