(* ===== verification/Heap_Api_Props.thy ===== *)
theory Heap_Api_Props
  imports Heap_Api
begin

text \<open>
  \<open>realloc\<close> moves an object without losing a byte of it or touching another; \<open>memalign\<close> does not align
  to 32 bytes; the table of early mappings is a map until it is full.
\<close>

subsection \<open>Copying cells\<close>

definition cell_byte :: "mem \<Rightarrow> u64 \<Rightarrow> nat \<Rightarrow> u8" where
  "cell_byte m p j = le_byte (m (cell_at p (j div 8))) (j mod 8)"

lemma fold_writes_other:
  fixes dst a :: u64
  assumes "\<forall>k\<in>set ks. a \<noteq> cell_at dst k"
  shows "fold (\<lambda>k m. m(cell_at dst k := f k m)) ks m a = m a"
  using assms by (induction ks arbitrary: m) auto

lemma memcpy_other:
  assumes "\<forall>k<(n + 7) div 8. a \<noteq> cell_at dst k"
  shows "memcpy dst src n m a = m a"
  unfolding memcpy_def copy_cell_def by (rule fold_writes_other) (use assms in simp)

lemma memcpy_cell:
  assumes "k < (n + 7) div 8" "\<forall>j<(n + 7) div 8. cell_at src k \<noteq> cell_at dst j"
    "\<forall>j<(n + 7) div 8. j \<noteq> k \<longrightarrow> cell_at dst k \<noteq> cell_at dst j"
  shows "memcpy dst src n m (cell_at dst k) =
    (m (cell_at src k) AND part n k) OR (m (cell_at dst k) AND NOT (part n k))"
proof -
  let ?K = "(n + 7) div 8"
  have sp: "[0 ..< ?K] = [0 ..< k] @ k # [Suc k ..< ?K]"
    using assms(1) upt_add_eq_append [of 0 k "?K - k"] upt_conv_Cons [of k ?K] by simp
  let ?m1 = "fold (copy_cell dst src n) [0 ..< k] m"
  have "?m1 (cell_at src k) = m (cell_at src k)" "?m1 (cell_at dst k) = m (cell_at dst k)"
    unfolding copy_cell_def
    by (rule fold_writes_other; use assms in \<open>simp add: less_trans [OF _ assms(1)]\<close>; metis assms(1) less_trans nat_neq_iff)+
  moreover have "fold (copy_cell dst src n) [Suc k ..< ?K] m' (cell_at dst k) = m' (cell_at dst k)" for m'
    unfolding copy_cell_def using assms(3) by (intro fold_writes_other) auto
  ultimately show ?thesis
    unfolding memcpy_def sp by (simp add: copy_cell_def)
qed

lemma part_byte:
  assumes "j < n"
  shows "le_byte ((x AND part n (j div 8)) OR (y AND NOT (part n (j div 8)))) (j mod 8) = le_byte x (j mod 8)"
proof -
  have "8 * (j mod 8) + i < 8 * min 8 (n - 8 * (j div 8))" if "i < 8" for i
  proof -
    have "j mod 8 < min 8 (n - 8 * (j div 8))" using assms by (auto simp: min_def) (metis add_diff_cancel_left' diff_less_mono minus_mod_eq_mult_div mod_less_eq_dividend mult_div_mod_eq le_add1)
    then show ?thesis using that by linarith
  qed
  then show ?thesis
    by (intro bit_eqI) (auto simp: le_byte_def part_def bit_simps)
qed

subsection \<open>Writing into an object\<close>

context source_heap
begin

lemma writes_good:
  assumes "good (P, H)" "H q = Some sz" "\<forall>k\<in>set ks. unat (cell_at q k) \<in> region q sz"
  shows "good (upd_cells (fold (\<lambda>k m. m(cell_at q k := f k m)) ks) P, H)"
  using assms
proof (induction ks arbitrary: P)
  case (Cons k ks)
  let ?P = "upd_cells (\<lambda>m. m(cell_at q k := f k m)) P"
  have "good (?P, H)" using store_good [OF Cons.prems(1,2), of "cell_at q k"] Cons.prems(3) by simp
  from Cons.IH [OF this Cons.prems(2)] show ?case using Cons.prems(3) by simp
qed simp

lemma region_top:
  assumes "good (P, H)" "H q = Some sz"
  shows "unat q + unat sz < 2 ^ 64"
proof -
  obtain G where G: "heap_inv sinv owned P G" "held_ok G H" using assms(1) by (auto simp: good_def)
  obtain s where "carved G q = Some s" "sz \<le> s" using held_okD [OF G(2) assms(2)] by blast
  then show ?thesis using G(1) by (fastforce simp: heap_inv_def objs_ok_def word_le_nat_alt)
qed

lemma cell_in_region:
  assumes "good (P, H)" "H q = Some sz" "8 * k < unat sz"
  shows "unat (cell_at q k) = unat q + 8 * k" "unat (cell_at q k) \<in> region q sz"
proof -
  have "unat q + 8 * k < 2 ^ 64" using region_top [OF assms(1,2)] assms(3) by simp
  then show u: "unat (cell_at q k) = unat q + 8 * k"
    using unat_of_nat_u64 [of "8 * k"] by (simp add: cell_at_def unat_word_ariths)
  then show "unat (cell_at q k) \<in> region q sz" using assms(3) by (simp add: region_def)
qed

text \<open>Copying into a new object \<open>q\<close> what an older one \<open>p\<close> holds.\<close>

lemma memcpy_good:
  assumes g: "good (P, H)" and q: "H q = Some sz" and p: "H p = Some s" "p \<noteq> q" and n: "n \<le> unat sz"
  shows "good (upd_cells (memcpy q p n) P, H)"
    "j < n \<Longrightarrow> j < unat s \<Longrightarrow> cell_byte (memcpy q p n (cells (stored P))) q j = cell_byte (cells (stored P)) p j"
    "H r = Some t \<Longrightarrow> r \<noteq> q \<Longrightarrow> unat a \<in> region r t \<Longrightarrow> memcpy q p n (cells (stored P)) a = cells (stored P) a"
proof -
  have k: "8 * k < unat sz" if "k < (n + 7) div 8" for k using that n by linarith
  note qk = cell_in_region [OF g q k]
  show "good (upd_cells (memcpy q p n) P, H)"
    unfolding memcpy_def copy_cell_def by (rule writes_good [OF g q]) (use qk in force)
  show "memcpy q p n (cells (stored P)) a = cells (stored P) a" if "H r = Some t" "r \<noteq> q" "unat a \<in> region r t"
    using good_objects(4) [OF g that(1) q that(2)] that(3) qk by (intro memcpy_other) blast
  show "cell_byte (memcpy q p n (cells (stored P))) q j = cell_byte (cells (stored P)) p j" if j: "j < n" "j < unat s"
  proof -
    let ?k = "j div 8"
    have kn: "?k < (n + 7) div 8" using j(1) by linarith
    have pk: "unat (cell_at p ?k) \<in> region p s" using cell_in_region(2) [OF g p(1), of ?k] j(2) by simp
    have "\<forall>i<(n + 7) div 8. cell_at p ?k \<noteq> cell_at q i"
      using good_objects(4) [OF g p(1) q p(2)] pk qk by (metis disjoint_iff)
    moreover have "\<forall>i<(n + 7) div 8. i \<noteq> ?k \<longrightarrow> cell_at q ?k \<noteq> cell_at q i"
      using qk kn by (metis add_left_imp_eq mult_left_cancel zero_neq_numeral)
    ultimately show ?thesis
      unfolding cell_byte_def using memcpy_cell [OF kn] part_byte [OF j(1)] by simp
  qed
qed

lemma realloc_good:
  assumes g: "good (P, H)" and p: "H p = Some s" and r: "mem_realloc smalloc chunk i p sz P = Inr (q, P')"
    and sz: "unat sz + 100 \<le> unat cap" "32 + unat chunk \<le> unat cap"
      "55 + unat maxObjectSize \<le> unat cap \<or> 2 * unat sz + 101 \<le> unat cap"
    and q: "q \<noteq> 0"
  shows "H q = None" "good (P', (H(q \<mapsto> sz))(p := None))"
    "j < unat s \<Longrightarrow> j < unat sz \<Longrightarrow> cell_byte (cells (stored P')) q j = cell_byte (cells (stored P)) p j"
    "H t = Some u \<Longrightarrow> t \<noteq> p \<Longrightarrow> unat a \<in> region t u \<Longrightarrow> cells (stored P') a = cells (stored P) a"
proof -
  obtain n P1 where n: "pp_getSize p P = Inr n" and P1: "pp_malloc smalloc chunk i sz P = Inr (q, P1)"
    and fr: "pp_free i p (upd_cells (memcpy q p (unat (if n < sz then n else sz))) P1) = Inr P'"
    using r q by (auto simp: mem_realloc_def rbind_Inr_iff Let_def)
  let ?n = "unat (if n < sz then n else sz)" and ?H = "H(q \<mapsto> sz)"
  let ?P2 = "upd_cells (memcpy q p ?n) P1"
  have sn: "s \<le> n" using good_objects(5) [OF g p] n by auto
  have a: "good (P1, ?H)" "H q = None"
    "\<forall>p s a. H p = Some s \<longrightarrow> unat a \<in> region p s \<longrightarrow> cells (stored P1) a = cells (stored P) a"
    using alloc_good [OF g P1 sz] q by auto
  show "H q = None" by (rule a(2))
  have pq: "p \<noteq> q" "?H q = Some sz" "?H p = Some s" using p a(2) by auto
  have le: "?n \<le> unat sz" by (simp add: word_less_nat_alt)
  note c = memcpy_good [OF a(1) pq(2,3,1) le]
  obtain P3 where P3: "pp_free i p ?P2 = Inr P3" "good (P3, ?H(p := None))"
    "\<forall>t u a. t \<noteq> p \<longrightarrow> ?H t = Some u \<longrightarrow> unat a \<in> region t u \<longrightarrow> cells (stored P3) a = cells (stored ?P2) a"
    using release_good [OF c(1) pq(3)] by blast
  have P': "P' = P3" using fr P3(1) by simp
  show "good (P', (H(q \<mapsto> sz))(p := None))" using P3(2) P' by simp
  show "cells (stored P') a = cells (stored P) a" if "H t = Some u" "t \<noteq> p" "unat a \<in> region t u"
  proof -
    have "t \<noteq> q" using that(1) a(2) by auto
    then show ?thesis using that P3(3) c(3) [of t u a] a(3) P' by simp
  qed
  show "cell_byte (cells (stored P')) q j = cell_byte (cells (stored P)) p j" if j: "j < unat s" "j < unat sz"
  proof -
    have jn: "j < ?n" using j sn by (auto simp: word_le_nat_alt)
    have "8 * (j div 8) < unat sz" using j(2) by simp
    then have "unat (cell_at q (j div 8)) \<in> region q sz"
      using cell_in_region(2) [OF a(1) pq(2), of "j div 8"] by blast
    then have "cell_byte (cells (stored P')) q j = cell_byte (memcpy q p ?n (cells (stored P1))) q j"
      using P3(3) [rule_format, OF pq(1) [symmetric] pq(2)] P' by (simp only: cell_byte_def) simp
    also have "\<dots> = cell_byte (cells (stored P1)) p j" by (rule c(2) [OF jn j(1)])
    also have "\<dots> = cell_byte (cells (stored P)) p j"
      using cell_in_region(2) [OF g p, of "j div 8"] a(3) p j(1) by (simp add: cell_byte_def)
    finally show ?thesis .
  qed
qed

end

subsection \<open>realloc\<close>

text \<open>
  C23: \<open>realloc\<close> of a held object, in any state any threads can reach, gives an object nobody holds
  that begins with the bytes of the old one, as many as fit, and changes no byte of any other
  object; or the program ends because the region is exhausted.
\<close>

theorem realloc_safe:
  assumes "app_step\<^sup>*\<^sup>* (app_init base m, Map.empty) (P, H)"
    and "4096 dvd unat base" "unat base + unat PROTECTEDHEAP_SIZE < 2 ^ 64" "H p = Some s" "unat sz \<le> 2 ^ 63"
  shows "case mem_realloc xheap_malloc PROTECTEDHEAP_CHUNK i p sz P of
      Inl e \<Rightarrow> e = Exit
    | Inr (q, P') \<Rightarrow> q \<noteq> 0 \<longrightarrow> H q = None \<and>
        (\<forall>j. j < unat s \<longrightarrow> j < unat sz \<longrightarrow> cell_byte (cells (stored P')) q j = cell_byte (cells (stored P)) p j) \<and>
        (\<forall>t u a. t \<noteq> p \<longrightarrow> H t = Some u \<longrightarrow> unat a \<in> region t u \<longrightarrow>
          cells (stored P') a = cells (stored P) a)"
proof -
  note g = app_good [OF assms(1-3)]
  have "unat sz + 100 \<le> unat (- 4096 :: u64)" using assms(5) app_lim(1) by linarith
  note lim = this app_lim(2) disjI1 [OF app_lim(3)]
  show ?thesis
  proof (cases "mem_realloc xheap_malloc PROTECTEDHEAP_CHUNK i p sz P")
    case (Inr r)
    then show ?thesis using xs.realloc_good [OF g assms(4) _ lim] by (cases r) auto
  next
    case (Inl e)
    obtain n where n: "pp_getSize p P = Inr n" using xs.good_objects(5) [OF g assms(4)] by blast
    show ?thesis
    proof (cases "pp_malloc xheap_malloc PROTECTEDHEAP_CHUNK i sz P")
      case (Inl e')
      moreover have "magic (source (stored P)) = 0xCAFEBABE"
        using g by (auto simp: xs.good_def heap_inv_def xheap_inv_def)
      ultimately have "e' = Exit"
        using pp_malloc_Inl [OF Inl]
        by (auto simp: xheap_malloc_def xheap_sanityCheck_def Let_def split: if_splits)
      then show ?thesis using n Inl by (simp add: mem_realloc_def)
    next
      case (Inr r)
      obtain q P1 where r: "r = (q, P1)" by (cases r)
      note a = xs.alloc_good [OF g Inr [unfolded r] lim]
      let ?n = "unat (if n < sz then n else sz)"
      have "\<exists>P3. pp_free i p (if q \<noteq> 0 then upd_cells (memcpy q p ?n) P1 else P1) = Inr P3"
      proof (cases "q = 0")
        case True
        then show ?thesis using a xs.release_good [of P1 H p s i] assms(4) by auto
      next
        case False
        then have h: "xs.good (P1, H(q \<mapsto> sz))" "p \<noteq> q" using a assms(4) by auto
        have "xs.good (upd_cells (memcpy q p ?n) P1, H(q \<mapsto> sz))"
          by (rule xs.memcpy_good(1) [OF h(1)]) (use assms(4) h(2) in \<open>auto simp: word_less_nat_alt\<close>)
        from xs.release_good [OF this, of p s i] show ?thesis using False assms(4) h(2) by auto
      qed
      then show ?thesis using Inl n Inr r by (auto simp: mem_realloc_def Let_def)
    qed
  qed
qed

theorem realloc_safe_witness:
  "\<exists>P. app_step\<^sup>*\<^sup>* (app_init 4096 (\<lambda>_. 0), Map.empty) (P, [4144 \<mapsto> 24, 4192 \<mapsto> 24]) \<and>
     (case mem_realloc xheap_malloc PROTECTEDHEAP_CHUNK 3 4144 100 P of
        Inl e \<Rightarrow> e = Exit
      | Inr (q, P') \<Rightarrow> q = 0 \<or> cell_byte (cells (stored P')) q 23 = cell_byte (cells (stored P)) 4144 23)"
proof -
  obtain P where r: "app_step\<^sup>*\<^sup>* (app_init 4096 (\<lambda>_. 0), Map.empty) (P, [4144 \<mapsto> 24, 4192 \<mapsto> 24])"
    using two_objects by blast
  from realloc_safe [OF this base_4096, of 4144 24 100 3] r show ?thesis
    by (intro exI [of _ P]) (auto split: sum.splits)
qed

subsection \<open>memalign\<close>

lemma size2Class_0: "size2Class 4 = 0" "size2Class 72 = 4"
  by code_simp+

text \<open>An alignment of 32 bytes is left to \<open>malloc\<close>, which aligns to 8.\<close>

lemma memalign_32_unaligned:
  "\<exists>P'. run_memalign xheap_malloc PROTECTEDHEAP_CHUNK 0 32 24 (app_init 4096 (\<lambda>_. 0)) = Inr (4144, P') \<and>
     (4144 :: u64) mod 32 \<noteq> 0"
  using two_mallocs by (auto simp: run_memalign_def)

text \<open>
  \<open>memalign(64, 4)\<close> writes the header of its object with the size 4, smaller than any size class;
  freeing the object takes a free list in front of the array of free lists.
\<close>

lemma memalign_small_free_faults:
  "\<exists>P'. run_memalign xheap_malloc PROTECTEDHEAP_CHUNK 0 64 4 (app_init 4096 (\<lambda>_. 0)) = Inr (4160, P') \<and>
     pp_free 0 4160 P' = Inl Segv"
  by (simp add: malloc_run run_memalign_def size2Class_0 pp_free_def ansi_free_def seg_free_def
      newsource_getSize_def getObject_def objectHeader_getSize_def objectHeader_sanityCheck_def MAGIC_def
      newsource_free_def zone_free_def seg_lower.simps)

subsection \<open>Before the initialisation\<close>

lemma find_entry_update:
  assumes "find_entry 0 es = Some i" "p \<noteq> 0"
  shows "find_entry p (es[i := (q, n)]) =
    (case find_entry p es of
       None \<Rightarrow> if q = p then Some i else None
     | Some j \<Rightarrow> if q = p then Some (min i j) else Some j)"
  using assms
proof (induction es arbitrary: i)
  case (Cons e es)
  then show ?case by (cases i) (auto split: option.splits if_splits)
qed simp

lemma find_entry_nth: "find_entry p es = Some i \<Longrightarrow> i < length es \<and> fst (es ! i) = p"
  by (induction es arbitrary: i) (auto split: if_splits)

text \<open>An early allocation can be measured, and the ones before it keep their sizes, until the table is full.\<close>

lemma pre_malloc_size:
  assumes "\<not> initialized A" "pre_malloc res sz A = Inr (p, A')" "res \<noteq> 0" "res \<noteq> SYS_FAILED"
    "find_entry res (preinit A) = None"
  shows "p = res \<and> api_malloc_usable_size res A' = Inr sz \<and>
    (\<forall>q. q \<noteq> 0 \<longrightarrow> q \<noteq> res \<longrightarrow> api_malloc_usable_size q A' = api_malloc_usable_size q A)"
proof -
  obtain i where i: "find_entry 0 (preinit A) = Some i" "p = res" "A' = A\<lparr>preinit := (preinit A)[i := (res, sz)]\<rparr>"
    using assms(2,4) by (auto simp: pre_malloc_def split: option.splits)
  have "api_malloc_usable_size q A' = api_malloc_usable_size q A" if "q \<noteq> 0" "q \<noteq> res" for q
  proof (cases "find_entry q (preinit A)")
    case (Some j)
    then have "j \<noteq> i" using find_entry_nth [OF Some] find_entry_nth [OF i(1)] that by auto
    then show ?thesis using that i find_entry_update [OF i(1), of q res sz] Some assms(1)
      by (simp add: api_malloc_usable_size_def)
  qed (use that i find_entry_update [OF i(1), of q res sz] assms(1) in \<open>simp add: api_malloc_usable_size_def\<close>)
  moreover have "api_malloc_usable_size res A' = Inr sz"
    using i find_entry_update [OF i(1) assms(3), of res sz] assms(1,5) find_entry_nth [OF i(1)]
    by (simp add: api_malloc_usable_size_def)
  ultimately show ?thesis using i(2) by simp
qed

end
