(* ===== verification/Xrun.thy ===== *)
theory Xrun
  imports Prelude
begin

text \<open>
  The engine of a process: \<^verbatim>\<open>xrun.h\<close>, which turns every synchronization call of the program into
  calls of the scheduler (\<^verbatim>\<open>determ.h\<close>), the memory (\<^verbatim>\<open>xmemory.h\<close>), the log and the thread functions
  of \<^verbatim>\<open>xthread.cpp\<close>.

  An operation maps the private state of the process to the calls it makes, in order, and the new
  state. What the calls answer is an argument of the operation. The calls themselves are the subject
  of \<open>Determ\<close>, \<open>Xmemory\<close> and \<open>Xlogger\<close>.
\<close>

record xrun =
  run_isCopyOnWrite :: bool
  thread_index :: nat
  fence_enabled :: bool
  children_threads_count :: u64
  lock_count :: u64
  token_holding :: bool
  thr_id :: int
  thunkId :: int

datatype call =
    Mem_initialize | Mem_setThreadIndex nat | Mem_cleanupOwnedBlocks
  | Mem_setCopyOnWrite bool | Mem_begin | Mem_commit | Mem_finalcommit bool | Mem_forceCommit | Mem_finalize
  | Log_end | Log_thunk u64 int | Log_finish
  | Sched_update nat | Sched_trigger int
  | Det_initialize | Det_registerMaster nat int | Det_registerThread nat int nat
  | Det_waitParentNotify | Det_waitChildRegistered | Det_notifyWaitingChildren
  | Det_startFence u64 | Det_waitFence bool | Det_getToken | Det_putToken
  | Det_join nat bool | Det_isSingleAliveThread bool | Det_cancel nat | Det_deregisterThread nat
  | Det_lock_isowner u64 bool | Det_isSingleWorkingThread bool | Det_lock_acquire u64 bool | Det_lock_release u64
  | Det_cond_wait u64 u64 | Det_cond_signal u64 | Det_cond_broadcast u64
  | Det_barrier_wait u64 | Det_sig_wait int
  | Thr_clone bool | Thr_join | Thr_kill int

type_synonym run_op = "xrun \<Rightarrow> call list \<times> xrun"

definition call1 :: "call \<Rightarrow> run_op" where "call1 c s = ([c], s)"
definition upd :: "(xrun \<Rightarrow> xrun) \<Rightarrow> run_op" where "upd f s = ([], f s)"
definition whenever :: "bool \<Rightarrow> run_op \<Rightarrow> run_op" where "whenever b f s = (if b then f s else ([], s))"
definition unless :: "bool \<Rightarrow> run_op \<Rightarrow> run_op" where "unless b f s = (if b then ([], s) else f s)"

fun seq :: "run_op list \<Rightarrow> run_op" where
  "seq [] s = ([], s)"
| "seq (f # fs) s = (case f s of (c, s1) \<Rightarrow> case seq fs s1 of (d, s2) \<Rightarrow> (c @ d, s2))"

subsection \<open>The thread\<close>

definition setId :: "int \<Rightarrow> xrun \<Rightarrow> xrun" where
  "setId i s = (if i \<noteq> thr_id s then s\<lparr>thunkId := 0, thr_id := i\<rparr> else s\<lparr>thr_id := i\<rparr>)"

definition startThunk :: "xrun \<Rightarrow> xrun" where "startThunk s = s\<lparr>thunkId := thunkId s + 1\<rparr>"

subsection \<open>Construction\<close>

text \<open>The fields \<open>_tid\<close> and \<open>_thunkId\<close> start with what is in memory; \<open>setId\<close> resets the latter.\<close>

definition xrun_new :: "int \<Rightarrow> call list \<times> xrun" where
  "xrun_new pid =
     seq [upd (setId pid), call1 (Sched_update 0), call1 Mem_initialize, call1 (Mem_setThreadIndex 0),
          call1 Det_initialize, call1 (Det_registerMaster 0 pid)]
       \<lparr>run_isCopyOnWrite = False, thread_index = 0, fence_enabled = False, children_threads_count = 0,
        lock_count = 0, token_holding = False, thr_id = 0, thunkId = 0\<rparr>"

definition run_setCopyOnWrite :: "bool \<Rightarrow> run_op" where
  "run_setCopyOnWrite b s =
     (if b = run_isCopyOnWrite s then ([], s) else ([Mem_setCopyOnWrite b], s\<lparr>run_isCopyOnWrite := b\<rparr>))"

definition run_finalize :: run_op where
  "run_finalize = seq [call1 Log_end, call1 Mem_finalize]"

definition childRegister :: "nat \<Rightarrow> int \<Rightarrow> nat \<Rightarrow> run_op" where
  "childRegister index pid parentindex =
     seq [upd (\<lambda>s. s\<lparr>thread_index := index, lock_count := 0, token_holding := False\<rparr>), call1 (Sched_update index),
          upd (fence_enabled_update (\<lambda>_. True)), call1 (Det_registerThread index pid parentindex),
          call1 (Mem_setThreadIndex index), call1 Mem_cleanupOwnedBlocks]"

subsection \<open>Transactions, the fence and the token\<close>

definition atomicBegin :: "u64 \<Rightarrow> run_op" where
  "atomicBegin caller s =
     (if \<not> run_isCopyOnWrite s then ([], s)
      else
        let ends = (if 0 < thunkId s then [Log_end] else []); s1 = startThunk s in
        (ends @ [Sched_trigger (thunkId s1), Log_thunk caller (thunkId s1), Mem_begin], s1))"

definition atomicEnd :: run_op where
  "atomicEnd s = (if \<not> run_isCopyOnWrite s then ([], s) else ([Mem_commit], s))"

definition run_startFence :: run_op where
  "run_startFence s =
     ([Det_startFence (children_threads_count s)], s\<lparr>children_threads_count := 0, fence_enabled := True\<rparr>)"

definition closeFence :: run_op where
  "closeFence s = ([], s\<lparr>fence_enabled := False, children_threads_count := 0\<rparr>)"

definition waitFence :: run_op where "waitFence = call1 (Det_waitFence False)"

definition waitToken :: run_op where "waitToken = seq [call1 (Det_waitFence True), call1 Det_getToken]"

definition run_putToken :: run_op where "run_putToken = call1 Det_putToken"

subsection \<open>Threads\<close>

text \<open>\<open>forked\<close>: whether \<open>clone\<close> succeeded. The result of a failed one is \<open>NULL\<close>.\<close>

definition thread_spawn :: "bool \<Rightarrow> run_op" where
  "thread_spawn forked = seq [call1 (Thr_clone forked), whenever forked (call1 Det_waitChildRegistered)]"

definition run_spawn :: "u64 \<Rightarrow> bool \<Rightarrow> run_op" where
  "run_spawn caller forked s =
     seq [unless (run_isCopyOnWrite s) (seq [run_setCopyOnWrite True, atomicBegin caller]),
          atomicEnd, call1 (Mem_finalcommit True),
          whenever (fence_enabled s)
            (seq [waitToken, upd (\<lambda>s. s\<lparr>fence_enabled := False, children_threads_count := 0\<rparr>)]),
          upd (\<lambda>s. s\<lparr>children_threads_count := children_threads_count s + 1\<rparr>),
          thread_spawn forked, atomicBegin caller] s"

definition threadDeregister :: run_op where
  "threadDeregister s =
     seq [waitToken, call1 (Mem_finalcommit False), atomicEnd, call1 (Det_deregisterThread (thread_index s)),
          call1 Log_end, call1 Log_finish] s"

text \<open>The child of a \<open>clone\<close>: before and after the function of the thread.\<close>

definition child_start :: "u64 \<Rightarrow> int \<Rightarrow> nat \<Rightarrow> nat \<Rightarrow> run_op" where
  "child_start caller pid index parentindex =
     seq [upd (setId pid), childRegister index pid parentindex, call1 Det_waitParentNotify, atomicBegin caller]"

text \<open>\<open>v\<close> is \<open>None\<close> for \<open>NULL\<close>, else the index of the thread; \<open>single\<close> what \<open>isSingleAliveThread\<close> says.\<close>

definition run_join :: "u64 \<Rightarrow> nat option \<Rightarrow> bool \<Rightarrow> run_op" where
  "run_join caller v single s =
     (case v of
        None \<Rightarrow> ([], s)
      | Some child \<Rightarrow>
          seq [whenever (fence_enabled s) waitToken,
               atomicEnd, call1 (Mem_finalcommit True),
               unless (fence_enabled s) run_startFence,
               call1 (Det_join child (\<not> fence_enabled s)),
               run_putToken, call1 Thr_join, waitFence, atomicBegin caller,
               call1 (Det_isSingleAliveThread single),
               whenever single (seq [run_setCopyOnWrite False, closeFence])] s)"

text \<open>\<open>isFound\<close> is never set, so \<open>forceThreadCommit\<close> is never called.\<close>

definition run_cancel :: "u64 \<Rightarrow> nat \<Rightarrow> run_op" where
  "run_cancel caller v s =
     seq [unless (token_holding s) waitToken, atomicEnd, atomicBegin caller, call1 (Thr_kill 9), call1 (Det_cancel v),
          unless (token_holding s) (seq [run_putToken, waitFence])] s"

definition run_kill :: "u64 \<Rightarrow> nat \<Rightarrow> int \<Rightarrow> run_op" where
  "run_kill caller v sig s =
     seq [whenever (sig = 9 \<or> sig = 15) (run_cancel caller v),
          unless (token_holding s) waitToken, atomicEnd, call1 (Thr_kill sig), atomicBegin caller,
          unless (token_holding s) (seq [run_putToken, waitFence])] s"

subsection \<open>Mutexes\<close>

text \<open>
  The loop at \<open>getLockAgain\<close>; \<open>answers\<close> are the results of \<open>lock_acquire\<close> so far. The last component
  says whether the lock was got; if not, the thread is about to try again.
\<close>

definition lock_round_start :: "u64 \<Rightarrow> run_op" where
  "lock_round_start caller s =
     unless (token_holding s)
       (seq [waitToken, upd (token_holding_update (\<lambda>_. True)), atomicEnd, atomicBegin caller]) s"

definition lock_round_fail :: "u64 \<Rightarrow> run_op" where
  "lock_round_fail caller =
     seq [atomicEnd, run_putToken, atomicBegin caller, waitFence, upd (token_holding_update (\<lambda>_. False))]"

fun getLockAgain :: "u64 \<Rightarrow> u64 \<Rightarrow> bool list \<Rightarrow> xrun \<Rightarrow> call list \<times> xrun \<times> bool" where
  "getLockAgain caller mutex [] s = (case lock_round_start caller s of (c1, s1) \<Rightarrow> (c1, s1, False))"
| "getLockAgain caller mutex (a # as) s =
     (case lock_round_start caller s of
        (c1, s1) \<Rightarrow>
          if a then (c1 @ [Det_lock_acquire mutex True], s1, True)
          else case lock_round_fail caller s1 of
            (c2, s2) \<Rightarrow> case getLockAgain caller mutex as s2 of
              (c3, s3, got) \<Rightarrow> (c1 @ [Det_lock_acquire mutex False] @ c2 @ c3, s3, got))"

text \<open>\<open>owner\<close> and \<open>single\<close>: what \<open>lock_isowner\<close> and \<open>isSingleWorkingThread\<close> answer.\<close>

definition lock_enter :: "u64 \<Rightarrow> bool \<Rightarrow> bool \<Rightarrow> run_op" where
  "lock_enter mutex owner single s =
     seq [unless (fence_enabled s) (seq [run_startFence, call1 Det_notifyWaitingChildren]),
          upd (\<lambda>s. s\<lparr>lock_count := lock_count s + 1\<rparr>),
          call1 (Det_lock_isowner mutex owner), unless owner (call1 (Det_isSingleWorkingThread single))] s"

definition mutex_lock :: "u64 \<Rightarrow> u64 \<Rightarrow> bool \<Rightarrow> bool \<Rightarrow> bool list \<Rightarrow> xrun \<Rightarrow> call list \<times> xrun \<times> bool" where
  "mutex_lock caller mutex owner single answers s =
     (if \<not> fence_enabled s \<and> children_threads_count s = 0 then ([], s, True)
      else
        case lock_enter mutex owner single s of
          (c1, s1) \<Rightarrow>
            if owner \<or> single then
              case answers of
                [] \<Rightarrow> (c1, s1, False)
              | a # as \<Rightarrow>
                  if a then (c1 @ [Det_lock_acquire mutex True], s1, True)
                  else case getLockAgain caller mutex as s1 of
                    (c2, s2, got) \<Rightarrow> (c1 @ [Det_lock_acquire mutex False] @ c2, s2, got)
            else case getLockAgain caller mutex answers s1 of (c2, s2, got) \<Rightarrow> (c1 @ c2, s2, got))"

definition mutex_unlock :: "u64 \<Rightarrow> u64 \<Rightarrow> run_op" where
  "mutex_unlock caller mutex s =
     (if \<not> fence_enabled s then ([], s)
      else
        let s1 = s\<lparr>lock_count := lock_count s - 1\<rparr> in
        seq [call1 (Det_lock_release mutex),
             whenever (lock_count s1 = 0 \<and> token_holding s1)
               (seq [atomicEnd, run_putToken, upd (token_holding_update (\<lambda>_. False)), atomicBegin caller, waitFence])] s1)"

subsection \<open>Barriers, condition variables and signals\<close>

definition run_barrier_wait :: "u64 \<Rightarrow> run_op" where
  "run_barrier_wait barrier s =
     (if \<not> fence_enabled s \<and> children_threads_count s = 0 then ([], s)
      else
        seq [unless (fence_enabled s) (seq [run_startFence, call1 Det_notifyWaitingChildren]),
             waitToken, atomicEnd, call1 (Det_barrier_wait barrier)] s)"

definition run_sig_wait :: "u64 \<Rightarrow> int \<Rightarrow> run_op" where
  "run_sig_wait caller ret =
     seq [waitToken, atomicEnd, call1 (Det_sig_wait ret), whenever (ret = 0) (atomicBegin caller)]"

definition run_cond_wait :: "u64 \<Rightarrow> u64 \<Rightarrow> u64 \<Rightarrow> run_op" where
  "run_cond_wait caller cond mutex = seq [atomicEnd, call1 (Det_cond_wait cond mutex), atomicBegin caller]"

definition run_cond_notify :: "u64 \<Rightarrow> call \<Rightarrow> run_op" where
  "run_cond_notify caller c s =
     (if \<not> fence_enabled s then ([], s)
      else
        seq [unless (token_holding s) waitToken, atomicEnd, call1 c, atomicBegin caller,
             unless (token_holding s) (seq [run_putToken, waitFence])] s)"

definition run_cond_broadcast :: "u64 \<Rightarrow> u64 \<Rightarrow> run_op" where
  "run_cond_broadcast caller cond = run_cond_notify caller (Det_cond_broadcast cond)"

definition run_cond_signal :: "u64 \<Rightarrow> u64 \<Rightarrow> run_op" where
  "run_cond_signal caller cond = run_cond_notify caller (Det_cond_signal cond)"

end
