(* ===== verification/Xrun_Props.thy ===== *)
theory Xrun_Props
  imports Xrun
begin

text \<open>
  What makes the execution deterministic is that a process commits only while it holds the token, and
  what makes the log readable is that thunks are numbered and closed in order. Both are properties of
  the calls \<open>xrun\<close> makes, checked by the monitors \<open>commits_ok\<close> and \<open>log_ok\<close>; the first one needs the
  program to keep some rules, and two of the rules are ordinary uses of the thread library.
\<close>

subsection \<open>The synchronization calls of a program\<close>

datatype sync_op =
    Spawn u64 bool | Join u64 "nat option" bool | Cancel u64 nat
  | Lock u64 u64 bool bool "bool list" | Unlock u64 u64 | Barrier u64 | Sigwait u64 int
  | CondWait u64 u64 u64 | CondSignal u64 u64 | CondBroadcast u64 u64

fun run_sync :: "sync_op \<Rightarrow> run_op" where
  "run_sync (Spawn caller forked) s = run_spawn caller forked s"
| "run_sync (Join caller v single) s = run_join caller v single s"
| "run_sync (Cancel caller v) s = run_cancel caller v s"
| "run_sync (Lock caller m owner single answers) s =
     (case mutex_lock caller m owner single answers s of (c, s1, _) \<Rightarrow> (c, s1))"
| "run_sync (Unlock caller m) s = mutex_unlock caller m s"
| "run_sync (Barrier b) s = run_barrier_wait b s"
| "run_sync (Sigwait caller ret) s = run_sig_wait caller ret s"
| "run_sync (CondWait caller cond m) s = run_cond_wait caller cond m s"
| "run_sync (CondSignal caller cond) s = run_cond_signal caller cond s"
| "run_sync (CondBroadcast caller cond) s = run_cond_broadcast caller cond s"

lemmas run_defs = call1_def upd_def whenever_def unless_def atomicBegin_def atomicEnd_def startThunk_def
  run_startFence_def closeFence_def waitFence_def waitToken_def run_putToken_def run_setCopyOnWrite_def
  thread_spawn_def Let_def

lemmas op_defs = run_spawn_def run_join_def run_cancel_def mutex_unlock_def run_barrier_wait_def run_sig_wait_def
  run_cond_wait_def run_cond_notify_def run_cond_signal_def run_cond_broadcast_def

lemma seq_append: "seq (fs @ gs) s = (case seq fs s of (c, s1) \<Rightarrow> case seq gs s1 of (d, s2) \<Rightarrow> (c @ d, s2))"
  by (induction fs arbitrary: s) (auto split: prod.splits)

subsection \<open>Commits and the token\<close>

text \<open>
  Whether the process has the token after a call, if it had it before or not. A joiner that sleeps
  gets the token back; the only thread alive is the only one in the ring.
\<close>

fun track :: "bool \<Rightarrow> call \<Rightarrow> bool" where
  "track tok Det_getToken = True"
| "track tok Det_putToken = False"
| "track tok (Det_cond_wait c m) = True"
| "track tok (Det_barrier_wait b) = False"
| "track tok (Det_sig_wait r) = False"
| "track tok (Det_deregisterThread i) = False"
| "track tok (Det_isSingleAliveThread b) = (b \<or> tok)"
| "track tok c = tok"

fun is_commit :: "call \<Rightarrow> bool" where
  "is_commit Mem_commit = True"
| "is_commit (Mem_finalcommit r) = True"
| "is_commit c = False"

fun commits_ok :: "bool \<Rightarrow> call list \<Rightarrow> bool" where
  "commits_ok tok [] \<longleftrightarrow> True"
| "commits_ok tok (c # cs) \<longleftrightarrow> (is_commit c \<longrightarrow> tok) \<and> commits_ok (track tok c) cs"

lemma commits_ok_append: "commits_ok tok (cs @ ds) \<longleftrightarrow> commits_ok tok cs \<and> commits_ok (foldl track tok cs) ds"
  by (induction cs arbitrary: tok) auto

text \<open>
  Before the fence is started the other threads have not begun, and the process has the token; after
  that it has it when \<open>_token_holding\<close> says so.
\<close>

definition token_inv :: "bool \<Rightarrow> xrun \<Rightarrow> bool" where
  "token_inv tok s \<longleftrightarrow> (\<not> fence_enabled s \<or> token_holding s \<longrightarrow> tok)"

text \<open>The rules for the program.\<close>

fun op_ok :: "sync_op \<Rightarrow> xrun \<Rightarrow> bool" where
  "op_ok (Spawn caller forked) s \<longleftrightarrow> \<not> fence_enabled s \<or> token_holding s"
| "op_ok (Join caller v single) s \<longleftrightarrow> \<not> token_holding s"
| "op_ok (Cancel caller v) s \<longleftrightarrow> fence_enabled s \<or> token_holding s"
| "op_ok (Barrier b) s \<longleftrightarrow> \<not> token_holding s"
| "op_ok (Sigwait caller ret) s \<longleftrightarrow> fence_enabled s \<and> \<not> token_holding s"
| "op_ok (CondWait caller cond m) s \<longleftrightarrow> \<not> fence_enabled s \<or> token_holding s"
| "op_ok (Lock caller m owner single answers) s \<longleftrightarrow> True"
| "op_ok (Unlock caller m) s \<longleftrightarrow> True"
| "op_ok (CondSignal caller cond) s \<longleftrightarrow> True"
| "op_ok (CondBroadcast caller cond) s \<longleftrightarrow> True"

fun ops_ok :: "sync_op list \<Rightarrow> xrun \<Rightarrow> bool" where
  "ops_ok [] s \<longleftrightarrow> True"
| "ops_ok (x # xs) s \<longleftrightarrow> op_ok x s \<and> ops_ok xs (snd (run_sync x s))"

definition safe :: "bool \<Rightarrow> call list \<times> xrun \<Rightarrow> bool" where
  "safe tok r \<longleftrightarrow> commits_ok tok (fst r) \<and> token_inv (foldl track tok (fst r)) (snd r)"

lemma round_start:
  assumes "lock_round_start caller s = (c, s1)" "token_inv tok s" "fence_enabled s"
  shows "commits_ok tok c \<and> foldl track tok c \<and> fence_enabled s1 \<and> token_holding s1"
  using assms by (auto simp: lock_round_start_def run_defs token_inv_def split: if_splits)

lemma round_fail:
  assumes "lock_round_fail caller s = (c, s1)" "fence_enabled s"
  shows "commits_ok True c \<and> \<not> foldl track True c \<and> fence_enabled s1 \<and> \<not> token_holding s1"
  using assms by (auto simp: lock_round_fail_def run_defs split: if_splits)

lemma getLockAgain_safe:
  assumes "token_inv tok s" "fence_enabled s" "getLockAgain caller m answers s = (c, s', got)"
  shows "safe tok (c, s')"
  using assms
proof (induction answers arbitrary: s tok c s' got)
  case Nil
  obtain c1 s1 where e: "lock_round_start caller s = (c1, s1)" by fastforce
  show ?case using round_start [OF e Nil.prems(1,2)] Nil.prems(3) by (simp add: e safe_def token_inv_def)
next
  case (Cons a as)
  obtain c1 s1 where e: "lock_round_start caller s = (c1, s1)" by fastforce
  note p1 = round_start [OF e Cons.prems(1,2)]
  obtain c2 s2 where f: "lock_round_fail caller s1 = (c2, s2)" by fastforce
  note p2 = round_fail [OF f]
  obtain c3 s3 g where h: "getLockAgain caller m as s2 = (c3, s3, g)" by (metis prod_cases3)
  show ?case
  proof (cases a)
    case True
    then show ?thesis using Cons.prems(3) p1 by (auto simp: e safe_def token_inv_def commits_ok_append)
  next
    case False
    have i2: "token_inv (foldl track True c2) s2" "fence_enabled s2" using p1 p2 by (simp_all add: token_inv_def)
    from Cons.IH [OF i2 h] show ?thesis
      using Cons.prems(3) p1 p2 False by (auto simp: e f h safe_def commits_ok_append)
  qed
qed

lemma lock_enter_ok:
  assumes "lock_enter m owner single s = (c, s1)" "token_inv tok s"
  shows "commits_ok tok c \<and> foldl track tok c = tok \<and> fence_enabled s1 \<and> token_inv tok s1"
  using assms by (auto simp: lock_enter_def run_defs token_inv_def split: if_splits)

lemma mutex_lock_safe:
  assumes "token_inv tok s" "mutex_lock caller m owner single answers s = (c, s', got)"
  shows "safe tok (c, s')"
proof (cases "\<not> fence_enabled s \<and> children_threads_count s = 0")
  case True
  then show ?thesis using assms by (auto simp: mutex_lock_def safe_def)
next
  case False
  obtain c1 s1 where e: "lock_enter m owner single s = (c1, s1)" by fastforce
  note p1 = lock_enter_ok [OF e assms(1)]
  have again: "safe tok (c1 @ c2, s2)" if "getLockAgain caller m as s1 = (c2, s2, g)" for as c2 s2 g
    using getLockAgain_safe [OF _ _ that, of tok] p1 by (simp add: safe_def commits_ok_append)
  have again': "safe tok (c1 @ Det_lock_acquire m False # c2, s2)" if "getLockAgain caller m as s1 = (c2, s2, g)" for as c2 s2 g
    using again [OF that] p1 by (simp add: safe_def commits_ok_append)
  have r: "mutex_lock caller m owner single answers s =
      (if owner \<or> single then
         case answers of
           [] \<Rightarrow> (c1, s1, False)
         | a # as \<Rightarrow>
             if a then (c1 @ [Det_lock_acquire m True], s1, True)
             else case getLockAgain caller m as s1 of
               (c2, s2, got) \<Rightarrow> (c1 @ [Det_lock_acquire m False] @ c2, s2, got)
       else case getLockAgain caller m answers s1 of (c2, s2, got) \<Rightarrow> (c1 @ c2, s2, got))"
    by (simp only: mutex_lock_def if_not_P [OF False] e prod.case)
  show ?thesis
  proof (cases "owner \<or> single")
    case True
    show ?thesis
    proof (cases answers)
      case Nil
      then show ?thesis using assms(2) p1 True unfolding r by (auto simp: safe_def)
    next
      case (Cons a as)
      show ?thesis
        using assms(2) p1 True Cons again' [of as] unfolding r
        by (auto simp: safe_def commits_ok_append split: if_splits prod.splits)
    qed
  next
    case False
    then show ?thesis using assms(2) again [of answers] unfolding r by (auto split: prod.splits)
  qed
qed

lemma sync_safe:
  assumes "token_inv tok s" "op_ok x s"
  shows "safe tok (run_sync x s)"
proof (cases x)
  case (Spawn caller forked)
  then show ?thesis using assms by (auto simp: op_defs run_defs safe_def token_inv_def)
next
  case (Join caller v single)
  then show ?thesis using assms by (cases v) (auto simp: op_defs run_defs safe_def token_inv_def)
next
  case (Lock caller m owner single answers)
  then show ?thesis using mutex_lock_safe [OF assms(1)] by (auto split: prod.splits)
qed (use assms in \<open>auto simp: op_defs run_defs safe_def token_inv_def\<close>)

lemma seq_safe:
  assumes "token_inv tok s" "ops_ok xs s"
  shows "safe tok (seq (map run_sync xs) s)"
  using assms
proof (induction xs arbitrary: s tok)
  case Nil
  then show ?case by (simp add: safe_def)
next
  case (Cons x xs)
  obtain c s1 where e: "run_sync x s = (c, s1)" by fastforce
  have h: "safe tok (c, s1)" using sync_safe [of tok s x] Cons.prems e by simp
  then have "safe (foldl track tok c) (seq (map run_sync xs) s1)"
    using Cons.IH [of "foldl track tok c" s1] Cons.prems(2) e by (simp add: safe_def)
  then show ?case using h by (auto simp: e safe_def commits_ok_append split: prod.splits)
qed

lemma deregister_safe: "commits_ok tok (fst (threadDeregister s))"
  by (simp add: threadDeregister_def run_defs)

lemma child_start_inv:
  "commits_ok False (fst (child_start caller pid i parent p)) \<and>
   token_inv (foldl track False (fst (child_start caller pid i parent p))) (snd (child_start caller pid i parent p))"
  by (auto simp: child_start_def childRegister_def run_defs token_inv_def)

lemma xrun_new_inv: "token_inv True (snd (xrun_new pid))"
  by (simp add: token_inv_def)

text \<open>
  As long as the program keeps the rules, every commit of the master, which begins with the token,
  and of every other thread, from its creation to its exit, is made while the process holds the token.
\<close>

lemma commits_under_token:
  assumes "ops_ok xs (snd (xrun_new pid))" "ops_ok ys (snd (child_start caller tid i parent p))"
  shows "commits_ok True (fst (seq (map run_sync xs) (snd (xrun_new pid)))) \<and>
    commits_ok False (fst (seq (child_start caller tid i parent # map run_sync ys @ [threadDeregister]) p))"
proof -
  obtain c s where e: "child_start caller tid i parent p = (c, s)" by fastforce
  have "safe (foldl track False c) (seq (map run_sync ys) s)"
    using seq_safe [of "foldl track False c" s ys] child_start_inv [of caller tid i parent p] assms(2) by (simp add: e)
  then have "commits_ok False (fst (seq (child_start caller tid i parent # map run_sync ys @ [threadDeregister]) p))"
    using child_start_inv [of caller tid i parent p] deregister_safe
    by (auto simp: e seq_append safe_def commits_ok_append split: prod.splits) (metis fst_conv)
  then show ?thesis using seq_safe [OF xrun_new_inv assms(1)] by (simp add: safe_def)
qed

text \<open>The master creates two threads and joins them, the second one after a critical section.\<close>

definition demo_master :: "sync_op list" where
  "demo_master = [Spawn 1 True, Spawn 1 True, Lock 1 64 False False [False, True], CondSignal 1 72, Unlock 1 64,
     Join 1 (Some 1) False, Join 1 (Some 2) True]"

definition demo_child :: "sync_op list" where
  "demo_child = [Lock 2 64 False False [True], CondWait 2 72 64, Unlock 2 64, Barrier 80]"

lemmas demo_eval = demo_master_def demo_child_def xrun_new_def setId_def child_start_def childRegister_def
  mutex_lock_def lock_enter_def lock_round_start_def lock_round_fail_def op_defs run_defs

lemma commits_under_token_witness:
  "commits_ok True (fst (seq (map run_sync demo_master) (snd (xrun_new 10)))) \<and>
   commits_ok False (fst (seq (child_start 5 11 1 0 # map run_sync demo_child @ [threadDeregister]) (snd (xrun_new 10))))"
proof (rule commits_under_token)
  show "ops_ok demo_master (snd (xrun_new 10))" by (simp add: demo_eval)
  show "ops_ok demo_child (snd (child_start 5 11 1 0 (snd (xrun_new 10))))" by (simp add: demo_eval)
qed

text \<open>
  C39: A thread that takes a mutex it took before gets it without the token, and when it then waits for
  a condition variable it commits without the token.
\<close>

theorem owner_wait_commits_without_token:
  assumes "run_isCopyOnWrite s" "fence_enabled s" "\<not> token_holding s" "lock_count s = 0"
  shows "\<not> commits_ok False (fst (seq (map run_sync
    [Lock c m False False [True], Unlock c m, Lock c m True False [True], CondWait c cv m]) s))"
  using assms
  by (simp add: mutex_lock_def lock_enter_def lock_round_start_def op_defs run_defs)

theorem owner_wait_commits_without_token_witness:
  "\<exists>s. fst (seq (map run_sync
    [Lock 1 64 False False [True], Unlock 1 64, Lock 1 64 True False [True], CondWait 1 72 64]) s) \<noteq> [] \<and>
   \<not> commits_ok False (fst (seq (map run_sync
    [Lock 1 64 False False [True], Unlock 1 64, Lock 1 64 True False [True], CondWait 1 72 64]) s))"
proof -
  let ?s = "snd (child_start 5 11 1 0 ((snd (xrun_new 10))\<lparr>run_isCopyOnWrite := True\<rparr>))"
  have "\<not> commits_ok False (fst (seq (map run_sync
    [Lock 1 64 False False [True], Unlock 1 64, Lock 1 64 True False [True], CondWait 1 72 64]) ?s))"
    by (rule owner_wait_commits_without_token) (simp_all add: demo_eval)
  then show ?thesis by (intro exI [of _ ?s]) auto
qed

text \<open>A thread other than the first that creates one commits before it waits for the token.\<close>

lemma nested_spawn_commits_without_token:
  assumes "run_isCopyOnWrite s" "fence_enabled s"
  shows "\<not> commits_ok False (fst (run_spawn caller forked s))"
  using assms by (simp add: op_defs run_defs)

subsection \<open>The thunks in the log\<close>

text \<open>
  The complete log of a thread: its thunks are numbered without a gap, each is closed before the next,
  the last one is closed before the \<open>FINISH\<close> event, and nothing follows that.
\<close>

fun log_ok :: "bool \<Rightarrow> int \<Rightarrow> call list \<Rightarrow> bool" where
  "log_ok thunk_open n [] \<longleftrightarrow> False"
| "log_ok thunk_open n (Log_thunk caller k # cs) \<longleftrightarrow> \<not> thunk_open \<and> k = n + 1 \<and> log_ok True k cs"
| "log_ok thunk_open n (Log_end # cs) \<longleftrightarrow> thunk_open \<and> log_ok False n cs"
| "log_ok thunk_open n (Log_finish # cs) \<longleftrightarrow> \<not> thunk_open \<and> cs = []"
| "log_ok thunk_open n (c # cs) \<longleftrightarrow> log_ok thunk_open n cs"

definition logs :: "call list \<Rightarrow> int \<Rightarrow> int \<Rightarrow> bool" where
  "logs cs n n' \<longleftrightarrow> 0 \<le> n \<and> n \<le> n' \<and>
     (\<forall>ds. log_ok (0 < n) n (cs @ ds) \<longleftrightarrow> log_ok (0 < n') n' ds)"

definition keeps_log :: "run_op \<Rightarrow> bool" where
  "keeps_log f \<longleftrightarrow> (\<forall>s. 0 \<le> thunkId s \<longrightarrow> logs (fst (f s)) (thunkId s) (thunkId (snd (f s))))"

named_theorems log_intros \<open>operations that keep the order of thunks\<close>

lemma logs_refl [simp]: "0 \<le> n \<Longrightarrow> logs [] n n"
  by (simp add: logs_def)

lemma logs_trans: "logs c n n1 \<Longrightarrow> logs d n1 n2 \<Longrightarrow> logs (c @ d) n n2"
  by (simp add: logs_def)

lemma keeps_logD: "keeps_log f \<Longrightarrow> 0 \<le> thunkId s \<Longrightarrow> f s = (c, s1) \<Longrightarrow> logs c (thunkId s) (thunkId s1) \<and> 0 \<le> thunkId s1"
  by (force simp: keeps_log_def logs_def)

lemma keeps_logI: "(\<And>s c s1. 0 \<le> thunkId s \<Longrightarrow> f s = (c, s1) \<Longrightarrow> logs c (thunkId s) (thunkId s1)) \<Longrightarrow> keeps_log f"
  unfolding keeps_log_def by (metis prod.collapse)

lemma keeps_log_seq [log_intros]: "(\<And>f. f \<in> set fs \<Longrightarrow> keeps_log f) \<Longrightarrow> keeps_log (seq fs)"
proof (induction fs)
  case (Cons f fs)
  then have k: "keeps_log f" "keeps_log (seq fs)" by simp_all
  show ?case
  proof (rule keeps_logI)
    fix s c s1
    assume s: "0 \<le> thunkId s" "seq (f # fs) s = (c, s1)"
    obtain c1 t where f: "f s = (c1, t)" by fastforce
    obtain c2 u where g: "seq fs t = (c2, u)" by fastforce
    note kf = keeps_logD [OF k(1) s(1) f]
    show "logs c (thunkId s) (thunkId s1)"
      using logs_trans [OF conjunct1 [OF kf] conjunct1 [OF keeps_logD [OF k(2) conjunct2 [OF kf] g]]] s(2)
      by (simp add: f g)
  qed
qed (simp add: keeps_log_def)

lemma keeps_log_simple [log_intros]:
  "(\<And>s. thunkId (u s) = thunkId s) \<Longrightarrow> keeps_log (upd u)"
  "keeps_log f \<Longrightarrow> keeps_log (whenever b f)"
  "keeps_log f \<Longrightarrow> keeps_log (unless b f)"
  "keeps_log (atomicBegin caller)" "keeps_log atomicEnd" "keeps_log run_startFence" "keeps_log closeFence"
  "keeps_log waitFence" "keeps_log waitToken" "keeps_log run_putToken" "keeps_log (run_setCopyOnWrite b)"
  "keeps_log (thread_spawn forked)"
  by (auto simp: keeps_log_def run_defs logs_def)

lemma keeps_log_call [log_intros]:
  "c \<noteq> Log_end \<Longrightarrow> c \<noteq> Log_finish \<Longrightarrow> (\<And>a k. c \<noteq> Log_thunk a k) \<Longrightarrow> keeps_log (call1 c)"
  by (cases c) (auto simp: keeps_log_def call1_def logs_def)

lemma keeps_log_rounds [log_intros]: "keeps_log (lock_round_start caller)" "keeps_log (lock_round_fail caller)"
  "keeps_log (lock_enter m owner single)"
  by (auto simp: keeps_log_def lock_round_start_def lock_round_fail_def lock_enter_def run_defs logs_def)

lemma getLockAgain_log:
  assumes "0 \<le> thunkId s" "getLockAgain caller m answers s = (c, s', got)"
  shows "logs c (thunkId s) (thunkId s')"
  using assms
proof (induction answers arbitrary: s c s' got)
  case Nil
  then show ?case using keeps_logD [OF keeps_log_rounds(1) Nil.prems(1), of caller] by (auto split: prod.splits)
next
  case (Cons a as)
  obtain c1 s1 where e: "lock_round_start caller s = (c1, s1)" by fastforce
  note l1 = keeps_logD [OF keeps_log_rounds(1) Cons.prems(1) e]
  have acq: "logs [Det_lock_acquire m a] (thunkId s1) (thunkId s1)" using l1 by (simp add: logs_def)
  show ?case
  proof (cases a)
    case True
    then show ?thesis using Cons.prems(2) l1 logs_trans [OF conjunct1 [OF l1] acq] by (auto simp: e)
  next
    case False
    obtain c2 s2 where f: "lock_round_fail caller s1 = (c2, s2)" by fastforce
    note l2 = keeps_logD [OF keeps_log_rounds(2) conjunct2 [OF l1] f]
    obtain c3 s3 g where h: "getLockAgain caller m as s2 = (c3, s3, g)" by (metis prod_cases3)
    from logs_trans [OF conjunct1 [OF l1] logs_trans [OF acq logs_trans [OF conjunct1 [OF l2] Cons.IH [OF conjunct2 [OF l2] h]]]]
    show ?thesis using Cons.prems(2) False by (auto simp: e f h)
  qed
qed

lemma mutex_lock_log:
  assumes "0 \<le> thunkId s" "mutex_lock caller m owner single answers s = (c, s', got)"
  shows "logs c (thunkId s) (thunkId s')"
proof (cases "\<not> fence_enabled s \<and> children_threads_count s = 0")
  case True
  then show ?thesis using assms by (auto simp: mutex_lock_def)
next
  case False
  obtain c1 s1 where e: "lock_enter m owner single s = (c1, s1)" by fastforce
  note l1 = keeps_logD [OF keeps_log_rounds(3) assms(1) e]
  have acq: "logs [Det_lock_acquire m a] (thunkId s1) (thunkId s1)" for a using l1 by (simp add: logs_def)
  note again = logs_trans [OF conjunct1 [OF l1] getLockAgain_log [OF conjunct2 [OF l1]]]
  note again' = logs_trans [OF conjunct1 [OF l1] logs_trans [OF acq getLockAgain_log [OF conjunct2 [OF l1]]]]
  have m: "mutex_lock caller m owner single answers s =
      (if owner \<or> single then
         case answers of
           [] \<Rightarrow> (c1, s1, False)
         | a # as \<Rightarrow>
             if a then (c1 @ [Det_lock_acquire m True], s1, True)
             else case getLockAgain caller m as s1 of
               (c2, s2, got) \<Rightarrow> (c1 @ [Det_lock_acquire m False] @ c2, s2, got)
       else case getLockAgain caller m answers s1 of (c2, s2, got) \<Rightarrow> (c1 @ c2, s2, got))"
    by (simp only: mutex_lock_def if_not_P [OF False] e prod.case)
  show ?thesis
    using assms(2) l1 again again' logs_trans [OF conjunct1 [OF l1] acq] unfolding m
    by (auto split: if_splits list.splits prod.splits)
qed

lemma keeps_log_sync: "keeps_log (run_sync x)"
proof (cases x)
  case (Lock caller m owner single answers)
  show ?thesis
    by (rule keeps_logI) (use Lock mutex_lock_log in \<open>auto split: prod.splits\<close>)
next
  case (Join caller v single)
  then show ?thesis by (cases v) (auto simp: keeps_log_def op_defs run_defs logs_def)
qed (auto simp: keeps_log_def op_defs run_defs logs_def)

lemma keeps_log_syncs: "keeps_log (seq (map run_sync xs))"
  by (rule keeps_log_seq) (auto simp: keeps_log_sync)

text \<open>
  C33: The log of a thread, from its creation to its exit, whatever it does and whatever the calls
  answer: its thunks are numbered 1, 2, 3, ..., each is closed before the next begins, the last one is
  closed before the \<open>FINISH\<close> event of the exit, and that event is there and is the last call.
\<close>

theorem thunks_numbered:
  assumes "run_isCopyOnWrite p" "tid \<noteq> thr_id p"
  shows "log_ok False 0 (fst (seq (child_start caller tid i parent # map run_sync xs @ [threadDeregister]) p))"
proof -
  obtain c s where c: "child_start caller tid i parent p = (c, s)" by fastforce
  then have 1: "\<And>ds. log_ok False 0 (c @ ds) = log_ok True 1 ds" "thunkId s = 1"
    using assms by (auto simp: child_start_def childRegister_def setId_def run_defs)
  obtain d t where d: "seq (map run_sync xs) s = (d, t)" by fastforce
  then have 2: "log_ok True 1 (d @ ds) = log_ok True (thunkId t) ds" for ds
    using keeps_logD [OF keeps_log_syncs _ d] 1(2) by (auto simp: logs_def)
  have "log_ok True (thunkId t) (fst (threadDeregister t))"
    by (simp add: threadDeregister_def run_defs)
  then show ?thesis using 1(1) 2 by (auto simp: seq_append c d split: prod.splits)
qed

theorem thunks_numbered_witness:
  "log_ok False 0 (fst (seq (child_start 5 11 1 0 # map run_sync demo_child @ [threadDeregister])
     ((snd (xrun_new 10))\<lparr>run_isCopyOnWrite := True\<rparr>)))"
  by (rule thunks_numbered) (simp_all add: demo_eval)

end
