(* ===== verification/Xmemory.thy ===== *)
theory Xmemory
  imports Xmmap_Props Xpersist_Owned Heap_Clients
begin

text \<open>
  All memory of a process, \<^verbatim>\<open>xmemory.h\<close>: the globals, the heap in its protected region and the mappings of
  the program, with the fault handler that sends an access to one of them.

  The two regions share the pool of page entries of a process (\<^verbatim>\<open>xpageentry.h\<close>) and the twins
  (\<^verbatim>\<open>xbitmap.h\<close>). An operation on one region hands them on to the other. The source of the allocator is
  the heap region: a block the bump allocator hands out becomes owned by the process.
\<close>

subsection \<open>The heap on its region\<close>

text \<open>\<open>malloc\<close> of \<^verbatim>\<open>xheap.h\<close> as a whole: the block is owned by the process that asked for it.\<close>

definition owned_malloc :: "int \<Rightarrow> (xheap \<times> xpersist) malloc_fn" where
  "owned_malloc pid = (\<lambda>(x, r) sz.
     rbind (xheap_malloc x sz) (\<lambda>(p, x1).
     rbind (setOwnedPage pid p (page_round sz) r) (\<lambda>r1. Inr (p, (x1, r1)))))"

text \<open>The allocator is safe on this source as it is on \<open>xheap\<close> alone.\<close>

lemma owned_malloc_xheap: "owned_malloc pid s sz = Inr (p, s') \<Longrightarrow> xheap_malloc (fst s) sz = Inr (p, fst s')"
  by (auto simp: owned_malloc_def rbind_Inr_iff split: prod.splits)

interpretation om: source_heap "owned_malloc pid" "\<lambda>s. xheap_inv (fst s)" "\<lambda>s. xheap_owned (fst s)" "- 4096" for pid
  by unfold_locales (use xs.source_keeps xs.source_fresh owned_malloc_xheap in \<open>blast+\<close>)

subsection \<open>The state\<close>

record xmemory =
  globals :: xpersist
  pheap :: "(xheap \<times> xpersist) ppheap"
  heapid :: "int \<Rightarrow> nat"
  mmaps :: "int \<Rightarrow> xmmap"
  mmaplog :: "int \<Rightarrow> (bool \<times> u64 \<times> u64) list"

definition heap_meta :: "xmemory \<Rightarrow> xheap" where "heap_meta s = fst (source (stored (pheap s)))"
definition heap_region :: "xmemory \<Rightarrow> xpersist" where "heap_region s = snd (source (stored (pheap s)))"

definition set_region :: "xpersist \<Rightarrow> (xheap \<times> xpersist) ppheap \<Rightarrow> (xheap \<times> xpersist) ppheap" where
  "set_region r h = h\<lparr>stored := (stored h)\<lparr>source := (fst (source (stored h)), r)\<rparr>\<rparr>"

text \<open>What a process has used of the pool and of the twins in the region \<open>r\<close> is used up in \<open>q\<close> too.\<close>

definition share :: "int \<Rightarrow> xpersist \<Rightarrow> xpersist \<Rightarrow> xpersist" where
  "share pid r q = upd_proc pid (entrypool_update (\<lambda>_. entrypool (procs r pid))) (q\<lparr>twins := twins r\<rparr>)"

definition on_heap :: "int \<Rightarrow> (xpersist \<Rightarrow> xpersist res) \<Rightarrow> xmemory \<Rightarrow> xmemory res" where
  "on_heap pid f s =
     rbind (f (heap_region s)) (\<lambda>r. Inr (s\<lparr>pheap := set_region r (pheap s), globals := share pid r (globals s)\<rparr>))"

definition on_globals :: "int \<Rightarrow> (xpersist \<Rightarrow> xpersist res) \<Rightarrow> xmemory \<Rightarrow> xmemory res" where
  "on_globals pid f s =
     rbind (f (globals s)) (\<lambda>g. Inr (s\<lparr>globals := g, pheap := set_region (share pid g (heap_region s)) (pheap s)\<rparr>))"

abbreviation upd_mmap :: "int \<Rightarrow> xmmap \<Rightarrow> xmemory \<Rightarrow> xmemory" where
  "upd_mmap pid m s \<equiv> s\<lparr>mmaps := (mmaps s)(pid := m)\<rparr>"

subsection \<open>Start and end\<close>

text \<open>\<open>base\<close>: where the entries of the pool are mapped. The heaps of the allocator are new.\<close>

definition memory_setCopyOnWrite :: "int \<Rightarrow> bool \<Rightarrow> xmemory \<Rightarrow> xmemory res" where
  "memory_setCopyOnWrite pid copyOnWrite s =
     rbind (on_globals pid (setCopyOnWrite pid 0 copyOnWrite) s)
       (\<lambda>s1. on_heap pid (setCopyOnWrite pid (xheap_getend (heap_meta s1)) copyOnWrite) s1)"

definition memory_initialize :: "int \<Rightarrow> u64 \<Rightarrow> xmemory \<Rightarrow> xmemory res" where
  "memory_initialize pid base s =
     rbind (on_heap pid (\<lambda>r. Inr (xpersist_initialize pid r)) (s\<lparr>pheap := (pheap s)\<lparr>heaps := (\<lambda>_. kheap_init)\<rparr>\<rparr>)) (\<lambda>s1.
     rbind (on_globals pid (\<lambda>g. Inr (xpersist_initialize pid g)) s1) (\<lambda>s2.
     rbind (xpageentry_initialize base (entrypool (procs (globals s2) pid))) (\<lambda>e.
     rbind (on_globals pid (\<lambda>g. Inr (upd_proc pid (entrypool_update (\<lambda>_. e)) g)) s2)
       (memory_setCopyOnWrite pid False))))"

definition memory_finalize :: "int \<Rightarrow> xmemory \<Rightarrow> xmemory res" where
  "memory_finalize pid s =
     rbind (on_globals pid (\<lambda>g. Inr (xpersist_finalize pid g)) s) (on_heap pid (\<lambda>r. Inr (xpersist_finalize pid r)))"

definition memory_setThreadIndex :: "int \<Rightarrow> nat \<Rightarrow> xmemory \<Rightarrow> xmemory" where
  "memory_setThreadIndex pid i s = s\<lparr>heapid := (heapid s)(pid := i mod unat NUM_HEAPS)\<rparr>"

definition memory_closeProtection :: "int \<Rightarrow> xmemory \<Rightarrow> xmemory res" where
  "memory_closeProtection pid s =
     rbind (on_globals pid (\<lambda>g. Inr (closeProtection pid g)) s) (on_heap pid (\<lambda>r. Inr (closeProtection pid r)))"

subsection \<open>Objects\<close>

definition memory_malloc :: "int \<Rightarrow> u64 \<Rightarrow> xmemory \<Rightarrow> (u64 \<times> xmemory) res" where
  "memory_malloc pid sz s =
     rbind (pp_malloc (owned_malloc pid) PROTECTEDHEAP_CHUNK (heapid s pid) sz (pheap s))
       (\<lambda>(ptr, h). Inr (ptr, s\<lparr>pheap := h\<rparr>))"

definition memory_free :: "int \<Rightarrow> u64 \<Rightarrow> xmemory \<Rightarrow> xmemory res" where
  "memory_free pid ptr s = rbind (pp_free (heapid s pid) ptr (pheap s)) (\<lambda>h. Inr (s\<lparr>pheap := h\<rparr>))"

definition memory_getSize :: "u64 \<Rightarrow> xmemory \<Rightarrow> u64 res" where
  "memory_getSize ptr s = pp_getSize ptr (pheap s)"

text \<open>\<open>gend\<close> is the end of the globals, a symbol of the linker.\<close>

definition memory_getLayout :: "u64 \<Rightarrow> xmemory \<Rightarrow> u64 \<times> u64 \<times> u64 \<times> u64" where
  "memory_getLayout gend s = (start (heap_meta s), endp (heap_meta s), startaddr (globals s), gend)"

definition memory_map :: "int \<Rightarrow> u64 \<Rightarrow> u64 \<Rightarrow> u32 \<Rightarrow> u32 \<Rightarrow> int \<Rightarrow> xmemory \<Rightarrow> (u64 \<times> xmemory) res" where
  "memory_map pid res len pr flags fd s =
     rbind (xmmap_map res len pr flags fd (mmaps s pid)) (\<lambda>(p, m). Inr (p, upd_mmap pid m s))"

definition memory_unmap :: "int \<Rightarrow> u64 \<Rightarrow> u64 \<Rightarrow> xmemory \<Rightarrow> int \<times> xmemory" where
  "memory_unmap pid addr len s = (case xmmap_unmap addr len (mmaps s pid) of (r, m) \<Rightarrow> (r, upd_mmap pid m s))"

subsection \<open>Transactions\<close>

definition memory_begin :: "int \<Rightarrow> xmemory \<Rightarrow> xmemory res" where
  "memory_begin pid s =
     rbind (on_globals pid (\<lambda>g. Inr (begin_trans pid g)) s) (\<lambda>s1.
     rbind (xheap_sanityCheck (heap_meta s1)) (\<lambda>_. on_heap pid (\<lambda>r. Inr (begin_trans pid r)) s1))"

definition memory_commit :: "int \<Rightarrow> xmemory \<Rightarrow> xmemory res" where
  "memory_commit pid s =
     rbind (on_heap pid (\<lambda>r. Inr (checkandcommit pid r)) s) (\<lambda>s1.
     rbind (on_globals pid (\<lambda>g. Inr (checkandcommit pid g)) s1) (\<lambda>s2.
     Inr (upd_mmap pid (accessed_reset (mmaps s2 pid)) s2)))"

definition memory_mem_write :: "int \<Rightarrow> u64 \<Rightarrow> u64 \<Rightarrow> xmemory \<Rightarrow> xmemory res" where
  "memory_mem_write pid dest val s =
     (if inRange (heap_region s) dest then on_heap pid (\<lambda>r. Inr (mem_write dest val r)) s
      else if inRange (globals s) dest then on_globals pid (\<lambda>g. Inr (mem_write dest val g)) s
      else Inr s)"

definition memory_forceCommit :: "int \<Rightarrow> int \<Rightarrow> xmemory \<Rightarrow> xmemory res" where
  "memory_forceCommit me pid s =
     on_heap me (\<lambda>r. Inr (forceCommitOwnedPages me pid (xheap_getend (heap_meta s)) r)) s"

definition memory_cleanupOwnedBlocks :: "int \<Rightarrow> xmemory \<Rightarrow> xmemory res" where
  "memory_cleanupOwnedBlocks pid = on_heap pid (\<lambda>r. Inr (cleanupOwnedBlocks pid r))"

definition memory_commitOwnedPage :: "int \<Rightarrow> nat \<Rightarrow> bool \<Rightarrow> xmemory \<Rightarrow> xmemory res" where
  "memory_commitOwnedPage pid page_no set_shared = on_heap pid (\<lambda>r. Inr (commitOwnedPage pid page_no set_shared r))"

definition memory_finalcommit :: "int \<Rightarrow> bool \<Rightarrow> xmemory \<Rightarrow> xmemory res" where
  "memory_finalcommit pid release = on_heap pid (\<lambda>r. Inr (finalcommit pid release r))"

subsection \<open>The fault handler\<close>

definition mmap_fault :: "int \<Rightarrow> mmappage \<Rightarrow> u64 \<Rightarrow> bool \<Rightarrow> u64 \<Rightarrow> xmemory \<Rightarrow> xmemory res" where
  "mmap_fault pid page addr is_write issuer s =
     (let s1 = s\<lparr>mmaplog := (mmaplog s)(pid := mmaplog s pid @ [(is_write, issuer, drop_bit PageShift addr)])\<rparr> in
      rbind (mmappage_handleAccess page addr is_write (mmaps s1 pid)) (\<lambda>m. Inr (upd_mmap pid (accessed_add addr m) s1)))"

definition memory_handleAccess :: "int \<Rightarrow> u64 \<Rightarrow> bool \<Rightarrow> u64 \<Rightarrow> xmemory \<Rightarrow> xmemory res" where
  "memory_handleAccess pid addr is_write issuer s =
     (if inRange (heap_region s) addr then on_heap pid (handleAccess pid addr is_write issuer) s
      else if inRange (globals s) addr then on_globals pid (handleAccess pid addr is_write issuer) s
      else case mmap_find addr (mmaps s pid) of
        None \<Rightarrow> Inl Abort
      | Some page \<Rightarrow> mmap_fault pid page addr is_write issuer s)"

datatype si_code = SEGV_ACCERR | SEGV_MAPERR | SEGV_OTHER

text \<open>\<open>err\<close> is the error code of the fault; its second bit says that it was a write.\<close>

definition segvHandle :: "int \<Rightarrow> u64 \<Rightarrow> si_code \<Rightarrow> u64 \<Rightarrow> u64 \<Rightarrow> xmemory \<Rightarrow> xmemory res" where
  "segvHandle pid addr code err pc s =
     (case code of
        SEGV_ACCERR \<Rightarrow> memory_handleAccess pid addr (err AND 2 \<noteq> 0) pc s
      | SEGV_MAPERR \<Rightarrow> Inl Abort
      | SEGV_OTHER \<Rightarrow> Inl Abort)"

definition signalHandler :: "int \<Rightarrow> nat \<Rightarrow> xmemory \<Rightarrow> xmemory res" where
  "signalHandler pid page_no = memory_commitOwnedPage pid page_no True"

end
