(* ===== verification/Xmemory_Props.thy ===== *)
theory Xmemory_Props
  imports Xmemory
begin

text \<open>
  The fault handler makes progress: once it returns, the access that faulted is allowed, in whatever
  part of the memory it falls; and it aborts only for the reasons listed. What the handler leaves open
  in a mapping stays open after the commit unless the fault was at the start of the page.
\<close>

subsection \<open>Regions\<close>

definition region_allows :: "int \<Rightarrow> u64 \<Rightarrow> bool \<Rightarrow> xpersist \<Rightarrow> bool" where
  "region_allows pid addr is_write r =
     (case prot (procs r pid) (pageAt r addr) of Prot_None \<Rightarrow> False | Prot_Read \<Rightarrow> \<not> is_write | Prot_RW \<Rightarrow> True)"

definition same_place :: "xpersist \<Rightarrow> xpersist \<Rightarrow> bool" where
  "same_place r r' \<longleftrightarrow> startaddr r' = startaddr r \<and> pages r' = pages r"

lemma same_place_inRange: "same_place r r' \<Longrightarrow> inRange r' = inRange r \<and> pageAt r' = pageAt r"
  by (auto simp: same_place_def inRange_def pageAt_def fun_eq_iff)

lemma same_place_share [simp]: "same_place r (share pid q r)"
  by (simp add: same_place_def share_def)

named_theorems page_ops \<open>the operations on a page\<close>

lemmas [page_ops] = mprotect_def mprotectRead_def mprotectReadWrite_def setSharedPage_def commitOwnedPage_def
  notifyOwnerToCommit_def addUser_def bump_def madvise_dontneed_def Let_def

lemma place_ops [simp]:
  "startaddr (mprotectRead pid p s) = startaddr s" "pages (mprotectRead pid p s) = pages s"
  "startaddr (mprotectReadWrite pid p s) = startaddr s" "pages (mprotectReadWrite pid p s) = pages s"
  "startaddr (commitOwnedPage pid p b s) = startaddr s" "pages (commitOwnedPage pid p b s) = pages s"
  "startaddr (addUser p s) = startaddr s" "pages (addUser p s) = pages s"
  by (simp_all add: page_ops)

lemma place_notify [simp]:
  "startaddr (notifyOwnerToCommit pid p s) = startaddr s" "pages (notifyOwnerToCommit pid p s) = pages s"
  by (simp_all add: notifyOwnerToCommit_def Let_def) (simp_all add: setSharedPage_def)

lemma addDirty_frame:
  "addDirty pid p s = Inr s' \<Longrightarrow> same_place s s' \<and> prot (procs s' pid) = prot (procs s pid)"
  by (auto simp: addDirty_def rbind_Inr_iff Let_def same_place_def)

lemma addDirty_fails: "addDirty pid p s = Inl e \<longleftrightarrow> e = Abort \<and> \<not> pe_cur (entrypool (procs s pid)) < pe_total (entrypool (procs s pid))"
  by (auto simp: addDirty_def xpageentry_alloc_def Let_def)

lemma handleRead_opens:
  "same_place s (handleRead pid p s) \<and> prot (procs (handleRead pid p s) pid) p = Prot_Read"
  by (simp add: handleRead_def same_place_def split: page_access_info.split) (simp add: mprotectRead_def mprotect_def)

lemma prot_mprotectReadWrite [simp]: "prot (procs (mprotectReadWrite pid p s) pid) p = Prot_RW"
  by (simp add: mprotectReadWrite_def mprotect_def)

lemma prot_addUser [simp]: "procs (addUser p s) = procs s"
  by (simp add: addUser_def)

lemma entrypool_ops [simp]:
  "entrypool (procs (mprotect pid p pr s) j) = entrypool (procs s j)"
  "entrypool (procs (mprotectRead pid p s) j) = entrypool (procs s j)"
  "entrypool (procs (mprotectReadWrite pid p s) j) = entrypool (procs s j)"
  "entrypool (procs (setSharedPage pid p s) j) = entrypool (procs s j)"
  "entrypool (procs (commitOwnedPage pid p b s) j) = entrypool (procs s j)"
  by (simp_all add: page_ops)

lemma entrypool_notify [simp]: "entrypool (procs (notifyOwnerToCommit pid p s) j) = entrypool (procs s j)"
  by (simp add: notifyOwnerToCommit_def Let_def)

definition pool_empty :: "int \<Rightarrow> xpersist \<Rightarrow> bool" where
  "pool_empty pid r \<longleftrightarrow> \<not> pe_cur (entrypool (procs r pid)) < pe_total (entrypool (procs r pid))"

lemma recommit_closes:
  assumes "pageInfo (procs s pid) p = PAGE_ACCESS_READ_WRITE"
  shows "prot (procs (commitOwnedPage pid p False (mprotectReadWrite pid p s)) pid) p = Prot_None"
  using assms by (simp add: commitOwnedPage_def mprotectReadWrite_def mprotect_def bump_def Let_def)

text \<open>
  A page the process owns, has written and has committed without giving it up: the states in which a
  write to it faults for ever (see \<open>owned_write_livelock\<close>).
\<close>

definition written_back :: "int \<Rightarrow> u64 \<Rightarrow> xpersist \<Rightarrow> bool" where
  "written_back pid addr r \<longleftrightarrow> pageInfo (procs r pid) (pageAt r addr) = PAGE_ACCESS_READ_WRITE"

lemma handleWrite_opens:
  "case handleWrite pid p s of
      Inl e \<Rightarrow> e = Abort \<and> pool_empty pid s
    | Inr s' \<Rightarrow> same_place s s' \<and>
        prot (procs s' pid) p = (if pageInfo (procs s pid) p = PAGE_ACCESS_READ_WRITE then Prot_None else Prot_RW)"
proof -
  let ?rw = "pageInfo (procs s pid) p = PAGE_ACCESS_READ_WRITE"
  define s1 where "s1 = (if ?rw then commitOwnedPage pid p False (mprotectReadWrite pid p s) else mprotectReadWrite pid p
    (if pageInfo (procs s pid) p = PAGE_UNUSED then notifyOwnerToCommit pid p s else s))"
  have "handleWrite pid p s = (if \<not> isCopyOnWrite (procs s1 pid) then Inr s1
      else if pageOwner s1 p = pid then Inr s1 else addDirty pid p (addUser p s1))"
    by (cases "pageInfo (procs s pid) p") (simp_all add: handleWrite_def s1_def Let_def)
  moreover have "same_place s s1" "entrypool (procs s1 pid) = entrypool (procs s pid)"
    "prot (procs s1 pid) p = (if ?rw then Prot_None else Prot_RW)"
    by (simp_all add: s1_def same_place_def recommit_closes)
  ultimately show ?thesis
    using addDirty_frame [of pid p "addUser p s1"] addDirty_fails [of pid p "addUser p s1"]
    by (auto simp: pool_empty_def same_place_def split: sum.split)
qed

lemma handleAccess_opens:
  "case handleAccess pid addr is_write pc r of
      Inl e \<Rightarrow> e = Abort \<and> is_write \<and> pool_empty pid r
    | Inr r' \<Rightarrow> same_place r r' \<and> region_allows pid addr is_write r' = (\<not> (is_write \<and> written_back pid addr r))"
proof -
  define r0 where "r0 = upd_proc pid (accesslog_update (\<lambda>l. l @ [(is_write, pc, drop_bit PageShift addr)])) r"
  have r0: "same_place r r0" "pool_empty pid r0 = pool_empty pid r"
    "pageInfo (procs r0 pid) = pageInfo (procs r pid)"
    by (simp_all add: r0_def same_place_def pool_empty_def)
  have at: "same_place r r' \<and> pageAt r' addr = pageAt r addr" if "same_place r0 r'" for r'
    using that r0(1) by (simp add: same_place_def pageAt_def)
  have h: "handleAccess pid addr is_write pc r = (if is_write then handleWrite pid (pageAt r addr) r0
      else Inr (handleRead pid (pageAt r addr) r0))"
    by (simp add: handleAccess_def Let_def r0_def)
  show ?thesis
  proof (cases is_write)
    case True
    then show ?thesis
      unfolding h using handleWrite_opens [of pid r0 "pageAt r addr"] r0 at
      by (auto simp: region_allows_def written_back_def split: sum.splits if_splits)
  next
    case False
    then show ?thesis
      unfolding h using handleRead_opens [of r0 "pid" "pageAt r addr"] at by (simp add: region_allows_def)
  qed
qed

subsection \<open>Mappings\<close>

text \<open>The invariant of the mappings: pages are sorted and aligned, and the system knows each.\<close>

definition mm_inv :: "xmmap \<Rightarrow> bool" where
  "mm_inv m \<longleftrightarrow> mm_ok m \<and> (\<forall>x. table (mpages m) x \<noteq> None \<longrightarrow> kernel m x \<noteq> None)"

lemma kernel_add: "mmap_add a len fd pr m = Inr m' \<Longrightarrow> kernel m' = kernel m"
  by (auto simp: mmap_add_def Let_def split: if_splits)

lemma kernel_remove [simp]: "kernel (mmap_remove a len m) = kernel m"
  by (simp add: mmap_remove_def Let_def)

lemma mm_inv_step:
  assumes "mm_inv m" "act_ok (table (mpages m)) a" "mm_step a m = Inr m'"
  shows "mm_inv m'"
proof -
  have ok: "mm_ok m'" and t: "table (mpages m') = spec_step a (table (mpages m))"
    using mm_step_refines [OF _ refl assms(2)] assms(1,3) by (auto simp: mm_inv_def)
  have "kernel m' x \<noteq> None" if "table (mpages m') x \<noteq> None" for x
  proof (cases a)
    case (Map p len pr flags fd)
    have "kernel m' x = (if x \<in> page_range p len then Some (fst (map_request flags)) else kernel m x)"
      using assms(2,3) Map MAP_FAILED_not_ok [of p len] kernel_add by (fastforce simp: xmmap_map_def rbind_Inr_iff)
    then show ?thesis using that t Map assms(1) by (auto simp: mm_inv_def split: if_splits)
  next
    case (Unmap p len)
    then have "aligned p \<and> len \<noteq> 0" using assms(2) by (auto simp: range_ok_def)
    then have "kernel m' x = (if x \<in> page_range p len then None else kernel m x)"
      using assms(3) Unmap by (auto simp: xmmap_unmap_def sys_munmap_def)
    then show ?thesis using that t Unmap assms(1) by (auto simp: mm_inv_def split: if_splits)
  qed
  then show ?thesis using ok by (simp add: mm_inv_def)
qed

lemma mm_inv_mprotect: "mm_inv m \<Longrightarrow> mm_inv (snd (sys_mprotect a p m))"
  by (simp add: mm_inv_def sys_mprotect_def mm_ok_def)

lemma mm_inv_accessed: "mm_inv m \<Longrightarrow> mm_inv (m\<lparr>accessed := l\<rparr>)"
  by (simp add: mm_inv_def mm_ok_def)

lemma mm_inv_fault: "mm_inv m \<Longrightarrow> mmappage_handleAccess p a w m = Inr m' \<Longrightarrow> mm_inv (accessed_add b m')"
  by (auto simp: mmappage_handleAccess_def mmappage_handleWrite_def mmappage_handleRead_def accessed_add_def
      intro!: mm_inv_mprotect mm_inv_accessed split: if_splits)

lemma mm_inv_reset: "mm_inv m \<Longrightarrow> mm_inv (accessed_reset m)"
proof -
  have "mm_inv m \<Longrightarrow> mm_inv (fold (\<lambda>a t. snd (sys_mprotect a PROT_NONE t)) as m)" for as
    by (induction as arbitrary: m) (auto intro: mm_inv_mprotect)
  then show "mm_inv m \<Longrightarrow> mm_inv (accessed_reset m)" by (simp add: accessed_reset_def mm_inv_accessed)
qed

lemma find_page:
  assumes "mm_inv m" "mmap_find addr m = Some p"
  shows "page_addr p = PAGE_ALIGN_DOWN addr \<and> kernel m (PAGE_ALIGN_DOWN addr) \<noteq> None"
  using mmap_find_table [of m addr] assms
  by (cases "table (mpages m) (PAGE_ALIGN_DOWN addr)") (auto simp: mm_inv_def)

definition page_permits :: "mmappage \<Rightarrow> bool \<Rightarrow> bool" where
  "page_permits p is_write \<longleftrightarrow> page_protection p AND (if is_write then PROT_WRITE else PROT_READ) \<noteq> 0"

lemma mmap_fault_opens:
  assumes "mm_inv m" "mmap_find addr m = Some p"
  shows "case mmappage_handleAccess p addr is_write m of
      Inl e \<Rightarrow> e = Abort \<and> \<not> page_permits p is_write
    | Inr m' \<Rightarrow> allows m' addr is_write"
  using find_page [OF assms]
  by (auto simp: mmappage_handleAccess_def mmappage_handleWrite_def mmappage_handleRead_def page_permits_def
      sys_mprotect_def allows_def aligned_down PROT_READ_def PROT_WRITE_def)

subsection \<open>The handler\<close>

definition memory_allows :: "int \<Rightarrow> u64 \<Rightarrow> bool \<Rightarrow> xmemory \<Rightarrow> bool" where
  "memory_allows pid addr is_write s =
     (if inRange (heap_region s) addr then region_allows pid addr is_write (heap_region s)
      else if inRange (globals s) addr then region_allows pid addr is_write (globals s)
      else allows (mmaps s pid) addr is_write)"

text \<open>The reasons to abort.\<close>

definition fault_fatal :: "int \<Rightarrow> u64 \<Rightarrow> bool \<Rightarrow> xmemory \<Rightarrow> bool" where
  "fault_fatal pid addr is_write s =
     (if inRange (heap_region s) addr then is_write \<and> pool_empty pid (heap_region s)
      else if inRange (globals s) addr then is_write \<and> pool_empty pid (globals s)
      else case mmap_find addr (mmaps s pid) of
        None \<Rightarrow> True
      | Some p \<Rightarrow> \<not> page_permits p is_write)"

text \<open>The writes that stay forbidden: the handler commits the page again and so closes it.\<close>

definition fault_stuck :: "int \<Rightarrow> u64 \<Rightarrow> bool \<Rightarrow> xmemory \<Rightarrow> bool" where
  "fault_stuck pid addr is_write s \<longleftrightarrow> is_write \<and>
     (if inRange (heap_region s) addr then written_back pid addr (heap_region s)
      else inRange (globals s) addr \<and> written_back pid addr (globals s))"

lemma regions_upd [simp]:
  "heap_region (s\<lparr>pheap := set_region r h, globals := g\<rparr>) = r"
  "heap_region (s\<lparr>globals := g, pheap := set_region r h\<rparr>) = r"
  "heap_region (s\<lparr>mmaplog := l\<rparr>) = heap_region s" "heap_region (s\<lparr>mmaps := mm\<rparr>) = heap_region s"
  by (simp_all add: heap_region_def set_region_def)

lemma inRange_share [simp]: "inRange (share pid q r) = inRange r"
  by (simp add: same_place_inRange)

lemma region_allows_share: "region_allows pid addr w (share pid q r) = region_allows pid addr w r"
  by (simp add: region_allows_def share_def pageAt_def)

text \<open>
  C16: Progress of the fault handler, exactly: after a fault on a protected address the handler either
  aborts, and then the address is in no region and no mapping, or the mapping forbids the access, or the
  pool of page entries is empty; or it returns, and then the access is allowed, unless it is a write to a
  page that the process has written and committed without giving it up, which is still forbidden.
\<close>

theorem fault_progress:
  assumes "mm_inv (mmaps s pid)"
  shows "case segvHandle pid addr SEGV_ACCERR err pc s of
      Inl e \<Rightarrow> e = Abort \<and> fault_fatal pid addr (err AND 2 \<noteq> 0) s
    | Inr s' \<Rightarrow> memory_allows pid addr (err AND 2 \<noteq> 0) s' \<longleftrightarrow> \<not> fault_stuck pid addr (err AND 2 \<noteq> 0) s"
proof -
  define w where "w = (err AND 2 \<noteq> 0)"
  note h = handleAccess_opens [where is_write = w and r = "heap_region s" and pid = pid and addr = addr and pc = pc] and g = handleAccess_opens [where is_write = w and r = "globals s" and pid = pid and addr = addr and pc = pc]
  have "case memory_handleAccess pid addr w pc s of
      Inl e \<Rightarrow> e = Abort \<and> fault_fatal pid addr w s
    | Inr s' \<Rightarrow> memory_allows pid addr w s' \<longleftrightarrow> \<not> fault_stuck pid addr w s"
  proof (cases "inRange (heap_region s) addr")
    case True
    then show ?thesis using h
      by (auto simp: memory_handleAccess_def on_heap_def fault_fatal_def memory_allows_def fault_stuck_def
          same_place_inRange split: sum.splits)
  next
    case nh: False
    show ?thesis
    proof (cases "inRange (globals s) addr")
      case True
      then show ?thesis using nh g same_place_inRange [OF same_place_share]
        by (auto simp: memory_handleAccess_def on_globals_def fault_fatal_def memory_allows_def fault_stuck_def
            same_place_inRange split: sum.splits)
    next
      case False
      then show ?thesis using nh mmap_fault_opens [OF assms(1), of addr _ w]
        by (auto simp: memory_handleAccess_def mmap_fault_def fault_fatal_def memory_allows_def fault_stuck_def
            Let_def accessed_add_def allows_def split: option.splits sum.splits)
    qed
  qed
  then show ?thesis unfolding w_def by (simp only: segvHandle_def si_code.case)
qed

text \<open>A heap of four pages at 65536, globals at 1048576, and a readable page of a file at 8192.\<close>

definition ex_memory :: xmemory where
  "ex_memory = \<lparr>globals = ex_region\<lparr>isHeap := False, startaddr := 1048576\<rparr>,
     pheap = \<lparr>heaps = (\<lambda>_. kheap_init), stored = \<lparr>cells = (\<lambda>_. 0), source = (xheap_init 65536 16384, ex_region)\<rparr>\<rparr>,
     heapid = (\<lambda>_. 0),
     mmaps = (\<lambda>_. \<lparr>mpages = [\<lparr>page_addr = 8192, page_fd = 7, page_protection = 1\<rparr>], accessed = [],
                   kernel = [8192 \<mapsto> 0]\<rparr>),
     mmaplog = (\<lambda>_. [])\<rparr>"

lemma ex_memory:
  "mm_inv (mmaps ex_memory 1)" "inRange (heap_region ex_memory) 65544" "\<not> pool_empty 1 (heap_region ex_memory)"
  "\<not> written_back 1 65544 (heap_region ex_memory)" "\<not> written_back 1 65544 (globals ex_memory)"
  "\<not> inRange (heap_region ex_memory) 8200" "\<not> inRange (globals ex_memory) 8200"
  "accessed (mmaps ex_memory 1) = []"
  "mmap_find 8200 (mmaps ex_memory 1) = Some \<lparr>page_addr = 8192, page_fd = 7, page_protection = 1\<rparr>"
  by (simp_all add: ex_memory_def mm_inv_def mm_ok_def aligned_def table_def heap_region_def inRange_def
      ex_region_def ex_proc_def ex_pool_def pool_empty_def written_back_def mmap_find_def lower_bound.simps
      PAGE_ALIGN_DOWN_def PAGE_SIZE_MASK_def PageSize_def)

theorem fault_progress_witness:
  "\<exists>s'. segvHandle 1 65544 SEGV_ACCERR 6 0 ex_memory = Inr s' \<and> memory_allows 1 65544 True s'"
  using fault_progress [of ex_memory 1 65544 6 0, OF ex_memory(1)] ex_memory
  by (auto simp: fault_fatal_def fault_stuck_def split: sum.splits)

text \<open>
  The list of touched pages of a mapping has the addresses of the faults, and \<open>mprotect\<close> refuses one
  that is not the start of a page: after a fault in a mapping and the commit, the page is closed, so
  that the next access is seen, only if the fault was at its first byte.
\<close>

lemma mmap_stays_open:
  assumes "mm_inv (mmaps s pid)" "accessed (mmaps s pid) = []" "mmap_find addr (mmaps s pid) = Some p"
    and "page_permits p is_write" "\<not> inRange (heap_region s) addr" "\<not> inRange (globals s) addr"
  shows "\<exists>s1 s2. memory_handleAccess pid addr is_write pc s = Inr s1 \<and> memory_commit pid s1 = Inr s2 \<and>
    allows (mmaps s1 pid) addr is_write \<and> (allows (mmaps s2 pid) addr is_write \<longleftrightarrow> \<not> aligned addr)"
proof -
  obtain m where m: "mmappage_handleAccess p addr is_write (mmaps s pid) = Inr m" "allows m addr is_write"
    using mmap_fault_opens [OF assms(1,3), of is_write] assms(4) by (auto split: sum.splits)
  then have acc: "accessed m = []"
    using assms(2)
    by (auto simp: mmappage_handleAccess_def mmappage_handleWrite_def mmappage_handleRead_def sys_mprotect_def split: if_splits)
  have k: "kernel m (PAGE_ALIGN_DOWN addr) \<noteq> None" using m(2) by (auto simp: allows_def split: option.splits)
  let ?m = "accessed_add addr m"
  let ?s1 = "upd_mmap pid ?m (s\<lparr>mmaplog := (mmaplog s)(pid := mmaplog s pid @ [(is_write, pc, drop_bit PageShift addr)])\<rparr>)"
  have h: "memory_handleAccess pid addr is_write pc s = Inr ?s1"
    using assms(3,5,6) m(1) by (simp add: memory_handleAccess_def mmap_fault_def Let_def)
  obtain s2 where c: "memory_commit pid ?s1 = Inr s2" "mmaps s2 pid = accessed_reset ?m"
    by (simp add: memory_commit_def on_heap_def on_globals_def)
  have "allows (accessed_reset ?m) addr is_write \<longleftrightarrow> \<not> aligned addr"
    using m(2) k acc
    by (auto simp: accessed_reset_def accessed_add_def sys_mprotect_def allows_def aligned_down_id PROT_NONE_def
        split: option.splits)
  moreover have "allows (mmaps ?s1 pid) addr is_write" using m(2) by (simp add: accessed_add_def allows_def)
  ultimately show ?thesis using h c by (intro exI [of _ ?s1] exI [of _ s2]) (simp only: simp_thms)
qed

lemma mmap_stays_open_witness:
  "\<exists>s1 s2. memory_handleAccess 1 8200 False 0 ex_memory = Inr s1 \<and> memory_commit 1 s1 = Inr s2 \<and>
    allows (mmaps s2 1) 8200 False"
proof -
  have "page_permits \<lparr>page_addr = 8192, page_fd = 7, page_protection = 1\<rparr> False" "\<not> aligned 8200"
    by (simp_all add: page_permits_def PROT_READ_def aligned_def)
  then show ?thesis using mmap_stays_open [OF ex_memory(1,8,9) _ ex_memory(6,7), of False 0] by auto
qed

end
