(* ===== verification/Xpersist_Final.thy ===== *)
theory Xpersist_Final
  imports Xpersist_Owned
begin

text \<open>
  The last commit of the pages a process owns, \<open>finalcommit\<close> of \<^verbatim>\<open>xpersist.h\<close>: it is complete when the
  process exits (\<open>release\<close> is false), and when the process creates or joins a thread it commits every
  other page only, because giving up a page takes the next one away.
\<close>

text \<open>Page \<open>p\<close> is owned and has been written by \<open>pid\<close>.\<close>

definition owns_written :: "int \<Rightarrow> nat \<Rightarrow> xpersist \<Rightarrow> bool" where
  "owns_written pid p s \<longleftrightarrow> pid \<noteq> 0 \<and> pid \<noteq> SHARED_PAGE \<and> pageOwner s p = pid \<and>
     pageInfo (procs s pid) p = PAGE_ACCESS_READ_WRITE \<and> prot (procs s pid) p = Prot_RW"

abbreviation final_page :: "int \<Rightarrow> bool \<Rightarrow> nat \<Rightarrow> xpersist \<Rightarrow> xpersist" where
  "final_page pid release j u \<equiv> (if pageOwner u j = pid then commitOwnedPage pid j release u else u)"

lemmas commit_owned = owns_written_def commitOwnedPage_def mprotect_def mprotectRead_def setSharedPage_def
  madvise_dontneed_def bump_def view_def Let_def

lemma commit_kept:
  assumes "owns_written pid p s"
  shows "persistent (commitOwnedPage pid p False s) = (persistent s)(p := view s pid p)"
    "pageOwner (commitOwnedPage pid p False s) = pageOwner s"
    "q \<noteq> p \<Longrightarrow> view (commitOwnedPage pid p False s) pid q = view s pid q"
    "q \<noteq> p \<Longrightarrow> owns_written pid q (commitOwnedPage pid p False s) = owns_written pid q s"
  using assms by (simp_all add: commit_owned fun_eq_iff split: option.split)

lemma commit_released:
  assumes "owns_written pid p s"
  shows "persistent (commitOwnedPage pid p True s) = (persistent s)(p := view s pid p)"
    "pageOwner (commitOwnedPage pid p True s) = (pageOwner s)(p := SHARED_PAGE, Suc p := 0)"
    "q \<noteq> p \<Longrightarrow> view (commitOwnedPage pid p True s) pid q = view s pid q"
    "q \<noteq> p \<Longrightarrow> q \<noteq> Suc p \<Longrightarrow> owns_written pid q (commitOwnedPage pid p True s) = owns_written pid q s"
  using assms by (simp_all add: commit_owned fun_eq_iff split: option.split)

lemma fold_kept:
  assumes "\<forall>k<n. owns_written pid (a + k) s"
  shows "persistent (fold (final_page pid False) [a ..< a + n] s) =
      (\<lambda>p. if a \<le> p \<and> p < a + n then view s pid p else persistent s p) \<and>
    pageOwner (fold (final_page pid False) [a ..< a + n] s) = pageOwner s"
  using assms
proof (induction n arbitrary: a s)
  case (Suc n)
  have o: "owns_written pid a s" using Suc.prems by force
  let ?t = "commitOwnedPage pid a False s"
  have "\<forall>k<n. owns_written pid (Suc a + k) s" using Suc.prems by (metis Suc_less_eq add_Suc_shift)
  then have "\<forall>k<n. owns_written pid (Suc a + k) ?t" using commit_kept(4) [OF o] by simp
  note IH = Suc.IH [OF this]
  have "fold (final_page pid False) [a ..< a + Suc n] s = fold (final_page pid False) [Suc a ..< Suc a + n] ?t"
  proof -
    have "[a ..< a + Suc n] = a # [Suc a ..< Suc a + n]" using upt_conv_Cons [of a "a + Suc n"] by simp
    then show ?thesis using o by (simp only: fold_simps o_apply) (simp add: owns_written_def)
  qed
  then show ?case using IH commit_kept [OF o] by (auto simp: fun_eq_iff)
qed (auto simp: fun_eq_iff)

text \<open>Two pages at a time: the second one is no longer owned when its turn comes.\<close>

lemma fold_released:
  assumes "\<forall>k<n. owns_written pid (a + k) s"
  shows "persistent (fold (final_page pid True) [a ..< a + n] s) =
      (\<lambda>p. if a \<le> p \<and> p < a + n \<and> even (p - a) then view s pid p else persistent s p) \<and>
    pageOwner (fold (final_page pid True) [a ..< a + n] s) =
      (\<lambda>p. if a \<le> p \<and> p < a + n \<and> even (p - a) then SHARED_PAGE
           else if a < p \<and> p \<le> a + n \<and> odd (p - a) then 0 else pageOwner s p)"
  using assms
proof (induction n arbitrary: a s rule: less_induct)
  case (less n)
  let ?t = "commitOwnedPage pid a True s"
  consider "n = 0" | "n = 1" | m where "n = m + 2" by (cases n; cases "n - 1") auto
  then show ?case
  proof cases
    case 1
    then show ?thesis by (auto simp: fun_eq_iff)
  next
    case 2
    then have o: "owns_written pid a s" using less.prems by force
    then have "fold (final_page pid True) [a ..< a + n] s = ?t" using 2 by (simp add: owns_written_def)
    then show ?thesis using commit_released [OF o] 2 by (auto simp: fun_eq_iff less_Suc_eq)
  next
    case 3
    have o: "owns_written pid a s" using less.prems 3 by force
    have "owns_written pid (a + 2 + k) s" if "k < m" for k
      using less.prems that 3 by (metis add.assoc add.commute add_less_cancel_left)
    then have o2: "\<forall>k<m. owns_written pid (a + 2 + k) ?t" using commit_released(4) [OF o] by simp
    have "[a ..< a + n] = a # Suc a # [a + 2 ..< a + 2 + m]" using 3 by (simp add: upt_conv_Cons numeral_2_eq_2)
    moreover have "pageOwner s a = pid" "pageOwner ?t (Suc a) \<noteq> pid"
      using o commit_released(2) [OF o] by (auto simp: owns_written_def)
    ultimately have f: "fold (final_page pid True) [a ..< a + n] s = fold (final_page pid True) [a + 2 ..< a + 2 + m] ?t"
      by simp
    note IH = less.IH [OF _ o2]
    have P: "persistent (fold (final_page pid True) [a ..< a + n] s) p =
        (if a \<le> p \<and> p < a + n \<and> even (p - a) then view s pid p else persistent s p) \<and>
      pageOwner (fold (final_page pid True) [a ..< a + n] s) p =
        (if a \<le> p \<and> p < a + n \<and> even (p - a) then SHARED_PAGE
         else if a < p \<and> p \<le> a + n \<and> odd (p - a) then 0 else pageOwner s p)" for p
    proof -
      have "p < a \<or> p = a \<or> p = Suc a \<or> (\<exists>j. p = a + 2 + j)" by presburger
      then consider "p < a" | "p = a" | "p = Suc a" | j where "p = a + 2 + j" by blast
      then show ?thesis
        unfolding f using IH commit_released(1-3) [OF o] 3 by cases (simp_all, blast)
    qed
    then show ?thesis by blast
  qed
qed

text \<open>
  C31: The last commit of a process that owns and has written the pages of one block: when it exits every
  page of the block is committed; when it goes on (it creates or joins a thread) every other page of the
  block is, and if the number of pages is odd the page after the block loses its owner, whoever that is.
\<close>

theorem finalcommit_pages:
  assumes "ownedblocks (procs s pid) = 1" "ownedblockinfo (procs s pid) 0 = a" "ownedblockinfo (procs s pid) 1 = a + n"
    and "\<forall>k<n. owns_written pid (a + k) s"
  shows "persistent (finalcommit pid release s) p =
      (if a \<le> p \<and> p < a + n \<and> (release \<longrightarrow> even (p - a)) then view s pid p else persistent s p) \<and>
    pageOwner (finalcommit pid release s) (a + n) = (if release \<and> odd n then 0 else pageOwner s (a + n))"
proof -
  have "finalcommit pid r s = fold (final_page pid r) [a ..< a + n] s" for r
    using assms(1-3) by (simp add: finalcommit_def)
  then show ?thesis
    using fold_kept [OF assms(4)] fold_released [OF assms(4)] by (cases release) (simp_all del: even_diff_nat)
qed

text \<open>Process 1 owns the pages 0 to 2, process 2 the page 3.\<close>

definition ex_block :: xpersist where
  "ex_block = ex_owned\<lparr>pageOwner := (\<lambda>_. 1)(3 := 2),
     procs := (procs ex_owned)(1 := (procs ex_owned 1)\<lparr>ownedblocks := 1, ownedblockinfo := (\<lambda>_. 0)(1 := 3)\<rparr>)\<rparr>"

theorem finalcommit_pages_witness:
  "persistent (finalcommit 1 True ex_block) 1 7 = 0 \<and> persistent (finalcommit 1 True ex_block) 2 7 = 9 \<and>
   persistent (finalcommit 1 False ex_block) 1 7 = 9 \<and> pageOwner (finalcommit 1 True ex_block) 3 = 0"
proof -
  have b: "ownedblocks (procs ex_block 1) = 1" "ownedblockinfo (procs ex_block 1) 0 = 0"
    "ownedblockinfo (procs ex_block 1) 1 = 0 + 3" "\<forall>k<3. owns_written 1 (0 + k) ex_block"
    by (simp_all add: ex_block_def ex_owned_def owns_written_def SHARED_PAGE_def)
  have v: "view ex_block 1 p k = 9" "persistent ex_block p k = 0" for p k
    by (simp_all add: ex_block_def ex_owned_def view_def ex_region_def)
  note f = finalcommit_pages [OF b]
  show ?thesis
    using f [of True 1] f [of True 2] f [of False 1] by (simp add: v)
qed

text \<open>
  A page that is committed but not given up is closed and still marked as written. The handler of the
  next write opens it, commits it again and so closes it: the write faults for ever.
\<close>

lemma owned_write_livelock:
  assumes "pageOwner s p = pid" "pageInfo (procs s pid) p = PAGE_ACCESS_READ_WRITE" "prot (procs s pid) p = Prot_None"
    and "off < 4096 * pages s" "4096 * pages s < 2 ^ 64" "p = off div 4096"
  shows "\<exists>s'. store n pid pc off v s = Inr (False, s')"
  using assms
proof (induction n arbitrary: s)
  case (Suc n)
  let ?s0 = "upd_proc pid (accesslog_update (\<lambda>l. l @ [(True, pc, drop_bit PageShift (startaddr s + of_nat off))])) s"
  define t where "t = commitOwnedPage pid p False (mprotectReadWrite pid p ?s0)"
  have t: "pageOwner t p = pid" "pageInfo (procs t pid) p = PAGE_ACCESS_READ_WRITE" "prot (procs t pid) p = Prot_None"
    "pages t = pages s"
    using Suc.prems(1,2)
    by (simp_all add: t_def commitOwnedPage_def mprotectReadWrite_def mprotect_def bump_def Let_def)
  have at: "pageAt s (startaddr s + word_of_nat off) = p"
    using pageAt_offset [OF Suc.prems(4,5)] Suc.prems(6) by simp
  have "handleAccess pid (startaddr s + of_nat off) True pc s = Inr t"
    using Suc.prems(1,2) t(1) by (simp add: handleAccess_def Let_def handleWrite_def at flip: t_def)
  then show ?case using Suc.IH [OF t(1-3)] Suc.prems(3-6) t(4) by simp
qed simp

end
