(* ===== verification/Exports.thy ===== *)
theory Exports
  imports Xrun
begin

text \<open>
  The functions of the C library that \<^verbatim>\<open>tthread.cpp\<close> and \<^verbatim>\<open>read.cpp\<close> replace: the thread functions, which
  forward to \<open>xrun\<close> once the library is initialised, and the functions on files, which touch the memory
  they pass to the system before they call it, because the system does not run the fault handler.
\<close>

subsection \<open>Thread functions\<close>

text \<open>\<open>initialized\<close> is an argument, the result and the calls of the engine the value.\<close>

type_synonym exported = "xrun \<Rightarrow> int \<times> call list \<times> xrun"

definition EAGAIN :: int where "EAGAIN = 11"

definition forward :: "bool \<Rightarrow> int \<Rightarrow> run_op \<Rightarrow> exported" where
  "forward init r f s = (if init then (case f s of (c, s1) \<Rightarrow> (r, c, s1)) else (0, [], s))"

text \<open>\<open>handle\<close>: the status object of the thread, which is its \<open>pthread_t\<close>.\<close>

definition pthread_create :: "bool \<Rightarrow> u64 \<Rightarrow> bool \<Rightarrow> nat \<Rightarrow> xrun \<Rightarrow> int \<times> nat option \<times> call list \<times> xrun" where
  "pthread_create init caller forked handle s =
     (if \<not> init then (EAGAIN, None, [], s)
      else case run_spawn caller forked s of
        (c, s1) \<Rightarrow> if forked then (0, Some handle, c, s1) else (EAGAIN, None, c, s1))"

definition pthread_exit :: "bool \<Rightarrow> run_op" where
  "pthread_exit init s = (if init then threadDeregister s else ([], s))"

definition pthread_join :: "bool \<Rightarrow> u64 \<Rightarrow> nat option \<Rightarrow> bool \<Rightarrow> exported" where
  "pthread_join init caller tid single = forward init 0 (run_join caller tid single)"

definition pthread_cancel :: "bool \<Rightarrow> u64 \<Rightarrow> nat \<Rightarrow> exported" where
  "pthread_cancel init caller thread = forward init 0 (run_cancel caller thread)"

text \<open>Neither of these does anything.\<close>

definition pthread_kill :: "nat \<Rightarrow> int \<Rightarrow> exported" where "pthread_kill thread sig s = (0, [], s)"
definition pthread_mutex_trylock :: "u64 \<Rightarrow> exported" where "pthread_mutex_trylock mutex s = (0, [], s)"

definition sigwait :: "u64 \<Rightarrow> int \<Rightarrow> exported" where
  "sigwait caller ret = forward True ret (run_sig_wait caller ret)"

definition pthread_mutex_lock :: "bool \<Rightarrow> u64 \<Rightarrow> u64 \<Rightarrow> bool \<Rightarrow> bool \<Rightarrow> bool list \<Rightarrow> exported" where
  "pthread_mutex_lock init caller mutex owner single answers =
     forward init 0 (\<lambda>s. case mutex_lock caller mutex owner single answers s of (c, s1, _) \<Rightarrow> (c, s1))"

definition pthread_mutex_unlock :: "bool \<Rightarrow> u64 \<Rightarrow> u64 \<Rightarrow> exported" where
  "pthread_mutex_unlock init caller mutex = forward init 0 (mutex_unlock caller mutex)"

definition pthread_cond_wait :: "bool \<Rightarrow> u64 \<Rightarrow> u64 \<Rightarrow> u64 \<Rightarrow> exported" where
  "pthread_cond_wait init caller cond mutex = forward init 0 (run_cond_wait caller cond mutex)"

definition pthread_cond_signal :: "bool \<Rightarrow> u64 \<Rightarrow> u64 \<Rightarrow> exported" where
  "pthread_cond_signal init caller cond = forward init 0 (run_cond_signal caller cond)"

definition pthread_cond_broadcast :: "bool \<Rightarrow> u64 \<Rightarrow> u64 \<Rightarrow> exported" where
  "pthread_cond_broadcast init caller cond = forward init 0 (run_cond_broadcast caller cond)"

definition pthread_barrier_wait :: "bool \<Rightarrow> u64 \<Rightarrow> exported" where
  "pthread_barrier_wait init barrier = forward init 0 (run_barrier_wait barrier)"

subsection \<open>Touching a buffer\<close>

text \<open>
  The loop over the offsets of a buffer, a page at a time. The counter may wrap: the loop need not end.
\<close>

partial_function (option) touch_from :: "u64 \<Rightarrow> u64 \<Rightarrow> u64 list option" where
  "touch_from count i =
     (if i < count then Option.bind (touch_from count (i + PageSize)) (\<lambda>is. Some (i # is)) else Some [])"

text \<open>The offsets touched: those of the loop, and the last byte.\<close>

definition touched :: "u64 \<Rightarrow> u64 list option" where
  "touched count = map_option (\<lambda>is. is @ [count - 1]) (touch_from count 0)"

text \<open>\<open>prepare_write\<close> reads, \<open>prepare_read\<close> writes a zero.\<close>

definition prepare_write :: "u64 \<Rightarrow> u64 \<Rightarrow> u64 list option" where
  "prepare_write buf count = map_option (map (\<lambda>i. buf + i)) (touched count)"

definition prepare_read :: "u64 \<Rightarrow> u64 \<Rightarrow> (u64 \<Rightarrow> u8) \<Rightarrow> (u64 \<Rightarrow> u8) option" where
  "prepare_read buf count m = map_option (\<lambda>is. fold (\<lambda>i m. m(buf + i := 0)) is m) (touched count)"

definition prepare_fwrite :: "u64 \<Rightarrow> u64 \<Rightarrow> u64 \<Rightarrow> u64 list option" where
  "prepare_fwrite ptr sz nmemb = prepare_write ptr (sz * nmemb)"

definition prepare_fread :: "u64 \<Rightarrow> u64 \<Rightarrow> u64 \<Rightarrow> (u64 \<Rightarrow> u8) \<Rightarrow> (u64 \<Rightarrow> u8) option" where
  "prepare_fread ptr sz nmemb m = prepare_read ptr (sz * nmemb) m"

text \<open>\<open>open\<close> touches the path and passes on the flags, but no mode; \<open>strlen\<close> is an argument.\<close>

definition prepare_open :: "u64 \<Rightarrow> u64 \<Rightarrow> u64 list option" where
  "prepare_open pathname len = prepare_write pathname len"

definition prepare_fopen :: "u64 \<Rightarrow> u64 \<Rightarrow> u64 \<Rightarrow> u64 \<Rightarrow> u64 list option" where
  "prepare_fopen path plen fmode mlen =
     Option.bind (prepare_write path plen) (\<lambda>a. map_option (\<lambda>b. a @ b) (prepare_write fmode mlen))"

subsection \<open>Every page of a buffer is touched\<close>

lemma unat_small: "n < 2 ^ 64 \<Longrightarrow> unat (of_nat n :: u64) = n"
  by (simp add: unat_of_nat take_bit_nat_eq_self)

lemma touch_from_run:
  assumes "unat count = c" "c + 4096 \<le> 2 ^ 64" "i = of_nat (4096 * k)" "4096 * k < c + 4096"
  shows "touch_from count i = Some (map (\<lambda>j. of_nat (4096 * j)) [k ..< (c + 4095) div 4096])"
  using assms(3,4)
proof (induction "(c + 4095) div 4096 - k" arbitrary: k i)
  case 0
  have "c \<le> 4096 * k" using 0(1) by linarith
  moreover have "unat i = 4096 * k" using 0 assms(2) by (simp only: unat_small)
  ultimately have "\<not> i < count" using assms(1) by (simp add: word_less_nat_alt)
  then show ?case using 0(1) by (simp add: touch_from.simps)
next
  case (Suc n)
  have le: "4096 * k < c" using Suc(2) by linarith
  have u: "unat i = 4096 * k" using Suc.prems assms(2) by (simp only: unat_small)
  have lt: "i < count" using u le assms(1) by (simp add: word_less_nat_alt)
  have "i + PageSize = of_nat (4096 * Suc k)" using Suc.prems(1) by (simp add: PageSize_def)
  moreover have "n = (c + 4095) div 4096 - Suc k" "4096 * Suc k < c + 4096" using Suc(2) le by (linarith, simp)
  ultimately have "touch_from count (i + PageSize) = Some (map (\<lambda>j. of_nat (4096 * j)) [Suc k ..< (c + 4095) div 4096])"
    using Suc(1) by blast
  moreover have "[k ..< (c + 4095) div 4096] = k # [Suc k ..< (c + 4095) div 4096]"
    using Suc(2) by (intro upt_conv_Cons) linarith
  ultimately show ?case using lt Suc.prems(1) by (subst touch_from.simps) simp
qed

text \<open>The offsets as numbers; each page of the buffer, which need not begin at a page, has one of them.\<close>

definition offsets :: "nat \<Rightarrow> nat list" where
  "offsets c = map (\<lambda>j. 4096 * j) [0 ..< (c + 4095) div 4096] @ [c - 1]"

lemma touched_offsets:
  assumes "0 < count" "unat count + 4096 \<le> 2 ^ 64"
  shows "touched count = Some (map of_nat (offsets (unat count)))"
proof -
  have "count - 1 = of_nat (unat count - 1)"
    using assms(1) by (simp add: of_nat_diff word_less_nat_alt Suc_le_eq)
  then show ?thesis
    using touch_from_run [OF refl assms(2), of 0 0] by (simp add: touched_def offsets_def comp_def)
qed

lemma offsets_less: "0 < c \<Longrightarrow> x \<in> set (offsets c) \<Longrightarrow> x < c"
  by (auto simp: offsets_def)

lemma offsets_cover:
  assumes "k < c"
  shows "\<exists>x\<in>set (offsets c). (b + x) div 4096 = (b + k) div 4096"
proof -
  define j where "j = k div 4096"
  have j: "4096 * j \<le> k" "k < 4096 * j + 4096" by (auto simp: j_def)
  have m: "4096 * i \<in> set (offsets c)" if "4096 * i < c" for i
    using that by (auto simp: offsets_def intro!: image_eqI [of _ _ i])
  have d: "(b + 4096 * i) div 4096 = b div 4096 + i" for i by simp
  have le: "b div 4096 + j \<le> (b + y) div 4096" if "k \<le> y" for y
    using div_le_mono [of "b + 4096 * j" "b + y" 4096] that j d [of j] by linarith
  have ge: "(b + y) div 4096 \<le> b div 4096 + Suc j" if "y < 4096 * Suc j" for y
    using div_le_mono [of "b + y" "b + 4096 * Suc j" 4096] that d [of "Suc j"] by linarith
  show ?thesis
  proof (cases "(b + k) div 4096 = b div 4096 + j")
    case True
    then show ?thesis using m [of j] j(1) assms d [of j] by (metis order_le_less_trans)
  next
    case False
    then have e: "(b + k) div 4096 = b div 4096 + Suc j" using le [of k] ge [of k] j(2) by simp
    show ?thesis
    proof (cases "4096 * Suc j < c")
      case True
      then show ?thesis using m d e by metis
    next
      case False
      have "(b + k) div 4096 \<le> (b + (c - 1)) div 4096" using assms by (intro div_le_mono) simp
      moreover have "(b + (c - 1)) div 4096 \<le> b div 4096 + Suc j" using False assms by (intro ge) linarith
      ultimately have "(b + (c - 1)) div 4096 = (b + k) div 4096" using e by linarith
      then show ?thesis by (auto simp: offsets_def)
    qed
  qed
qed

text \<open>
  C37: Before a buffer of at least one byte is passed to the system, every page it overlaps has been
  touched, and no byte outside it has.
\<close>

theorem buffer_touched:
  assumes "0 < count" "unat buf + unat count \<le> 2 ^ 64" "unat count + 4096 \<le> 2 ^ 64"
  shows "\<exists>as. prepare_write buf count = Some as \<and>
    (\<forall>k. k < unat count \<longrightarrow> (\<exists>a\<in>set as. unat a div 4096 = (unat buf + k) div 4096)) \<and>
    (\<forall>a\<in>set as. unat buf \<le> unat a \<and> unat a < unat buf + unat count)"
proof -
  have c: "0 < unat count" using assms(1) by (simp add: word_less_nat_alt)
  have ad: "unat (buf + of_nat x) = unat buf + x" if "x < unat count" for x
  proof -
    have "x < 2 ^ 64" "unat buf + x < 2 ^ 64" using that assms(2) by linarith+
    then show ?thesis by (simp add: unat_word_ariths unat_small)
  qed
  then have "\<exists>a\<in>set (offsets (unat count)). unat (buf + of_nat a) div 4096 = (unat buf + k) div 4096" if "k < unat count" for k
    using offsets_cover [OF that] offsets_less [OF c] by metis
  then show ?thesis
    using ad offsets_less [OF c] by (auto simp: prepare_write_def touched_offsets [OF assms(1,3)])
qed

theorem buffer_touched_witness:
  "\<exists>as. prepare_write 8000 10000 = Some as \<and> length as = 4 \<and> (\<exists>a\<in>set as. unat a div 4096 = 3)"
proof -
  from buffer_touched [of 10000 8000] obtain as where as: "prepare_write 8000 10000 = Some as"
    "\<forall>k. k < unat (10000 :: u64) \<longrightarrow> (\<exists>a\<in>set as. unat a div 4096 = (unat (8000 :: u64) + k) div 4096)" by auto
  have "length as = 4" using as(1) touched_offsets [of 10000] by (auto simp: prepare_write_def offsets_def)
  moreover have "\<exists>a\<in>set as. unat a div 4096 = 3" using as(2) [rule_format, of 5000] by simp
  ultimately show ?thesis using as(1) by blast
qed

text \<open>A read of nothing writes the byte before the buffer, and a read that returns less has zeroed the last byte.\<close>

lemma empty_read_writes: "prepare_read buf 0 m = Some (m(buf - 1 := 0))"
  by (simp add: prepare_read_def touched_def touch_from.simps)

lemma read_zeroes_last:
  assumes "0 < count" "unat count + 4096 \<le> 2 ^ 64"
  shows "\<exists>m'. prepare_read buf count m = Some m' \<and> m' (buf + (count - 1)) = 0"
proof -
  have "of_nat (unat count - 1) = count - 1"
    using assms(1) by (simp add: of_nat_diff word_less_nat_alt Suc_le_eq)
  then show ?thesis using touched_offsets [OF assms] by (simp add: prepare_read_def offsets_def)
qed

end
