(* ===== verification/Interleaving.thy ===== *)
theory Interleaving
  imports Prelude
begin

text \<open>
  Runs of several processes under a scheduler that picks the next one. The locale \<open>commuting\<close> is the
  contract of steps of different processes that do not disturb each other; in it every run that
  finishes has the same length and the same end, and no run can leave the way to that end.
\<close>

fun run_sched :: "('p \<Rightarrow> 's \<Rightarrow> 's option) \<Rightarrow> 'p list \<Rightarrow> 's \<Rightarrow> 's option" where
  "run_sched step [] s = Some s"
| "run_sched step (i # is) s = (case step i s of None \<Rightarrow> None | Some t \<Rightarrow> run_sched step is t)"

lemma run_sched_append:
  "run_sched step (is @ js) s = (case run_sched step is s of None \<Rightarrow> None | Some t \<Rightarrow> run_sched step js t)"
  by (induction "is" arbitrary: s) (auto split: option.split)

locale commuting =
  fixes step :: "'p \<Rightarrow> 's \<Rightarrow> 's option"
    and ok :: "'s \<Rightarrow> bool"
    and P :: "'p set"
  assumes keeps: "ok s \<Longrightarrow> i \<in> P \<Longrightarrow> step i s = Some t \<Longrightarrow> ok t"
    and diamond: "ok s \<Longrightarrow> i \<in> P \<Longrightarrow> j \<in> P \<Longrightarrow> i \<noteq> j \<Longrightarrow> step i s = Some a \<Longrightarrow> step j s = Some b \<Longrightarrow>
      \<exists>c. step j a = Some c \<and> step i b = Some c"
begin

definition finished :: "'s \<Rightarrow> bool" where
  "finished s \<longleftrightarrow> (\<forall>i\<in>P. step i s = None)"

lemma run_keeps: "ok s \<Longrightarrow> set is \<subseteq> P \<Longrightarrow> run_sched step is s = Some t \<Longrightarrow> ok t"
  by (induction "is" arbitrary: s) (auto split: option.splits intro: keeps)

text \<open>A run to the end can be led through any step that is possible at its start.\<close>

lemma strip:
  assumes "ok s" "set is \<subseteq> P" "run_sched step is s = Some t" "finished t" "i \<in> P" "step i s = Some a"
  shows "\<exists>js. run_sched step js a = Some t \<and> length is = Suc (length js) \<and> set js \<subseteq> P"
  using assms
proof (induction "is" arbitrary: s a)
  case Nil
  then show ?case by (simp add: finished_def)
next
  case (Cons j js)
  obtain b where b: "step j s = Some b" "run_sched step js b = Some t"
    using Cons.prems(3) by (auto split: option.splits)
  show ?case
  proof (cases "i = j")
    case True
    then show ?thesis using b Cons.prems by auto
  next
    case False
    have j: "j \<in> P" "set js \<subseteq> P" using Cons.prems(2) by auto
    obtain c where c: "step j a = Some c" "step i b = Some c"
      using diamond [OF Cons.prems(1,5) j(1) False Cons.prems(6) b(1)] by blast
    from Cons.IH [OF keeps [OF Cons.prems(1) j(1) b(1)] j(2) b(2) Cons.prems(4,5) c(2)] obtain ks
      where "run_sched step ks c = Some t" "length js = Suc (length ks)" "set ks \<subseteq> P" by blast
    then show ?thesis using c(1) j(1) by (intro exI [of _ "j # ks"]) simp
  qed
qed

lemma joinable:
  assumes "ok s" "set is \<subseteq> P" "run_sched step is s = Some t" "finished t"
    and "set js \<subseteq> P" "run_sched step js s = Some u"
  shows "\<exists>ks. run_sched step ks u = Some t \<and> length is = length js + length ks \<and> set ks \<subseteq> P"
  using assms(1,2,3,5,6)
proof (induction js arbitrary: s "is")
  case Nil
  then show ?case by auto
next
  case (Cons j js)
  obtain a where a: "step j s = Some a" "run_sched step js a = Some u"
    using Cons.prems(5) by (auto split: option.splits)
  have j: "j \<in> P" "set js \<subseteq> P" using Cons.prems(4) by auto
  from strip [OF Cons.prems(1,2,3) assms(4) j(1) a(1)] obtain ls
    where ls: "run_sched step ls a = Some t" "length is = Suc (length ls)" "set ls \<subseteq> P" by blast
  from Cons.IH [OF keeps [OF Cons.prems(1) j(1) a(1)] ls(3,1) j(2) a(2)] ls(2) show ?case by auto
qed

lemma same_end:
  assumes "ok s" "set is \<subseteq> P" "run_sched step is s = Some t" "finished t"
    and "set js \<subseteq> P" "run_sched step js s = Some u" "finished u"
  shows "u = t"
proof -
  obtain ks where k: "run_sched step ks u = Some t" "set ks \<subseteq> P" using joinable [OF assms(1-6)] by blast
  then show ?thesis using assms(7) by (cases ks) (auto simp: finished_def)
qed

end

end
