(* ===== verification/Execution.thy ===== *)
theory Execution
  imports Interleaving Xpersist_Final Determ_Props
begin

text \<open>
  Whole executions: programs that load, store and synchronize, run by processes on a protected region
  (\<^verbatim>\<open>xpersist.h\<close>) under the token of the scheduler (\<^verbatim>\<open>determ.h\<close>), in the order in which \<^verbatim>\<open>xrun.h\<close> composes them.
  Between two fences the processes run in parallel, in any interleaving, each until its next
  synchronization call. Then the process with the token commits and starts a new transaction
  (\<open>atomicEnd\<close>, \<open>atomicBegin\<close>); it may keep the token for a critical section (\<open>mutex_lock\<close>), which ends with
  another commit, and passes the token on (\<open>putToken\<close>).
\<close>

subsection \<open>Programs\<close>

text \<open>
  \<open>'l\<close> is the private state of a thread; a \<open>Load\<close> continues with the byte read, and \<open>Sync\<close> says whether
  the thread keeps the token.
\<close>

datatype 'l instr = Load u64 nat "u8 \<Rightarrow> 'l" | Store u64 nat u8 'l | Sync bool 'l

type_synonym 'l threads = "xpersist \<times> (int \<Rightarrow> 'l)"

text \<open>One instruction; \<open>None\<close> at a synchronization call, outside the region, and if the process aborts.\<close>

fun micro :: "('l \<Rightarrow> 'l instr) \<Rightarrow> int \<Rightarrow> 'l threads \<Rightarrow> 'l threads option" where
  "micro code i (s, L) =
     (case code (L i) of
        Load pc off k \<Rightarrow>
          if off < 4096 * pages s then
            (case load 2 i pc off s of Inr (Some v, t) \<Rightarrow> Some (t, L(i := k v)) | _ \<Rightarrow> None)
          else None
      | Store pc off v l \<Rightarrow>
          if off < 4096 * pages s then
            (case store 2 i pc off v s of Inr (True, t) \<Rightarrow> Some (t, L(i := l)) | _ \<Rightarrow> None)
          else None
      | Sync keep l \<Rightarrow> None)"

definition at_sync :: "('l \<Rightarrow> 'l instr) \<Rightarrow> 'l \<Rightarrow> bool" where
  "at_sync code l \<longleftrightarrow> (case code l of Sync keep l' \<Rightarrow> True | _ \<Rightarrow> False)"

definition parallel :: "('l \<Rightarrow> 'l instr) \<Rightarrow> int list \<Rightarrow> int list \<Rightarrow> 'l threads \<Rightarrow> 'l threads option" where
  "parallel code ps sched x =
     (case run_sched (micro code) sched x of
        None \<Rightarrow> None
      | Some (s, L) \<Rightarrow> if list_all (\<lambda>i. at_sync code (L i)) ps then Some (s, L) else None)"

text \<open>The turn of process \<open>i\<close>, which has the token; the fuel bounds its instructions under the token.\<close>

definition commit_begin_trans :: "int \<Rightarrow> xpersist \<Rightarrow> xpersist" where
  "commit_begin_trans i s = begin_trans i (checkandcommit i s)"

fun turn :: "('l \<Rightarrow> 'l instr) \<Rightarrow> nat \<Rightarrow> int \<Rightarrow> 'l threads \<Rightarrow> 'l threads option" where
  "turn code 0 i x = None"
| "turn code (Suc n) i (s, L) =
     (case code (L i) of
        Sync keep l \<Rightarrow>
          let x = (commit_begin_trans i s, L(i := l)) in if keep then turn code n i x else Some x
      | _ \<Rightarrow> (case micro code i (s, L) of None \<Rightarrow> None | Some x \<Rightarrow> turn code n i x))"

text \<open>\<open>n\<close> turns, each by the process whose entry has the token.\<close>

fun turns :: "('l \<Rightarrow> 'l instr) \<Rightarrow> nat \<Rightarrow> nat \<Rightarrow> 'l threads \<Rightarrow> 'm det \<Rightarrow> ('l threads \<times> 'm det) option" where
  "turns code fuel 0 x d = Some (x, d)"
| "turns code fuel (Suc n) x d =
     (case tokenpos d of
        None \<Rightarrow> None
      | Some t \<Rightarrow>
          (case turn code fuel (tid (entries d t)) x of
             None \<Rightarrow> None
           | Some x1 \<Rightarrow> (case putToken t d of Inl e \<Rightarrow> None | Inr d1 \<Rightarrow> turns code fuel n x1 d1)))"

fun exec :: "('l \<Rightarrow> 'l instr) \<Rightarrow> int list \<Rightarrow> (int list \<times> nat) list \<Rightarrow> 'l threads \<times> 'm det \<Rightarrow> ('l threads \<times> 'm det) option" where
  "exec code ps [] xd = Some xd"
| "exec code ps (r # rs) (x, d) =
     (case parallel code ps (fst r) x of
        None \<Rightarrow> None
      | Some x1 \<Rightarrow> (case turns code (snd r) (length ps) x1 d of None \<Rightarrow> None | Some xd \<Rightarrow> exec code ps rs xd))"

subsection \<open>The effect of an instruction\<close>

text \<open>
  What a step of the parallel phase needs: every page is shared, and the mapping of the process is
  private.
\<close>

definition proc_shared :: "nat \<Rightarrow> plocal \<Rightarrow> bool" where
  "proc_shared n l \<longleftrightarrow> isCopyOnWrite l \<and> mapPrivate l \<and> (\<forall>p<n. pageInfo l p \<noteq> PAGE_ACCESS_READ_WRITE) \<and>
     0 \<le> pe_cur (entrypool l) \<and>
     (\<forall>(p, x)\<in>set (dirtied l). int x < pe_cur (entrypool l) \<and> pi_pageNo (pe_pool (entrypool l) x) < n)"

definition all_shared :: "int set \<Rightarrow> xpersist \<Rightarrow> bool" where
  "all_shared PS s \<longleftrightarrow> 4096 * pages s < 2 ^ 64 \<and> SHARED_PAGE \<notin> PS \<and>
     (\<forall>p<pages s. pageOwner s p = SHARED_PAGE) \<and> (\<forall>i\<in>PS. proc_shared (pages s) (procs s i))"

text \<open>The fields of a region a parallel step reads but no parallel step changes.\<close>

type_synonym frame = "(nat \<Rightarrow> page) \<times> (nat \<Rightarrow> u64) \<times> nat \<times> u64"

definition frame :: "xpersist \<Rightarrow> frame" where
  "frame s = (persistent s, versions s, pages s, startaddr s)"

definition page_of :: "(nat \<Rightarrow> page) \<Rightarrow> plocal \<Rightarrow> nat \<Rightarrow> page" where
  "page_of M l p = (case copies l p of Some c \<Rightarrow> c | None \<Rightarrow> M p)"

definition log_access :: "bool \<Rightarrow> u64 \<Rightarrow> u64 \<Rightarrow> plocal \<Rightarrow> plocal" where
  "log_access w pc addr = accesslog_update (\<lambda>l. l @ [(w, pc, drop_bit PageShift addr)])"

text \<open>The new state of the process, and the page that has one more user.\<close>

fun load_effect :: "frame \<Rightarrow> u64 \<Rightarrow> nat \<Rightarrow> plocal \<Rightarrow> plocal" where
  "load_effect (M, V, n, a) pc off l =
     (if prot l (off div 4096) \<noteq> Prot_None then l
      else prot_update (\<lambda>f. f(off div 4096 := Prot_Read))
        (pageInfo_update (\<lambda>f. f(off div 4096 := PAGE_ACCESS_READ)) (log_access False pc (a + of_nat off) l)))"

definition put_byte :: "(nat \<Rightarrow> page) \<Rightarrow> nat \<Rightarrow> u8 \<Rightarrow> plocal \<Rightarrow> plocal" where
  "put_byte M off v l = copies_update (\<lambda>f. f(off div 4096 := Some ((page_of M l (off div 4096))(off mod 4096 := v)))) l"

fun store_effect :: "frame \<Rightarrow> u64 \<Rightarrow> nat \<Rightarrow> u8 \<Rightarrow> plocal \<Rightarrow> (plocal \<times> nat option) option" where
  "store_effect (M, V, n, a) pc off v l =
     (let p = off div 4096 in
      if prot l p = Prot_RW then Some (put_byte M off v l, None)
      else case xpageentry_alloc (entrypool l) of
        Inl e \<Rightarrow> None
      | Inr (x, e) \<Rightarrow>
          let info = \<lparr>pi_pageNo = p, pi_version = ucast (V p), pi_pageStart = a + of_nat (4096 * p),
                      pi_isShared = pi_isShared (pe_pool e x), pi_release = True\<rparr>;
              l1 = (prot_update (\<lambda>f. f(p := Prot_RW)) (log_access True pc (a + of_nat off) l))
                     \<lparr>entrypool := e\<lparr>pe_pool := (pe_pool e)(x := info)\<rparr>, dirtied := mm_insert p x (dirtied l)\<rparr> in
          Some (put_byte M off v l1, Some p))"

fun add_user :: "nat option \<Rightarrow> xpersist \<Rightarrow> xpersist" where
  "add_user None s = s"
| "add_user (Some p) s = addUser p s"

definition set_proc :: "int \<Rightarrow> plocal \<Rightarrow> xpersist \<Rightarrow> xpersist" where
  "set_proc i l s = s\<lparr>procs := (procs s)(i := l)\<rparr>"

lemma load_effect_eq:
  assumes "all_shared PS s" "i \<in> PS" "off < 4096 * pages s"
  shows "load 2 i pc off s =
    Inr (Some (page_of (persistent s) (procs s i) (off div 4096) (off mod 4096)), set_proc i (load_effect (frame s) pc off (procs s i)) s)"
proof -
  let ?p = "off div 4096"
  have p: "?p < pages s" using assms(3) by (simp add: less_mult_imp_div_less mult.commute)
  have at: "pageAt s (startaddr s + word_of_nat off) = ?p"
    using pageAt_offset [of off s] assms(1,3) by (simp add: all_shared_def)
  have own: "pageOwner s ?p = SHARED_PAGE" using assms(1) p by (simp add: all_shared_def)
  show ?thesis
  proof (cases "prot (procs s i) ?p = Prot_None")
    case False
    then show ?thesis by (simp add: numeral_2_eq_2 frame_def view_def page_of_def set_proc_def)
  next
    case True
    let ?l = "load_effect (frame s) pc off (procs s i)"
    have h: "handleAccess i (startaddr s + word_of_nat off) False pc s = Inr (set_proc i ?l s)"
      using True own at
      by (auto simp: handleAccess_def Let_def handleRead_def mprotectRead_def mprotect_def notifyOwnerToCommit_def
          frame_def log_access_def set_proc_def split: page_access_info.split)
    have l: "copies ?l = copies (procs s i)" "prot ?l ?p = Prot_Read" using True by (simp_all add: frame_def log_access_def)
    show ?thesis using True h l by (simp add: numeral_2_eq_2 view_def page_of_def set_proc_def split: option.split)
  qed
qed

lemma write_byte_put:
  "mapPrivate (procs s i) \<Longrightarrow> write_byte i off v s = set_proc i (put_byte (persistent s) off v (procs s i)) s"
  by (simp add: write_byte_def Let_def put_byte_def view_def page_of_def set_proc_def)

lemma set_proc_simps [simp]:
  "procs (set_proc i l s) = (procs s)(i := l)" "frame (set_proc i l s) = frame s" "frame (add_user u s) = frame s"
  "set_proc i l (set_proc i l' s) = set_proc i l s" "procs (add_user u s) = procs s"
  "pages (set_proc i l s) = pages s" "pages (add_user u s) = pages s"
  "pageOwner (set_proc i l s) = pageOwner s" "pageOwner (add_user u s) = pageOwner s"
  "persistent (set_proc i l s) = persistent s" "persistent (add_user u s) = persistent s"
  "add_user u (set_proc i l s) = set_proc i l (add_user u s)"
  by (cases u; simp add: set_proc_def frame_def addUser_def)+

lemma persistent_addUser [simp]: "persistent (addUser p s) = persistent s"
  by (simp add: addUser_def)

lemma store_effect_eq:
  assumes "all_shared PS s" "i \<in> PS" "off < 4096 * pages s"
  shows "(case store 2 i pc off v s of Inr (True, t) \<Rightarrow> Some t | _ \<Rightarrow> None) =
    (case store_effect (frame s) pc off v (procs s i) of
       None \<Rightarrow> None
     | Some (l, u) \<Rightarrow> Some (set_proc i l (add_user u s)))"
proof -
  let ?p = "off div 4096" and ?l = "procs s i"
  have p: "?p < pages s" using assms(3) by (simp add: less_mult_imp_div_less mult.commute)
  have at: "pageAt s (startaddr s + word_of_nat off) = ?p"
    using pageAt_offset [of off s] assms(1,3) by (simp add: all_shared_def)
  have own: "pageOwner s ?p = SHARED_PAGE" "i \<noteq> SHARED_PAGE" using assms(1,2) p by (auto simp: all_shared_def)
  have pr: "isCopyOnWrite ?l" "mapPrivate ?l" "pageInfo ?l ?p \<noteq> PAGE_ACCESS_READ_WRITE"
    using assms(1,2) p by (auto simp: all_shared_def proc_shared_def)
  show ?thesis
  proof (cases "prot ?l ?p = Prot_RW")
    case True
    then show ?thesis using write_byte_put [OF pr(2), of off v] by (simp add: numeral_2_eq_2 frame_def)
  next
    case False
    define l1 where "l1 = prot_update (\<lambda>f. f(?p := Prot_RW)) (log_access True pc (startaddr s + of_nat off) ?l)"
    have l1: "isCopyOnWrite l1" "mapPrivate l1" "copies l1 = copies ?l" "entrypool l1 = entrypool ?l" "dirtied l1 = dirtied ?l"
      "prot l1 ?p = Prot_RW"
      using pr by (simp_all add: l1_def log_access_def)
    have h: "handleAccess i (startaddr s + word_of_nat off) True pc s = addDirty i ?p (addUser ?p (set_proc i l1 s))"
      using own pr at
      by (cases "pageInfo ?l ?p")
        (simp_all add: handleAccess_def Let_def handleWrite_def mprotectReadWrite_def mprotect_def notifyOwnerToCommit_def
          log_access_def set_proc_def l1_def)
    have st: "store 2 i pc off v s = rbind (handleAccess i (startaddr s + word_of_nat off) True pc s) (store 1 i pc off v)"
      using False by (simp add: numeral_2_eq_2)
    show ?thesis
    proof (cases "xpageentry_alloc (entrypool ?l)")
      case (Inl e)
      have "addDirty i ?p (addUser ?p (set_proc i l1 s)) = Inl e"
        using Inl l1 by (simp add: addDirty_def addUser_def)
      then show ?thesis using False Inl by (simp add: st h frame_def Let_def)
    next
      case (Inr xe)
      obtain x e where xe: "xe = (x, e)" by (cases xe)
      define l2 where "l2 = l1\<lparr>entrypool := e\<lparr>pe_pool := (pe_pool e)(x := \<lparr>pi_pageNo = ?p, pi_version = ucast (versions s ?p),
        pi_pageStart = startaddr s + of_nat (4096 * ?p), pi_isShared = pi_isShared (pe_pool e x), pi_release = True\<rparr>)\<rparr>,
        dirtied := mm_insert ?p x (dirtied ?l)\<rparr>"
      let ?t = "set_proc i l2 (add_user (Some ?p) s)"
      have "addDirty i ?p (addUser ?p (set_proc i l1 s)) = Inr ?t"
        using Inr xe l1 by (simp add: addDirty_def addUser_def set_proc_def Let_def getPageStart_def l2_def)
      moreover have "store 1 i pc off v ?t = Inr (True, set_proc i (put_byte (persistent s) off v l2) (add_user (Some ?p) s))"
        using write_byte_put [of ?t i off v] l1 by (simp add: l2_def)
      moreover have "store_effect (frame s) pc off v ?l = Some (put_byte (persistent s) off v l2, Some ?p)"
        using False Inr xe by (simp add: frame_def Let_def l2_def l1_def)
      ultimately show ?thesis by (simp add: st h del: add_user.simps store.simps)
    qed
  qed
qed

text \<open>An instruction as a function of the frame, the process and its thread.\<close>

fun instr_effect :: "('l \<Rightarrow> 'l instr) \<Rightarrow> frame \<Rightarrow> plocal \<Rightarrow> 'l \<Rightarrow> (plocal \<times> 'l \<times> nat option) option" where
  "instr_effect code (M, V, n, a) l x =
     (case code x of
        Load pc off k \<Rightarrow>
          if off < 4096 * n
          then Some (load_effect (M, V, n, a) pc off l, k (page_of M l (off div 4096) (off mod 4096)), None) else None
      | Store pc off v y \<Rightarrow>
          if off < 4096 * n then map_option (\<lambda>(l', u). (l', y, u)) (store_effect (M, V, n, a) pc off v l) else None
      | Sync keep y \<Rightarrow> None)"

lemma micro_eq:
  assumes "all_shared PS s" "i \<in> PS"
  shows "micro code i (s, L) =
    map_option (\<lambda>(l, x, u). (set_proc i l (add_user u s), L(i := x))) (instr_effect code (frame s) (procs s i) (L i))"
proof (cases "code (L i)")
  case (Load pc off k)
  then show ?thesis using load_effect_eq [OF assms, of off pc] by (simp add: frame_def del: load_effect.simps)
next
  case (Store pc off v y)
  have "micro code i (s, L) = (if off < 4096 * pages s then
      map_option (\<lambda>t. (t, L(i := y))) (case store 2 i pc off v s of Inr (True, t) \<Rightarrow> Some t | _ \<Rightarrow> None) else None)"
    using Store by (auto split: sum.split prod.split bool.split)
  then show ?thesis
    using store_effect_eq [OF assms, of off pc v] Store
    by (auto simp: frame_def simp del: store_effect.simps split: option.split)
qed (simp add: frame_def)

lemma proc_shared_effect:
  assumes "instr_effect code (M, V, n, a) l x = Some (l', y, u)" "proc_shared n l"
  shows "proc_shared n l'"
proof (cases "code x")
  case (Load pc off k)
  then show ?thesis using assms by (auto simp: proc_shared_def log_access_def split: if_splits)
next
  case (Store pc off v z)
  have p: "off div 4096 < n" using assms(1) Store by (auto split: if_splits)
  obtain w where e: "store_effect (M, V, n, a) pc off v l = Some (l', w)" using assms(1) Store by (auto split: if_splits)
  show ?thesis
  proof (cases "prot l (off div 4096) = Prot_RW")
    case True
    then show ?thesis using e assms(2) by (auto simp: proc_shared_def put_byte_def Let_def)
  next
    case False
    obtain q e' where q: "xpageentry_alloc (entrypool l) = Inr (q, e')"
      using e False by (auto simp: Let_def split: sum.splits)
    have "int q = pe_cur (entrypool l) \<and> e' = (entrypool l)\<lparr>pe_cur := pe_cur (entrypool l) + 1\<rparr>"
      using xpageentry_alloc_props [OF q] assms(2) by (simp add: proc_shared_def)
    moreover have "int x < pe_cur (entrypool l) + 1 \<and> pi_pageNo (pe_pool (entrypool l) x) < n"
      if "(r, x) \<in> set (dirtied l)" for r x
      using that assms(2) by (fastforce simp: proc_shared_def)
    ultimately show ?thesis using e False q p assms(2)
      by (auto simp: Let_def proc_shared_def put_byte_def log_access_def)
  qed
next
  case (Sync keep z)
  then show ?thesis using assms by simp
qed

lemma add_user_commute: "add_user u (add_user v s) = add_user v (add_user u s)"
  by (cases u; cases v) (auto simp: addUser_def fun_upd_twist)

lemma all_shared_step:
  assumes "all_shared PS s" "i \<in> PS" "instr_effect code (frame s) (procs s i) x = Some (l, y, u)"
  shows "all_shared PS (set_proc i l (add_user u s))"
proof -
  have "proc_shared (pages s) l"
    using proc_shared_effect [of code "persistent s" "versions s" "pages s" "startaddr s"] assms
    by (auto simp: frame_def all_shared_def)
  then show ?thesis using assms(1) by (simp add: all_shared_def)
qed

interpretation threads: commuting "micro code" "\<lambda>(s, L). all_shared PS s" PS for code PS
proof (unfold_locales, goal_cases)
  case (1 x i y)
  obtain s L where x: "x = (s, L)" by (cases x)
  then have a: "all_shared PS s" using 1(1) by simp
  then obtain l z u where "instr_effect code (frame s) (procs s i) (L i) = Some (l, z, u)"
    "y = (set_proc i l (add_user u s), L(i := z))"
    using 1(3) unfolding x micro_eq [OF a 1(2)] by auto
  then show ?case using all_shared_step [OF a 1(2)] by simp
next
  case (2 x i j y z)
  obtain s L where x: "x = (s, L)" by (cases x)
  then have a: "all_shared PS s" using 2(1) by simp
  obtain l1 m1 u1 where e1: "instr_effect code (frame s) (procs s i) (L i) = Some (l1, m1, u1)"
    "y = (set_proc i l1 (add_user u1 s), L(i := m1))"
    using 2(5) unfolding x micro_eq [OF a 2(2)] by auto
  obtain l2 m2 u2 where e2: "instr_effect code (frame s) (procs s j) (L j) = Some (l2, m2, u2)"
    "z = (set_proc j l2 (add_user u2 s), L(j := m2))"
    using 2(6) unfolding x micro_eq [OF a 2(3)] by auto
  have y: "micro code j y = Some (set_proc j l2 (add_user u2 (set_proc i l1 (add_user u1 s))), (L(i := m1))(j := m2))"
    using micro_eq [OF all_shared_step [OF a 2(2) e1(1)] 2(3), of code "L(i := m1)"] e1(2) e2(1) 2(4) by simp
  have z: "micro code i z = Some (set_proc i l1 (add_user u1 (set_proc j l2 (add_user u2 s))), (L(j := m2))(i := m1))"
    using micro_eq [OF all_shared_step [OF a 2(3) e2(1)] 2(2), of code "L(j := m2)"] e2(2) e1(1) 2(4) by simp
  have "set_proc j l2 (set_proc i l1 t) = set_proc i l1 (set_proc j l2 t)" for t
    using 2(4) by (simp add: set_proc_def fun_upd_twist)
  then show ?case using y z 2(4) add_user_commute [of u1 u2 s] by (simp add: fun_upd_twist)
qed

subsection \<open>Turns keep the pages shared\<close>

definition same_process :: "plocal \<Rightarrow> plocal \<Rightarrow> bool" where
  "same_process l l' \<longleftrightarrow> isCopyOnWrite l' = isCopyOnWrite l \<and> mapPrivate l' = mapPrivate l \<and> pageInfo l' = pageInfo l \<and>
     dirtied l' = dirtied l \<and> pe_cur (entrypool l') = pe_cur (entrypool l) \<and>
     (\<forall>x. pi_pageNo (pe_pool (entrypool l') x) = pi_pageNo (pe_pool (entrypool l) x))"

definition same_owners :: "int \<Rightarrow> xpersist \<Rightarrow> xpersist \<Rightarrow> bool" where
  "same_owners i s t \<longleftrightarrow> pages t = pages s \<and> pageOwner t = pageOwner s \<and> (\<forall>j. j \<noteq> i \<longrightarrow> procs t j = procs s j) \<and>
     same_process (procs s i) (procs t i)"

named_theorems owners \<open>operations that keep the owners of pages\<close>

lemma same_owners_refl [owners]: "same_owners i s s"
  by (simp add: same_owners_def same_process_def)

lemma same_owners_trans: "same_owners i s t \<Longrightarrow> same_owners i t u \<Longrightarrow> same_owners i s u"
  by (simp add: same_owners_def same_process_def)

lemma same_owners_upd [owners]:
  "same_owners i s (createTwinPage p s)" "same_owners i s (set_release i x b s)" "same_owners i s (bump p s)"
  "same_owners i s (s\<lparr>users := us\<rparr>)" "same_owners i s (s\<lparr>bitmapIndex := bi\<rparr>)" "same_owners i s (s\<lparr>persistent := M\<rparr>)"
  "same_owners i s (upd_proc i (trans_update f) s)" "same_owners i s (updatePage i a r s)"
  by (auto simp: same_owners_def same_process_def createTwinPage_def set_release_def bump_def updatePage_def
      madvise_dontneed_def mprotect_def Let_def split: prod.split)

lemma same_owners_write_back:
  "pageOwner s (pi_pageNo info) = SHARED_PAGE \<Longrightarrow> same_owners i s (write_back i info s)"
  by (auto simp: write_back_def setSharedPage_def Let_def intro: owners)

lemma same_owners_commit_page:
  assumes "pageOwner s (pi_pageNo (pe_pool (entrypool (procs s i)) x)) = SHARED_PAGE"
  shows "same_owners i s (commit_page i x s)"
proof -
  let ?info = "pe_pool (entrypool (procs s i)) x"
  let ?p = "pi_pageNo ?info"
  define s1 where "s1 = (if 1 < users s ?p \<and> bitmapIndex s ?p = 0 then createTwinPage ?p s else s)"
  define s2 where "s2 = write_back i ?info (set_release i x True s1)"
  define s3 where "s3 = (if users s2 ?p = 1 then s2\<lparr>bitmapIndex := (bitmapIndex s2)(?p := 0)\<rparr> else s2)"
  have 1: "same_owners i s s1" by (simp add: s1_def owners)
  then have "pageOwner (set_release i x True s1) ?p = SHARED_PAGE"
    using assms by (simp add: set_release_def same_owners_def)
  then have 2: "same_owners i s s2"
    unfolding s2_def
    by (rule same_owners_trans [OF same_owners_trans [OF 1 same_owners_upd(2)] same_owners_write_back])
  have 3: "same_owners i s2 s3" by (simp add: s3_def owners)
  have 4: "same_owners i s3 (bump ?p (s3\<lparr>users := (users s3)(?p := users s3 ?p - 1)\<rparr>))"
    by (rule same_owners_trans [OF same_owners_upd(4) same_owners_upd(3)])
  have "same_owners i s (bump ?p (s3\<lparr>users := (users s3)(?p := users s3 ?p - 1)\<rparr>))"
    by (rule same_owners_trans [OF same_owners_trans [OF 2 3] 4])
  moreover have "same_owners i s (set_release i x False s1)" by (rule same_owners_trans [OF 1 same_owners_upd(2)])
  moreover have "commit_page i x s = (if users s1 ?p \<noteq> 1 \<or> pageOwner s1 ?p \<noteq> i
      then bump ?p (s3\<lparr>users := (users s3)(?p := users s3 ?p - 1)\<rparr>) else set_release i x False s1)"
    unfolding commit_page_def s1_def s2_def s3_def Let_def by (rule refl)
  ultimately show ?thesis by (simp split: if_split)
qed

lemma same_owners_fold:
  assumes "\<And>x t. x \<in> set xs \<Longrightarrow> same_owners i s t \<Longrightarrow> same_owners i t (f x t)" "same_owners i s t"
  shows "same_owners i s (fold f xs t)"
  using assms
proof (induction xs arbitrary: t)
  case (Cons x xs)
  have "same_owners i s (f x t)" using Cons.prems by (meson list.set_intros(1) same_owners_trans)
  then show ?case using Cons.IH [of "f x t"] Cons.prems(1) by simp
qed simp

lemma all_shared_commit:
  assumes "all_shared PS s" "i \<in> PS"
  shows "all_shared PS (commit_begin_trans i s)"
proof -
  let ?xs = "map snd (dirtied (procs s i))" and ?t = "checkandcommit i s"
  have pi: "pi_pageNo (pe_pool (entrypool (procs s i)) x) < pages s" if "x \<in> set ?xs" for x
    using assms that by (fastforce simp: all_shared_def proc_shared_def)
  have "same_owners i t (commit_page i x t)" if "x \<in> set ?xs" "same_owners i s t" for x t
    using pi [OF that(1)] that(2) assms
    by (intro same_owners_commit_page) (auto simp: same_owners_def same_process_def all_shared_def)
  then have 1: "same_owners i s ?t"
    by (auto simp: checkandcommit_def intro: owners same_owners_fold)
  define u where "u = fold (\<lambda>x t. updatePage i (pi_pageStart (pe_pool (entrypool (procs t i)) x))
    (pi_release (pe_pool (entrypool (procs t i)) x)) t) (map snd (dirtied (procs ?t i))) ?t"
  have "same_owners i ?t u" unfolding u_def by (rule same_owners_fold) (rule owners)+
  then have 2: "same_owners i s u" using 1 same_owners_trans by blast
  have "commit_begin_trans i s = upd_proc i (\<lambda>l. l\<lparr>dirtied := [], entrypool := xpageentry_cleanup (entrypool l)\<rparr>) u"
    by (simp only: commit_begin_trans_def begin_trans_def updateAll_def Let_def u_def)
  moreover have "proc_shared (pages s) ((procs u i)\<lparr>dirtied := [], entrypool := xpageentry_cleanup (entrypool (procs u i))\<rparr>)"
    using 2 assms by (auto simp: proc_shared_def all_shared_def same_owners_def same_process_def xpageentry_cleanup_def)
  ultimately show ?thesis using 2 assms(1) by (auto simp: all_shared_def same_owners_def)
qed

lemma all_shared_turn:
  assumes "turn code n i x = Some y" "all_shared PS (fst x)" "i \<in> PS"
  shows "all_shared PS (fst y)"
  using assms
proof (induction code n i x rule: turn.induct)
  case (2 code n i s L)
  show ?case
  proof (cases "at_sync code (L i)")
    case True
    then obtain keep l where l: "code (L i) = Sync keep l" by (auto simp: at_sync_def split: instr.splits)
    let ?x = "(commit_begin_trans i s, L(i := l))"
    have a: "all_shared PS (fst ?x)" using all_shared_commit 2(5,6) by simp
    have "keep \<Longrightarrow> turn code n i ?x = Some y" "\<not> keep \<Longrightarrow> y = ?x" using 2(4) l by simp_all
    then show ?thesis using 2(3) [OF l refl] a 2(6) by (cases keep) auto
  next
    case False
    then obtain z where z: "micro code i (s, L) = Some z" "turn code n i z = Some y"
      using 2(4) by (auto simp: at_sync_def split: instr.splits option.splits)
    have "all_shared PS (fst z)" using threads.keeps [of PS "(s, L)" i code z] 2(5,6) z(1) by (simp add: case_prod_unfold)
    then show ?thesis using 2(1,2) z 2(6) False by (cases "code (L i)") (auto simp: at_sync_def)
  qed
qed simp

lemma all_shared_turns:
  assumes "turns code fuel n x d = Some (y, d')" "all_shared PS (fst x)" "\<forall>t. tid (entries d t) \<in> PS"
  shows "all_shared PS (fst y) \<and> entries d' = entries d"
  using assms
proof (induction n arbitrary: x d)
  case (Suc n)
  obtain t x1 d1 where t: "turn code fuel (tid (entries d t)) x = Some x1" "putToken t d = Inr d1" "turns code fuel n x1 d1 = Some (y, d')"
    using Suc.prems(1) by (auto split: option.splits sum.splits)
  have "entries d1 = entries d" using t(2) by (auto simp: putToken_def rbind_Inr_iff split: option.splits)
  then show ?case using Suc.IH [OF t(3)] all_shared_turn [OF t(1) Suc.prems(2)] Suc.prems(3) by simp
qed simp

subsection \<open>A transaction that starts after the token is passed on\<close>

lemma commute_ops:
  assumes "i \<noteq> j"
  shows "createTwinPage p (set_proc i l s) = set_proc i l (createTwinPage p s)"
    "set_release j x b (set_proc i l s) = set_proc i l (set_release j x b s)"
    "bump p (set_proc i l s) = set_proc i l (bump p s)"
    "write_back j info (set_proc i l s) = set_proc i l (write_back j info s)"
    "(set_proc i l s)\<lparr>users := us\<rparr> = set_proc i l (s\<lparr>users := us\<rparr>)"
    "(set_proc i l s)\<lparr>bitmapIndex := bi\<rparr> = set_proc i l (s\<lparr>bitmapIndex := bi\<rparr>)"
    "upd_proc j f (set_proc i l s) = set_proc i l (upd_proc j f s)"
    "users (set_proc i l s) = users s" "bitmapIndex (set_proc i l s) = bitmapIndex s"
  using assms
  by (auto simp: createTwinPage_def set_release_def bump_def write_back_def setSharedPage_def set_proc_def fun_upd_twist
      view_def pageAt_def Let_def cong: option.case_cong split: prod.split)

text \<open>\<open>commit_page\<close> as a composition of steps.\<close>

definition twin_step :: "nat \<Rightarrow> xpersist \<Rightarrow> xpersist" where
  "twin_step p t = (if 1 < users t p \<and> bitmapIndex t p = 0 then createTwinPage p t else t)"
definition last_user_step :: "nat \<Rightarrow> xpersist \<Rightarrow> xpersist" where
  "last_user_step p t = (if users t p = 1 then t\<lparr>bitmapIndex := (bitmapIndex t)(p := 0)\<rparr> else t)"
definition leave_step :: "nat \<Rightarrow> xpersist \<Rightarrow> xpersist" where
  "leave_step p t = bump p (t\<lparr>users := (users t)(p := users t p - 1)\<rparr>)"

lemma commit_page_steps:
  "commit_page j x t =
     (let info = pe_pool (entrypool (procs t j)) x; p = pi_pageNo info; s1 = twin_step p t in
      if users s1 p \<noteq> 1 \<or> pageOwner s1 p \<noteq> j
      then leave_step p (last_user_step p (write_back j info (set_release j x True s1)))
      else set_release j x False s1)"
  unfolding commit_page_def Let_def twin_step_def last_user_step_def leave_step_def by (rule refl)

lemma commute_steps:
  "twin_step p (set_proc i l t) = set_proc i l (twin_step p t)"
  "last_user_step p (set_proc i l t) = set_proc i l (last_user_step p t)"
  "leave_step p (set_proc i l t) = set_proc i l (leave_step p t)"
  using commute_ops [of i "i + 1"] by (simp_all add: twin_step_def last_user_step_def leave_step_def)

lemma commit_page_set_proc:
  "i \<noteq> j \<Longrightarrow> commit_page j x (set_proc i l s) = set_proc i l (commit_page j x s)"
  by (simp add: commit_page_steps Let_def commute_steps commute_ops)

lemma checkandcommit_set_proc:
  assumes "i \<noteq> j" shows "checkandcommit j (set_proc i l s) = set_proc i l (checkandcommit j s)"
proof -
  have "fold (commit_page j) xs (set_proc i l t) = set_proc i l (fold (commit_page j) xs t)" for xs t
    by (induction xs arbitrary: t) (simp_all add: commit_page_set_proc [OF assms])
  moreover have "dirtied (procs (set_proc i l s) j) = dirtied (procs s j)" using assms by simp
  ultimately show ?thesis by (simp only: checkandcommit_def commute_ops(7) [OF assms] split: if_split) blast
qed

text \<open>What the start of a transaction reads.\<close>

definition same_base :: "int \<Rightarrow> xpersist \<Rightarrow> xpersist \<Rightarrow> bool" where
  "same_base i s t \<longleftrightarrow> isHeap t = isHeap s \<and> startaddr t = startaddr s \<and> procs t i = procs s i"

lemma same_base_fold:
  assumes "\<And>x s t. same_base i s t \<Longrightarrow> same_base i (f x s) (g x t)" "same_base i s t"
  shows "same_base i (fold f xs s) (fold g xs t)"
  using assms(2) by (induction xs arbitrary: s t) (simp_all add: assms(1))

lemma same_base_begin: "same_base i s t \<Longrightarrow> same_base i (begin_trans i s) (begin_trans i t)"
proof -
  assume a: "same_base i s t"
  let ?f = "\<lambda>x t. updatePage i (pi_pageStart (pe_pool (entrypool (procs t i)) x)) (pi_release (pe_pool (entrypool (procs t i)) x)) t"
  have "same_base i (fold ?f xs s) (fold ?f xs t)" for xs
    by (rule same_base_fold [OF _ a])
      (auto simp: same_base_def updatePage_def madvise_dontneed_def mprotect_def pageAt_def Let_def)
  moreover have "dirtied (procs t i) = dirtied (procs s i)" using a by (simp add: same_base_def)
  ultimately show ?thesis by (auto simp: begin_trans_def updateAll_def same_base_def Let_def)
qed

lemma same_base_commit: "i \<noteq> j \<Longrightarrow> same_base i s (checkandcommit j s)"
proof -
  assume a: "i \<noteq> j"
  have b: "isHeap (twin_step p t) = isHeap t \<and> startaddr (twin_step p t) = startaddr t"
    "isHeap (write_back j info t) = isHeap t \<and> startaddr (write_back j info t) = startaddr t"
    "isHeap (last_user_step p t) = isHeap t \<and> startaddr (last_user_step p t) = startaddr t"
    "isHeap (leave_step p t) = isHeap t \<and> startaddr (leave_step p t) = startaddr t" for p info t
    by (simp_all add: twin_step_def last_user_step_def leave_step_def createTwinPage_def write_back_def setSharedPage_def
        bump_def Let_def split: prod.split)
  have c: "isHeap (commit_page j x t) = isHeap t \<and> startaddr (commit_page j x t) = startaddr t" for x t
    by (simp add: commit_page_steps Let_def set_release_def b)
  have "isHeap (fold (commit_page j) xs t) = isHeap t \<and> startaddr (fold (commit_page j) xs t) = startaddr t" for xs t
    by (induction xs arbitrary: t) (simp_all add: c)
  moreover have "set_proc i (procs s i) s = s" by (simp add: set_proc_def)
  then have "checkandcommit j s = set_proc i (procs s i) (checkandcommit j s)"
    by (metis checkandcommit_set_proc [OF a])
  then have "procs (checkandcommit j s) i = procs s i" by (metis fun_upd_same set_proc_simps(1))
  ultimately show ?thesis by (simp add: same_base_def checkandcommit_def)
qed

lemma begin_trans_set_proc: "\<exists>l. begin_trans i s = set_proc i l s"
proof -
  let ?f = "\<lambda>x t. updatePage i (pi_pageStart (pe_pool (entrypool (procs t i)) x)) (pi_release (pe_pool (entrypool (procs t i)) x)) t"
  have u: "\<exists>l. updatePage i a r t = set_proc i l t" for a r t
    by (auto simp: updatePage_def madvise_dontneed_def mprotect_def set_proc_def Let_def)
  have "\<exists>l. fold ?f xs t = set_proc i l t" for xs t
  proof (induction xs arbitrary: t)
    case Nil
    then show ?case by (intro exI [of _ "procs t i"]) (simp add: set_proc_def)
  next
    case (Cons x xs)
    obtain l where l: "?f x t = set_proc i l t" using u by blast
    obtain l' where "fold ?f xs (set_proc i l t) = set_proc i l' (set_proc i l t)" using Cons.IH by blast
    then show ?case using l by auto
  qed
  then obtain l where "fold ?f (map snd (dirtied (procs s i))) s = set_proc i l s" by blast
  then show ?thesis by (auto simp: begin_trans_def updateAll_def Let_def set_proc_def)
qed

text \<open>
  \<open>mutex_unlock\<close> passes the token on before it starts the new transaction: the commit of the next process
  and the start of the transaction commute.
\<close>

lemma begin_after_putToken:
  assumes "i \<noteq> j"
  shows "checkandcommit j (begin_trans i s) = begin_trans i (checkandcommit j s)"
proof -
  have "procs (begin_trans i (checkandcommit j s)) i = procs (begin_trans i s) i"
    using same_base_begin [OF same_base_commit [OF assms]] by (simp add: same_base_def)
  moreover obtain l where l: "begin_trans i s = set_proc i l s" using begin_trans_set_proc by blast
  moreover obtain l' where "begin_trans i (checkandcommit j s) = set_proc i l' (checkandcommit j s)"
    using begin_trans_set_proc by blast
  ultimately show ?thesis by (simp add: checkandcommit_set_proc [OF assms])
qed
end
