(* ===== verification/Execution_Props.thy ===== *)
theory Execution_Props
  imports Execution
begin

text \<open>
  What the composition of \<^verbatim>\<open>Execution\<close> guarantees: an execution is a function of the program and of its
  start, whatever the interleaving of the parallel phases; no interleaving gets stuck, aborts or runs for
  longer than another; and the turns of a round are the commits in the order of the token ring.
\<close>

subsection \<open>Fuel and turns\<close>

lemma turn_more: "turn code n i x = Some y \<Longrightarrow> n \<le> m \<Longrightarrow> turn code m i x = Some y"
proof (induction n arbitrary: m x)
  case (Suc n)
  obtain s L where x: "x = (s, L)" by (cases x)
  obtain k where m: "m = Suc k" "n \<le> k" using Suc.prems(2) by (cases m) auto
  show ?case
  proof (cases "at_sync code (L i)")
    case True
    then obtain keep l where "code (L i) = Sync keep l" by (auto simp: at_sync_def split: instr.splits)
    then show ?thesis using Suc.prems(1) Suc.IH [OF _ m(2)] by (cases keep) (simp_all add: x m(1))
  next
    case False
    then have "turn code (Suc j) i x = (case micro code i x of None \<Rightarrow> None | Some z \<Rightarrow> turn code j i z)" for j
      by (auto simp: x at_sync_def simp del: micro.simps split: instr.splits)
    then show ?thesis using Suc.prems(1) Suc.IH [OF _ m(2)] by (auto simp: m(1) simp del: micro.simps split: option.splits)
  qed
qed simp

lemma run_turn_more:
  "run_sched (turn code n) is x = Some y \<Longrightarrow> n \<le> m \<Longrightarrow> run_sched (turn code m) is x = Some y"
  by (induction "is" arbitrary: x) (auto split: option.splits dest: turn_more)

lemma run_turn_unique:
  "run_sched (turn code n) is x = Some y \<Longrightarrow> run_sched (turn code m) is x = Some z \<Longrightarrow> y = z"
  using run_turn_more [of code n "is" x y "max n m"] run_turn_more [of code m "is" x z "max n m"] by simp

lemma all_shared_run_turns:
  "run_sched (turn code n) is x = Some y \<Longrightarrow> all_shared PS (fst x) \<Longrightarrow> set is \<subseteq> PS \<Longrightarrow> all_shared PS (fst y)"
  by (induction "is" arbitrary: x) (auto split: option.splits dest: all_shared_turn)

definition ring_tids :: "'m det \<Rightarrow> nat list \<Rightarrow> int list" where
  "ring_tids d xs = map (\<lambda>t. tid (entries d t)) xs"

lemma turns_ring:
  assumes "ring (lks d) xs" "k < length xs" "tokenpos d = Some (xs ! k)"
  shows "turns code fuel n x d =
    map_option (\<lambda>y. (y, d\<lparr>tokenpos := Some (xs ! ((k + n) mod length xs))\<rparr>))
      (run_sched (turn code fuel) (ring_tids d (map (\<lambda>j. xs ! ((k + j) mod length xs)) [0..<n])) x)"
  using assms
proof (induction n arbitrary: x d k)
  case 0
  then have "d\<lparr>tokenpos := Some (xs ! k)\<rparr> = d" by simp
  then show ?case using 0 by (simp add: ring_tids_def)
next
  case (Suc n)
  let ?k = "Suc k mod length xs" and ?d = "d\<lparr>tokenpos := Some (xs ! (Suc k mod length xs))\<rparr>"
  have lt: "?k < length xs" using Suc.prems(2) by (intro mod_less_divisor) linarith
  have put: "putToken t d = Inr ?d" for t
    using Suc.prems(3) ring_nth [OF Suc.prems(1,2)] by (simp add: deref_def putToken_def)
  have js: "map (\<lambda>j. xs ! ((k + j) mod length xs)) [0..<Suc n] =
      xs ! k # map (\<lambda>j. xs ! ((?k + j) mod length xs)) [0..<n]"
    using Suc.prems(2) by (simp add: upt_conv_Cons map_Suc_upt [symmetric] mod_add_left_eq comp_def del: upt_Suc)
  have "turns code fuel n y ?d = map_option (\<lambda>y. (y, ?d\<lparr>tokenpos := Some (xs ! ((?k + n) mod length xs))\<rparr>))
      (run_sched (turn code fuel) (ring_tids ?d (map (\<lambda>j. xs ! ((?k + j) mod length xs)) [0..<n])) y)" for y
    by (rule Suc.IH) (use Suc.prems(1) lt in simp_all)
  moreover have "(?k + n) mod length xs = (k + Suc n) mod length xs" by (simp add: mod_add_left_eq)
  ultimately show ?case unfolding js using Suc.prems(3) put by (simp add: ring_tids_def split: option.split)
qed

lemma rotate_nth:
  "k < length xs \<Longrightarrow> map (\<lambda>j. xs ! ((k + j) mod length xs)) [0..<length xs] = rotate k xs"
  by (rule nth_equalityI) (simp_all add: nth_rotate add.commute)

lemma act_ring: "queues_ok d Q \<Longrightarrow> t \<in> set (Q Act) \<Longrightarrow> ring (lks d) (Q Act)"
  using dlist_ring [OF queues_okD'(1)] by (metis empty_iff list.set(1))

lemma turns_round:
  assumes "queues_ok d Q" "k < length (Q Act)" "tokenpos d = Some (Q Act ! k)"
  shows "turns code fuel (length (Q Act)) x d =
    map_option (\<lambda>y. (y, d)) (run_sched (turn code fuel) (ring_tids d (rotate k (Q Act))) x)"
proof -
  have "d\<lparr>tokenpos := Some (Q Act ! k)\<rparr> = d" using assms(3) by simp
  then show ?thesis
    using turns_ring [OF act_ring [OF assms(1) nth_mem [OF assms(2)]] assms(2,3), of code fuel "length (Q Act)" x]
      assms(2) by (simp add: rotate_nth)
qed



subsection \<open>Parallel phases\<close>

lemma micro_at_sync: "at_sync code (L i) \<Longrightarrow> micro code i (s, L) = None"
  by (auto simp: at_sync_def split: instr.splits)

lemma parallel_finished:
  assumes "parallel code ps is x = Some y"
  shows "run_sched (micro code) is x = Some y \<and> threads.finished code (set ps) y"
  using assms
  by (auto simp: parallel_def threads.finished_def list_all_iff micro_at_sync simp del: micro.simps
      split: option.splits if_splits)

lemma parallel_unique:
  assumes "parallel code ps is x = Some y" "parallel code ps js x = Some z" "all_shared (set ps) (fst x)"
    and "set is \<subseteq> set ps" "set js \<subseteq> set ps"
  shows "z = y"
  using threads.same_end [of "set ps" x "is" code y js z] parallel_finished [OF assms(1)] parallel_finished [OF assms(2)]
    assms(3-5) by (cases x) simp

lemma parallel_keeps:
  assumes "parallel code ps is x = Some y" "all_shared (set ps) (fst x)" "set is \<subseteq> set ps"
  shows "all_shared (set ps) (fst y)"
  using threads.run_keeps [of "set ps" x "is" code y] parallel_finished [OF assms(1)] assms(2,3)
  by (cases x; cases y) simp

text \<open>
  C9: No interleaving of a parallel phase gets stuck: if one schedule brings every process to its next
  synchronization call, then every way to begin the phase can be completed, with the same end after the
  same number of instructions, so no process aborts or runs longer because of the schedule.
\<close>

theorem parallel_phase_joins:
  assumes "all_shared (set ps) (fst x)" "parallel code ps is x = Some y" "set is \<subseteq> set ps"
    and "set js \<subseteq> set ps" "run_sched (micro code) js x = Some z"
  shows "\<exists>ks. set ks \<subseteq> set ps \<and> parallel code ps (js @ ks) x = Some y \<and> length (js @ ks) = length is"
proof -
  obtain s L where x: "x = (s, L)" by (cases x)
  obtain ks where k: "run_sched (micro code) ks z = Some y" "length is = length js + length ks" "set ks \<subseteq> set ps"
    using threads.joinable [of "set ps" x "is" code y js z] parallel_finished [OF assms(2)] assms(1,3,4,5) x by auto
  have "run_sched (micro code) (js @ ks) x = Some y" using assms(5) k(1) by (simp add: run_sched_append)
  moreover have "parallel code ps is x = parallel code ps (js @ ks) x"
    using parallel_finished [OF assms(2)] calculation by (simp add: parallel_def)
  ultimately show ?thesis using k assms(2) by (intro exI [of _ ks]) simp
qed

subsection \<open>Whole executions\<close>

lemma exec_round:
  assumes "queues_ok d Q" "tokenpos d = Some t" "t \<in> set (Q Act)" "set (ring_tids d (Q Act)) \<subseteq> PS"
    and "all_shared PS (fst x)" "turns code fuel (length (Q Act)) x d = Some (y, d')"
  shows "d' = d \<and> all_shared PS (fst y) \<and>
    (\<forall>fuel' z. turns code fuel' (length (Q Act)) x d = Some z \<longrightarrow> z = (y, d))"
proof -
  obtain k where k: "k < length (Q Act)" "Q Act ! k = t" using assms(3) by (auto simp: in_set_conv_nth)
  note r = turns_round [OF assms(1) k(1), of code _ x]
  have s: "set (ring_tids d (rotate k (Q Act))) \<subseteq> PS" using assms(4) by (simp add: ring_tids_def)
  show ?thesis using assms(2,5,6) k(2) r all_shared_run_turns [OF _ assms(5) s] by (auto dest: run_turn_unique)
qed

text \<open>
  C2: Whole executions are deterministic: on a region whose pages are all shared, two executions of the
  same program by the threads of the ring, with as many rounds but with arbitrary interleavings of every
  parallel phase, end in the same state: the same memory, logs, thread states and scheduler.
\<close>

theorem execution_deterministic:
  assumes "queues_ok d Q" "tokenpos d = Some t" "t \<in> set (Q Act)"
    and "ps = map (\<lambda>t. tid (entries d t)) (Q Act)" "all_shared (set ps) (fst x)"
    and "exec code ps rs (x, d) = Some a" "exec code ps rs' (x, d) = Some b" "length rs = length rs'"
    and "\<forall>r\<in>set (rs @ rs'). set (fst r) \<subseteq> set ps"
  shows "a = b"
  using assms(8,5,6,7,9)
proof (induction rs rs' arbitrary: x rule: list_induct2)
  case (Cons r rs r' rs')
  have len: "length ps = length (Q Act)" "set (ring_tids d (Q Act)) \<subseteq> set ps"
    using assms(4) by (simp_all add: ring_tids_def)
  obtain y z z' d1 d2 y' where e: "parallel code ps (fst r) x = Some y" "turns code (snd r) (length ps) y d = Some (z, d1)"
    "exec code ps rs (z, d1) = Some a" "parallel code ps (fst r') x = Some y'"
    "turns code (snd r') (length ps) y' d = Some (z', d2)" "exec code ps rs' (z', d2) = Some b"
    using Cons.prems(2,3) by (auto split: option.splits)
  have y: "y' = y" using parallel_unique [OF e(1,4) Cons.prems(1)] Cons.prems(4) by simp
  have "all_shared (set ps) (fst y)" using parallel_keeps [OF e(1) Cons.prems(1)] Cons.prems(4) by simp
  note r = exec_round [OF assms(1-3) len(2) this e(2) [unfolded len(1)]]
  have "d1 = d" "all_shared (set ps) (fst z)" using r by blast+
  moreover have "(z', d2) = (z, d)" using r e(5) [unfolded y len(1)] by blast
  ultimately have "d1 = d" "all_shared (set ps) (fst z)" "z' = z" "d2 = d" by simp_all
  then show ?case using Cons.IH [of z] e(3,6) Cons.prems(4) by simp
qed simp


subsection \<open>An execution\<close>

text \<open>Two threads that store on one page, one under the token; each then loads the byte of the other.\<close>

definition ex_code :: "nat \<times> u8 list \<Rightarrow> (nat \<times> u8 list) instr" where
  "ex_code l =
     (case l of (pc, vs) \<Rightarrow>
        if pc = 0 then Store 7 0 5 (1, vs) else if pc = 1 then Sync False (2, vs) else if pc = 2 then Load 8 1 (\<lambda>v. (3, v # vs))
        else if pc = 10 then Store 9 1 6 (11, vs) else if pc = 11 then Sync True (12, vs)
        else if pc = 12 then Load 9 0 (\<lambda>v. (13, v # vs)) else Sync False (20, vs))"

definition ex_threads :: "int \<Rightarrow> nat \<times> u8 list" where
  "ex_threads i = (if i = 100 then 0 else 10, [])"

lemma ex_shared: "all_shared {100, 101} ex_region"
  by (auto simp: all_shared_def proc_shared_def ex_region_def ex_proc_def ex_pool_def SHARED_PAGE_def)

lemmas execution_defs = load_2 handleRead_def mprotectRead_def parallel_def at_sync_def ex_code_def ex_threads_def commit_begin_trans_def run_defs

lemma ex_parallel_12: "\<exists>y. parallel ex_code [100, 101] [100, 101] (ex_region, ex_threads) = Some y"
  by (simp add: execution_defs)

lemma ex_parallel_1: "\<exists>y. run_sched (micro ex_code) [101] (ex_region, ex_threads) = Some y"
  by (simp add: execution_defs)

theorem parallel_phase_joins_witness:
  "\<exists>y z ks. parallel ex_code [100, 101] [100, 101] (ex_region, ex_threads) = Some y \<and>
     run_sched (micro ex_code) [101] (ex_region, ex_threads) = Some z \<and>
     parallel ex_code [100, 101] (101 # ks) (ex_region, ex_threads) = Some y \<and> length ks = 1"
proof -
  obtain y where y: "parallel ex_code [100, 101] [100, 101] (ex_region, ex_threads) = Some y"
    using ex_parallel_12 by blast
  obtain z where z: "run_sched (micro ex_code) [101] (ex_region, ex_threads) = Some z" using ex_parallel_1 by blast
  have "\<exists>ks. set ks \<subseteq> set [100, 101] \<and>
      parallel ex_code [100, 101] ([101] @ ks) (ex_region, ex_threads) = Some y \<and> length ([101] @ ks) = length [100 :: int, 101]"
    by (rule parallel_phase_joins [OF _ y _ _ z]) (use ex_shared in simp_all)
  then show ?thesis using y z by (auto simp del: micro.simps)
qed


definition ex_rounds :: "(int list \<times> nat) list" where "ex_rounds = [([100, 101], Suc (Suc (Suc 0))), ([100], Suc 0)]"
definition ex_rounds' :: "(int list \<times> nat) list" where "ex_rounds' = [([101, 100], Suc (Suc (Suc 0))), ([100], Suc 0)]"

lemma ex_exec:
  "\<exists>a. exec ex_code [100, 101] ex_rounds ((ex_region, ex_threads), demo) = Some a \<and> fst (snd (fst a) 100) = 20 \<and> fst (snd (fst a) 101) = 20"
  "\<exists>b. exec ex_code [100, 101] ex_rounds' ((ex_region, ex_threads), demo) = Some b"
  by (simp_all add: ex_rounds_def ex_rounds'_def execution_defs demo_fields demo_entries_def demo_links_def putToken_def deref_def)

theorem execution_deterministic_witness:
  "\<exists>a. exec ex_code [100, 101] ex_rounds ((ex_region, ex_threads), demo) = Some a \<and>
     exec ex_code [100, 101] ex_rounds' ((ex_region, ex_threads), demo) = Some a"
proof -
  obtain a b where a: "exec ex_code [100, 101] ex_rounds ((ex_region, ex_threads), demo) = Some a"
    and b: "exec ex_code [100, 101] ex_rounds' ((ex_region, ex_threads), demo) = Some b" using ex_exec by blast
  have "a = b"
    by (rule execution_deterministic [OF demo_ok _ _ _ _ a b, of 0])
      (use ex_shared in \<open>simp_all add: demo_fields demo_entries_def ex_rounds_def ex_rounds'_def\<close>)
  then show ?thesis using a b by simp
qed

end
