(* ===== verification/Numa_Graph.thy ===== *)
theory Numa_Graph
  imports Schedule
begin

text \<open>
  The simulator of NUMA machines (\<^verbatim>\<open>src/numasim\<close>), first part: it reads a log of thunks and builds the
  graph of their dependencies (\<^verbatim>\<open>read_tsv.cpp\<close>).

  The library SimGrid is not part of the repository. The calls that change its state are recorded in the
  order they are made; the handle of the \<open>n\<close>-th task created is \<open>n\<close>. What it answers is a parameter, a
  function of the calls made so far; a dictionary of its \<^verbatim>\<open>xbt\<close> library is a map, and the order in which
  a loop visits it is a parameter. Names of tasks and dependencies only show in messages and are left out,
  the messages too; the amount of a task is given before its conversion to a floating point number.
\<close>

subsection \<open>Thread and thunk numbers (\<^verbatim>\<open>numasim.h\<close>)\<close>

definition THREAD_OFFSET :: u32 where "THREAD_OFFSET = push_bit 20 2"

definition make_tid :: "u32 \<Rightarrow> u32 \<Rightarrow> u32 res" where
  "make_tid thread thunk = (if thunk < THREAD_OFFSET then Inr (thread * THREAD_OFFSET + thunk) else Inl Abort)"

definition get_thread :: "u32 \<Rightarrow> u32" where "get_thread tid = tid div THREAD_OFFSET"
definition get_thunk :: "u32 \<Rightarrow> u32" where "get_thunk tid = tid mod THREAD_OFFSET"

subsection \<open>The calls of SimGrid\<close>

datatype sd_call =
    Create_comp nat u64
  | Create_comm nat u64
  | Dependency nat nat
  | Amount nat u64
  | Schedulev nat "nat list"
  | Watch nat
  | Simulate

type_synonym dict = "u32 \<rightharpoonup> nat"

record simgrid =
  dict_values :: "dict \<Rightarrow> nat list"
  get_parents :: "sd_call list \<Rightarrow> nat \<Rightarrow> nat list"
  get_children :: "sd_call list \<Rightarrow> nat \<Rightarrow> nat list"
  schedulable :: "sd_call list \<Rightarrow> nat \<Rightarrow> bool"
  executed :: "sd_call list \<Rightarrow> nat list"

definition deps :: "sd_call list \<Rightarrow> (nat \<times> nat) set" where
  "deps h = {(s, t). Dependency s t \<in> set h}"

text \<open>
  What the documentation says of a loop over a dictionary, and of \<open>SD_task_get_parents\<close> before the
  simulation runs.
\<close>

definition simgrid_ok :: "simgrid \<Rightarrow> bool" where
  "simgrid_ok G \<longleftrightarrow>
     (\<forall>m. finite (dom m) \<longrightarrow> set (dict_values G m) = ran m) \<and>
     (\<forall>h t. Simulate \<notin> set h \<longrightarrow> set (get_parents G h t) = {s. (s, t) \<in> deps h})"

subsection \<open>The state of the reader\<close>

record task_data =
  cpu :: int
  read_set :: "u64 set"
  write_set :: "u64 set"
  access_set :: "u64 set"
  td_tid :: u32

definition task_data_new :: task_data where
  "task_data_new = \<lparr>cpu = 0, read_set = {}, write_set = {}, access_set = {}, td_tid = 0\<rparr>"

record load_state =
  cur :: dict
  tmap :: dict
  finished :: dict
  start :: nat
  order :: "nat list"
  all_tasks :: "nat list"
  tdata :: "nat \<Rightarrow> task_data option"   \<comment> \<open>\<open>SD_task_get_data\<close>\<close>
  created :: nat
  calls :: "sd_call list"

definition sd_call :: "sd_call \<Rightarrow> load_state \<Rightarrow> load_state" where
  "sd_call c = calls_update (\<lambda>h. h @ [c])"

definition create_comp :: "task_data option \<Rightarrow> u64 \<Rightarrow> load_state \<Rightarrow> nat \<times> load_state" where
  "create_comp d amount st =
     (created st, sd_call (Create_comp (created st) amount)
        (st\<lparr>created := created st + 1, tdata := (tdata st)(created st := d)\<rparr>))"

definition create_comm :: "u64 \<Rightarrow> load_state \<Rightarrow> nat \<times> load_state" where
  "create_comm amount st =
     (created st, sd_call (Create_comm (created st) amount)
        (st\<lparr>created := created st + 1, tdata := (tdata st)(created st := None)\<rparr>))"

definition init_state :: load_state where
  "init_state =
     (let (t, st) = create_comp (Some task_data_new) 0
            \<lparr>cur = Map.empty, tmap = Map.empty, finished = Map.empty, start = 0, order = [], all_tasks = [],
             tdata = (\<lambda>_. None), created = 0, calls = []\<rparr>
      in st\<lparr>start := t, cur := [0 \<mapsto> t, 0 \<mapsto> t], order := [t]\<rparr>)"

subsection \<open>The lines of the log\<close>

definition task_by_tid :: "load_state \<Rightarrow> u32 \<Rightarrow> nat res" where
  "task_by_tid st tid = (case tmap st tid of None \<Rightarrow> Inl Abort | Some t \<Rightarrow> Inr t)"

definition add_thunk :: "simgrid \<Rightarrow> u32 \<Rightarrow> u64 \<Rightarrow> load_state \<Rightarrow> load_state" where
  "add_thunk G tid c st =
     (let thread = get_thread tid;
          (task, st1) = create_comp (Some (task_data_new\<lparr>cpu := sint (ucast c :: u32), td_tid := tid\<rparr>)) 0 st;
          st2 = (case cur st1 thread of
                   None \<Rightarrow> st1
                 | Some prev \<Rightarrow> st1\<lparr>finished := (finished st1)(thread \<mapsto> prev)\<rparr>);
          st3 = fold (\<lambda>t. sd_call (Dependency t task)) (dict_values G (finished st2)) st2
      in st3\<lparr>cur := (cur st3)(thread \<mapsto> task), tmap := (tmap st3)(tid \<mapsto> task),
             order := order st3 @ [task], all_tasks := all_tasks st3 @ [task]\<rparr>)"

definition drop_parent :: "nat \<Rightarrow> load_state \<Rightarrow> load_state res" where
  "drop_parent parent st =
     (case tdata st parent of
        None \<Rightarrow> Inl Segv
      | Some d \<Rightarrow> Inr (st\<lparr>finished := (finished st)(get_thread (td_tid d) := None)\<rparr>))"

definition add_end :: "simgrid \<Rightarrow> u32 \<Rightarrow> u64 \<Rightarrow> load_state \<Rightarrow> load_state res" where
  "add_end G tid time st =
     rbind (task_by_tid st tid) (\<lambda>task.
       let st1 = sd_call (Amount task time) st in
       rbind (rfold drop_parent (get_parents G (calls st1) task) st1) (\<lambda>st2.
         Inr (st2\<lparr>finished := (finished st2)(get_thread tid \<mapsto> task)\<rparr>)))"

definition add_finish :: "u32 \<Rightarrow> load_state \<Rightarrow> load_state" where
  "add_finish tid st = st"

definition insert_page :: "bool \<Rightarrow> u64 \<Rightarrow> task_data \<Rightarrow> task_data" where
  "insert_page w i d =
     (if w then d\<lparr>write_set := insert i (write_set d), access_set := insert i (access_set d)\<rparr>
      else d\<lparr>read_set := insert i (read_set d), access_set := insert i (access_set d)\<rparr>)"

text \<open>The loop \<open>for (i = start; i <= end; ++i)\<close>; \<open>None\<close> if it does not end.\<close>

partial_function (option) insert_range :: "bool \<Rightarrow> u64 \<Rightarrow> u64 \<Rightarrow> task_data \<Rightarrow> task_data option" where
  "insert_range w i e d = (if i \<le> e then insert_range w (i + 1) e (insert_page w i d) else Some d)"

definition add_access :: "bool \<Rightarrow> u32 \<Rightarrow> u64 \<Rightarrow> u64 \<Rightarrow> load_state \<Rightarrow> load_state res option" where
  "add_access w tid s e st =
     (case rbind (task_by_tid st tid) (\<lambda>task. case tdata st task of None \<Rightarrow> Inl Segv | Some d \<Rightarrow> Inr (task, d)) of
        Inl f \<Rightarrow> Some (Inl f)
      | Inr (task, d) \<Rightarrow> map_option (\<lambda>d. Inr (st\<lparr>tdata := (tdata st)(task \<mapsto> d)\<rparr>)) (insert_range w s e d))"

definition numa_add_read :: "u32 \<Rightarrow> u64 \<Rightarrow> u64 \<Rightarrow> load_state \<Rightarrow> load_state res option" where
  "numa_add_read = add_access False"

definition numa_add_write :: "u32 \<Rightarrow> u64 \<Rightarrow> u64 \<Rightarrow> load_state \<Rightarrow> load_state res option" where
  "numa_add_write = add_access True"

datatype command = Thunk u32 u64 | End u32 u64 | Finish u32 | Write u32 u64 u64 | Read u32 u64 u64

fun run_command :: "simgrid \<Rightarrow> command \<Rightarrow> load_state \<Rightarrow> load_state res option" where
  "run_command G (Thunk tid c) st = Some (Inr (add_thunk G tid c st))"
| "run_command G (End tid n) st = Some (add_end G tid n st)"
| "run_command G (Finish tid) st = Some (Inr (add_finish tid st))"
| "run_command G (Write tid s e) st = numa_add_write tid s e st"
| "run_command G (Read tid s e) st = numa_add_read tid s e st"

subsection \<open>Scanning the file\<close>

text \<open>
  A stream is the text that is left and its end-of-file indicator. A conversion of \<open>fscanf\<close> ends with a
  value, with a mismatch, or at the end of the input.
\<close>

type_synonym stream = "string \<times> bool"

datatype 'a conv = Got 'a | Mismatch | Input_end

definition advance :: "string \<Rightarrow> stream \<Rightarrow> stream" where
  "advance rest s = (rest, snd s \<or> rest = [])"

definition skip_ws :: "stream \<Rightarrow> stream" where
  "skip_ws s = advance (dropWhile is_ws (fst s)) s"

text \<open>\<open>%10s\<close>: the tenth character ends the word, nothing behind it is read.\<close>

definition scan_word :: "nat \<Rightarrow> stream \<Rightarrow> string conv \<times> stream" where
  "scan_word n s =
     (let s1 = skip_ws s; w = take n (takeWhile (\<lambda>c. \<not> is_ws c) (fst s1)); rest = drop (length w) (fst s1) in
      if fst s1 = [] then (Input_end, s1)
      else (Got w, if length w = n then (rest, snd s1) else advance rest s1))"

text \<open>\<open>%d\<close> and \<open>%lld\<close>; the conversion of a number that does not fit is undefined.\<close>

definition scan_int :: "nat \<Rightarrow> stream \<Rightarrow> int conv res \<times> stream" where
  "scan_int w s =
     (let s1 = skip_ws s; t = fst s1; neg = (t \<noteq> [] \<and> hd t = CHR ''-'');
          t2 = (if t \<noteq> [] \<and> hd t \<in> {CHR ''-'', CHR ''+''} then tl t else t); (n, rest) = read_digits 0 t2;
          x = (if neg then - n else n) in
      if t = [] then (Inr Input_end, s1)
      else if t2 = [] \<or> \<not> is_digit (hd t2) then (Inr Mismatch, advance t2 s1)
      else (if - (2 ^ (w - 1)) \<le> x \<and> x < 2 ^ (w - 1) then Inr (Got x) else Inl Undefined, advance rest s1))"

text \<open>An uninitialized number is used when the conversion did not happen but the call did not fail.\<close>

definition read_num :: "stream \<Rightarrow> (u64 \<times> stream) res" where
  "read_num s =
     (case scan_int 64 s of
        (Inl f, s1) \<Rightarrow> Inl f
      | (Inr Input_end, s1) \<Rightarrow> Inl Exit
      | (Inr Mismatch, s1) \<Rightarrow> Inl Undefined
      | (Inr (Got x), s1) \<Rightarrow> Inr (word_of_int x, skip_ws s1))"

definition read_2num :: "stream \<Rightarrow> (u64 \<times> u64 \<times> stream) res" where
  "read_2num s =
     (case scan_int 64 s of
        (Inl f, s1) \<Rightarrow> Inl f
      | (Inr Input_end, s1) \<Rightarrow> Inl Exit
      | (Inr Mismatch, s1) \<Rightarrow> Inl Undefined
      | (Inr (Got x), s1) \<Rightarrow>
          (case scan_int 64 s1 of
             (Inr (Got y), s2) \<Rightarrow> Inr (word_of_int x, word_of_int y, skip_ws s2)
           | _ \<Rightarrow> Inl Undefined))"

definition arguments :: "string \<Rightarrow> u32 \<Rightarrow> stream \<Rightarrow> (command \<times> stream) res" where
  "arguments command tid s =
     (if command = ''thunk'' then rbind (read_num s) (\<lambda>(c, s1). Inr (Thunk tid c, s1))
      else if command = ''end'' then rbind (read_num s) (\<lambda>(t, s1). Inr (End tid t, s1))
      else if command = ''finish'' then Inr (Finish tid, skip_ws s)
      else if command = ''write'' then rbind (read_2num s) (\<lambda>(x, y, s1). Inr (Write tid x y, s1))
      else if command = ''read'' then rbind (read_2num s) (\<lambda>(x, y, s1). Inr (Read tid x y, s1))
      else Inl Exit)"

text \<open>The word is stored with its terminating zero in an array of ten characters.\<close>

definition read_command :: "stream \<Rightarrow> (command \<times> stream) res" where
  "read_command s =
     (case scan_word 10 s of
        (Got word, s1) \<Rightarrow>
          if 10 \<le> length word then Inl Undefined
          else (case scan_int 32 s1 of
                  (Inr (Got thread), s2) \<Rightarrow>
                    (case scan_int 32 s2 of
                       (Inr (Got thunk), s3) \<Rightarrow>
                         rbind (make_tid (word_of_int thread) (word_of_int thunk)) (\<lambda>tid. arguments word tid s3)
                     | _ \<Rightarrow> Inl Undefined)
                | _ \<Rightarrow> Inl Undefined)
      | _ \<Rightarrow> Inl Exit)"

lemma dropWhile_length: "length (dropWhile P xs) \<le> length xs"
  by (induction xs) auto

lemma read_digits_length: "length (snd (read_digits n cs)) \<le> length cs"
  by (induction n cs rule: read_digits.induct) auto

lemma skip_ws_length: "length (fst (skip_ws s)) \<le> length (fst s)"
  by (simp add: skip_ws_def advance_def dropWhile_length)

lemma scan_int_length: "length (fst (snd (scan_int w s))) \<le> length (fst s)"
proof -
  let ?t = "fst (skip_ws s)"
  define t2 where "t2 = (if ?t \<noteq> [] \<and> hd ?t \<in> {CHR ''-'', CHR ''+''} then tl ?t else ?t)"
  obtain n r where r: "read_digits 0 t2 = (n, r)" by (cases "read_digits 0 t2")
  have "fst (snd (scan_int w s)) \<in> {?t, t2, r}"
    unfolding scan_int_def Let_def t2_def [symmetric] r by (simp add: advance_def)
  moreover have "length r \<le> length t2" using read_digits_length [of 0 t2] r by simp
  moreover have "length t2 \<le> length ?t" by (simp add: t2_def)
  ultimately show ?thesis using skip_ws_length [of s] by auto
qed

lemma scan_word_length:
  assumes "scan_word n s = (Got w, s')" "0 < n" shows "length (fst s') < length (fst s)"
proof -
  let ?t = "fst (skip_ws s)"
  have t: "?t \<noteq> []" "w = take n (takeWhile (\<lambda>c. \<not> is_ws c) ?t)" "fst s' = drop (length w) ?t"
    using assms(1) by (auto simp: scan_word_def Let_def advance_def split: if_splits)
  have "\<not> is_ws (hd ?t)" using t(1) by (simp add: skip_ws_def advance_def hd_dropWhile)
  then have "w \<noteq> []" using t(1,2) assms(2) by (cases ?t) auto
  then show ?thesis using t(1,3) skip_ws_length [of s] by (cases w; cases ?t) auto
qed

lemma scan_int_le: "scan_int w s = (x, s') \<Longrightarrow> length (fst s') \<le> length (fst s)"
  using scan_int_length [of w s] by simp

lemma skip_ws_le: "length (fst s) \<le> n \<Longrightarrow> length (fst (skip_ws s)) \<le> n"
  using skip_ws_length [of s] by linarith

lemma read_num_le: "read_num s = Inr (c, s') \<Longrightarrow> length (fst s') \<le> length (fst s)"
  by (auto simp: read_num_def split: prod.splits sum.splits conv.splits dest!: scan_int_le intro: skip_ws_le)

lemma read_2num_le: "read_2num s = Inr (c, d, s') \<Longrightarrow> length (fst s') \<le> length (fst s)"
  by (auto simp: read_2num_def split: prod.splits sum.splits conv.splits dest!: scan_int_le intro!: skip_ws_le)

lemma arguments_le: "arguments w tid s = Inr (c, s') \<Longrightarrow> length (fst s') \<le> length (fst s)"
  by (auto simp: arguments_def rbind_Inr_iff skip_ws_length dest: read_num_le read_2num_le split: if_splits)

lemma read_command_less: "read_command s = Inr (c, s') \<Longrightarrow> length (fst s') < length (fst s)"
  by (auto simp: read_command_def rbind_Inr_iff split: prod.splits sum.splits conv.splits if_splits
      dest!: scan_int_le arguments_le scan_word_length)

text \<open>The loop over the lines; the file ends where a read meets its end.\<close>

function load_lines :: "simgrid \<Rightarrow> stream \<Rightarrow> load_state \<Rightarrow> load_state res option" where
  "load_lines G s st =
     (if snd s then Some (Inr st)
      else case read_command s of
        Inl f \<Rightarrow> Some (Inl f)
      | Inr (c, s1) \<Rightarrow>
          (case run_command G c st of
             Some (Inr st1) \<Rightarrow> load_lines G s1 st1
           | r \<Rightarrow> r))"
  by pat_completeness auto
termination
  by (relation "measure (\<lambda>(G, s, st). length (fst s))") (auto dest: read_command_less)

text \<open>\<open>None\<close> stands for a file that cannot be opened.\<close>

definition load_task_graph :: "simgrid \<Rightarrow> string option \<Rightarrow> load_state \<Rightarrow> load_state res option" where
  "load_task_graph G file st =
     (case file of None \<Rightarrow> Some (Inl Exit) | Some text \<Rightarrow> load_lines G (text, False) st)"

end
