(* ===== verification/Numa_Pages.thy ===== *)
theory Numa_Pages
  imports Numa_Graph
begin

text \<open>
  The simulator of NUMA machines, second part (\<^verbatim>\<open>numasim.cpp\<close>): the placement of pages on the domains of
  the machine and the loop that schedules the tasks of the graph. A set of pages of a domain that has no
  pages yet is empty. What the platform file says of processors and links is a parameter.
\<close>

subsection \<open>The machine\<close>

record machine =
  domain :: "nat list"                \<comment> \<open>the domain of each processor\<close>
  numa :: "nat \<Rightarrow> u64 set"        \<comment> \<open>the pages of each domain\<close>

text \<open>The domains as numbers read from the platform; a link has one of two policies.\<close>

definition init_platform :: "int list \<Rightarrow> bool list \<Rightarrow> machine res" where
  "init_platform ds links =
     (let max_domain = fold max ds 0 + 1 in
      if \<exists>d\<in>set ds. d < 0 \<or> max_domain \<le> d then Inl Undefined
      else if \<exists>known\<in>set links. \<not> known then Inl Abort
      else Inr \<lparr>domain = map nat ds, numa = (\<lambda>_. {})\<rparr>)"

definition PAGE_COEFF :: u64 where "PAGE_COEFF = 32"

text \<open>The processor of a task: a null pointer, then an index behind or before the list.\<close>

definition processor :: "machine \<Rightarrow> load_state \<Rightarrow> nat \<Rightarrow> (task_data \<times> nat) res" where
  "processor m st task =
     (case tdata st task of
        None \<Rightarrow> Inl Segv
      | Some d \<Rightarrow>
          if cpu d < 0 \<or> int (length (domain m)) \<le> cpu d then Inl Undefined else Inr (d, nat (cpu d)))"

subsection \<open>Fetching pages\<close>

text \<open>Two synthetic tasks per processor of another domain that has some of the pages.\<close>

definition push_all :: "nat \<Rightarrow> load_state \<Rightarrow> load_state" where
  "push_all t st = st\<lparr>all_tasks := all_tasks st @ [t]\<rparr>"

definition fetch :: "nat \<Rightarrow> nat \<Rightarrow> nat \<Rightarrow> load_state \<Rightarrow> load_state" where
  "fetch task i n st =
     (let (dep, st1) = create_comp None 0 st;
          (comm, st2) = create_comm (of_nat n * PAGE_COEFF) (push_all dep st1)
      in sd_call (Schedulev dep [i]) (sd_call (Dependency comm task) (sd_call (Dependency dep comm) (push_all comm st2))))"

definition ask :: "machine \<Rightarrow> nat \<Rightarrow> nat \<Rightarrow> u64 set \<Rightarrow> nat \<Rightarrow> load_state \<times> u64 set \<Rightarrow> load_state \<times> u64 set" where
  "ask m task locald demand i x =
     (case x of (st, asked) \<Rightarrow>
        let result = numa m (domain m ! i) \<inter> demand in
        if result = {} then (st, asked)
        else (if domain m ! i \<noteq> locald then fetch task i (card result) st else st, asked \<union> result))"

definition schedule_pages :: "nat \<Rightarrow> load_state \<times> machine \<Rightarrow> (load_state \<times> machine) res" where
  "schedule_pages task x =
     (case x of (st, m) \<Rightarrow>
        rbind (processor m st task) (\<lambda>(d, p).
          let locald = domain m ! p in
          if access_set d = {} then Inr (st, m)
          else let (st1, asked) = fold (ask m task locald (access_set d)) [0..<length (domain m)] (st, {}) in
            Inr (st1, m\<lparr>numa := (numa m)(locald := numa m locald \<union> (access_set d - asked))\<rparr>)))"

subsection \<open>Committing pages\<close>

text \<open>The children of the task wait for the synthetic tasks that write its pages. No code calls it.\<close>

definition delay :: "simgrid \<Rightarrow> nat \<Rightarrow> nat \<Rightarrow> load_state \<Rightarrow> load_state" where
  "delay G dep task st =
     fold (\<lambda>child. sd_call (Dependency dep child)) (get_children G (calls st) task) st"

definition commit_to :: "simgrid \<Rightarrow> machine \<Rightarrow> nat \<Rightarrow> nat \<Rightarrow> u64 set \<Rightarrow> nat \<Rightarrow> load_state \<Rightarrow> load_state" where
  "commit_to G m task p writes i st =
     (let result = numa m (domain m ! i) \<inter> writes; amount = of_nat (card result) * PAGE_COEFF in
      if result = {} then st
      else if domain m ! i \<noteq> domain m ! p then
        let (dep, st1) = create_comp None amount st;
            (comm, st2) = create_comm amount (push_all dep st1);
            st3 = sd_call (Schedulev dep [i]) (sd_call (Dependency comm dep)
                    (sd_call (Schedulev comm [p, i]) (push_all comm st2)))
        in delay G dep task st3
      else
        let (dep, st1) = create_comp None amount st
        in delay G dep task (sd_call (Schedulev dep [p]) (push_all dep st1)))"

definition commit_pages :: "simgrid \<Rightarrow> nat \<Rightarrow> load_state \<times> machine \<Rightarrow> load_state res" where
  "commit_pages G task x =
     (case x of (st, m) \<Rightarrow>
        if tdata st task = None then Inr st
        else rbind (processor m st task) (\<lambda>(d, p).
          Inr (fold (commit_to G m task p (write_set d)) [0..<length (domain m)] st)))"

subsection \<open>The simulation\<close>

text \<open>\<open>xbt_assert (task_data->cpu < ws_max)\<close>, then the use of the processor.\<close>

definition checked :: "machine \<Rightarrow> load_state \<Rightarrow> nat \<Rightarrow> nat res" where
  "checked m st task =
     (case tdata st task of
        None \<Rightarrow> Inl Segv
      | Some d \<Rightarrow>
          if int (length (domain m)) \<le> cpu d then Inl Abort else if cpu d < 0 then Inl Undefined else Inr (nat (cpu d)))"

definition watch :: "nat \<Rightarrow> load_state \<times> machine \<Rightarrow> (load_state \<times> machine) res" where
  "watch t x =
     (case x of (st, m) \<Rightarrow>
        case tdata st t of
          None \<Rightarrow> Inl Segv
        | Some d \<Rightarrow> if int (length (domain m)) \<le> cpu d then Inl Abort else Inr (sd_call (Watch t) st, m))"

definition visit_child :: "simgrid \<Rightarrow> nat \<Rightarrow> load_state \<times> machine \<Rightarrow> (load_state \<times> machine) res" where
  "visit_child G child x =
     (case x of (st, m) \<Rightarrow>
        if schedulable G (calls st) child then
          rbind (checked m st child) (\<lambda>p.
          rbind (schedule_pages child (st, m)) (\<lambda>(st1, m1). Inr (sd_call (Schedulev child [p]) st1, m1)))
        else Inr (st, m))"

definition visit :: "simgrid \<Rightarrow> nat \<Rightarrow> load_state \<times> machine \<Rightarrow> (load_state \<times> machine) res" where
  "visit G t x = (case x of (st, m) \<Rightarrow> rfold (visit_child G) (get_children G (calls st) t) (st, m))"

text \<open>The loop around \<open>SD_simulate\<close>; \<open>None\<close> if it does not end.\<close>

partial_function (option) simulate :: "simgrid \<Rightarrow> load_state \<times> machine \<Rightarrow> (load_state \<times> machine) res option" where
  "simulate G x =
     (let st = sd_call Simulate (fst x); ts = executed G (calls st) in
      if ts = [] then Some (Inr (st, snd x))
      else case rfold (visit G) ts (st, snd x) of
        Inl f \<Rightarrow> Some (Inl f)
      | Inr y \<Rightarrow> simulate G y)"

definition run_simulation :: "simgrid \<Rightarrow> load_state \<times> machine \<Rightarrow> (load_state \<times> machine) res option" where
  "run_simulation G x =
     (case x of (st, m) \<Rightarrow>
        case rbind (checked m st (start st)) (\<lambda>p. rfold watch (order st) (sd_call (Schedulev (start st) [p]) st, m)) of
          Inl f \<Rightarrow> Some (Inl f)
        | Inr y \<Rightarrow> simulate G y)"

end
