(* ===== verification/Numa_Graph_Props.thy ===== *)
theory Numa_Graph_Props
  imports Numa_Graph
begin

text \<open>
  The task graph that is read from a log: it has no cycle, thunks depend only on thunks that were over
  when they started, and on all of these as long as no thread ends a thunk while a thunk that depends on
  an older one of its thunks still runs; else dependencies are lost.
\<close>

subsection \<open>Numbers and ranges\<close>

lemma THREAD_OFFSET_eq: "THREAD_OFFSET = 2097152" "unat THREAD_OFFSET = 2097152"
  by (simp_all add: THREAD_OFFSET_def)

lemma make_tid_numbers:
  assumes "thread < 2048" "thunk < 2097152"
  shows "\<exists>tid. make_tid thread thunk = Inr tid \<and> get_thread tid = thread \<and> get_thunk tid = thunk"
proof -
  have t: "unat thread < 2048" "unat thunk < 2097152" using assms by (simp_all add: word_less_nat_alt)
  then have u: "unat (thread * 2097152 + thunk) = unat thread * 2097152 + unat thunk"
    by (simp add: unat_word_ariths)
  have "unat ((thread * 2097152 + thunk) div 2097152) = unat thread"
    "unat ((thread * 2097152 + thunk) mod 2097152) = unat thunk"
    unfolding unat_div unat_mod u using t by simp_all
  then have "(thread * 2097152 + thunk) div 2097152 = thread" "(thread * 2097152 + thunk) mod 2097152 = thunk"
    by (simp_all only: word_unat_eq_iff)
  then show ?thesis using assms by (simp add: make_tid_def get_thread_def get_thunk_def THREAD_OFFSET_eq)
qed

lemma make_tid_collides: "make_tid (thread + 2048) thunk = make_tid thread thunk"
  by (simp add: make_tid_def THREAD_OFFSET_eq distrib_right)

lemma unat_plus_one: "s < e \<Longrightarrow> unat (s + 1) = unat s + 1"
  for s e :: u64
proof -
  assume "s < e"
  then have "unat s + 1 < 2 ^ 64" using unsigned_less [where ?'a = nat, of e] by (simp add: word_less_nat_alt)
  then show ?thesis by (simp add: unat_word_ariths)
qed

lemma insert_range_ends:
  assumes "e \<noteq> - 1"
  shows "\<exists>d'. insert_range w s e d = Some d' \<and> access_set d' = access_set d \<union> {s..e} \<and>
    read_set d' = (if w then read_set d else read_set d \<union> {s..e}) \<and>
    write_set d' = (if w then write_set d \<union> {s..e} else write_set d) \<and> cpu d' = cpu d \<and> td_tid d' = td_tid d"
proof (induction "unat e + 1 - unat s" arbitrary: s d rule: less_induct)
  case less
  show ?case
  proof (cases "s \<le> e")
    case True
    have "s < - 1" using True assms by (metis max_word_max order.not_eq_order_implies_strict order.trans word_order.extremum_uniqueI)
    then have u: "unat (s + 1) = unat s + 1" by (rule unat_plus_one)
    then have lt: "unat e + 1 - unat (s + 1) < unat e + 1 - unat s" using True by (simp add: word_le_nat_alt)
    have s: "{s..e} = insert s {s + 1..e}" using True u by (auto simp: word_le_nat_alt word_unat_eq_iff)
    show ?thesis using less [OF lt, of "insert_page w s d"] True
      by (subst insert_range.simps) (auto simp: insert_page_def s split: if_splits)
  qed (simp add: insert_range.simps)
qed

text \<open>The loop up to the largest number never ends.\<close>

lemma insert_range_endless: "insert_range w s (- 1) d = None"
proof -
  have "e \<noteq> - 1" if "insert_range w s e d = Some x" for w s e d x
    by (rule insert_range.raw_induct [of "\<lambda>w s e d x. e \<noteq> - 1", OF _ that]) (auto split: if_splits)
  then show ?thesis by (metis not_None_eq)
qed

text \<open>
  Reading a range of pages ends with exactly the pages of the range in the sets of the thunk, unless
  the range ends at the largest number: then the loop never ends, because its counter wraps.
\<close>

lemma insert_range_returns:
  "(e = - 1 \<and> insert_range w s e d = None) \<or>
   (\<exists>d'. insert_range w s e d = Some d' \<and> e \<noteq> - 1 \<and> access_set d' = access_set d \<union> {s..e} \<and>
     read_set d' = (if w then read_set d else read_set d \<union> {s..e}) \<and>
     write_set d' = (if w then write_set d \<union> {s..e} else write_set d))"
  using insert_range_ends [of e w s d] insert_range_endless [of w s d] by blast

subsection \<open>The lines of the log in closed form\<close>

definition before_start :: "u32 \<Rightarrow> load_state \<Rightarrow> dict" where
  "before_start thread st =
     (case cur st thread of None \<Rightarrow> finished st | Some prev \<Rightarrow> (finished st)(thread \<mapsto> prev))"

lemma fold_sd_call: "fold (\<lambda>t. sd_call (f t)) ts st = st\<lparr>calls := calls st @ map f ts\<rparr>"
  by (induction ts arbitrary: st) (simp_all add: sd_call_def)

lemma add_thunk_eq:
  "add_thunk G tid c st =
     (let n = created st; F = before_start (get_thread tid) st in
      st\<lparr>cur := (cur st)(get_thread tid \<mapsto> n), tmap := (tmap st)(tid \<mapsto> n), finished := F,
         order := order st @ [n], all_tasks := all_tasks st @ [n],
         tdata := (tdata st)(n \<mapsto> task_data_new\<lparr>cpu := sint (ucast c :: u32), td_tid := tid\<rparr>), created := n + 1,
         calls := calls st @ Create_comp n 0 # map (\<lambda>t. Dependency t n) (dict_values G F)\<rparr>)"
  by (cases "cur st (get_thread tid)")
    (simp_all add: add_thunk_def create_comp_def before_start_def fold_sd_call Let_def, simp_all add: sd_call_def)

definition thread_of :: "load_state \<Rightarrow> nat \<Rightarrow> u32" where
  "thread_of st t = (case tdata st t of None \<Rightarrow> 0 | Some d \<Rightarrow> get_thread (td_tid d))"

lemma drop_parents:
  "rfold drop_parent ps st = Inr st' \<Longrightarrow>
    st' = st\<lparr>finished := (\<lambda>th. if th \<in> thread_of st ` set ps then None else finished st th)\<rparr>"
proof (induction ps arbitrary: st)
  case (Cons p ps)
  obtain d where d: "tdata st p = Some d" using Cons.prems by (auto simp: drop_parent_def split: option.splits)
  have e: "thread_of (st\<lparr>finished := F\<rparr>) = thread_of st" for F by (simp add: thread_of_def fun_eq_iff)
  show ?case using Cons.prems Cons.IH [of "st\<lparr>finished := (finished st)(get_thread (td_tid d) := None)\<rparr>"] d
    by (auto simp: drop_parent_def e thread_of_def fun_eq_iff)
qed simp

lemma drop_parents_ok: "\<forall>p\<in>set ps. tdata st p \<noteq> None \<Longrightarrow> \<exists>st'. rfold drop_parent ps st = Inr st'"
  by (induction ps arbitrary: st) (auto simp: drop_parent_def)

definition parents :: "load_state \<Rightarrow> nat \<Rightarrow> nat set" where
  "parents st t = {p. (p, t) \<in> deps (calls st)}"

lemma deps_simps [simp]:
  "deps [] = {}" "deps (h @ h') = deps h \<union> deps h'" "deps (Create_comp n a # h) = deps h" "deps (Create_comm n a # h) = deps h"
  "deps (Amount n a # h) = deps h" "deps (Dependency s t # h) = insert (s, t) (deps h)"
  "deps (Schedulev t ws # h) = deps h" "deps (Watch t # h) = deps h" "deps (Simulate # h) = deps h"
  "deps (map (\<lambda>t. Dependency t n) ts) = (\<lambda>t. (t, n)) ` set ts"
  by (auto simp: deps_def)

text \<open>The state after a line \<open>end\<close>.\<close>

definition after_end :: "u32 \<Rightarrow> nat \<Rightarrow> u64 \<Rightarrow> load_state \<Rightarrow> load_state" where
  "after_end tid t n st =
     st\<lparr>calls := calls st @ [Amount t n],
        finished := (\<lambda>th. if th \<in> thread_of st ` parents st t then None else finished st th)(get_thread tid \<mapsto> t)\<rparr>"

lemma add_end_eq:
  assumes "simgrid_ok G" "Simulate \<notin> set (calls st)" "add_end G tid n st = Inr st'"
  shows "\<exists>t. tmap st tid = Some t \<and> st' = after_end tid t n st"
proof -
  obtain t where t: "tmap st tid = Some t" using assms(3)
    by (auto simp: add_end_def task_by_tid_def split: option.splits)
  let ?st = "sd_call (Amount t n) st"
  obtain st2 where 2: "rfold drop_parent (get_parents G (calls ?st) t) ?st = Inr st2"
    "st' = st2\<lparr>finished := (finished st2)(get_thread tid \<mapsto> t)\<rparr>"
    using assms(3) t by (auto simp: add_end_def task_by_tid_def rbind_Inr_iff Let_def)
  have "set (get_parents G (calls ?st) t) = parents st t"
    using assms(1,2) by (auto simp: simgrid_ok_def parents_def sd_call_def)
  moreover have "thread_of ?st = thread_of st" by (simp add: thread_of_def sd_call_def fun_eq_iff)
  moreover have "?st = st\<lparr>calls := calls st @ [Amount t n]\<rparr>" "finished ?st = finished st" by (simp_all add: sd_call_def)
  ultimately show ?thesis using t 2(2) drop_parents [OF 2(1)] by (simp add: after_end_def cong: if_cong)
qed

lemma add_access_eq:
  assumes "add_access w tid s e st = Some (Inr st')"
  shows "\<exists>t d d'. tmap st tid = Some t \<and> tdata st t = Some d \<and> insert_range w s e d = Some d' \<and>
    td_tid d' = td_tid d \<and> st' = st\<lparr>tdata := (tdata st)(t \<mapsto> d')\<rparr>"
proof -
  obtain t d where t: "tmap st tid = Some t" "tdata st t = Some d"
    using assms by (auto simp: add_access_def task_by_tid_def split: option.splits)
  obtain d' where d: "insert_range w s e d = Some d'" "st' = st\<lparr>tdata := (tdata st)(t \<mapsto> d')\<rparr>"
    using assms t by (auto simp: add_access_def task_by_tid_def)
  then have "e \<noteq> - 1" using insert_range_endless by auto
  then have "td_tid d' = td_tid d" using insert_range_ends [of e w s d] d(1) by auto
  then show ?thesis using t d by blast
qed

fun run_commands :: "simgrid \<Rightarrow> command list \<Rightarrow> load_state \<Rightarrow> load_state res option" where
  "run_commands G [] st = Some (Inr st)"
| "run_commands G (c # cs) st =
     (case run_command G c st of Some (Inr st1) \<Rightarrow> run_commands G cs st1 | r \<Rightarrow> r)"

lemma run_commands_append:
  "run_commands G (cs @ ds) st = Some (Inr st') \<longleftrightarrow>
    (\<exists>st1. run_commands G cs st = Some (Inr st1) \<and> run_commands G ds st1 = Some (Inr st'))"
  by (induction cs arbitrary: st) (auto split: option.splits sum.splits)

lemma run_commands_one [simp]: "run_commands G [c] st = run_command G c st"
  by (simp split: option.split sum.split)

lemma run_commands_snoc:
  "run_commands G (cs @ [c]) st = Some (Inr st') \<longleftrightarrow>
    (\<exists>st1. run_commands G cs st = Some (Inr st1) \<and> run_command G c st1 = Some (Inr st'))"
  by (simp only: run_commands_append run_commands_one)

lemma load_lines_commands:
  "load_lines G s st = Some (Inr st') \<Longrightarrow> \<exists>cs. run_commands G cs st = Some (Inr st')"
proof (induction G s st rule: load_lines.induct)
  case (1 G s st)
  show ?case
  proof (cases "snd s")
    case True
    then show ?thesis using 1(2) by (intro exI [of _ "[]"]) simp
  next
    case False
    then obtain c s1 st1 where c: "read_command s = Inr (c, s1)" "run_command G c st = Some (Inr st1)"
      "load_lines G s1 st1 = Some (Inr st')"
      using 1(2) by (auto simp del: load_lines.simps simp: load_lines.simps [of G s st] split: sum.splits option.splits)
    then obtain cs where "run_commands G cs st1 = Some (Inr st')" using 1(1) [OF False c(1) refl c(2)] by auto
    then show ?thesis using c(2) by (intro exI [of _ "c # cs"]) simp
  qed
qed

subsection \<open>The graph has no cycle\<close>

definition graph_inv :: "load_state \<Rightarrow> bool" where
  "graph_inv st \<longleftrightarrow> Simulate \<notin> set (calls st) \<and> (\<forall>(s, t)\<in>deps (calls st). s < t \<and> t < created st) \<and>
     (\<forall>t<created st. tdata st t \<noteq> None) \<and> finite (dom (finished st)) \<and>
     (\<forall>th t. cur st th = Some t \<longrightarrow> t < created st \<and> thread_of st t = th) \<and>
     (\<forall>th t. finished st th = Some t \<longrightarrow> t < created st \<and> thread_of st t = th \<and> cur st th \<noteq> None) \<and>
     (\<forall>tid t. tmap st tid = Some t \<longrightarrow> t < created st \<and> thread_of st t = get_thread tid \<and> cur st (get_thread tid) \<noteq> None)"

lemma graph_invD:
  assumes "graph_inv st"
  shows "Simulate \<notin> set (calls st)" "(s, t) \<in> deps (calls st) \<Longrightarrow> s < t \<and> t < created st"
    "t < created st \<Longrightarrow> tdata st t \<noteq> None" "finite (dom (finished st))"
    "cur st th = Some t \<Longrightarrow> t < created st \<and> thread_of st t = th"
    "finished st th = Some t \<Longrightarrow> t < created st \<and> thread_of st t = th \<and> cur st th \<noteq> None"
    "tmap st tid = Some t \<Longrightarrow> t < created st \<and> thread_of st t = get_thread tid \<and> cur st (get_thread tid) \<noteq> None"
  using assms unfolding graph_inv_def by (auto split: prod.splits)

lemma init_fields:
  "cur init_state = [0 \<mapsto> 0]" "tmap init_state = Map.empty" "finished init_state = Map.empty" "created init_state = 1"
  "calls init_state = [Create_comp 0 0]" "tdata init_state = [0 \<mapsto> task_data_new]"
  by (simp_all add: init_state_def create_comp_def sd_call_def)

lemma graph_inv_init: "graph_inv init_state"
  by (simp add: graph_inv_def init_fields thread_of_def task_data_new_def get_thread_def)

lemma before_start_inv:
  assumes "graph_inv st"
  shows "finite (dom (before_start th st))"
    "before_start th st th' = Some t \<Longrightarrow> t < created st \<and> thread_of st t = th' \<and> cur st th' \<noteq> None"
  using graph_invD(4-6) [OF assms] by (auto simp: before_start_def split: option.splits if_splits)

lemma graph_inv_thunk:
  assumes G: "simgrid_ok G" and i: "graph_inv st"
  shows "graph_inv (add_thunk G tid c st)"
    "deps (calls (add_thunk G tid c st)) = deps (calls st) \<union> ran (before_start (get_thread tid) st) \<times> {created st}"
proof -
  let ?F = "before_start (get_thread tid) st" and ?st = "add_thunk G tid c st"
  have v: "set (dict_values G ?F) = ran ?F" using G before_start_inv(1) [OF i] by (simp add: simgrid_ok_def)
  have th: "thread_of ?st t = (if t = created st then get_thread tid else thread_of st t)" for t
    by (simp add: add_thunk_eq Let_def thread_of_def)
  show d: "deps (calls ?st) = deps (calls st) \<union> ran ?F \<times> {created st}"
    by (auto simp: add_thunk_eq Let_def v)
  have f: "created ?st = created st + 1" "finished ?st = ?F" "cur ?st = (cur st)(get_thread tid \<mapsto> created st)"
    "tmap ?st = (tmap st)(tid \<mapsto> created st)"
    "tdata ?st = (tdata st)(created st \<mapsto> task_data_new\<lparr>cpu := sint (ucast c :: u32), td_tid := tid\<rparr>)"
    by (simp_all add: add_thunk_eq Let_def)
  have "Simulate \<notin> set (calls ?st)" using graph_invD(1) [OF i] by (auto simp: add_thunk_eq Let_def)
  moreover have "\<forall>(s, t)\<in>deps (calls ?st). s < t \<and> t < created ?st"
    using graph_invD(2) [OF i] before_start_inv(2) [OF i] unfolding d f by (fastforce simp: ran_def)
  moreover have "\<forall>t<created ?st. tdata ?st t \<noteq> None" using graph_invD(3) [OF i] unfolding f by (auto simp: less_Suc_eq)
  moreover have "cur ?st th = Some t \<longrightarrow> t < created ?st \<and> thread_of ?st t = th" for th t
    using graph_invD(5) [OF i, of th t] unfolding f th by auto
  moreover have "finished ?st th = Some t \<longrightarrow> t < created ?st \<and> thread_of ?st t = th \<and> cur ?st th \<noteq> None" for th t
    using before_start_inv(2) [OF i, of "get_thread tid" th t] unfolding f th by auto
  moreover have "tmap ?st k = Some t \<longrightarrow> t < created ?st \<and> thread_of ?st t = get_thread k \<and> cur ?st (get_thread k) \<noteq> None" for k t
    using graph_invD(7) [OF i, of k t] unfolding f th by auto
  ultimately show "graph_inv ?st" unfolding graph_inv_def using before_start_inv(1) [OF i] f(2) by simp
qed

lemma graph_inv_end:
  assumes i: "graph_inv st" and t: "tmap st tid = Some t"
  shows "graph_inv (after_end tid t n st)"
proof -
  have "thread_of (after_end tid t n st) = thread_of st" by (simp add: after_end_def thread_of_def fun_eq_iff)
  moreover have "dom (finished (after_end tid t n st)) \<subseteq> insert (get_thread tid) (dom (finished st))"
    by (auto simp: after_end_def split: if_splits)
  then have "finite (dom (finished (after_end tid t n st)))"
    using graph_invD(4) [OF i] by (metis finite_insert finite_subset)
  ultimately show ?thesis
    using i graph_invD(7) [OF i t] unfolding graph_inv_def by (auto simp: after_end_def split: if_splits)
qed

lemma add_access_frame:
  assumes "add_access w tid s e st = Some (Inr st')"
  shows "calls st' = calls st" "cur st' = cur st" "finished st' = finished st" "created st' = created st" "tmap st' = tmap st"
    "thread_of st' = thread_of st" "(tdata st' t = None) = (tdata st t = None)"
  using add_access_eq [OF assms] by (auto simp: thread_of_def fun_eq_iff split: if_splits)

lemma graph_inv_access:
  assumes "graph_inv st" "add_access w tid s e st = Some (Inr st')" shows "graph_inv st'"
  using assms(1) by (simp add: graph_inv_def add_access_frame [OF assms(2)])

lemma graph_inv_command:
  assumes G: "simgrid_ok G" and i: "graph_inv st" and r: "run_command G c st = Some (Inr st')"
  shows "graph_inv st'"
proof (cases c)
  case (Thunk tid x)
  then show ?thesis using graph_inv_thunk(1) [OF G i] r by auto
next
  case (End tid n)
  then show ?thesis using add_end_eq [OF G graph_invD(1) [OF i]] graph_inv_end [OF i] r by fastforce
next
  case (Finish tid)
  then show ?thesis using i r by (simp add: add_finish_def)
next
  case (Write tid s e)
  then show ?thesis using graph_inv_access [OF i] r by (auto simp: numa_add_write_def)
next
  case (Read tid s e)
  then show ?thesis using graph_inv_access [OF i] r by (auto simp: numa_add_read_def)
qed

lemma graph_inv_run:
  "simgrid_ok G \<Longrightarrow> graph_inv st \<Longrightarrow> run_commands G cs st = Some (Inr st') \<Longrightarrow> graph_inv st'"
  by (induction cs arbitrary: st) (auto split: option.splits sum.splits dest: graph_inv_command)

subsection \<open>What the dependencies mean\<close>

text \<open>
  A task is over after a line \<open>end\<close> of it, or when the next thunk of its thread starts.
\<close>

definition over :: "simgrid \<Rightarrow> command list \<Rightarrow> nat \<Rightarrow> bool" where
  "over G cs u \<longleftrightarrow>
     (\<exists>ds es st tid. run_commands G ds init_state = Some (Inr st) \<and>
        ((\<exists>n. cs = ds @ End tid n # es \<and> tmap st tid = Some u) \<or>
         (\<exists>c. cs = ds @ Thunk tid c # es \<and> cur st (get_thread tid) = Some u)))"

text \<open>The lines up to the start of \<open>t\<close>.\<close>

definition starts :: "simgrid \<Rightarrow> command list \<Rightarrow> nat \<Rightarrow> command list \<Rightarrow> bool" where
  "starts G cs t ds \<longleftrightarrow>
     (\<exists>ds' tid c es st. ds = ds' @ [Thunk tid c] \<and> cs = ds @ es \<and> run_commands G ds' init_state = Some (Inr st) \<and>
        t = created st)"

lemma over_more: "over G cs u \<Longrightarrow> over G (cs @ es) u"
  unfolding over_def by (metis append_assoc append_Cons)

lemma starts_more: "starts G cs t ds \<Longrightarrow> starts G (cs @ es) t ds"
  unfolding starts_def by (metis append_assoc)

lemma run_inv:
  "simgrid_ok G \<Longrightarrow> run_commands G cs init_state = Some (Inr st) \<Longrightarrow> graph_inv st"
  using graph_inv_run [OF _ graph_inv_init] by blast

text \<open>A line as a change of the graph.\<close>

lemma command_cases:
  assumes G: "simgrid_ok G" and i: "graph_inv st" and r: "run_command G c st = Some (Inr st')"
  obtains (thunk) tid x where "c = Thunk tid x" "st' = add_thunk G tid x st"
  | (ends) tid n t where "c = End tid n" "tmap st tid = Some t" "st' = after_end tid t n st"
  | (other) "deps (calls st') = deps (calls st)" "finished st' = finished st" "cur st' = cur st" "tmap st' = tmap st"
      "created st' = created st" "thread_of st' = thread_of st" "\<forall>tid x. c \<noteq> Thunk tid x" "\<forall>tid n. c \<noteq> End tid n"
proof (cases c)
  case (Thunk tid x)
  then show ?thesis using thunk r by auto
next
  case (End tid n)
  then show ?thesis using ends add_end_eq [OF G graph_invD(1) [OF i]] r by fastforce
next
  case (Finish tid)
  then show ?thesis using other r by (simp add: add_finish_def)
next
  case (Write tid s e)
  then show ?thesis using other add_access_frame [of True tid s e st st'] r by (auto simp: numa_add_write_def)
next
  case (Read tid s e)
  then show ?thesis using other add_access_frame [of False tid s e st st'] r by (auto simp: numa_add_read_def)
qed

lemma over_snoc:
  assumes "run_commands G cs init_state = Some (Inr st)"
  shows "tmap st tid = Some u \<Longrightarrow> over G (cs @ [End tid n]) u"
    "cur st (get_thread tid) = Some u \<Longrightarrow> over G (cs @ [Thunk tid c]) u"
  unfolding over_def using assms by blast+

lemma finished_over:
  assumes G: "simgrid_ok G"
  shows "run_commands G cs init_state = Some (Inr st) \<Longrightarrow> finished st th = Some u \<Longrightarrow> over G cs u"
proof (induction cs arbitrary: st th u rule: rev_induct)
  case Nil
  then show ?case by (auto simp: init_fields)
next
  case (snoc c cs)
  obtain st1 where st1: "run_commands G cs init_state = Some (Inr st1)" "run_command G c st1 = Some (Inr st)"
    using snoc.prems(1) by (auto simp: run_commands_snoc)
  have IH: "finished st1 th = Some u \<Longrightarrow> over G (cs @ [c]) u" for th u
    using snoc.IH [OF st1(1)] over_more by blast
  show ?case
  proof (rule command_cases [OF G run_inv [OF G st1(1)] st1(2)], goal_cases)
    case (1 tid x)
    then have "before_start (get_thread tid) st1 th = Some u" using snoc.prems(2) by (simp add: add_thunk_eq Let_def)
    then show ?case using IH over_snoc(2) [OF st1(1)] 1(1)
      by (auto simp: before_start_def split: option.splits if_splits)
  next
    case (2 tid n t)
    then show ?case using snoc.prems(2) IH over_snoc(1) [OF st1(1)] by (auto simp: after_end_def split: if_splits)
  next
    case 3
    then show ?case using snoc.prems(2) IH by auto
  qed
qed

lemma before_start_over:
  assumes G: "simgrid_ok G" and r: "run_commands G cs init_state = Some (Inr st)"
    and u: "u \<in> ran (before_start (get_thread tid) st)"
  shows "over G (cs @ [Thunk tid c]) u"
  using u finished_over [OF G r] over_more over_snoc(2) [OF r]
  by (auto simp: before_start_def ran_def split: option.splits if_splits)

text \<open>
  C14: The graph has no cycle, and it follows the log: a task depends only on older tasks, and only on tasks
  that were over when it started.
\<close>

theorem dependencies_follow_log:
  assumes "simgrid_ok G" "run_commands G cs init_state = Some (Inr st)" "(u, t) \<in> deps (calls st)"
  shows "u < t \<and> t < created st \<and> (\<exists>ds. starts G cs t ds \<and> over G ds u)"
proof -
  have "\<exists>ds. starts G cs t ds \<and> over G ds u" using assms(2,3)
  proof (induction cs arbitrary: st rule: rev_induct)
    case Nil
    then show ?case by (auto simp: init_fields)
  next
    case (snoc c cs)
    obtain st1 where st1: "run_commands G cs init_state = Some (Inr st1)" "run_command G c st1 = Some (Inr st)"
      using snoc.prems(1) by (auto simp: run_commands_snoc)
    have IH: "\<exists>ds. starts G (cs @ [c]) t ds \<and> over G ds u" if "(u, t) \<in> deps (calls st1)"
      using snoc.IH [OF st1(1) that] starts_more by blast
    note i = run_inv [OF assms(1) st1(1)]
    show ?case
    proof (rule command_cases [OF assms(1) i st1(2)], goal_cases)
      case (1 tid x)
      have "starts G (cs @ [c]) (created st1) (cs @ [c])" unfolding starts_def using 1(1) st1(1) by blast
      then show ?case
        using snoc.prems(2) IH before_start_over [OF assms(1) st1(1)] 1 unfolding 1(2) graph_inv_thunk(2) [OF assms(1) i]
        by blast
    next
      case (2 tid n t')
      then show ?case using snoc.prems(2) IH by (simp add: after_end_def)
    next
      case 3
      then show ?case using snoc.prems(2) IH by simp
    qed
  qed
  then show ?thesis using graph_invD(2) [OF run_inv [OF assms(1,2)] assms(3)] by blast
qed

subsection \<open>When no dependency is lost\<close>

text \<open>
  Thunks end while they are the current ones of their threads, and while a thunk runs no thread of a parent
  of it ends another thunk.
\<close>

definition clean :: "simgrid \<Rightarrow> command list \<Rightarrow> bool" where
  "clean G cs \<longleftrightarrow>
     (\<forall>ds tid n es st t. cs = ds @ End tid n # es \<longrightarrow> run_commands G ds init_state = Some (Inr st) \<longrightarrow>
        tmap st tid = Some t \<longrightarrow>
        cur st (get_thread tid) = Some t \<and> (\<forall>p\<in>parents st t. finished st (thread_of st p) \<in> {None, Some p}))"

lemma clean_less: "clean G (cs @ es) \<Longrightarrow> clean G cs"
  unfolding clean_def by (metis append_assoc append_Cons)

lemma over_snoc_cases:
  assumes "over G (cs @ [c]) u" "run_commands G cs init_state = Some (Inr st)"
  shows "over G cs u \<or> (\<exists>tid n. c = End tid n \<and> tmap st tid = Some u) \<or>
    (\<exists>tid x. c = Thunk tid x \<and> cur st (get_thread tid) = Some u)"
proof -
  obtain ds d es st1 tid where d: "run_commands G ds init_state = Some (Inr st1)" "cs @ [c] = ds @ d # es"
    "(\<exists>n. d = End tid n) \<and> tmap st1 tid = Some u \<or> (\<exists>x. d = Thunk tid x) \<and> cur st1 (get_thread tid) = Some u"
    using assms(1) unfolding over_def by blast
  show ?thesis
  proof (cases es rule: rev_cases)
    case Nil
    then have "ds = cs" "d = c" using d(2) by auto
    then show ?thesis using d(1,3) assms(2) by auto
  next
    case (snoc es' c')
    then have "cs = ds @ d # es'" using d(2) by auto
    then show ?thesis using d(1,3) unfolding over_def by blast
  qed
qed

definition reaches :: "load_state \<Rightarrow> nat \<Rightarrow> nat \<Rightarrow> bool" where
  "reaches st u v \<longleftrightarrow> (u, v) \<in> (deps (calls st))\<^sup>*"

lemma reaches_mono: "reaches st u v \<Longrightarrow> deps (calls st) \<subseteq> deps (calls st') \<Longrightarrow> reaches st' u v"
  unfolding reaches_def by (metis rtrancl_mono subsetD)

lemma reaches_trans: "reaches st u v \<Longrightarrow> reaches st v w \<Longrightarrow> reaches st u w"
  unfolding reaches_def by (rule rtrancl_trans)

text \<open>The finished tasks are the frontier of what is over.\<close>

definition frontier :: "simgrid \<Rightarrow> command list \<Rightarrow> load_state \<Rightarrow> bool" where
  "frontier G cs st \<longleftrightarrow>
     (\<forall>u. over G cs u \<longrightarrow> (\<exists>v\<in>ran (finished st). reaches st u v)) \<and>
     (\<forall>th w. finished st th = Some w \<longrightarrow> (\<exists>k. cur st th = Some k \<and> reaches st w k))"

lemma frontier_before_start:
  assumes i: "graph_inv st" and f: "frontier G cs st"
    and u: "over G cs u \<or> cur st th = Some u"
  shows "\<exists>v\<in>ran (before_start th st). reaches st u v"
proof (cases "cur st th")
  case None
  then obtain v where "v \<in> ran (finished st)" "reaches st u v" using f u by (auto simp: frontier_def)
  then show ?thesis using None by (auto simp: before_start_def)
next
  case (Some k)
  then have k: "k \<in> ran (before_start th st)" by (auto simp: before_start_def ran_def)
  show ?thesis
  proof (cases "cur st th = Some u")
    case True
    then show ?thesis using k Some by (auto simp: reaches_def)
  next
    case False
    then obtain v th' where v: "finished st th' = Some v" "reaches st u v" using f u by (auto simp: frontier_def ran_def)
    show ?thesis
    proof (cases "th' = th")
      case True
      then have "reaches st v k" using f v(1) Some unfolding frontier_def by fastforce
      then show ?thesis using k v(2) reaches_trans by blast
    next
      case False
      then have "before_start th st th' = Some v" using v(1) Some by (simp add: before_start_def)
      then show ?thesis using v(2) by (auto simp: ran_def)
    qed
  qed
qed

lemma frontier_thunk:
  assumes G: "simgrid_ok G" and r: "run_commands G cs init_state = Some (Inr st)" and f: "frontier G cs st"
  shows "frontier G (cs @ [Thunk tid c]) (add_thunk G tid c st)"
proof -
  note i = run_inv [OF G r]
  let ?F = "before_start (get_thread tid) st" and ?st = "add_thunk G tid c st"
  note d = graph_inv_thunk(2) [OF G i, of tid c]
  have m: "reaches st u v \<Longrightarrow> reaches ?st u v" for u v
    by (erule reaches_mono) (use d in blast)
  have fin: "finished ?st = ?F" "cur ?st = (cur st)(get_thread tid \<mapsto> created st)" by (simp_all add: add_thunk_eq Let_def)
  have "\<exists>v\<in>ran (finished ?st). reaches ?st u v" if "over G (cs @ [Thunk tid c]) u" for u
  proof -
    have "over G cs u \<or> cur st (get_thread tid) = Some u" using over_snoc_cases [OF that r] by auto
    from frontier_before_start [OF i f this] show ?thesis using m fin by auto
  qed
  moreover have "\<exists>k. cur ?st th = Some k \<and> reaches ?st w k" if "finished ?st th = Some w" for th w
  proof (cases "th = get_thread tid")
    case True
    have "(w, created st) \<in> deps (calls ?st)" using that unfolding d fin by (auto simp: ran_def)
    then show ?thesis using True unfolding fin by (auto simp: reaches_def)
  next
    case False
    then have "finished st th = Some w" using that fin by (auto simp: before_start_def split: option.splits)
    then show ?thesis using f False m unfolding fin frontier_def by fastforce
  qed
  ultimately show ?thesis unfolding frontier_def by blast
qed

lemma frontier_end:
  assumes G: "simgrid_ok G" and r: "run_commands G cs init_state = Some (Inr st)" and f: "frontier G cs st"
    and t: "tmap st tid = Some t" "cur st (get_thread tid) = Some t"
    and p: "\<forall>p\<in>parents st t. finished st (thread_of st p) \<in> {None, Some p}"
  shows "frontier G (cs @ [End tid n]) (after_end tid t n st)"
proof -
  let ?st = "after_end tid t n st"
  have d: "deps (calls ?st) = deps (calls st)" "cur ?st = cur st" by (simp_all add: after_end_def)
  have m: "reaches ?st = reaches st" by (simp add: reaches_def d fun_eq_iff)
  have t': "t \<in> ran (finished ?st)" by (auto simp: after_end_def ran_def)
  have "\<exists>v\<in>ran (finished ?st). reaches st u v" if u: "over G (cs @ [End tid n]) u" for u
  proof (cases "over G cs u")
    case True
    then obtain v th where v: "finished st th = Some v" "reaches st u v" using f by (auto simp: frontier_def ran_def)
    consider "th = get_thread tid" | "th \<in> thread_of st ` parents st t" | "finished ?st th = Some v"
      using v(1) by (cases "th = get_thread tid"; cases "th \<in> thread_of st ` parents st t") (simp_all add: after_end_def)
    then have "reaches st v t \<or> v \<in> ran (finished ?st)"
    proof cases
      case 1
      then show ?thesis using f v(1) t(2) unfolding frontier_def by fastforce
    next
      case 2
      then have "v \<in> parents st t" using p v(1) by auto
      then show ?thesis by (auto simp: parents_def reaches_def)
    next
      case 3
      then show ?thesis by (auto simp: ran_def)
    qed
    then show ?thesis using t' v(2) reaches_trans by blast
  next
    case False
    then have "u = t" using over_snoc_cases [OF u r] t(1) by auto
    then show ?thesis using t' by (auto simp: reaches_def)
  qed
  moreover have "\<exists>k. cur st th = Some k \<and> reaches st w k" if "finished ?st th = Some w" for th w
    using that f t(2) by (cases "th = get_thread tid") (auto simp: after_end_def frontier_def reaches_def split: if_splits)
  ultimately show ?thesis unfolding frontier_def m d by blast
qed

lemma frontier_run:
  assumes G: "simgrid_ok G"
  shows "run_commands G cs init_state = Some (Inr st) \<Longrightarrow> clean G cs \<Longrightarrow> frontier G cs st"
proof (induction cs arbitrary: st rule: rev_induct)
  case Nil
  then show ?case by (auto simp: frontier_def over_def init_fields)
next
  case (snoc c cs)
  obtain st1 where st1: "run_commands G cs init_state = Some (Inr st1)" "run_command G c st1 = Some (Inr st)"
    using snoc.prems(1) by (auto simp: run_commands_snoc)
  note f = snoc.IH [OF st1(1) clean_less [OF snoc.prems(2)]]
  show ?case
  proof (rule command_cases [OF G run_inv [OF G st1(1)] st1(2)], goal_cases)
    case (1 tid x)
    then show ?case using frontier_thunk [OF G st1(1) f] by simp
  next
    case (2 tid n t)
    then have "cur st1 (get_thread tid) = Some t \<and> (\<forall>p\<in>parents st1 t. finished st1 (thread_of st1 p) \<in> {None, Some p})"
      using snoc.prems(2) st1(1) unfolding clean_def by blast
    then show ?case using frontier_end [OF G st1(1) f 2(2)] 2 by simp
  next
    case 3
    then have "over G (cs @ [c]) u \<longleftrightarrow> over G cs u" for u using over_snoc_cases [OF _ st1(1)] over_more by blast
    moreover have "reaches st = reaches st1" using 3 by (simp add: reaches_def fun_eq_iff)
    ultimately show ?case using f 3 by (simp add: frontier_def)
  qed
qed

lemma deps_grow:
  assumes G: "simgrid_ok G"
  shows "graph_inv st \<Longrightarrow> run_commands G cs st = Some (Inr st') \<Longrightarrow> deps (calls st) \<subseteq> deps (calls st')"
proof (induction cs arbitrary: st)
  case (Cons c cs)
  obtain st1 where st1: "run_command G c st = Some (Inr st1)" "run_commands G cs st1 = Some (Inr st')"
    using Cons.prems(2) by (auto split: option.splits sum.splits)
  have "deps (calls st) \<subseteq> deps (calls st1)"
    by (rule command_cases [OF G Cons.prems(1) st1(1)]) (simp_all add: graph_inv_thunk(2) [OF G Cons.prems(1)] after_end_def)
  then show ?case using Cons.IH [OF graph_inv_command [OF G Cons.prems(1) st1(1)] st1(2)] by blast
qed simp

text \<open>
  C13: As long as no thread ends a thunk while a thunk that depends on an older one of its thunks runs, the
  graph has all of the log's order: every task that was over when \<open>t\<close> started comes before \<open>t\<close>.
\<close>

theorem dependencies_complete:
  assumes "simgrid_ok G" "run_commands G cs init_state = Some (Inr st)" "clean G cs"
    and "starts G cs t ds" "over G ds u"
  shows "(u, t) \<in> (deps (calls st))\<^sup>+"
proof -
  obtain ds' tid c es st0 where d: "ds = ds' @ [Thunk tid c]" "cs = ds @ es"
    "run_commands G ds' init_state = Some (Inr st0)" "t = created st0"
    using assms(4) unfolding starts_def by blast
  note i = run_inv [OF assms(1) d(3)]
  have "clean G ds'" using assms(3) unfolding d(1,2) by (meson clean_less)
  note f = frontier_run [OF assms(1) d(3) this]
  have "over G ds' u \<or> cur st0 (get_thread tid) = Some u" using over_snoc_cases [OF _ d(3)] assms(5) d(1) by auto
  from frontier_before_start [OF i f this] obtain v
    where v: "v \<in> ran (before_start (get_thread tid) st0)" "reaches st0 u v" by blast
  let ?st = "add_thunk G tid c st0"
  have "run_commands G es ?st = Some (Inr st)"
    using assms(2) d(1-3) by (auto simp: run_commands_append)
  from deps_grow [OF assms(1) graph_inv_thunk(1) [OF assms(1) i] this]
  have g: "deps (calls st0) \<union> ran (before_start (get_thread tid) st0) \<times> {t} \<subseteq> deps (calls st)"
    unfolding graph_inv_thunk(2) [OF assms(1) i] d(4) .
  have "reaches st u v" by (rule reaches_mono [OF v(2)]) (use g in blast)
  moreover have "(v, t) \<in> deps (calls st)" using g v(1) by blast
  ultimately show ?thesis unfolding reaches_def by simp
qed

subsection \<open>When a dependency is lost\<close>

lemma add_end_ok:
  assumes G: "simgrid_ok G" and i: "graph_inv st" and t: "tmap st tid = Some t"
  shows "add_end G tid n st = Inr (after_end tid t n st)"
proof -
  let ?st = "sd_call (Amount t n) st"
  have "set (get_parents G (calls ?st) t) = parents st t"
    using G graph_invD(1) [OF i] by (auto simp: simgrid_ok_def parents_def sd_call_def)
  then have "\<forall>p\<in>set (get_parents G (calls ?st) t). tdata ?st p \<noteq> None"
    using graph_invD(2,3) [OF i] by (fastforce simp: parents_def sd_call_def)
  then obtain st2 where "rfold drop_parent (get_parents G (calls ?st) t) ?st = Inr st2" using drop_parents_ok by blast
  then have "\<exists>st'. add_end G tid n st = Inr st'" using t by (simp add: add_end_def task_by_tid_def Let_def)
  then show ?thesis using add_end_eq [OF G graph_invD(1) [OF i]] t by fastforce
qed

text \<open>
  Thread 0 ends its second thunk, which is task 3, while the thunk of thread 1, task 2, runs; task 2 depends
  on the first thunk of thread 0. Task 4 is the next thunk of thread 1.
\<close>

definition lost_log :: "command list" where
  "lost_log = [Thunk 1 0, End 1 5, Thunk 2097153 0, Thunk 2 0, End 2 5, End 2097153 5, Thunk 2097154 0]"

lemma lost_threads: "get_thread 1 = 0" "get_thread 2 = 0" "get_thread 2097153 = 1" "get_thread 2097154 = 1"
  by (simp_all add: get_thread_def THREAD_OFFSET_eq)

lemma thread_of_thunk:
  "thread_of (add_thunk G tid c st) t = (if t = created st then get_thread tid else thread_of st t)"
  "thread_of (after_end tid k n st) = thread_of st"
  by (simp_all add: add_thunk_eq after_end_def Let_def thread_of_def fun_eq_iff)

lemma step_fields:
  "created (add_thunk G tid c st) = created st + 1"
  "cur (add_thunk G tid c st) = (cur st)(get_thread tid \<mapsto> created st)"
  "tmap (add_thunk G tid c st) = (tmap st)(tid \<mapsto> created st)"
  "finished (add_thunk G tid c st) = before_start (get_thread tid) st"
  "created (after_end tid t n st) = created st" "cur (after_end tid t n st) = cur st"
  "tmap (after_end tid t n st) = tmap st" "deps (calls (after_end tid t n st)) = deps (calls st)"
  by (simp_all add: add_thunk_eq after_end_def Let_def)

lemma end_finished:
  "parents st t = {p} \<Longrightarrow> finished (after_end tid t n st) = (finished st)(thread_of st p := None, get_thread tid \<mapsto> t)"
  by (auto simp: after_end_def fun_eq_iff)

lemma lost_states:
  assumes G: "simgrid_ok G"
  defines "s1 \<equiv> add_thunk G 1 0 init_state"
  defines "s2 \<equiv> after_end 1 1 5 s1"
  defines "s3 \<equiv> add_thunk G 2097153 0 s2"
  defines "s4 \<equiv> add_thunk G 2 0 s3"
  defines "s5 \<equiv> after_end 2 3 5 s4"
  defines "s6 \<equiv> after_end 2097153 2 5 s5"
  defines "s7 \<equiv> add_thunk G 2097154 0 s6"
  shows "run_commands G [Thunk 1 0, End 1 5, Thunk 2097153 0, Thunk 2 0] init_state = Some (Inr s4)"
    "tmap s4 2 = Some 3" "run_commands G [End 2 5, End 2097153 5] s4 = Some (Inr s6)" "created s6 = 4"
    "deps (calls s7) = {(0, 1), (1, 2), (1, 3), (2, 4)}"
proof -
  note f = lost_threads step_fields thread_of_thunk before_start_def init_fields
  note th = graph_inv_thunk [OF G]
  have p: "deps (calls st) = D \<Longrightarrow> parents st t = {p. (p, t) \<in> D}" for st D t by (simp add: parents_def)
  have th0: "thread_of init_state 0 = 0" by (simp add: thread_of_def init_fields task_data_new_def get_thread_def)
  have i1: "graph_inv s1" "deps (calls s1) = {(0, 1)}"
    using th [OF graph_inv_init, of 1 0] by (simp_all add: s1_def f)
  have 1: "created s1 = 2" "cur s1 = [0 \<mapsto> 1]" "tmap s1 = [1 \<mapsto> 1]" "finished s1 = [0 \<mapsto> 0]"
    "thread_of s1 0 = 0" "thread_of s1 1 = 0" "parents s1 1 = {0}"
    using p [OF i1(2), of 1] by (simp_all add: s1_def f th0)
  have i2: "graph_inv s2" "deps (calls s2) = {(0, 1)}"
    using graph_inv_end [OF i1(1), of 1 1] 1(3) i1(2) by (simp_all add: s2_def f)
  have 2: "created s2 = 2" "cur s2 = [0 \<mapsto> 1]" "tmap s2 = [1 \<mapsto> 1]" "finished s2 = [0 \<mapsto> 1]" "thread_of s2 1 = 0"
    using 1 end_finished [OF 1(7), of 1 5] by (simp_all add: s2_def f)
  have i3: "graph_inv s3" "deps (calls s3) = {(0, 1), (1, 2)}"
    using 2 i2(2) th [OF i2(1), of 2097153 0] by (auto simp: s3_def f)
  have 3: "created s3 = 3" "cur s3 = [0 \<mapsto> 1, 1 \<mapsto> 2]" "tmap s3 = [1 \<mapsto> 1, 2097153 \<mapsto> 2]" "finished s3 = [0 \<mapsto> 1]" "thread_of s3 1 = 0"
    using 2 by (simp_all add: s3_def f)
  have i4: "graph_inv s4" "deps (calls s4) = {(0, 1), (1, 2), (1, 3)}"
    using 3 i3(2) th [OF i3(1), of 2 0] by (auto simp: s4_def f)
  have 4: "created s4 = 4" "cur s4 = [0 \<mapsto> 3, 1 \<mapsto> 2]" "tmap s4 = [1 \<mapsto> 1, 2097153 \<mapsto> 2, 2 \<mapsto> 3]" "finished s4 = [0 \<mapsto> 1]"
    "thread_of s4 1 = 0" "parents s4 3 = {1}"
    using 3 p [OF i4(2), of 3] by (simp_all add: s4_def f fun_upd_twist)
  have i5: "graph_inv s5" "deps (calls s5) = {(0, 1), (1, 2), (1, 3)}"
    using graph_inv_end [OF i4(1), of 2 3] 4(3) i4(2) by (simp_all add: s5_def f)
  have 5: "created s5 = 4" "cur s5 = [0 \<mapsto> 3, 1 \<mapsto> 2]" "tmap s5 = [1 \<mapsto> 1, 2097153 \<mapsto> 2, 2 \<mapsto> 3]" "finished s5 = [0 \<mapsto> 3]"
    "thread_of s5 1 = 0" "parents s5 2 = {1}"
    using 4 end_finished [OF 4(6), of 2 5] p [OF i5(2), of 2] by (simp_all add: s5_def f)
  have i6: "graph_inv s6" "deps (calls s6) = {(0, 1), (1, 2), (1, 3)}"
    using graph_inv_end [OF i5(1), of 2097153 2] 5(3) i5(2) by (simp_all add: s6_def f)
  have 6: "created s6 = 4" "cur s6 = [0 \<mapsto> 3, 1 \<mapsto> 2]" "finished s6 = [1 \<mapsto> 2]"
    using 5 end_finished [OF 5(6), of 2097153 5] by (simp_all add: s6_def f)
  have 7: "deps (calls s7) = {(0, 1), (1, 2), (1, 3), (2, 4)}"
    using 6 i6(2) th(2) [OF i6(1), of 2097154 0] by (auto simp: s7_def f)
  note e = add_end_ok [OF G]
  show "run_commands G [Thunk 1 0, End 1 5, Thunk 2097153 0, Thunk 2 0] init_state = Some (Inr s4)"
    using e [OF i1(1), of 1 1 5] 1(3) by (simp add: s1_def s2_def s3_def s4_def)
  show "run_commands G [End 2 5, End 2097153 5] s4 = Some (Inr s6)"
    using e [OF i4(1), of 2 3 5] e [OF i5(1), of 2097153 2 5] 4(3) 5(3) by (simp add: s5_def s6_def)
  show "tmap s4 2 = Some 3" "created s6 = 4" "deps (calls s7) = {(0, 1), (1, 2), (1, 3), (2, 4)}"
    using 4(3) 6(1) 7 by simp_all
qed

text \<open>
  C40: A dependency is lost when a thread ends a thunk while another thread still runs one that depends on an
  older thunk of it: the end of the second drops the newer thunk from the finished ones, and the next thunk
  of the second thread may run before it.
\<close>

theorem dependency_lost:
  assumes "simgrid_ok G"
  shows "\<exists>st. run_commands G lost_log init_state = Some (Inr st) \<and> starts G lost_log 4 lost_log \<and>
    over G lost_log 3 \<and> (3, 4) \<notin> (deps (calls st))\<^sup>+"
proof -
  let ?ds = "[Thunk 1 0, End 1 5, Thunk 2097153 0, Thunk 2 0]"
  note s = lost_states [OF assms]
  have l: "lost_log = (?ds @ [End 2 5, End 2097153 5]) @ [Thunk 2097154 0]" "lost_log = ?ds @ End 2 5 # [End 2097153 5, Thunk 2097154 0]"
    by (simp_all add: lost_log_def)
  note r6 = run_commands_append [of G ?ds "[End 2 5, End 2097153 5]", THEN iffD2, OF exI, OF conjI, OF s(1,3)]
  show ?thesis
  proof (intro exI conjI)
    show "run_commands G lost_log init_state = Some (Inr (add_thunk G 2097154 0 (after_end 2097153 2 5 (after_end 2 3 5
        (add_thunk G 2 0 (add_thunk G 2097153 0 (after_end 1 1 5 (add_thunk G 1 0 init_state))))))))"
      unfolding l(1) run_commands_snoc using r6 by auto
    show "starts G lost_log 4 lost_log"
      unfolding starts_def using l(1) r6 s(4) by (metis append_Nil2)
    show "over G lost_log 3" unfolding over_def using l(2) s(1,2) by blast
  qed (subst s(5), auto dest: tranclD)
qed

subsection \<open>Logs the reader fails on\<close>

text \<open>
  The first task has no entry in the map that finds tasks by number; a command of ten characters does not
  fit its array; a line whose numbers do not parse, or with one number where two belong, goes on with
  uninitialized ones; an empty file ends the program.
\<close>

lemma start_unknown: "run_command G (End 0 n) init_state = Some (Inl Abort)"
  by (simp add: add_end_def task_by_tid_def init_fields)

lemma long_command: "read_command (''0123456789 0 1'', False) = Inl Undefined"
  by code_simp

lemma missing_number:
  "read_command (''thunk 0 x'', False) = Inl Undefined" "read_command (''write 0 1 5'', False) = Inl Undefined"
  by code_simp+

lemma empty_file_exits: "load_task_graph G (Some []) st = Some (Inl Exit)"
  by (simp add: load_task_graph_def read_command_def scan_word_def skip_ws_def advance_def)

subsection \<open>An instance of the library\<close>

fun tasks_created :: "sd_call list \<Rightarrow> nat" where
  "tasks_created [] = 0"
| "tasks_created (c # h) =
     tasks_created h + (case c of Create_comp t a \<Rightarrow> 1 | Create_comm t a \<Rightarrow> 1 | _ \<Rightarrow> 0)"

fun dep_list :: "sd_call list \<Rightarrow> (nat \<times> nat) list" where
  "dep_list [] = []"
| "dep_list (Dependency s t # h) = (s, t) # dep_list h"
| "dep_list (c # h) = dep_list h"

fun sched_list :: "sd_call list \<Rightarrow> nat list" where
  "sched_list [] = []"
| "sched_list (Schedulev t ws # h) = t # sched_list h"
| "sched_list (c # h) = sched_list h"

definition grid_executed :: "sd_call list \<Rightarrow> nat list" where
  "grid_executed h =
     (let g = rev (butlast h) in
      filter (\<lambda>t. t \<notin> set (sched_list (dropWhile (\<lambda>c. c \<noteq> Simulate) g)) \<and> t < tasks_created h)
        (sched_list (takeWhile (\<lambda>c. c \<noteq> Simulate) g)))"

definition demo_grid :: simgrid where
  "demo_grid =
     \<lparr>dict_values = (\<lambda>m. sorted_list_of_set (ran m)),
      get_parents = (\<lambda>h t. map fst (filter (\<lambda>e. snd e = t) (dep_list h))),
      get_children = (\<lambda>h t. map snd (filter (\<lambda>e. fst e = t) (dep_list h))),
      schedulable = (\<lambda>h t. t \<notin> set (sched_list h) \<and> (\<forall>e\<in>set (dep_list h). snd e = t \<longrightarrow> fst e \<in> set (sched_list h))),
      executed = grid_executed\<rparr>"

lemma set_dep_list: "set (dep_list h) = deps h"
  by (induction h rule: dep_list.induct) auto

lemma set_sched_list: "t \<in> set (sched_list h) \<longleftrightarrow> (\<exists>ws. Schedulev t ws \<in> set h)"
  by (induction h rule: sched_list.induct) auto

lemma demo_grid_ok: "simgrid_ok demo_grid"
  by (auto simp: simgrid_ok_def demo_grid_def finite_ran set_dep_list image_iff)

text \<open>The theorems at concrete logs.\<close>

theorem dependencies_follow_log_witness:
  "\<exists>ds. starts demo_grid [Thunk 1 0] 1 ds \<and> over demo_grid ds 0"
proof -
  have r: "run_commands demo_grid [Thunk 1 0] init_state = Some (Inr (add_thunk demo_grid 1 0 init_state))" by simp
  have "(0, 1) \<in> deps (calls (add_thunk demo_grid 1 0 init_state))"
    using graph_inv_thunk(2) [OF demo_grid_ok graph_inv_init, of 1 0]
    by (simp add: before_start_def init_fields get_thread_def THREAD_OFFSET_eq)
  from dependencies_follow_log [OF demo_grid_ok r this] show ?thesis by blast
qed

theorem dependency_lost_witness:
  "\<exists>st. run_commands demo_grid lost_log init_state = Some (Inr st) \<and> (3, 4) \<notin> (deps (calls st))\<^sup>+"
  using dependency_lost [OF demo_grid_ok] by blast

text \<open>Two thunks of two threads.\<close>

definition pair_log :: "command list" where "pair_log = [Thunk 1 0, End 1 5, Thunk 2097153 0]"

lemma pair_start:
  "graph_inv (add_thunk demo_grid 1 0 init_state)" "tmap (add_thunk demo_grid 1 0 init_state) = [1 \<mapsto> 1]"
  "created (add_thunk demo_grid 1 0 init_state) = 2" "cur (add_thunk demo_grid 1 0 init_state) 0 = Some 1"
  "parents (add_thunk demo_grid 1 0 init_state) 1 = {0}" "finished (add_thunk demo_grid 1 0 init_state) = [0 \<mapsto> 0]"
  "thread_of (add_thunk demo_grid 1 0 init_state) 0 = 0" "get_thread 1 = 0"
proof -
  have th0: "thread_of init_state 0 = 0" by (simp add: thread_of_def init_fields task_data_new_def get_thread_def)
  note g = graph_inv_thunk [OF demo_grid_ok graph_inv_init, of 1 0]
  show "graph_inv (add_thunk demo_grid 1 0 init_state)" by (rule g(1))
  show "parents (add_thunk demo_grid 1 0 init_state) 1 = {0}"
    unfolding parents_def g(2) by (simp add: before_start_def init_fields get_thread_def THREAD_OFFSET_eq)
  show "thread_of (add_thunk demo_grid 1 0 init_state) 0 = 0" using th0 by (simp add: thread_of_thunk init_fields)
qed (simp_all add: before_start_def init_fields get_thread_def THREAD_OFFSET_eq step_fields)

lemma pair_clean: "clean demo_grid pair_log"
  unfolding clean_def
proof (intro allI impI)
  fix ds tid n es st t
  assume a: "pair_log = ds @ End tid n # es" "run_commands demo_grid ds init_state = Some (Inr st)" "tmap st tid = Some t"
  have "ds = [Thunk 1 0] \<and> tid = 1" using a(1) by (auto simp: pair_log_def Cons_eq_append_conv)
  then have "st = add_thunk demo_grid 1 0 init_state" "tid = 1" using a(2) by auto
  then show "cur st (get_thread tid) = Some t \<and> (\<forall>p\<in>parents st t. finished st (thread_of st p) \<in> {None, Some p})"
    using a(3) pair_start by simp
qed

theorem dependencies_complete_witness:
  "\<exists>st. run_commands demo_grid pair_log init_state = Some (Inr st) \<and> (1, 2) \<in> (deps (calls st))\<^sup>+"
proof -
  let ?s1 = "add_thunk demo_grid 1 0 init_state"
  have l: "pair_log = [Thunk 1 0, End 1 5] @ [Thunk 2097153 0]" "pair_log = [Thunk 1 0] @ End 1 5 # [Thunk 2097153 0]"
    by (simp_all add: pair_log_def)
  have r2: "run_commands demo_grid [Thunk 1 0, End 1 5] init_state = Some (Inr (after_end 1 1 5 ?s1))"
    using add_end_ok [OF demo_grid_ok pair_start(1), of 1 1 5] pair_start(2) by simp
  then have r: "run_commands demo_grid pair_log init_state = Some (Inr (add_thunk demo_grid 2097153 0 (after_end 1 1 5 ?s1)))"
    unfolding l(1) run_commands_snoc by auto
  have "created (after_end 1 1 5 ?s1) = 2" by (simp add: step_fields init_fields)
  then have s: "starts demo_grid pair_log 2 pair_log"
    unfolding starts_def using r2 l(1) by (metis append_Nil2)
  have "run_commands demo_grid [Thunk 1 0] init_state = Some (Inr ?s1)" by simp
  then have ov: "over demo_grid pair_log 1"
    unfolding over_def using l(2) pair_start(2) by (metis fun_upd_same)
  show ?thesis using r dependencies_complete [OF demo_grid_ok r pair_clean s ov] by blast
qed

end
