(* ===== verification/Numa_Pages_Props.thy ===== *)
theory Numa_Pages_Props
  imports Numa_Pages Numa_Graph_Props
begin

text \<open>
  The simulation places every page where it is used first, schedules every task at most once and ends;
  pages of a domain are fetched once per processor of the domain.
\<close>

subsection \<open>What is assumed of the library\<close>

text \<open>
  The states of a task, in the order in which a task goes through them: 0 is \<^verbatim>\<open>SD_NOT_SCHEDULED\<close>,
  1 \<^verbatim>\<open>SD_SCHEDULABLE\<close>, 2 \<^verbatim>\<open>SD_SCHEDULED\<close>, 3 \<^verbatim>\<open>SD_RUNNABLE\<close>, 4 \<^verbatim>\<open>SD_RUNNING\<close>, 5
  \<^verbatim>\<open>SD_DONE\<close> or \<^verbatim>\<open>SD_FAILED\<close>; \<open>stage h t\<close> is the state of the task \<open>t\<close> after the calls \<open>h\<close>. The calls
  of the simulator never unschedule a task, and only a new dependency takes a task back, from schedulable or
  runnable. \<open>SD_simulate\<close> returns tasks whose state it has changed; it may return a task in one call when it
  starts and in another when it is done.
\<close>

definition sim_ok :: "simgrid \<Rightarrow> (sd_call list \<Rightarrow> nat \<Rightarrow> nat) \<Rightarrow> bool" where
  "sim_ok G stage \<longleftrightarrow>
     (\<forall>h t. stage h t \<le> 5 \<and> (schedulable G h t \<longleftrightarrow> stage h t = 1)) \<and>
     (\<forall>h t ws. 2 \<le> stage (h @ [Schedulev t ws]) t) \<and>
     (\<forall>h c t. 2 \<le> stage h t \<longrightarrow> 2 \<le> stage (h @ [c]) t) \<and>
     (\<forall>h c t. stage (h @ [c]) t < stage h t \<longrightarrow> (\<exists>s. c = Dependency s t)) \<and>
     (\<forall>h. \<forall>t\<in>set (executed G (h @ [Simulate])).
        t < tasks_created h \<and> stage h t < stage (h @ [Simulate]) t)"

lemma sim_okD:
  assumes "sim_ok G stage"
  shows "stage h t \<le> 5" "schedulable G h t \<longleftrightarrow> stage h t = 1" "2 \<le> stage (h @ [Schedulev t ws]) t"
    "2 \<le> stage h t \<Longrightarrow> 2 \<le> stage (h @ [c]) t" "stage (h @ [c]) t < stage h t \<Longrightarrow> \<exists>s. c = Dependency s t"
    "t \<in> set (executed G (h @ [Simulate])) \<Longrightarrow> t < tasks_created h \<and> stage h t < stage (h @ [Simulate]) t"
  using assms by (auto simp: sim_ok_def)

text \<open>Hence no task is scheduled twice.\<close>

lemma scheduled_stage:
  assumes G: "sim_ok G stage" shows "Schedulev t ws \<in> set h \<Longrightarrow> 2 \<le> stage h t"
proof (induction h rule: rev_induct)
  case (snoc c h)
  then show ?case using sim_okD(3) [OF G, of h t ws] sim_okD(4) [OF G, of h t c] by auto
qed simp

lemma schedulable_new: "sim_ok G stage \<Longrightarrow> schedulable G h t \<Longrightarrow> Schedulev t ws \<notin> set h"
  using scheduled_stage [of G stage t ws h] sim_okD(2) [of G stage h t] by auto

text \<open>
  What the tasks below \<open>B\<close> still have before them: every call of \<open>SD_simulate\<close> that returns a task lowers it,
  a new dependency raises it by at most 5, and no other call raises it.
\<close>

definition deficit :: "(sd_call list \<Rightarrow> nat \<Rightarrow> nat) \<Rightarrow> nat \<Rightarrow> sd_call list \<Rightarrow> nat" where
  "deficit stage B h = (\<Sum>t<B. 5 - stage h t)"

lemma dep_list_append [simp]: "dep_list (h @ h') = dep_list h @ dep_list h'"
  by (induction h rule: dep_list.induct) auto

lemma deficit_call:
  assumes G: "sim_ok G stage"
  shows "deficit stage B (h @ [c]) \<le> deficit stage B h + 5 * length (dep_list [c])"
proof -
  define u where "u = (case c of Dependency s t \<Rightarrow> {t} | _ \<Rightarrow> {})"
  have "5 - stage (h @ [c]) t \<le> (5 - stage h t) + (if t \<in> u then 5 else 0)" for t
    using sim_okD(5) [OF G, of h c t] by (cases "stage (h @ [c]) t < stage h t") (auto simp: u_def)
  then have "deficit stage B (h @ [c]) \<le> (\<Sum>t<B. (5 - stage h t) + (if t \<in> u then 5 else 0))"
    unfolding deficit_def by (intro sum_mono)
  also have "\<dots> = deficit stage B h + 5 * card ({..<B} \<inter> u)"
    by (simp add: deficit_def sum.distrib sum.If_cases)
  also have "card ({..<B} \<inter> u) \<le> length (dep_list [c])"
    by (cases c) (auto simp: u_def Int_insert_right)
  finally show ?thesis by simp
qed

lemma deficit_calls:
  assumes "sim_ok G stage" shows "deficit stage B (h @ h') \<le> deficit stage B h + 5 * length (dep_list h')"
proof (induction h' rule: rev_induct)
  case (snoc c h')
  then show ?case using deficit_call [OF assms, of B "h @ h'" c] by simp
qed simp

lemma deficit_simulate:
  assumes G: "sim_ok G stage" and "t \<in> set (executed G (h @ [Simulate]))" "tasks_created h \<le> B"
  shows "deficit stage B (h @ [Simulate]) < deficit stage B h"
  unfolding deficit_def
proof (rule sum_strict_mono_ex1)
  show "\<forall>t\<in>{..<B}. 5 - stage (h @ [Simulate]) t \<le> 5 - stage h t"
    using sim_okD(5) [OF G, of h Simulate] by (meson diff_le_mono2 not_le sd_call.distinct)
  show "\<exists>t\<in>{..<B}. 5 - stage (h @ [Simulate]) t < 5 - stage h t"
    using sim_okD(6) [OF assms(1,2)] sim_okD(1) [OF G, of "h @ [Simulate]" t] assms(3)
    by (intro bexI [of _ t]) auto
qed simp

subsection \<open>Placement by first touch\<close>

fun touch :: "nat \<times> u64 set \<Rightarrow> (u64 \<rightharpoonup> nat) \<Rightarrow> (u64 \<rightharpoonup> nat)" where
  "touch (d, S) H = (\<lambda>p. if p \<in> S \<and> H p = None then Some d else H p)"

definition placed :: "machine \<Rightarrow> (u64 \<rightharpoonup> nat) \<Rightarrow> bool" where
  "placed m H \<longleftrightarrow> (\<forall>d p. p \<in> numa m d \<longleftrightarrow> H p = Some d) \<and> ran H \<subseteq> set (domain m)"

text \<open>Where a task runs and which pages it needs.\<close>

definition demand :: "machine \<Rightarrow> load_state \<Rightarrow> nat \<Rightarrow> nat \<times> u64 set" where
  "demand m st t = (case tdata st t of None \<Rightarrow> (0, {}) | Some d \<Rightarrow> (domain m ! nat (cpu d), access_set d))"

text \<open>The tasks below \<open>n\<close> in the order in which they are scheduled.\<close>

fun scheduled :: "nat \<Rightarrow> sd_call list \<Rightarrow> nat list" where
  "scheduled n [] = []"
| "scheduled n (Schedulev t ws # h) = (if t < n then t # scheduled n h else scheduled n h)"
| "scheduled n (c # h) = scheduled n h"

lemma scheduled_append [simp]: "scheduled n (h @ h') = scheduled n h @ scheduled n h'"
  by (induction n h rule: scheduled.induct) auto

lemma scheduled_iff: "t \<in> set (scheduled n h) \<longleftrightarrow> t < n \<and> (\<exists>ws. Schedulev t ws \<in> set h)"
  by (induction n h rule: scheduled.induct) auto

lemma tasks_created_append [simp]: "tasks_created (h @ h') = tasks_created h + tasks_created h'"
  by (induction h) auto

text \<open>What the synthetic tasks leave alone: the tasks of the graph and what is scheduled of them.\<close>

definition synth :: "nat \<Rightarrow> nat \<Rightarrow> load_state \<Rightarrow> load_state \<Rightarrow> bool" where
  "synth n k st st' \<longleftrightarrow>
     created st \<le> created st' \<and> created st' \<le> created st + k \<and> (\<forall>t<n. tdata st' t = tdata st t) \<and>
     ((\<forall>t\<ge>n. tdata st t = None) \<longrightarrow> (\<forall>t\<ge>n. tdata st' t = None)) \<and>
     (\<exists>h. calls st' = calls st @ h \<and> scheduled n h = [] \<and> length (dep_list h) \<le> k \<and> tasks_created h = created st' - created st)"

lemma synth_refl: "synth n 0 st st"
  unfolding synth_def by (auto intro: exI [of _ "[]"])

lemma synth_trans: "synth n j st st' \<Longrightarrow> synth n k st' st'' \<Longrightarrow> synth n (j + k) st st''"
  unfolding synth_def
  by (elim conjE exE, intro conjI) (auto intro!: exI)

lemma synth_fetch: "n \<le> created st \<Longrightarrow> synth n 2 st (fetch task i c st)"
  by (auto simp: synth_def fetch_def create_comp_def create_comm_def push_all_def sd_call_def Let_def)

lemma ask_effect:
  assumes "n \<le> created st" "fold (ask m task l S) is (st, A) = (st', A')"
  shows "synth n (2 * length is) st st' \<and> A' = A \<union> (\<Union>i\<in>set is. numa m (domain m ! i) \<inter> S)"
  using assms
proof (induction "is" arbitrary: st A)
  case Nil
  then show ?case using synth_refl by auto
next
  case (Cons i "is")
  obtain st1 A1 where 1: "ask m task l S i (st, A) = (st1, A1)" by (cases "ask m task l S i (st, A)")
  have "st1 = st \<or> (\<exists>c. st1 = fetch task i c st)" "A1 = A \<union> numa m (domain m ! i) \<inter> S"
    using 1 by (auto simp: ask_def Let_def split: if_splits)
  then have s: "synth n 2 st st1" "A1 = A \<union> numa m (domain m ! i) \<inter> S"
    using synth_fetch [OF Cons.prems(1)] synth_refl [of n st] by (auto simp: synth_def)
  then have "n \<le> created st1" using Cons.prems(1) by (simp add: synth_def)
  then have "synth n (2 * length is) st1 st' \<and> A' = A1 \<union> (\<Union>i\<in>set is. numa m (domain m ! i) \<inter> S)"
    using Cons.IH Cons.prems(2) 1 by simp
  then show ?case using synth_trans [OF s(1)] s(2) by (auto simp: algebra_simps)
qed

lemma schedule_pages_effect:
  assumes "schedule_pages t (st, m) = Inr (st', m')" "placed m H" "n \<le> created st"
  shows "synth n (2 * length (domain m)) st st' \<and> domain m' = domain m \<and> placed m' (touch (demand m st t) H)"
proof -
  obtain d p where p: "processor m st t = Inr (d, p)" using assms(1) by (auto simp: schedule_pages_def rbind_Inr_iff)
  then have d: "tdata st t = Some d" "p = nat (cpu d)" "p < length (domain m)"
    by (auto simp: processor_def split: option.splits if_splits)
  let ?l = "domain m ! p" and ?S = "access_set d"
  have dem: "demand m st t = (?l, ?S)" using d by (simp add: demand_def)
  show ?thesis
  proof (cases "?S = {}")
    case True
    then have "st' = st" "m' = m" using assms(1) p by (auto simp: schedule_pages_def)
    moreover have "touch (?l, {}) H = H" by auto
    ultimately show ?thesis using dem True assms(2) synth_refl [of n st] by (simp add: synth_def)
  next
    case False
    obtain A where A: "fold (ask m t ?l ?S) [0..<length (domain m)] (st, {}) = (st', A)"
      "m' = m\<lparr>numa := (numa m)(?l := numa m ?l \<union> (?S - A))\<rparr>"
      using assms(1) p False by (auto simp: schedule_pages_def Let_def split: prod.splits)
    have a: "synth n (2 * length (domain m)) st st'" "A = (\<Union>i<length (domain m). numa m (domain m ! i) \<inter> ?S)"
      using ask_effect [OF assms(3) A(1)] by (auto simp: atLeast0LessThan)
    have "p \<in> A \<longleftrightarrow> p \<in> ?S \<and> H p \<noteq> None" for p
      using assms(2) unfolding a(2) placed_def ran_def by (fastforce simp: in_set_conv_nth)
    then have "placed m' (touch (?l, ?S) H)"
      using assms(2) d(3) unfolding A(2) placed_def by (auto simp: ran_def split: if_splits)
    then show ?thesis using a(1) A(2) dem by simp
  qed
qed

subsection \<open>The invariant of the simulation\<close>

definition homes :: "machine \<Rightarrow> load_state \<Rightarrow> nat list \<Rightarrow> (u64 \<rightharpoonup> nat)" where
  "homes m st ts = fold touch (map (demand m st) ts) Map.empty"

definition sim_inv :: "load_state \<Rightarrow> machine \<Rightarrow> load_state \<times> machine \<Rightarrow> bool" where
  "sim_inv st0 m0 x \<longleftrightarrow>
     (let (st, m) = x; n = created st0; ts = scheduled n (calls st) in
      n \<le> created st \<and> domain m = domain m0 \<and> (\<forall>t<n. tdata st t = tdata st0 t) \<and> (\<forall>t\<ge>n. tdata st t = None) \<and>
      tasks_created (calls st) = created st \<and> distinct ts \<and> ts \<noteq> [] \<and> placed m (homes m0 st0 (tl ts)))"

text \<open>The tasks that the simulation can still create, and what it still has before it.\<close>

definition budget :: "load_state \<Rightarrow> machine \<Rightarrow> load_state \<Rightarrow> nat" where
  "budget st0 m0 st =
     created st + (2 * length (domain m0) + 1) * (created st0 - length (scheduled (created st0) (calls st)))"

definition ahead :: "(sd_call list \<Rightarrow> nat \<Rightarrow> nat) \<Rightarrow> nat \<Rightarrow> load_state \<Rightarrow> machine \<Rightarrow> load_state \<Rightarrow> nat" where
  "ahead stage B st0 m0 st = deficit stage B (calls st) +
     10 * length (domain m0) * (created st0 - length (scheduled (created st0) (calls st)))"

definition progressed :: "(sd_call list \<Rightarrow> nat \<Rightarrow> nat) \<Rightarrow> load_state \<Rightarrow> machine \<Rightarrow>
    load_state \<times> machine \<Rightarrow> load_state \<times> machine \<Rightarrow> bool" where
  "progressed stage st0 m0 x y \<longleftrightarrow> budget st0 m0 (fst y) \<le> budget st0 m0 (fst x) \<and>
     (\<forall>B. ahead stage B st0 m0 (fst y) \<le> ahead stage B st0 m0 (fst x))"

lemma progressed_refl: "progressed stage st0 m0 x x"
  by (simp add: progressed_def)

lemma progressed_trans:
  "progressed stage st0 m0 x y \<Longrightarrow> progressed stage st0 m0 y z \<Longrightarrow> progressed stage st0 m0 x z"
  unfolding progressed_def by (meson order_trans)

lemma visit_child_step:
  assumes G: "sim_ok G stage" and i: "sim_inv st0 m0 (st, m)" and v: "visit_child G t (st, m) = Inr (st', m')"
  shows "sim_inv st0 m0 (st', m') \<and> progressed stage st0 m0 (st, m) (st', m')"
proof (cases "schedulable G (calls st) t")
  case False
  then show ?thesis using i v by (simp add: visit_child_def progressed_refl)
next
  case True
  let ?n = "created st0"
  obtain p st1 where p: "checked m st t = Inr p" "schedule_pages t (st, m) = Inr (st1, m')"
    "st' = sd_call (Schedulev t [p]) st1"
    using v True by (auto simp: visit_child_def rbind_Inr_iff)
  have inv: "?n \<le> created st" "domain m = domain m0" "\<forall>t<?n. tdata st t = tdata st0 t" "\<forall>t\<ge>?n. tdata st t = None"
    "tasks_created (calls st) = created st" "distinct (scheduled ?n (calls st))" "scheduled ?n (calls st) \<noteq> []"
    "placed m (homes m0 st0 (tl (scheduled ?n (calls st))))"
    using i by (simp_all add: sim_inv_def Let_def)
  have t: "t < ?n" using p(1) inv(4) by (auto simp: checked_def split: option.splits simp flip: not_le)
  have new: "t \<notin> set (scheduled ?n (calls st))" using schedulable_new [OF G True] by (auto simp: scheduled_iff)
  from schedule_pages_effect [OF p(2) inv(8,1)]
  have s: "synth ?n (2 * length (domain m0)) st st1" "domain m' = domain m0"
    "placed m' (touch (demand m st t) (homes m0 st0 (tl (scheduled ?n (calls st)))))" by (simp_all add: inv(2))
  obtain h where h: "calls st1 = calls st @ h" "scheduled ?n h = []" "length (dep_list h) \<le> 2 * length (domain m0)"
    "tasks_created h = created st1 - created st"
    using s(1) by (auto simp: synth_def)
  have f: "created st \<le> created st1" "created st1 \<le> created st + 2 * length (domain m0)" "\<forall>t<?n. tdata st1 t = tdata st t"
    "\<forall>t\<ge>?n. tdata st1 t = None" using s(1) inv(4) by (simp_all add: synth_def)
  have sch: "scheduled ?n (calls st') = scheduled ?n (calls st) @ [t]" using t h(1,2) by (simp add: p(3) sd_call_def)
  have "demand m st t = demand m0 st0 t" using inv(2,3) t by (simp add: demand_def cong: option.case_cong)
  then have "placed m' (homes m0 st0 (tl (scheduled ?n (calls st'))))"
    using s(3) inv(7) by (simp add: sch homes_def)
  moreover have "tasks_created (calls st') = created st'" using h inv(5) f(1) by (simp add: p(3) sd_call_def)
  ultimately have "sim_inv st0 m0 (st', m')"
    using inv f s(2) new unfolding sim_inv_def Let_def by (simp add: sch) (simp add: p(3) sd_call_def)
  moreover have "length (scheduled ?n (calls st)) < ?n"
  proof -
    have "insert t (set (scheduled ?n (calls st))) \<subseteq> {..<?n}" using t by (auto simp: scheduled_iff)
    then have "card (insert t (set (scheduled ?n (calls st)))) \<le> ?n" using card_mono [of "{..<?n}"] by fastforce
    then show ?thesis using new distinct_card [OF inv(6)] by simp
  qed
  then obtain k where "?n - length (scheduled ?n (calls st)) = Suc k" "?n - length (scheduled ?n (calls st')) = k"
    by (cases "?n - length (scheduled ?n (calls st))") (auto simp: sch)
  note left = this
  have "budget st0 m0 st' \<le> budget st0 m0 st"
    using f(2) left by (simp add: budget_def p(3) sd_call_def)
  moreover have "ahead stage B st0 m0 st' \<le> ahead stage B st0 m0 st" for B
  proof -
    have "calls st' = calls st @ h @ [Schedulev t [p]]" using h(1) by (simp add: p(3) sd_call_def)
    then have "deficit stage B (calls st') \<le> deficit stage B (calls st) + 10 * length (domain m0)"
      using deficit_calls [OF G, of B "calls st" "h @ [Schedulev t [p]]"] h(3) by simp
    then show ?thesis using left by (simp add: ahead_def)
  qed
  ultimately show ?thesis by (simp add: progressed_def)
qed

text \<open>A relation that every step of a loop keeps.\<close>

lemma rfold_rel:
  assumes "\<And>x s s'. P s \<Longrightarrow> f x s = Inr s' \<Longrightarrow> P s' \<and> R s s'" "\<And>s. R s s" "\<And>a b c. R a b \<Longrightarrow> R b c \<Longrightarrow> R a c"
  shows "P s \<Longrightarrow> rfold f xs s = Inr s' \<Longrightarrow> P s' \<and> R s s'"
proof (induction xs arbitrary: s)
  case (Cons x xs)
  then obtain t where t: "f x s = Inr t" "rfold f xs t = Inr s'" by (auto simp: rbind_Inr_iff)
  then show ?case using Cons.IH [OF _ t(2)] assms(1) [OF Cons.prems(1) t(1)] assms(3) by blast
qed (use assms(2) in auto)

lemma visits_step:
  assumes "sim_ok G stage" "sim_inv st0 m0 x" "rfold (visit G) ts x = Inr y"
  shows "sim_inv st0 m0 y \<and> progressed stage st0 m0 x y"
proof (rule rfold_rel [where f = "visit G" and P = "sim_inv st0 m0" and R = "progressed stage st0 m0", OF _ progressed_refl progressed_trans assms(2,3)])
  fix t x y assume i: "sim_inv st0 m0 x" and v: "visit G t x = Inr y"
  obtain st m where x: "x = (st, m)" by (cases x)
  have r: "rfold (visit_child G) (get_children G (calls st) t) x = Inr y" using v by (simp add: visit_def x)
  show "sim_inv st0 m0 y \<and> progressed stage st0 m0 x y"
  proof (rule rfold_rel [where f = "visit_child G" and P = "sim_inv st0 m0" and R = "progressed stage st0 m0", OF _ progressed_refl progressed_trans i r])
    fix c and x y :: "load_state \<times> machine"
    assume "sim_inv st0 m0 x" "visit_child G c x = Inr y"
    then show "sim_inv st0 m0 y \<and> progressed stage st0 m0 x y"
      using visit_child_step [OF assms(1)] by (cases x; cases y) simp
  qed
qed

subsection \<open>The loop\<close>

lemma sim_inv_call: "sim_inv st0 m0 (st, m) \<Longrightarrow> sim_inv st0 m0 (sd_call Simulate st, m)"
  by (simp add: sim_inv_def sd_call_def Let_def)

lemma simulate_ends:
  assumes G: "sim_ok G stage"
  shows "sim_inv st0 m0 x \<Longrightarrow> budget st0 m0 (fst x) \<le> B \<Longrightarrow>
    \<exists>r. simulate G x = Some r \<and> (\<forall>y. r = Inr y \<longrightarrow> sim_inv st0 m0 y)"
proof (induction "ahead stage B st0 m0 (fst x)" arbitrary: x rule: less_induct)
  case less
  let ?st = "sd_call Simulate (fst x)"
  have s: "sim_inv st0 m0 (?st, snd x)" using sim_inv_call [of st0 m0 "fst x" "snd x"] less.prems by simp
  have c: "calls ?st = calls (fst x) @ [Simulate]" by (simp add: sd_call_def)
  show ?case
  proof (cases "executed G (calls ?st) = []")
    case True
    then show ?thesis using s by (simp add: simulate.simps [of G x] Let_def)
  next
    case False
    then obtain t where t: "t \<in> set (executed G (calls (fst x) @ [Simulate]))" unfolding c by (metis last_in_set)
    have "tasks_created (calls (fst x)) = created (fst x)"
      using less.prems(1) by (auto simp: sim_inv_def Let_def split: prod.splits)
    then have "tasks_created (calls (fst x)) \<le> B" using less.prems(2) by (simp add: budget_def)
    then have lt: "ahead stage B st0 m0 ?st < ahead stage B st0 m0 (fst x)"
      using deficit_simulate [OF G t] by (simp add: ahead_def c)
    have b: "budget st0 m0 ?st = budget st0 m0 (fst x)" by (simp add: budget_def sd_call_def)
    show ?thesis
    proof (cases "rfold (visit G) (executed G (calls ?st)) (?st, snd x)")
      case (Inl e)
      then show ?thesis using False by (simp add: simulate.simps [of G x] Let_def)
    next
      case (Inr y)
      from visits_step [OF G s Inr] have y: "sim_inv st0 m0 y" "budget st0 m0 (fst y) \<le> B"
        "ahead stage B st0 m0 (fst y) < ahead stage B st0 m0 (fst x)"
        using b lt less.prems(2) by (auto simp: progressed_def intro: le_less_trans)
      have "simulate G x = simulate G y" using False Inr by (simp add: simulate.simps [of G x] Let_def)
      then show ?thesis using less.hyps [OF y(3,1,2)] by simp
    qed
  qed
qed

subsection \<open>From the log to the end\<close>

definition loaded :: "load_state \<Rightarrow> bool" where
  "loaded st \<longleftrightarrow> (\<forall>t ws. Schedulev t ws \<notin> set (calls st)) \<and> tasks_created (calls st) = created st \<and>
     (\<forall>t<created st. tdata st t \<noteq> None) \<and> (\<forall>t\<ge>created st. tdata st t = None) \<and> start st < created st"

lemma loaded_init: "loaded init_state"
  by (simp add: loaded_def init_fields) (simp add: init_state_def create_comp_def sd_call_def)

lemma tasks_created_deps [simp]: "tasks_created (map (\<lambda>t. Dependency t n) ts) = 0"
  by (induction ts) auto

lemma loaded_access:
  assumes "loaded st" "add_access w tid s e st = Some (Inr st')" shows "loaded st'"
proof -
  have "start st' = start st" using add_access_eq [OF assms(2)] by auto
  then show ?thesis using assms(1) by (simp add: loaded_def add_access_frame [OF assms(2)])
qed

lemma loaded_command:
  assumes G: "simgrid_ok G" and i: "graph_inv st" "loaded st" and r: "run_command G c st = Some (Inr st')"
  shows "loaded st'"
proof (cases c)
  case (Thunk tid x)
  then show ?thesis using i(2) r unfolding loaded_def by (auto simp: add_thunk_eq Let_def less_Suc_eq)
next
  case (End tid n)
  then obtain t where "st' = after_end tid t n st" using add_end_eq [OF G graph_invD(1) [OF i(1)]] r by fastforce
  then show ?thesis using i(2) by (simp add: loaded_def after_end_def)
next
  case (Finish tid)
  then show ?thesis using i(2) r by (simp add: add_finish_def)
qed (use loaded_access [OF i(2)] r in \<open>auto simp: numa_add_write_def numa_add_read_def\<close>)

lemma loaded_run:
  "simgrid_ok G \<Longrightarrow> graph_inv st \<Longrightarrow> loaded st \<Longrightarrow> run_commands G cs st = Some (Inr st') \<Longrightarrow> loaded st'"
  by (induction cs arbitrary: st) (auto split: option.splits sum.splits dest: graph_inv_command loaded_command)

lemma loaded_file:
  assumes "simgrid_ok G" "load_task_graph G file init_state = Some (Inr st)" shows "loaded st"
proof -
  obtain cs where "run_commands G cs init_state = Some (Inr st)"
    using assms(2) load_lines_commands [of G _ init_state st]
    by (cases "file") (auto simp: load_task_graph_def simp del: load_lines.simps)
  then show ?thesis using loaded_run [OF assms(1) graph_inv_init loaded_init] by blast
qed

lemma run_simulation_cases:
  assumes l: "loaded st" and m: "placed m Map.empty"
  obtains (fault) f where "run_simulation G (st, m) = Some (Inl f)"
  | (loop) x where "run_simulation G (st, m) = simulate G x" "sim_inv st m x"
      "hd (scheduled (created st) (calls (fst x))) = start st"
proof -
  let ?P = "\<lambda>x. sim_inv st m x \<and> hd (scheduled (created st) (calls (fst x))) = start st"
  let ?x = "\<lambda>p. (sd_call (Schedulev (start st) [p]) st, m)"
  have none: "scheduled (created st) (calls st) = []" using l scheduled_iff [of _ "created st" "calls st"] unfolding loaded_def by (metis ex_in_conv set_empty)
  have start: "?P (?x p)" for p
    using l m none by (auto simp: sim_inv_def Let_def sd_call_def loaded_def homes_def)
  have watch: "?P y \<and> True" if "?P x" "watch t x = Inr y" for t x y
    using that by (cases x) (auto simp: watch_def sim_inv_def sd_call_def Let_def split: option.splits if_splits)
  show thesis
  proof (cases "rbind (checked m st (start st)) (\<lambda>p. rfold watch (order st) (?x p))")
    case (Inl f)
    then show ?thesis using fault by (simp add: run_simulation_def)
  next
    case (Inr x)
    then obtain p where p: "rfold watch (order st) (?x p) = Inr x" by (auto simp: rbind_Inr_iff)
    have "?P x \<and> True" using rfold_rel [where P = ?P and R = "\<lambda>_ _. True", OF watch _ _ start p] by simp
    then show ?thesis using loop Inr by (simp add: run_simulation_def)
  qed
qed

lemma platform_empty: "init_platform ds links = Inr m \<Longrightarrow> placed m Map.empty"
  by (auto simp: init_platform_def Let_def placed_def split: if_splits)

text \<open>
  C15: The simulation of a graph read from a file always returns, with a result or with a fault: no task is
  scheduled twice, so the simulator can create only so many tasks, and each call of \<open>SD_simulate\<close> that does
  not end the loop takes one of them to a later state. A task can be returned by several calls, when it starts
  and when it is done: \<open>stage\<close> is any assignment of states with the documented transitions.
\<close>

theorem simulation_returns:
  assumes "simgrid_ok G" "sim_ok G stage" "load_task_graph G file init_state = Some (Inr st)" "init_platform ds links = Inr m"
  shows "\<exists>r. run_simulation G (st, m) = Some r"
  by (rule run_simulation_cases [OF loaded_file [OF assms(1,3)] platform_empty [OF assms(4)], of G])
    (use simulate_ends [OF assms(2) _ order_refl] in \<open>blast, metis\<close>)

text \<open>
  C12: The simulator implements first-touch placement: the tasks of the graph are scheduled at most once each,
  and at the end a page is in the domain of the first task, in the order of scheduling, that reads or writes
  it, in no other domain, and in none if no scheduled task uses it.
\<close>

theorem first_touch_placement:
  assumes "simgrid_ok G" "sim_ok G stage" "load_task_graph G file init_state = Some (Inr st)" "init_platform ds links = Inr m"
    and "run_simulation G (st, m) = Some (Inr (st', m'))"
  shows "distinct (scheduled (created st) (calls st')) \<and>
    placed m' (fold touch (map (demand m st) (tl (scheduled (created st) (calls st')))) Map.empty)"
proof (rule run_simulation_cases [OF loaded_file [OF assms(1,3)] platform_empty [OF assms(4)], of G], goal_cases)
  case (1 f)
  then show ?case using assms(5) by simp
next
  case (2 x)
  then have "sim_inv st m (st', m')" using simulate_ends [OF assms(2) 2(2) order_refl] 2(1) assms(5) by auto
  then show ?case by (simp add: sim_inv_def Let_def homes_def)
qed

subsection \<open>Pages that are fetched twice\<close>

fun transfers :: "sd_call list \<Rightarrow> u64 list" where
  "transfers [] = []"
| "transfers (Create_comm t a # h) = a # transfers h"
| "transfers (c # h) = transfers h"

lemma transfers_append [simp]: "transfers (h @ h') = transfers h @ transfers h'"
  by (induction h rule: transfers.induct) auto

lemma ask_transfers:
  "fold (ask m task l S) is (st, A) = (st', A') \<Longrightarrow>
    transfers (calls st') = transfers (calls st) @
      map (\<lambda>i. of_nat (card (numa m (domain m ! i) \<inter> S)) * PAGE_COEFF)
        (filter (\<lambda>i. domain m ! i \<noteq> l \<and> numa m (domain m ! i) \<inter> S \<noteq> {}) is)"
proof (induction "is" arbitrary: st A)
  case (Cons i "is")
  have f: "transfers (calls (fetch task i n st)) = transfers (calls st) @ [of_nat n * PAGE_COEFF]" for n
    by (simp add: fetch_def create_comp_def create_comm_def push_all_def sd_call_def Let_def)
  obtain st1 A1 where 1: "ask m task l S i (st, A) = (st1, A1)" by (cases "ask m task l S i (st, A)")
  then have "transfers (calls st') = transfers (calls st1) @
      map (\<lambda>i. of_nat (card (numa m (domain m ! i) \<inter> S)) * PAGE_COEFF)
        (filter (\<lambda>i. domain m ! i \<noteq> l \<and> numa m (domain m ! i) \<inter> S \<noteq> {}) is)" using Cons by simp
  moreover have "transfers (calls st1) = transfers (calls st) @
      (if domain m ! i \<noteq> l \<and> numa m (domain m ! i) \<inter> S \<noteq> {} then [of_nat (card (numa m (domain m ! i) \<inter> S)) * PAGE_COEFF] else [])"
    using 1 f by (auto simp: ask_def Let_def split: if_splits)
  ultimately show ?case by simp
qed simp

text \<open>
  The pages a task needs from another domain are transferred once for every processor of that domain, not
  once: the amounts of the transfers are those of the processors of other domains, each with all the pages of
  its domain.
\<close>

lemma fetched_per_processor:
  assumes "schedule_pages t (st, m) = Inr (st', m')" "demand m st t = (l, S)"
  shows "transfers (calls st') = transfers (calls st) @
    map (\<lambda>i. of_nat (card (numa m (domain m ! i) \<inter> S)) * PAGE_COEFF)
      (filter (\<lambda>i. domain m ! i \<noteq> l \<and> numa m (domain m ! i) \<inter> S \<noteq> {}) [0..<length (domain m)])"
proof -
  obtain d p where p: "processor m st t = Inr (d, p)" using assms(1) by (auto simp: schedule_pages_def rbind_Inr_iff)
  then have d: "l = domain m ! p" "S = access_set d"
    using assms(2) by (auto simp: processor_def demand_def split: option.splits if_splits)
  show ?thesis
  proof (cases "S = {}")
    case True
    then show ?thesis using assms(1) p d by (auto simp: schedule_pages_def)
  next
    case False
    obtain A where "fold (ask m t l S) [0..<length (domain m)] (st, {}) = (st', A)"
      using assms(1) p False d by (auto simp: schedule_pages_def Let_def split: prod.splits)
    then show ?thesis by (rule ask_transfers)
  qed
qed

text \<open>A processor that is negative as an \<open>int\<close> passes the assertion.\<close>

lemma negative_processor:
  "tdata st t = Some d \<Longrightarrow> cpu d < 0 \<Longrightarrow>
    watch t (st, m) = Inr (sd_call (Watch t) st, m) \<and> checked m st t = Inl Undefined"
  by (simp add: watch_def checked_def)

subsection \<open>A simulation\<close>

text \<open>
  A library in which a task runs from one call of \<open>SD_simulate\<close> to the next: a call returns the tasks that
  start and those that are done, so it returns every task twice.
\<close>

fun rounds :: "nat \<Rightarrow> sd_call list \<Rightarrow> nat" where
  "rounds t [] = 0"
| "rounds t (Schedulev s ws # h) = (if s = t then length (filter ((=) Simulate) h) else rounds t h)"
| "rounds t (c # h) = rounds t h"

definition twice_grid :: simgrid where
  "twice_grid = demo_grid\<lparr>executed :=
     (\<lambda>h. filter (\<lambda>t. t \<in> set (sched_list h) \<and> rounds t h \<in> {1, 2}) [0..<tasks_created h])\<rparr>"

definition twice_stage :: "sd_call list \<Rightarrow> nat \<Rightarrow> nat" where
  "twice_stage h t = (if t \<in> set (sched_list h) then min 5 (2 + 2 * rounds t h)
     else if \<forall>e\<in>set (dep_list h). snd e = t \<longrightarrow> fst e \<in> set (sched_list h) then 1 else 0)"

lemma sched_list_append [simp]: "sched_list (h @ h') = sched_list h @ sched_list h'"
  by (induction h rule: sched_list.induct) auto

lemma rounds_append:
  "rounds t (h @ h') = (if t \<in> set (sched_list h) then rounds t h + length (filter ((=) Simulate) h') else rounds t h')"
  by (induction h rule: sched_list.induct) auto

lemma twice_grid_ok: "simgrid_ok twice_grid"
  using demo_grid_ok by (simp add: twice_grid_def simgrid_ok_def)

lemma twice_grid_sim: "sim_ok twice_grid twice_stage"
proof -
  have "\<exists>s. c = Dependency s t" if "twice_stage (h @ [c]) t < twice_stage h t" for h c t
    using that by (cases c) (auto simp: twice_stage_def rounds_append split: if_splits)
  moreover have "twice_stage h t < twice_stage (h @ [Simulate]) t"
    if "t \<in> set (executed twice_grid (h @ [Simulate]))" for h t
    using that by (auto simp: twice_grid_def twice_stage_def rounds_append split: if_splits)
  ultimately show ?thesis
    unfolding sim_ok_def by (auto simp: twice_stage_def twice_grid_def demo_grid_def)
qed

definition demo_line3 :: string where "demo_line3 = ''end 0 1 7'' @ [CHR 0x0A]"
definition demo_line2 :: string where "demo_line2 = ''read 0 1 5 5'' @ [CHR 0x0A] @ demo_line3"
definition demo_log :: string where "demo_log = ''thunk 0 1 0'' @ [CHR 0x0A] @ demo_line2"

lemma demo_lines:
  "read_command (demo_log, False) = Inr (Thunk 1 0, demo_line2, False)"
  "read_command (demo_line2, False) = Inr (Read 1 5 5, demo_line3, False)"
  "read_command (demo_line3, False) = Inr (End 1 7, [], True)"
  by code_simp+

definition demo_data :: task_data where
  "demo_data = \<lparr>cpu = 0, read_set = {5}, write_set = {}, access_set = {5}, td_tid = 1\<rparr>"

definition demo_st :: load_state where
  "demo_st = \<lparr>cur = [0 \<mapsto> 1], tmap = [1 \<mapsto> 1], finished = [0 \<mapsto> 1], start = 0, order = [0, 1], all_tasks = [1],
     tdata = [0 \<mapsto> task_data_new, 1 \<mapsto> demo_data], created = 2,
     calls = [Create_comp 0 0, Create_comp 1 0, Dependency 0 1, Amount 1 7]\<rparr>"

lemma demo_load: "load_task_graph twice_grid (Some demo_log) init_state = Some (Inr demo_st)"
proof -
  have 1: "add_thunk twice_grid 1 0 init_state = demo_st\<lparr>finished := [0 \<mapsto> 0],
      tdata := [0 \<mapsto> task_data_new, 1 \<mapsto> demo_data\<lparr>read_set := {}, access_set := {}\<rparr>],
      calls := [Create_comp 0 0, Create_comp 1 0, Dependency 0 1]\<rparr>" (is "_ = ?s")
    by (simp add: add_thunk_eq init_state_def create_comp_def sd_call_def twice_grid_def demo_grid_def Let_def before_start_def get_thread_def
        THREAD_OFFSET_eq demo_st_def task_data_new_def demo_data_def)
  have 2: "numa_add_read 1 5 5 ?s = Some (Inr (?s\<lparr>tdata := tdata demo_st\<rparr>))"
    by (simp add: numa_add_read_def add_access_def task_by_tid_def demo_st_def insert_range.simps insert_page_def demo_data_def fun_upd_twist)
  have 3: "add_end twice_grid 1 7 (?s\<lparr>tdata := tdata demo_st\<rparr>) = Inr demo_st"
    by (simp add: add_end_def task_by_tid_def demo_st_def twice_grid_def demo_grid_def sd_call_def drop_parent_def task_data_new_def
        get_thread_def THREAD_OFFSET_eq)
  have l1: "load_lines twice_grid (demo_log, False) init_state = load_lines twice_grid (demo_line2, False) ?s"
    using 1 demo_lines(1) by (subst load_lines.simps) (simp del: load_lines.simps)
  also have "\<dots> = load_lines twice_grid (demo_line3, False) (?s\<lparr>tdata := tdata demo_st\<rparr>)"
    using 2 demo_lines(2) by (subst load_lines.simps) (simp del: load_lines.simps)
  also have "\<dots> = Some (Inr demo_st)"
    using 3 demo_lines(3) by (subst load_lines.simps) simp
  finally show ?thesis by (simp add: load_task_graph_def del: load_lines.simps)
qed

definition demo_machine :: machine where "demo_machine = \<lparr>domain = [0], numa = (\<lambda>_. {})\<rparr>"

lemma demo_platform: "init_platform [0] [] = Inr demo_machine"
  by (simp add: init_platform_def demo_machine_def)

lemma demo_run:
  "\<exists>st'. run_simulation twice_grid (demo_st, demo_machine) =
    Some (Inr (st', demo_machine\<lparr>numa := (\<lambda>_. {})(0 := {5})\<rparr>)) \<and> scheduled 2 (calls st') = [0, 1]"
  by (simp add: run_simulation_def checked_def demo_st_def task_data_new_def demo_data_def demo_machine_def watch_def sd_call_def)
    (simp add: simulate.simps twice_grid_def demo_grid_def sd_call_def visit_def visit_child_def checked_def
      schedule_pages_def processor_def ask_def Let_def)

text \<open>The theorems at these inputs.\<close>

theorem simulation_returns_witness: "\<exists>r. run_simulation twice_grid (demo_st, demo_machine) = Some r"
  by (rule simulation_returns [OF twice_grid_ok twice_grid_sim demo_load demo_platform])

theorem first_touch_placement_witness:
  "\<exists>st' m'. run_simulation twice_grid (demo_st, demo_machine) = Some (Inr (st', m')) \<and>
     scheduled 2 (calls st') = [0, 1] \<and> placed m' [5 \<mapsto> 0]"
proof -
  obtain st' m' where r: "run_simulation twice_grid (demo_st, demo_machine) = Some (Inr (st', m'))"
    "scheduled 2 (calls st') = [0, 1]" using demo_run by blast
  have c: "created demo_st = 2" by (simp add: demo_st_def)
  have "touch (demand demo_machine demo_st 1) Map.empty = [5 \<mapsto> 0]"
    by (auto simp: demand_def demo_st_def demo_data_def demo_machine_def)
  then have "placed m' [5 \<mapsto> 0]"
    using first_touch_placement [OF twice_grid_ok twice_grid_sim demo_load demo_platform r(1)] r(2) c by simp
  then show ?thesis using r by blast
qed

text \<open>Two processors of the domain 1, which has the page 5; a task of the domain 0 needs it.\<close>

definition twin_machine :: machine where
  "twin_machine = \<lparr>domain = [0, 1, 1], numa = (\<lambda>_. {})(1 := {5})\<rparr>"

lemma fetched_per_processor_witness:
  "\<exists>st' m'. schedule_pages 1 (demo_st, twin_machine) = Inr (st', m') \<and> transfers (calls st') = [32, 32]"
proof -
  obtain st' m' where r: "schedule_pages 1 (demo_st, twin_machine) = Inr (st', m')"
    by (simp add: schedule_pages_def processor_def demo_st_def demo_data_def twin_machine_def Let_def ask_def split: prod.splits)
  have d: "demand twin_machine demo_st 1 = (0, {5})" by (simp add: demand_def demo_st_def demo_data_def twin_machine_def)
  have "transfers (calls st') = [32, 32]"
    using fetched_per_processor [OF r d] by (simp add: demo_st_def twin_machine_def PAGE_COEFF_def numeral_eq_Suc upt_rec)
  then show ?thesis using r by blast
qed

end
