(* ===== verification/System.thy ===== *)
theory System
  imports Xrun_Props Fence Xmemory Xlogger Bytes
begin

text \<open>
  The parts composed: the processes, each with its engine (\<^verbatim>\<open>xrun.h\<close>), run the calls the engine makes on the
  scheduler they share (\<^verbatim>\<open>determ.h\<close>), on their memory (\<^verbatim>\<open>xmemory.h\<close>) and on the log (\<^verbatim>\<open>xlogger.h\<close>).

  A step is one call that returns at once, or one critical section, spin or wakeup of a call that blocks,
  by any process, or an access of the program. A call with an answer is made only when the scheduler gives
  the answer the engine went on with. A call that faults ends the process that makes it: it has no step.
\<close>

subsection \<open>The memory the scheduler reads and writes\<close>

text \<open>
  One byte of a process, by the instruction at \<open>pc\<close>; the contents of other mappings are not modelled.
\<close>

definition region_load :: "int \<Rightarrow> u64 \<Rightarrow> u64 \<Rightarrow> xpersist \<Rightarrow> (u8 \<times> xpersist) res" where
  "region_load pid pc a r =
     rbind (load 2 pid pc (unat (a - startaddr r)) r)
       (\<lambda>(v, r1). case v of None \<Rightarrow> Inl Segv | Some b \<Rightarrow> Inr (b, r1))"

definition region_store :: "int \<Rightarrow> u64 \<Rightarrow> u64 \<Rightarrow> u8 \<Rightarrow> xpersist \<Rightarrow> xpersist res" where
  "region_store pid pc a v r =
     rbind (store 2 pid pc (unat (a - startaddr r)) v r) (\<lambda>(ok, r1). if ok then Inr r1 else Inl Segv)"

definition load_byte :: "int \<Rightarrow> u64 \<Rightarrow> u64 \<Rightarrow> xmemory \<Rightarrow> (u8 \<times> xmemory) res" where
  "load_byte pid pc a s =
     (if inRange (heap_region s) a then
        rbind (region_load pid pc a (heap_region s)) (\<lambda>(b, r). rbind (on_heap pid (\<lambda>_. Inr r) s) (\<lambda>s1. Inr (b, s1)))
      else if inRange (globals s) a then
        rbind (region_load pid pc a (globals s)) (\<lambda>(b, r). rbind (on_globals pid (\<lambda>_. Inr r) s) (\<lambda>s1. Inr (b, s1)))
      else Inl Undefined)"

definition store_byte :: "int \<Rightarrow> u64 \<Rightarrow> u64 \<Rightarrow> u8 \<Rightarrow> xmemory \<Rightarrow> xmemory res" where
  "store_byte pid pc a v s =
     (if inRange (heap_region s) a then on_heap pid (region_store pid pc a v) s
      else if inRange (globals s) a then on_globals pid (region_store pid pc a v) s
      else Inl Undefined)"

text \<open>A pointer, as eight bytes; \<open>pc\<close> is the address of \<open>getSyncEntry\<close> or \<open>setSyncEntry\<close>.\<close>

definition load_word :: "int \<Rightarrow> u64 \<Rightarrow> u64 \<Rightarrow> xmemory \<Rightarrow> (u64 \<times> xmemory) res" where
  "load_word pid pc a s =
     rbind (rfold (\<lambda>k (f, s). rbind (load_byte pid pc (a + of_nat k) s) (\<lambda>(b, s1). Inr (f(k := b), s1))) [0 ..< 8] (\<lambda>_. 0, s))
       (\<lambda>(f, s1). Inr (le64 f, s1))"

definition store_word :: "int \<Rightarrow> u64 \<Rightarrow> u64 \<Rightarrow> u64 \<Rightarrow> xmemory \<Rightarrow> xmemory res" where
  "store_word pid pc a v s = rfold (\<lambda>k. store_byte pid pc (a + of_nat k) (le_byte v k)) [0 ..< 8] s"

definition memory_ops :: "u64 \<Rightarrow> xmemory memops" where
  "memory_ops pc =
     \<lparr>m_read = (\<lambda>s pid a. load_word pid pc a s), m_write = (\<lambda>s pid a v. store_word pid pc a v s),
      m_mem_write = (\<lambda>s a v. memory_mem_write 0 a v s), m_begin = (\<lambda>s pid. memory_begin pid s)\<rparr>"

text \<open>What \<open>clone\<close> copies: the tables of the process, and with them the private pages.\<close>

definition memory_fork :: "int \<Rightarrow> int \<Rightarrow> xmemory \<Rightarrow> xmemory" where
  "memory_fork parent child s =
     s\<lparr>globals := xpersist_fork parent child (globals s),
       pheap := set_region (xpersist_fork parent child (heap_region s)) (pheap s),
       heapid := (heapid s)(child := heapid s parent), mmaps := (mmaps s)(child := mmaps s parent)\<rparr>"

definition memory_gone :: "int \<Rightarrow> xmemory \<Rightarrow> xmemory" where
  "memory_gone pid s =
     s\<lparr>globals := (globals s)\<lparr>alive := (alive (globals s))(pid := False)\<rparr>,
       pheap := set_region ((heap_region s)\<lparr>alive := (alive (heap_region s))(pid := False)\<rparr>) (pheap s)\<rparr>"

subsection \<open>Processes\<close>

text \<open>Where a process is in a call that blocks.\<close>

datatype wait =
    W_fence bool fence_pc      \<comment> \<open>in \<open>waitFence\<close>\<close>
  | W_own                      \<comment> \<open>in \<open>getToken\<close>, spinning\<close>
  | W_index                    \<comment> \<open>spinning for its own entry to have the token, at the end of \<open>join\<close>\<close>
  | W_join nat                 \<comment> \<open>asleep in \<open>join\<close>\<close>
  | W_cond u64                 \<comment> \<open>asleep in \<open>cond_wait\<close>, with the mutex\<close>
  | W_mutex u64                \<comment> \<open>spinning as in \<open>W_index\<close>, before it takes the mutex again\<close>
  | W_barrier u64 bool bool    \<comment> \<open>in \<open>pthread_barrier_wait\<close>: the entry, the last to arrive, let go\<close>
  | W_signal int               \<comment> \<open>in \<open>sigwait\<close>\<close>
  | W_child                    \<comment> \<open>asleep until a child has registered\<close>
  | W_parent                   \<comment> \<open>asleep until the parent starts the fence\<close>

datatype place =
    At "call list"             \<comment> \<open>the calls of the operation still to be made; none: in the program\<close>
  | Blocked wait "call list"
  | Forked u64 nat             \<comment> \<open>a new process, with the index of its parent\<close>
  | Gone

text \<open>\<open>leaving\<close>: the process starts no further operation when this one is over.\<close>

record process =
  at :: place
  eng :: xrun
  leaving :: bool

record world =
  wdet :: "xmemory det"
  wlog :: logfile
  wproc :: "int \<rightharpoonup> process"
  next_index :: nat

abbreviation set_at :: "int \<Rightarrow> process \<Rightarrow> place \<Rightarrow> world \<Rightarrow> world" where
  "set_at p P l w \<equiv> w\<lparr>wproc := (wproc w)(p \<mapsto> P\<lparr>at := l\<rparr>)\<rparr>"

subsection \<open>Calls that return at once\<close>

definition ok :: "'a res \<Rightarrow> 'a option" where
  "ok r = (case r of Inl e \<Rightarrow> None | Inr x \<Rightarrow> Some x)"

definition gives :: "bool \<Rightarrow> (bool \<times> 'a) res \<Rightarrow> 'a option" where
  "gives b r = (case r of Inl e \<Rightarrow> None | Inr (a, x) \<Rightarrow> if a = b then Some x else None)"

text \<open>\<open>None\<close>: the call blocks, faults, gives another answer, or is not one of the scheduler.\<close>

fun det_call :: "'m memops \<Rightarrow> u64 \<Rightarrow> int \<Rightarrow> call \<Rightarrow> 'm det \<Rightarrow> 'm det option" where
  "det_call M cores p Det_initialize s = ok (determ_initialize cores s)"
| "det_call M cores p (Det_registerMaster i pid) s = ok (registerMaster i pid s)"
| "det_call M cores p (Det_registerThread i pid parent) s = ok (registerThread i pid parent s)"
| "det_call M cores p Det_notifyWaitingChildren s = Some s"
| "det_call M cores p (Det_startFence n) s = Some (startFence n s)"
| "det_call M cores p (Det_isSingleAliveThread b) s = (if isSingleAliveThread s = b then Some s else None)"
| "det_call M cores p (Det_isSingleWorkingThread b) s = (if isSingleWorkingThread s = b then Some s else None)"
| "det_call M cores p (Det_cancel v) s = map_option snd (ok (determ_cancel v s))"
| "det_call M cores p (Det_deregisterThread i) s = ok (deregisterThread i s)"
| "det_call M cores p (Det_lock_isowner m b) s = gives b (lock_isowner M p m s)"
| "det_call M cores p (Det_lock_acquire m b) s = gives b (lock_acquire M p m s)"
| "det_call M cores p (Det_lock_release m) s = ok (lock_release M p m s)"
| "det_call M cores p (Det_cond_signal c) s = ok (cond_signal M p c s)"
| "det_call M cores p (Det_cond_broadcast c) s = ok (cond_broadcast M p c s)"
| "det_call M cores p c s = None"

text \<open>\<open>putToken\<close> has the index of the process, the other calls have it among their arguments.\<close>

definition det_step :: "'m memops \<Rightarrow> u64 \<Rightarrow> int \<Rightarrow> nat \<Rightarrow> call \<Rightarrow> 'm det \<Rightarrow> 'm det option" where
  "det_step M cores p i c s = (if c = Det_putToken then ok (putToken i s) else det_call M cores p c s)"

text \<open>\<open>base\<close>: where the pool of page entries is mapped.\<close>

fun mem_call :: "u64 \<Rightarrow> int \<Rightarrow> call \<Rightarrow> xmemory \<Rightarrow> xmemory option" where
  "mem_call base p Mem_initialize m = ok (memory_initialize p base m)"
| "mem_call base p (Mem_setThreadIndex i) m = Some (memory_setThreadIndex p i m)"
| "mem_call base p Mem_cleanupOwnedBlocks m = ok (memory_cleanupOwnedBlocks p m)"
| "mem_call base p (Mem_setCopyOnWrite b) m = ok (memory_setCopyOnWrite p b m)"
| "mem_call base p Mem_begin m = ok (memory_begin p m)"
| "mem_call base p Mem_commit m = ok (memory_commit p m)"
| "mem_call base p (Mem_finalcommit release) m = ok (memory_finalcommit p release m)"
| "mem_call base p Mem_finalize m = ok (memory_finalize p m)"
| "mem_call base p c m = None"

text \<open>\<open>cpu\<close> is the processor time in the event.\<close>

fun log_call :: "u64 \<Rightarrow> int \<Rightarrow> call \<Rightarrow> logfile \<Rightarrow> logfile option" where
  "log_call cpu p Log_end l = ok (xlogger_add p (logevent_new END 0 cpu) l)"
| "log_call cpu p (Log_thunk caller n) l = ok (xlogger_add p (logevent_new THUNK caller (data_thunk (of_int n) (ucast cpu))) l)"
| "log_call cpu p Log_finish l = ok (xlogger_add p (logevent_new FINISH 0 0) l)"
| "log_call cpu p c l = None"

text \<open>Calls without an effect on the others: the thunk schedule pins and prioritises only the caller.\<close>

fun own_call :: "call \<Rightarrow> bool" where
  "own_call (Sched_update i) = True"
| "own_call (Sched_trigger n) = True"
| "own_call (Thr_clone forked) = (\<not> forked)"
| "own_call Thr_join = True"
| "own_call c = False"

record env =
  env_pc :: u64
  env_cores :: u64
  env_base :: u64

abbreviation env_ops :: "env \<Rightarrow> xmemory memops" where "env_ops E \<equiv> memory_ops (env_pc E)"

definition do_call :: "env \<Rightarrow> u64 \<Rightarrow> int \<Rightarrow> nat \<Rightarrow> call \<Rightarrow> world \<Rightarrow> world option" where
  "do_call E cpu p i c w =
     (if own_call c then Some w
      else case mem_call (env_base E) p c (memory (wdet w)) of
        Some m \<Rightarrow> Some (w\<lparr>wdet := (wdet w)\<lparr>memory := m\<rparr>\<rparr>)
      | None \<Rightarrow>
          case log_call cpu p c (wlog w) of
            Some l \<Rightarrow> Some (w\<lparr>wlog := l\<rparr>)
          | None \<Rightarrow> map_option (\<lambda>d. w\<lparr>wdet := d\<rparr>) (det_step (env_ops E) (env_cores E) p i c (wdet w)))"

subsection \<open>Calls that block\<close>

text \<open>The first critical section; \<open>None\<close> in the result if the call is over already.\<close>

fun enter :: "'m memops \<Rightarrow> int \<Rightarrow> nat \<Rightarrow> call \<Rightarrow> 'm det \<Rightarrow> (wait option \<times> 'm det) option" where
  "enter M p i (Det_waitFence keep) s = Some (Some (W_fence keep Entry), s)"
| "enter M p i Det_getToken s = Some (Some W_own, s)"
| "enter M p i (Det_join g wakeup) s =
     map_option (\<lambda>(sleeps, s1). (if sleeps then Some (W_join g) else None, s1)) (ok (join_enter g i s))"
| "enter M p i (Det_cond_wait c m) s =
     map_option (\<lambda>(sleeps, s1). (Some (if sleeps then W_cond m else W_mutex m), s1)) (ok (cond_wait_enter M p i c m s))"
| "enter M p i (Det_barrier_wait bar) s =
     Option.bind (ok (getSyncEntry M p bar s)) (\<lambda>(b, _).
     map_option (\<lambda>(lastThread, s1). (Some (W_barrier b lastThread lastThread), s1)) (ok (barrier_wait_enter M p bar i s)))"
| "enter M p i (Det_sig_wait r) s = map_option (\<lambda>s1. (Some (W_signal r), s1)) (ok (sig_wait_enter i s))"
| "enter M p i Det_waitParentNotify s = Some (Some W_parent, waitParentNotify_enter s)"
| "enter M p i Det_waitChildRegistered s =
     (case waitChildRegistered_enter s of (sleeps, s1) \<Rightarrow> Some (if sleeps then Some W_child else None, s1))"
| "enter M p i c s = None"

definition own_token :: "nat \<Rightarrow> 'm det \<Rightarrow> bool" where
  "own_token i s = (case tokenpos s of None \<Rightarrow> False | Some t \<Rightarrow> threadindex (entries s t) = i)"

text \<open>The next section, spin or wakeup.\<close>

fun resume :: "'m memops \<Rightarrow> int \<Rightarrow> nat \<Rightarrow> wait \<Rightarrow> 'm det \<Rightarrow> (wait option \<times> 'm det) option" where
  "resume M p i (W_fence keep pc) s =
     (case fence_next keep i s pc of (s1, pc1) \<Rightarrow> Some (if pc1 = Outside then None else Some (W_fence keep pc1), s1))"
| "resume M p i W_own s = (if getToken_ready p s = Inr True then Some (None, s) else None)"
| "resume M p i W_index s = (if own_token i s then Some (None, s) else None)"
| "resume M p i (W_join g) s =
     map_option (\<lambda>(sleeps, s1). (Some (if sleeps then W_join g else W_index), s1)) (ok (join_wake g i s))"
| "resume M p i (W_cond m) s =
     map_option (\<lambda>(sleeps, s1). (Some (if sleeps then W_cond m else W_mutex m), s1)) (ok (cond_wait_loop M p i m s))"
| "resume M p i (W_mutex m) s =
     (if own_token i s then map_option (\<lambda>s1. (None, s1)) (ok (cond_wait_finish M p m s)) else None)"
| "resume M p i (W_barrier b lastThread free) s =
     (if free then map_option (\<lambda>s1. (None, s1)) (ok (barrier_wait_leave M p lastThread s)) else None)"
| "resume M p i (W_signal r) s = map_option (\<lambda>(r1, s1). (None, s1)) (ok (sig_wait_wake r i s))"
| "resume M p i W_child s = Some (None, waitChildRegistered_wake s)"
| "resume M p i W_parent s = Some (None, s)"

fun settle :: "wait option \<Rightarrow> call list \<Rightarrow> place" where
  "settle None cs = At cs"
| "settle (Some x) cs = Blocked x cs"

text \<open>The last to arrive at a barrier lets the others go.\<close>

fun let_go :: "wait option \<Rightarrow> place \<Rightarrow> place" where
  "let_go (Some (W_barrier b True free)) (Blocked (W_barrier b1 l f) cs) = Blocked (W_barrier b1 l (f \<or> b1 = b)) cs"
| "let_go x l = l"

definition release :: "wait option \<Rightarrow> world \<Rightarrow> world" where
  "release x w = w\<lparr>wproc := (\<lambda>q. map_option (\<lambda>Q. Q\<lparr>at := let_go x (at Q)\<rparr>) (wproc w q))\<rparr>"

subsection \<open>Executions\<close>

text \<open>
  After a \<open>join\<close> that found the thread alone, which ends the parallel part of the program, and after its exit
  a process starts no further operation.
\<close>

fun ends :: "sync_op \<Rightarrow> bool" where
  "ends (Join caller v single) = single"
| "ends x = False"

datatype user_op = U_load u64 u64 | U_store u64 u64 u8 | U_malloc u64 | U_free u64

fun user_call :: "int \<Rightarrow> user_op \<Rightarrow> xmemory \<Rightarrow> xmemory option" where
  "user_call p (U_load pc a) m = map_option snd (ok (load_byte p pc a m))"
| "user_call p (U_store pc a v) m = ok (store_byte p pc a v m)"
| "user_call p (U_malloc sz) m = map_option snd (ok (memory_malloc p sz m))"
| "user_call p (U_free ptr) m = ok (memory_free p ptr m)"

text \<open>
  \<open>R\<close> says when the program may start an operation; the code has no such test, so the code itself is
  \<open>world_step (\<lambda>_ _. True)\<close>. Where a theorem needs a rule, it names it there, e.g. \<open>op_ok\<close>.
\<close>

inductive world_step :: "(sync_op \<Rightarrow> xrun \<Rightarrow> bool) \<Rightarrow> env \<Rightarrow> world \<Rightarrow> world \<Rightarrow> bool"
  for R :: "sync_op \<Rightarrow> xrun \<Rightarrow> bool" and E :: env where
  access: "world_step R E w (w\<lparr>wdet := (wdet w)\<lparr>memory := m\<rparr>\<rparr>)"
    if "wproc w p = Some P" "at P = At []" "user_call p u (memory (wdet w)) = Some m"
| begin_op: "world_step R E w (w\<lparr>wproc := (wproc w)(p \<mapsto> \<lparr>at = At cs, eng = s, leaving = ends x\<rparr>)\<rparr>)"
    if "wproc w p = Some P" "at P = At []" "\<not> leaving P" "R x (eng P)" "run_sync x (eng P) = (cs, s)"
| exit_op: "world_step R E w (w\<lparr>wproc := (wproc w)(p \<mapsto> \<lparr>at = At cs, eng = s, leaving = True\<rparr>)\<rparr>)"
    if "wproc w p = Some P" "at P = At []" "\<not> leaving P" "threadDeregister (eng P) = (cs, s)"
| finish: "world_step R E w (w\<lparr>wproc := (wproc w)(p \<mapsto> \<lparr>at = At cs, eng = s, leaving = True\<rparr>)\<rparr>)"
    if "wproc w p = Some P" "at P = At []" "\<not> leaving P" "run_finalize (eng P) = (cs, s)"
| quit: "world_step R E w (set_at p P Gone (w\<lparr>wdet := (wdet w)\<lparr>memory := memory_gone p (memory (wdet w))\<rparr>\<rparr>))"
    if "wproc w p = Some P" "at P = At []" "leaving P"
| call: "world_step R E w (set_at p P (At cs) w1)"
    if "wproc w p = Some P" "at P = At (c # cs)" "do_call E cpu p (thread_index (eng P)) c w = Some w1"
| block: "world_step R E w (release x (set_at p P (settle x cs) (w\<lparr>wdet := d\<rparr>)))"
    if "wproc w p = Some P" "at P = At (c # cs)" "enter (env_ops E) p (thread_index (eng P)) c (wdet w) = Some (x, d)"
| wake: "world_step R E w (set_at p P (settle y cs) (w\<lparr>wdet := d\<rparr>))"
    if "wproc w p = Some P" "at P = Blocked x cs" "resume (env_ops E) p (thread_index (eng P)) x (wdet w) = Some (y, d)"
| clone: "world_step R E w
      (w\<lparr>wdet := (wdet w)\<lparr>memory := memory_fork p q (memory (wdet w))\<rparr>, wlog := xlogger_fork p q (wlog w),
         wproc := (wproc w)(p \<mapsto> P\<lparr>at := At cs\<rparr>, q \<mapsto> \<lparr>at = Forked caller (thread_index (eng P)), eng = eng P, leaving = False\<rparr>)\<rparr>)"
    if "wproc w p = Some P" "at P = At (Thr_clone True # cs)" "wproc w q = None" "0 < q"
| born: "world_step R E w
      (w\<lparr>wproc := (wproc w)(q \<mapsto> \<lparr>at = At cs, eng = s, leaving = False\<rparr>), next_index := Suc (next_index w),
         wlog := setThread q (of_nat (next_index w)) (wlog w)\<rparr>)"
    if "wproc w q = Some Q" "at Q = Forked caller parent"
      "child_start caller q (next_index w) parent (eng Q) = (cs, s)"
| kill: "world_step R E w
      (w1\<lparr>wdet := (wdet w1)\<lparr>memory := memory_gone q (memory (wdet w1))\<rparr>, wproc := (wproc w1)(q \<mapsto> Q\<lparr>at := Gone\<rparr>)\<rparr>)"
    if "wproc w p = Some P" "at P = At (Thr_kill sig # cs)" "w1 = set_at p P (At cs) w" "wproc w1 q = Some Q"

inductive_cases world_stepE: "world_step R E w w1"

text \<open>The start: zeroed memory for the scheduler, and the calls of the constructor of the master.\<close>

definition zero_entry :: thread_entry where
  "zero_entry = \<lparr>tid = 0, threadindex = 0, status = STATUS_COND_WAITING, tid_parent = 0, te_cond = 0, te_barrier = 0,
     te_wait = 0, joinee_thread_index = 0\<rparr>"

definition world_new :: "int \<Rightarrow> xmemory \<Rightarrow> kheap \<times> isource store \<Rightarrow> xbitmap \<Rightarrow> logfile \<Rightarrow> world" where
  "world_new p m h b l =
     \<lparr>wdet = determ_init (\<lambda>_. zero_entry) (\<lambda>_. \<lparr>prev = None, nxt = None\<rparr>) m h b, wlog = setThread p 0 l,
      wproc = [p \<mapsto> \<lparr>at = At [], eng = snd (xrun_new p), leaving = False\<rparr>], next_index = 1\<rparr>"

fun do_calls :: "env \<Rightarrow> int \<Rightarrow> nat \<Rightarrow> call list \<Rightarrow> world \<Rightarrow> world option" where
  "do_calls E p i [] w = Some w"
| "do_calls E p i (c # cs) w = Option.bind (do_call E 0 p i c w) (do_calls E p i cs)"

definition world_start :: "env \<Rightarrow> int \<Rightarrow> xmemory \<Rightarrow> kheap \<times> isource store \<Rightarrow> xbitmap \<Rightarrow> logfile \<Rightarrow> world option" where
  "world_start E p m h b l = do_calls E p 0 (fst (xrun_new p)) (world_new p m h b l)"

end
