(* ===== verification/System_Props.thy ===== *)
theory System_Props
  imports System Xmemory_Props
begin

text \<open>
  The composed system is what the monitor of \<open>Xrun_Props\<close> assumes it to be: in every reachable state, a
  process whose engine is about to commit has the token of the scheduler.

  The monitor \<open>holds_ok\<close> adds that the calls that pass the token on are made with it, and does not trust
  \<open>isSingleAliveThread\<close>. \<open>det_closed\<close> says that the scheduler's pointers lead to registered threads only.
\<close>

subsection \<open>The calls of an operation\<close>

fun needs_token :: "call \<Rightarrow> bool" where
  "needs_token Mem_commit = True"
| "needs_token (Mem_finalcommit r) = True"
| "needs_token Det_putToken = True"
| "needs_token (Det_join g b) = True"
| "needs_token (Det_cond_wait c m) = True"
| "needs_token (Det_barrier_wait b) = True"
| "needs_token (Det_sig_wait r) = True"
| "needs_token (Det_deregisterThread i) = True"
| "needs_token c = False"

fun hold :: "bool \<Rightarrow> call \<Rightarrow> bool" where
  "hold tok Det_getToken = True"
| "hold tok (Det_cond_wait c m) = True"
| "hold tok Det_putToken = False"
| "hold tok (Det_barrier_wait b) = False"
| "hold tok (Det_sig_wait r) = False"
| "hold tok (Det_deregisterThread i) = False"
| "hold tok c = tok"

fun holds_ok :: "bool \<Rightarrow> call list \<Rightarrow> bool" where
  "holds_ok tok [] \<longleftrightarrow> True"
| "holds_ok tok (c # cs) \<longleftrightarrow> (needs_token c \<longrightarrow> tok) \<and> holds_ok (hold tok c) cs"

lemma holds_ok_append [simp]: "holds_ok tok (cs @ ds) \<longleftrightarrow> holds_ok tok cs \<and> holds_ok (foldl hold tok cs) ds"
  by (induction cs arbitrary: tok) auto

text \<open>Calls with the index of the process among their arguments.\<close>

fun own_index :: "nat \<Rightarrow> call \<Rightarrow> bool" where
  "own_index i (Det_registerThread j pid parent) = False"
| "own_index i (Det_registerMaster j pid) = False"
| "own_index i (Det_deregisterThread j) = (j = i)"
| "own_index i c = True"

definition op_calls :: "bool \<Rightarrow> xrun \<Rightarrow> call list \<times> xrun \<Rightarrow> bool" where
  "op_calls tok s r \<longleftrightarrow> holds_ok tok (fst r) \<and> thread_index (snd r) = thread_index s \<and>
     list_all (own_index (thread_index s)) (fst r)"

definition keeps_token :: "bool \<Rightarrow> xrun \<Rightarrow> call list \<times> xrun \<Rightarrow> bool" where
  "keeps_token tok s r \<longleftrightarrow> op_calls tok s r \<and> token_inv (foldl hold tok (fst r)) (snd r)"

lemmas keeps_defs = keeps_token_def op_calls_def token_inv_def

lemma keeps_trans:
  assumes "keeps_token tok s (c, s1)" "keeps_token (foldl hold tok c) s1 (d, s2)"
  shows "keeps_token tok s (c @ d, s2)"
  using assms by (auto simp: keeps_token_def op_calls_def)

lemma round_start_keeps:
  assumes "lock_round_start caller s = (c, s1)" "token_inv tok s" "fence_enabled s"
  shows "keeps_token tok s (c, s1) \<and> foldl hold tok c \<and> fence_enabled s1"
proof -
  have "keeps_token tok s (lock_round_start caller s) \<and> foldl hold tok (fst (lock_round_start caller s)) \<and>
      fence_enabled (snd (lock_round_start caller s))"
    using assms(2,3) by (simp add: lock_round_start_def Xrun_Props.run_defs keeps_defs)
  then show ?thesis by (simp add: assms(1))
qed

lemma round_fail_keeps:
  assumes "lock_round_fail caller s = (c, s1)" "fence_enabled s"
  shows "keeps_token True s (c, s1) \<and> fence_enabled s1"
proof -
  have "keeps_token True s (lock_round_fail caller s) \<and> fence_enabled (snd (lock_round_fail caller s))"
    using assms(2) by (simp add: lock_round_fail_def Xrun_Props.run_defs keeps_defs)
  then show ?thesis by (simp add: assms(1))
qed

lemma acquire_keeps: "token_inv tok s \<Longrightarrow> keeps_token tok s ([Det_lock_acquire m b], s)"
  by (simp add: keeps_token_def op_calls_def)

lemma getLockAgain_keeps:
  assumes "token_inv tok s" "fence_enabled s" "getLockAgain caller m answers s = (c, s', got)"
  shows "keeps_token tok s (c, s')"
  using assms
proof (induction answers arbitrary: s tok c s' got)
  case Nil
  then show ?case using round_start_keeps [of caller s _ _ tok] by (auto split: prod.splits)
next
  case (Cons a as)
  obtain c1 s1 where e: "lock_round_start caller s = (c1, s1)" by fastforce
  obtain c2 s2 where f: "lock_round_fail caller s1 = (c2, s2)" by fastforce
  obtain c3 s3 g where h: "getLockAgain caller m as s2 = (c3, s3, g)" by (metis prod_cases3)
  note p1 = round_start_keeps [OF e Cons.prems(1,2)]
  then have "token_inv (foldl hold tok c1) s1" unfolding keeps_token_def by (metis snd_conv fst_conv)
  then have q: "keeps_token tok s (c1 @ [Det_lock_acquire m b], s1)" for b
    using p1 acquire_keeps keeps_trans by blast
  show ?case
  proof (cases a)
    case True
    then have "c = c1 @ [Det_lock_acquire m True]" "s' = s1" using Cons.prems(3) by (simp_all add: e)
    then show ?thesis using q by simp
  next
    case False
    have p2: "keeps_token True s1 (c2, s2)" "fence_enabled s2" using round_fail_keeps [OF f] p1 by auto
    then have "token_inv (foldl hold True c2) s2" by (simp add: keeps_token_def)
    from Cons.IH [OF this p2(2) h] have "keeps_token True s1 (c2 @ c3, s3)" using keeps_trans [OF p2(1)] by blast
    then have "keeps_token tok s ((c1 @ [Det_lock_acquire m False]) @ (c2 @ c3), s3)"
      using keeps_trans [OF q] p1 by simp
    then show ?thesis using Cons.prems(3) False by (auto simp: e f h)
  qed
qed

lemma lock_enter_keeps:
  assumes "lock_enter m owner single s = (c, s1)" "token_inv tok s"
  shows "keeps_token tok s (c, s1) \<and> fence_enabled s1"
proof -
  have "keeps_token tok s (lock_enter m owner single s) \<and> fence_enabled (snd (lock_enter m owner single s))"
    using assms(2) by (auto simp: lock_enter_def Xrun_Props.run_defs keeps_defs)
  then show ?thesis by (simp add: assms(1))
qed

lemma mutex_lock_keeps:
  assumes "token_inv tok s" "mutex_lock caller m owner single answers s = (c, s', got)"
  shows "keeps_token tok s (c, s')"
proof (cases "\<not> fence_enabled s \<and> children_threads_count s = 0")
  case True
  then show ?thesis using assms by (auto simp: mutex_lock_def keeps_token_def op_calls_def)
next
  case False
  obtain c1 s1 where e: "lock_enter m owner single s = (c1, s1)" by fastforce
  have p1: "keeps_token tok s (c1, s1)" "fence_enabled s1" using lock_enter_keeps [OF e assms(1)] by auto
  then have i1: "token_inv (foldl hold tok c1) s1" by (simp add: keeps_token_def)
  have acq: "keeps_token tok s (c1 @ [Det_lock_acquire m b], s1)" for b
    using keeps_trans [OF p1(1) acquire_keeps [OF i1]] .
  have again: "keeps_token tok s (c1 @ c2, s2)" if "getLockAgain caller m as s1 = (c2, s2, g)" for as c2 s2 g
    using keeps_trans [OF p1(1) getLockAgain_keeps [OF i1 p1(2) that]] .
  have again': "keeps_token tok s (c1 @ Det_lock_acquire m False # c2, s2)" if "getLockAgain caller m as s1 = (c2, s2, g)" for as c2 s2 g
    using keeps_trans [OF acq [of False]] getLockAgain_keeps [OF i1 p1(2) that] by simp
  note r = assms(2) [unfolded mutex_lock_def if_not_P [OF False] e prod.case]
  show ?thesis
  proof (cases "owner \<or> single")
    case True
    then show ?thesis using r acq again' p1(1) by (auto split: list.splits if_splits prod.splits)
  next
    case False
    then show ?thesis using r again [of answers] by (auto split: prod.splits)
  qed
qed

lemma sync_keeps:
  assumes "token_inv tok s" "op_ok x s"
  shows "op_calls tok s (run_sync x s) \<and> (\<not> ends x \<longrightarrow> keeps_token tok s (run_sync x s))"
proof (cases x)
  case (Spawn caller forked)
  then show ?thesis using assms by (auto simp: op_defs Xrun_Props.run_defs keeps_defs)
next
  case (Join caller v single)
  then show ?thesis using assms by (cases v) (auto simp: op_defs Xrun_Props.run_defs keeps_defs)
next
  case (Lock caller m owner single answers)
  then show ?thesis using mutex_lock_keeps [OF assms(1)] by (auto simp: keeps_token_def split: prod.splits)
qed (use assms in \<open>auto simp: op_defs Xrun_Props.run_defs keeps_defs\<close>)

lemma deregister_keeps: "op_calls tok s (threadDeregister s)"
  by (simp add: threadDeregister_def Xrun_Props.run_defs op_calls_def)

lemma finalize_keeps: "op_calls tok s (run_finalize s)"
  by (simp add: run_finalize_def Xrun_Props.run_defs op_calls_def)


subsection \<open>Pointers to registered threads\<close>

definition registered :: "'m det \<Rightarrow> nat set" where
  "registered s = {t. tid (entries s t) \<noteq> 0}"

definition links_in :: "nat set \<Rightarrow> links \<Rightarrow> bool" where
  "links_in R h \<longleftrightarrow> (\<forall>x. set_option (nxt (h x)) \<subseteq> R \<and> set_option (prev (h x)) \<subseteq> R)"

definition det_closed :: "'m det \<Rightarrow> bool" where
  "det_closed s \<longleftrightarrow> (let R = registered s in
     links_in R (lks s) \<and> set_option (activelist s) \<subseteq> R \<and> set_option (tokenpos s) \<subseteq> R \<and>
     (\<forall>c. set_option (ce_head (conds s c)) \<subseteq> R) \<and> (\<forall>b. set_option (be_head (barriers s b)) \<subseteq> R) \<and>
     (\<forall>t. status (entries s t) = STATUS_JOINING \<longrightarrow> t \<in> R) \<and> (\<forall>t\<in>R. threadindex (entries s t) = t))"

lemma links_in_set [simp]:
  "links_in R h \<Longrightarrow> set_option v \<subseteq> R \<Longrightarrow> links_in R (set_nxt h a v)"
  "links_in R h \<Longrightarrow> set_option v \<subseteq> R \<Longrightarrow> links_in R (set_prev h a v)"
  by (auto simp: links_in_def set_nxt_def set_prev_def)

lemma links_inD: "links_in R h \<Longrightarrow> set_option (nxt (h x)) \<subseteq> R" "links_in R h \<Longrightarrow> set_option (prev (h x)) \<subseteq> R"
  by (simp_all add: links_in_def)

lemma deref_iff: "deref p = Inr x \<longleftrightarrow> p = Some x"
  by (cases p) (auto simp: deref_def)

named_theorems list_closed \<open>the operations on lists keep to the registered threads\<close>

lemma insertTail_closed [list_closed]:
  assumes "insertTail h e f = Inr (h', f')" "links_in R h" "e \<in> R" "set_option f \<subseteq> R"
  shows "links_in R h' \<and> set_option f' \<subseteq> R"
proof (cases f)
  case None
  then show ?thesis using assms by (auto simp: insertTail_def Let_def)
next
  case (Some x)
  obtain t where t: "prev (h x) = Some t" "f' = f"
    "h' = set_nxt (set_prev (set_prev (set_nxt h t (Some e)) x (Some e)) e (Some t)) e (Some x)"
    using assms(1) Some by (auto simp: insertTail_def rbind_Inr_iff deref_iff Let_def)
  then show ?thesis using assms(2-4) links_inD(2) [OF assms(2), of x] Some by simp
qed

lemma insertHead_closed [list_closed]:
  assumes "insertHead h e f = Inr h'" "links_in R h" "e \<in> R" "set_option f \<subseteq> R"
  shows "links_in R h'"
proof -
  obtain x n where x: "f = Some x" "nxt (h x) = Some n"
    "h' = set_nxt (set_prev (set_prev (set_nxt h x (Some e)) n (Some e)) e (Some x)) e (nxt (h x))"
    using assms(1) by (auto simp: insertHead_def rbind_Inr_iff deref_iff Let_def)
  then show ?thesis using assms(2-4) links_inD(1) [OF assms(2), of x] by simp
qed

lemma removeEntry_closed [list_closed]:
  assumes "removeEntry h e f = Inr (h', f')" "links_in R h" "set_option f \<subseteq> R"
  shows "links_in R h' \<and> set_option f' \<subseteq> R"
  using assms links_inD [OF assms(2), of e]
  by (auto simp: removeEntry_def Let_def rbind_Inr_iff deref_iff split: if_splits)

lemma removeHead_closed [list_closed]:
  assumes "removeHeadEntry h f = Inr (h', f', x)" "links_in R h" "set_option f \<subseteq> R"
  shows "links_in R h' \<and> set_option f' \<subseteq> R \<and> set_option x \<subseteq> R"
  using assms removeEntry_closed [of h _ f h' f' R]
  by (auto simp: removeHeadEntry_def rbind_Inr_iff split: option.splits)

lemma moveWhole_closed [list_closed]:
  assumes "moveWholeList h pr src = Inr (h', f')" "links_in R h" "set_option pr \<subseteq> R" "set_option src \<subseteq> R"
  shows "links_in R h' \<and> set_option f' \<subseteq> R"
proof (cases src)
  case None
  then show ?thesis using assms by (simp add: moveWholeList_def)
next
  case (Some x)
  obtain p n t where t: "pr = Some p" "nxt (h p) = Some n" "prev (h x) = Some t" "f' = None"
    "h' = set_nxt (set_nxt (set_prev (set_prev h n (prev (h x))) x (Some p)) t (nxt (h p))) p (Some x)"
    using assms(1) Some by (auto simp: moveWholeList_def rbind_Inr_iff deref_iff Let_def)
  then show ?thesis using assms(2-4) links_inD(1) [OF assms(2), of p] links_inD(2) [OF assms(2), of x] Some by simp
qed


subsection \<open>Operations of the scheduler\<close>

text \<open>An operation that keeps this closed changes no id; a quiet one does not move the token either.\<close>

definition keeps_ids :: "'m det \<Rightarrow> 'm det \<Rightarrow> bool" where
  "keeps_ids s s' \<longleftrightarrow> det_closed s' \<and> (\<forall>t. tid (entries s' t) = tid (entries s t))"

definition quiet :: "'m det \<Rightarrow> 'm det \<Rightarrow> bool" where
  "quiet s s' \<longleftrightarrow> keeps_ids s s' \<and> tokenpos s' = tokenpos s"

lemma quiet_trans: "quiet s s1 \<Longrightarrow> quiet s1 s2 \<Longrightarrow> quiet s s2"
  by (simp add: quiet_def keeps_ids_def)

lemma quiet_keeps: "quiet s s1 \<Longrightarrow> keeps_ids s1 s2 \<Longrightarrow> keeps_ids s s2"
  by (simp add: quiet_def keeps_ids_def)

lemma quiet_closed: "quiet s s1 \<Longrightarrow> det_closed s1"
  by (simp add: quiet_def keeps_ids_def)

lemma det_closedD:
  assumes "det_closed s"
  shows "links_in (registered s) (lks s)" "set_option (activelist s) \<subseteq> registered s" "set_option (tokenpos s) \<subseteq> registered s"
    "set_option (ce_head (conds s c)) \<subseteq> registered s" "set_option (be_head (barriers s b)) \<subseteq> registered s"
    "status (entries s t) = STATUS_JOINING \<Longrightarrow> t \<in> registered s" "t \<in> registered s \<Longrightarrow> threadindex (entries s t) = t"
    "set_option (nxt (lks s x)) \<subseteq> registered s"
  using assms by (auto simp: det_closed_def Let_def links_in_def)

lemma det_closed_dest:
  assumes "det_closed s"
  shows "ce_head (conds s c) = Some x \<Longrightarrow> x \<in> registered s" "be_head (barriers s b) = Some x \<Longrightarrow> x \<in> registered s"
    "nxt (lks s y) = Some x \<Longrightarrow> x \<in> registered s"
  using det_closedD(4) [OF assms, of c] det_closedD(5) [OF assms, of b] det_closedD(8) [OF assms, of y] by auto

lemma keeps_idsI:
  assumes "det_closed s"
    and "\<And>t. tid (entries s' t) = tid (entries s t)" "\<And>t. t \<in> registered s \<Longrightarrow> threadindex (entries s' t) = threadindex (entries s t)"
    and "\<And>t. status (entries s' t) = STATUS_JOINING \<Longrightarrow> status (entries s t) = STATUS_JOINING \<or> t \<in> registered s"
    and "links_in (registered s) (lks s')" "set_option (activelist s') \<subseteq> registered s" "set_option (tokenpos s') \<subseteq> registered s"
    and "\<And>c. set_option (ce_head (conds s' c)) \<subseteq> registered s" "\<And>b. set_option (be_head (barriers s' b)) \<subseteq> registered s"
  shows "keeps_ids s s'"
proof -
  have "registered s' = registered s" using assms(2) by (simp add: registered_def)
  moreover have "t \<in> registered s" if "status (entries s' t) = STATUS_JOINING" for t
    using assms(4) [OF that] det_closedD(6) [OF assms(1)] by blast
  ultimately show ?thesis using assms(2,3,5-) det_closedD(7) [OF assms(1)] by (simp add: keeps_ids_def det_closed_def Let_def)
qed

lemma quietI:
  assumes "det_closed s"
    and "\<And>t. tid (entries s' t) = tid (entries s t)" "\<And>t. threadindex (entries s' t) = threadindex (entries s t)"
    and "\<And>t. status (entries s' t) = STATUS_JOINING \<Longrightarrow> status (entries s t) = STATUS_JOINING"
    and "lks s' = lks s" "activelist s' = activelist s" "tokenpos s' = tokenpos s"
    and "\<And>c. ce_head (conds s' c) = ce_head (conds s c)" "\<And>b. be_head (barriers s' b) = be_head (barriers s b)"
  shows "quiet s s'"
  unfolding quiet_def using assms det_closedD [OF assms(1)] by (intro conjI keeps_idsI) auto

lemma fence_quiet:
  assumes "det_closed s" "fence_next keep i s pc = (s', pc')"
  shows "quiet s s'"
  using assms(2)
  by (intro quietI [OF assms(1)])
    (auto simp: fence_next_def arrive_def fence_arrive_def fence_depart_def fence_setwait_def fence_clearwait_def
      fence_sleep_def Let_def split: fence_pc.splits if_splits)

lemma get_quiet:
  assumes "det_closed s" "getSyncEntry M p a s = Inr (e, s')"
  shows "quiet s s'"
  using assms(2) by (intro quietI [OF assms(1)]) (auto dest!: getSync_eff)

lemma set_quiet:
  assumes "det_closed s" "setSyncEntry M p a v s = Inr s'"
  shows "quiet s s'"
  using assms(2) by (intro quietI [OF assms(1)]) (auto dest!: setSync_eff)

lemma lock_init_quiet:
  assumes "det_closed s" "lock_init M p a s = Inr (e, s')"
  shows "quiet s s'"
  using assms(2)
  by (intro quietI [OF assms(1)]) (auto simp: lock_init_def allocSyncEntry_def rbind_Inr_iff Let_def dest!: setSync_eff)

lemma isowner_quiet:
  assumes "det_closed s" "lock_isowner M p m s = Inr (b, s')"
  shows "quiet s s'"
proof -
  obtain e s1 where g: "getSyncEntry M p m s = Inr (e, s1)"
    using assms(2) by (cases "getSyncEntry M p m s") (auto simp: lock_isowner_def)
  have 1: "quiet s s1" using get_quiet [OF assms(1) g] .
  let ?u = "upd_lock e (\<lambda>l. l\<lparr>total_users := total_users l + 1\<rparr>) s1"
  have "quiet s1 s1" "quiet s1 ?u" by (intro quietI [OF quiet_closed [OF 1]]; simp)+
  moreover have "s' = s1 \<or> s' = ?u"
    using assms(2) unfolding lock_isowner_def g by (simp split: if_splits)
  ultimately show ?thesis using 1 quiet_trans by blast
qed

lemma acquire_quiet:
  assumes "det_closed s" "lock_acquire M p m s = Inr (b, s')"
  shows "quiet s s'"
proof -
  obtain e0 s1 where g: "getSyncEntry M p m s = Inr (e0, s1)"
    "rbind (if e0 = 0 then lock_init M p m s1 else Inr (e0, s1)) (\<lambda>(e, s2).
       let (r, l) = lock_take p (isSingleWorkingThread s2) (locks s2 e) in Inr (r, upd_lock e (\<lambda>_. l) s2)) = Inr (b, s')"
    using assms(2) by (auto simp: lock_acquire_def rbind_Inr_iff)
  obtain e s2 where i: "(if e0 = 0 then lock_init M p m s1 else Inr (e0, s1)) = Inr (e, s2)"
    "s' = upd_lock e (\<lambda>_. snd (lock_take p (isSingleWorkingThread s2) (locks s2 e))) s2"
    using g(2) by (auto simp: rbind_Inr_iff Let_def case_prod_unfold)
  have 1: "quiet s s1" using get_quiet [OF assms(1) g(1)] .
  have 2: "quiet s1 s2"
    using i(1) lock_init_quiet [OF quiet_closed [OF 1]] quietI [OF quiet_closed [OF 1], of s1] by (auto split: if_splits)
  have "quiet s2 s'" unfolding i(2) by (intro quietI [OF quiet_closed [OF 2]]) simp_all
  then show ?thesis using 1 2 quiet_trans by blast
qed

lemma release_quiet:
  assumes "det_closed s" "lock_release M p m s = Inr s'"
  shows "quiet s s'"
  using assms(2) by (intro quietI [OF assms(1)]) (auto dest!: release_eff)

lemma cond_init_quiet:
  assumes "det_closed s" "cond_init M p c s = Inr (e, s')"
  shows "quiet s s'"
proof -
  obtain h s1 m where s': "s1 = s\<lparr>iheap := h\<rparr>"
    "s' = (upd_cond e (\<lambda>_. \<lparr>waiters = 0, ce_cond = c, ce_head = None\<rparr>) (s1\<lparr>condnum := condnum s1 + 1\<rparr>))\<lparr>memory := m\<rparr>"
    using assms(2) by (auto simp: cond_init_def allocSyncEntry_def rbind_Inr_iff Let_def dest!: setSync_eff)
  then show ?thesis
    unfolding quiet_def using det_closedD [OF assms(1)] by (intro conjI keeps_idsI [OF assms(1)]) auto
qed

lemma lookup_quiet:
  assumes "det_closed s" "cond_lookup M p c s = Inr (e, s')"
  shows "quiet s s'"
proof -
  obtain v s1 where g: "getSyncEntry M p c s = Inr (v, s1)"
    "(if v = 0 then cond_init M p c s1 else Inr (v, s1)) = Inr (e, s')"
    using assms(2) by (auto simp: cond_lookup_def rbind_Inr_iff)
  have 1: "quiet s s1" using get_quiet [OF assms(1) g(1)] .
  show ?thesis
    using g(2) 1 quiet_trans [OF 1 cond_init_quiet [OF quiet_closed [OF 1]]] by (auto split: if_splits)
qed


lemma register_keeps:
  assumes "det_closed s" "registerThread i p parent s = Inr s'" "p \<noteq> 0" "tid (entries s i) = 0"
  shows "det_closed s' \<and> (\<forall>t. tid (entries s' t) = (if t = i then p else tid (entries s t))) \<and>
    (tokenpos s \<noteq> None \<longrightarrow> tokenpos s' = tokenpos s) \<and> (tokenpos s = None \<longrightarrow> tokenpos s' = Some i)"
proof -
  let ?e = "(entries s i)\<lparr>tid := p, threadindex := i, te_wait := 0, tid_parent := parent, status := STATUS_READY\<rparr>"
  obtain h a where ins: "insertTail (lks s) i (activelist s) = Inr (h, a)"
    and s': "s' = s\<lparr>entries := (entries s)(i := ?e), tokenpos := (if tokenpos s = None then Some i else tokenpos s), lks := h, activelist := a\<rparr>"
    using assms(2) by (auto simp: registerThread_def Let_def rbind_Inr_iff split: if_splits)
  have R: "registered s' = insert i (registered s)" using assms(3) by (auto simp: registered_def s')
  have l: "links_in (registered s') (lks s)"
    using det_closedD(1) [OF assms(1)] by (auto simp: links_in_def R)
  have "links_in (registered s') h \<and> set_option a \<subseteq> registered s'"
    using insertTail_closed [OF ins l] det_closedD(2) [OF assms(1)] R by auto
  moreover have "x \<in> registered s" if "be_head (barriers s b) = Some x \<or> ce_head (conds s c) = Some x" for b c x
    using that det_closedD(4) [OF assms(1), of c] det_closedD(5) [OF assms(1), of b] by auto
  ultimately have "det_closed s'"
    using det_closedD(3,6,7) [OF assms(1)] unfolding det_closed_def R Let_def by (auto simp: s' R)
  then show ?thesis by (auto simp: s')
qed

lemma putToken_keeps:
  assumes "det_closed s" "putToken i s = Inr s'"
  shows "keeps_ids s s'"
proof -
  obtain t where t: "s' = s \<or> s' = s\<lparr>tokenpos := nxt (lks s t)\<rparr>"
    using assms(2) by (auto simp: putToken_def rbind_Inr_iff split: option.splits) metis
  show ?thesis
    using t det_closedD [OF assms(1)] by (intro keeps_idsI [OF assms(1)]) (auto dest: det_closed_dest [OF assms(1)])
qed

lemma cancel_quiet:
  assumes "det_closed s" "determ_cancel v s = Inr (b, s')"
  shows "quiet s s'"
proof (cases "status (entries s v) = STATUS_COND_WAITING")
  case False
  then have "s' = s" using assms(2) by (auto simp: determ_cancel_def split: threadStatus.splits)
  then show ?thesis using quietI [OF assms(1), of s] by simp
next
  case True
  let ?c = "te_cond (entries s v)"
  obtain h f where rm: "removeEntry (lks s) v (ce_head (conds s ?c)) = Inr (h, f)"
    using assms(2) True by (auto simp: determ_cancel_def Let_def rbind_Inr_iff)
  have cl: "links_in (registered s) h \<and> set_option f \<subseteq> registered s"
    using removeEntry_closed [OF rm] det_closedD [OF assms(1)] by blast
  have f: "lks s' = h" "activelist s' = activelist s" "tokenpos s' = tokenpos s"
    "entries s' = (entries s)(v := (entries s v)\<lparr>status := STATUS_EXIT\<rparr>)" "barriers s' = barriers s"
    "conds s' = (conds s)(?c := (conds s ?c)\<lparr>ce_head := f\<rparr>)"
    using assms(2) True rm by (auto simp: determ_cancel_def freeThreadEntry_def Let_def rbind_Inr_iff split: if_splits)
  show ?thesis
    unfolding quiet_def using cl det_closedD [OF assms(1)] f by (intro conjI keeps_idsI [OF assms(1)]) (auto split: if_splits)
qed

lemma cond_wait_loop_quiet:
  assumes "det_closed s" "cond_wait_loop M p i m s = Inr (b, s')"
  shows "quiet s s'"
  using assms release_quiet [OF assms(1)] quietI [OF assms(1), of s]
  by (auto simp: cond_wait_loop_def rbind_Inr_iff split: if_splits)

lemma cond_wait_finish_quiet:
  assumes "det_closed s" "cond_wait_finish M p m s = Inr s'"
  shows "quiet s s'"
  using assms acquire_quiet [OF assms(1)] by (auto simp: cond_wait_finish_def rbind_Inr_iff)

lemma queue_keeps:
  assumes "det_closed s" "cond_wait_queue i c s = Inr s'" "i \<in> registered s"
  shows "keeps_ids s s'"
proof -
  obtain h1 a h2 f where o: "removeEntry (lks s) i (activelist s) = Inr (h1, a)"
    "insertTail h1 i (ce_head (conds s c)) = Inr (h2, f)"
    and s': "s' = (decrFence (upd_entry i (\<lambda>e. e\<lparr>te_cond := c, status := STATUS_COND_WAITING\<rparr>)
      (upd_cond c (\<lambda>e. e\<lparr>ce_head := f, waiters := waiters e + 1\<rparr>) (s\<lparr>lks := h2, activelist := a\<rparr>))))\<lparr>tokenpos := nxt (lks s i)\<rparr>"
    using assms(2) by (auto simp: cond_wait_queue_def Let_def rbind_Inr_iff)
  have 1: "links_in (registered s) h1 \<and> set_option a \<subseteq> registered s"
    using removeEntry_closed [OF o(1)] det_closedD [OF assms(1)] by blast
  have 2: "links_in (registered s) h2 \<and> set_option f \<subseteq> registered s"
    using insertTail_closed [OF o(2)] 1 assms(3) det_closedD [OF assms(1)] by blast
  show ?thesis
    using 1 2 det_closedD [OF assms(1)] by (intro keeps_idsI [OF assms(1)]) (auto simp: s' split: if_splits)
qed

lemma cond_wait_enter_keeps:
  assumes "det_closed s" "cond_wait_enter M p i c m s = Inr (b, s')" "i \<in> registered s"
  shows "keeps_ids s s'"
proof -
  obtain e s1 s2 where o: "cond_lookup M p c s = Inr (e, s1)" "cond_wait_queue i e s1 = Inr s2"
    "cond_wait_loop M p i m s2 = Inr (b, s')"
    using assms(2) by (auto simp: cond_wait_enter_def rbind_Inr_iff)
  have 1: "quiet s s1" using lookup_quiet [OF assms(1) o(1)] .
  then have "i \<in> registered s1" using assms(3) by (simp add: quiet_def keeps_ids_def registered_def)
  then have 2: "keeps_ids s1 s2" using queue_keeps [OF quiet_closed [OF 1] o(2)] by blast
  then have "quiet s2 s'" using cond_wait_loop_quiet [OF _ o(3)] by (simp add: keeps_ids_def)
  then show ?thesis using 1 2 by (simp add: quiet_def keeps_ids_def)
qed

lemma cond_signal_quiet:
  assumes "det_closed s" "cond_signal M p c s = Inr s'"
  shows "quiet s s'"
proof -
  obtain e s1 where o: "cond_lookup M p c s = Inr (e, s1)"
    using assms(2) by (auto simp: cond_signal_def rbind_Inr_iff)
  have 1: "quiet s s1" using lookup_quiet [OF assms(1) o] .
  have "quiet s1 s'"
  proof (cases "waiters (conds s1 e) = 0")
    case True
    then have "s' = s1" using assms(2) o by (simp add: cond_signal_def)
    then show ?thesis using quietI [OF quiet_closed [OF 1], of s1] by simp
  next
    case False
    obtain h1 f i h2 where r: "removeHeadEntry (lks s1) (ce_head (conds s1 e)) = Inr (h1, f, Some i)"
      "insertHead h1 i (tokenpos s1) = Inr h2"
      and s': "s' = upd_cond e (\<lambda>x. x\<lparr>waiters := waiters x - 1\<rparr>) (incrFence 1 (upd_entry i (\<lambda>x. x\<lparr>te_cond := 0, status := STATUS_READY\<rparr>)
        (upd_cond e (ce_head_update (\<lambda>_. f)) (s1\<lparr>lks := h2\<rparr>))))"
      using assms(2) o False by (auto simp: cond_signal_def rbind_Inr_iff Let_def deref_iff)
    have c1: "links_in (registered s1) h1 \<and> set_option f \<subseteq> registered s1 \<and> i \<in> registered s1"
      using removeHead_closed [OF r(1)] det_closedD [OF quiet_closed [OF 1]] by auto
    then have c2: "links_in (registered s1) h2"
      using insertHead_closed [OF r(2)] det_closedD [OF quiet_closed [OF 1]] by blast
    show ?thesis
      unfolding quiet_def using c1 c2 det_closedD [OF quiet_closed [OF 1]]
      by (intro conjI keeps_idsI [OF quiet_closed [OF 1]]) (auto simp: s' split: if_splits)
  qed
  then show ?thesis using 1 quiet_trans by blast
qed

lemma set_ready_quiet:
  assumes "det_closed s" "set_ready n x s = Inr s'"
  shows "quiet s s' \<and> lks s' = lks s \<and> conds s' = conds s"
  using assms
proof (induction n arbitrary: x s)
  case 0
  then show ?case using quietI [of s s] by simp
next
  case (Suc n)
  obtain i where i: "x = Some i"
    "set_ready n (nxt (lks s i)) (upd_entry i (\<lambda>t. t\<lparr>te_cond := 0, status := STATUS_READY\<rparr>) s) = Inr s'"
    using Suc.prems(2) by (auto simp: rbind_Inr_iff deref_iff)
  have "quiet s (upd_entry i (\<lambda>t. t\<lparr>te_cond := 0, status := STATUS_READY\<rparr>) s)"
    by (intro quietI [OF Suc.prems(1)]) (auto split: if_splits)
  then show ?case using Suc.IH [OF quiet_closed i(2)] quiet_trans by fastforce
qed

lemma cond_broadcast_quiet:
  assumes "det_closed s" "cond_broadcast M p c s = Inr s'"
  shows "quiet s s'"
proof -
  obtain e s1 where o: "cond_lookup M p c s = Inr (e, s1)"
    using assms(2) by (auto simp: cond_broadcast_def rbind_Inr_iff)
  have 1: "quiet s s1" using lookup_quiet [OF assms(1) o] .
  have "quiet s1 s'"
  proof (cases "waiters (conds s1 e) = 0")
    case True
    then have "s' = s1" using assms(2) o by (simp add: cond_broadcast_def)
    then show ?thesis using quietI [OF quiet_closed [OF 1], of s1] by simp
  next
    case False
    obtain s2 h f where r: "set_ready (unat (waiters (conds s1 e))) (ce_head (conds s1 e)) s1 = Inr s2"
      "moveWholeList (lks s2) (tokenpos s2) (ce_head (conds s2 e)) = Inr (h, f)"
      and s': "s' = upd_cond e (\<lambda>x. x\<lparr>ce_head := f, waiters := 0\<rparr>) (incrFence (waiters (conds s2 e)) (s2\<lparr>lks := h\<rparr>))"
      using assms(2) o False by (auto simp: cond_broadcast_def rbind_Inr_iff Let_def)
    have 2: "quiet s1 s2" using set_ready_quiet [OF quiet_closed [OF 1] r(1)] by blast
    have "links_in (registered s2) h \<and> set_option f \<subseteq> registered s2"
      using moveWhole_closed [OF r(2)] det_closedD [OF quiet_closed [OF 2]] by blast
    then have "quiet s2 s'"
      unfolding quiet_def using det_closedD [OF quiet_closed [OF 2]]
      by (intro conjI keeps_idsI [OF quiet_closed [OF 2]]) (auto simp: s' split: if_splits)
    then show ?thesis using 2 quiet_trans by blast
  qed
  then show ?thesis using 1 quiet_trans by blast
qed


lemma sig_wait_enter_keeps:
  assumes "det_closed s" "sig_wait_enter i s = Inr s'"
  shows "keeps_ids s s'"
proof -
  obtain h a where r: "removeEntry (lks s) i (activelist s) = Inr (h, a)"
    and s': "s' = (decrFence (s\<lparr>lks := h, activelist := a\<rparr>))\<lparr>tokenpos := nxt (lks s i)\<rparr>"
    using assms(2) by (auto simp: sig_wait_enter_def Let_def rbind_Inr_iff)
  have "links_in (registered s) h \<and> set_option a \<subseteq> registered s"
    using removeEntry_closed [OF r] det_closedD [OF assms(1)] by blast
  then show ?thesis using det_closedD [OF assms(1)] by (intro keeps_idsI [OF assms(1)]) (auto simp: s')
qed

lemma sig_wait_wake_keeps:
  assumes "det_closed s" "sig_wait_wake r i s = Inr (x, s')" "i \<in> registered s"
  shows "keeps_ids s s' \<and> (tokenpos s \<noteq> None \<longrightarrow> tokenpos s' = tokenpos s)"
proof (cases "r \<noteq> 0")
  case True
  then show ?thesis using assms quietI [OF assms(1), of s] by (simp add: sig_wait_wake_def quiet_def)
next
  case False
  show ?thesis
  proof (cases "tokenpos s")
    case None
    then have "s' = incrFence 1 (s\<lparr>tokenpos := Some i\<rparr>)" using assms(2) False by (simp add: sig_wait_wake_def)
    then show ?thesis
      using None assms(3) det_closedD [OF assms(1)] by (intro conjI keeps_idsI [OF assms(1)]) auto
  next
    case (Some t)
    obtain h where h: "insertHead (lks s) i (Some t) = Inr h" "s' = incrFence 1 (s\<lparr>lks := h\<rparr>)"
      using assms(2) False Some by (auto simp: sig_wait_wake_def rbind_Inr_iff)
    have "links_in (registered s) h"
      using insertHead_closed [OF h(1)] det_closedD [OF assms(1)] assms(3) Some by fastforce
    then show ?thesis
      using det_closedD [OF assms(1)] by (intro conjI keeps_idsI [OF assms(1)]) (auto simp: h(2))
  qed
qed

lemma barrier_section_keeps:
  assumes "det_closed s" "barrier_wait_section b i s = Inr (r, s')" "i \<in> registered s"
  shows "keeps_ids s s'"
proof -
  let ?s1 = "upd_barr b (\<lambda>e. e\<lparr>be_threads := be_threads e + 1\<rparr>) s"
  have 1: "quiet s ?s1" by (intro quietI [OF assms(1)]) auto
  have R: "registered ?s1 = registered s" by (simp add: registered_def)
  note d = det_closedD [OF quiet_closed [OF 1], unfolded R]
  have b: "b \<noteq> 0" using assms(2) by (auto simp: barrier_wait_section_def nonnull_def)
  have "keeps_ids ?s1 s'"
  proof (cases "be_threads (barriers ?s1 b) = be_maxthreads (barriers ?s1 b)")
    case True
    obtain h f where m: "moveWholeList (lks ?s1) (tokenpos ?s1) (be_head (barriers ?s1 b)) = Inr (h, f)"
      and s': "lks s' = h" "activelist s' = activelist s" "tokenpos s' = nxt (h i)" "entries s' = entries s" "conds s' = conds s"
        "\<And>c. be_head (barriers s' c) = (if c = b then f else be_head (barriers s c))"
      using assms(2) True b by (auto simp: barrier_wait_section_def nonnull_def Let_def rbind_Inr_iff)
    have "links_in (registered s) h \<and> set_option f \<subseteq> registered s" using moveWhole_closed [OF m] d by blast
    then show ?thesis
      using d links_inD(1) [of "registered s" h i] by (intro keeps_idsI [OF quiet_closed [OF 1]])
        (auto simp: s' R dest: det_closed_dest [OF assms(1)])
  next
    case False
    obtain h1 a h2 f where m: "removeEntry (lks ?s1) i (activelist ?s1) = Inr (h1, a)"
      "insertTail h1 i (be_head (barriers ?s1 b)) = Inr (h2, f)"
      and s': "lks s' = h2" "activelist s' = a" "tokenpos s' = nxt (lks s i)" "conds s' = conds s"
        "entries s' = (entries s)(i := (entries s i)\<lparr>status := STATUS_BARR_WAITING, te_barrier := b\<rparr>)"
        "\<And>c. be_head (barriers s' c) = (if c = b then f else be_head (barriers s c))"
      using assms(2) False b by (auto simp: barrier_wait_section_def nonnull_def Let_def rbind_Inr_iff)
    have 2: "links_in (registered s) h1 \<and> set_option a \<subseteq> registered s" using removeEntry_closed [OF m(1)] d by blast
    have "links_in (registered s) h2 \<and> set_option f \<subseteq> registered s"
      using insertTail_closed [OF m(2)] 2 assms(3) d by blast
    then show ?thesis
      using d 2 by (intro keeps_idsI [OF quiet_closed [OF 1]])
        (auto simp: s' R dest: det_closed_dest [OF assms(1)] split: if_splits)
  qed
  then show ?thesis using 1 quiet_keeps by blast
qed

lemma barrier_wait_enter_keeps:
  assumes "det_closed s" "barrier_wait_enter M p bar i s = Inr (r, s')" "i \<in> registered s"
  shows "keeps_ids s s'"
proof -
  obtain b s1 s2 where o: "getSyncEntry M p bar s = Inr (b, s1)" "barrier_wait_section b i s1 = Inr (r, s2)"
    and s': "s' = s2 \<or> (\<exists>m. s' = s2\<lparr>memory := m\<rparr>)"
    using assms(2) by (auto simp: barrier_wait_enter_def rbind_Inr_iff split: if_splits)
  have 1: "quiet s s1" using get_quiet [OF assms(1) o(1)] .
  have "i \<in> registered s1" using 1 assms(3) by (simp add: quiet_def keeps_ids_def registered_def)
  then have 2: "keeps_ids s1 s2" using barrier_section_keeps [OF quiet_closed [OF 1] o(2)] by blast
  then have "det_closed s2" by (simp add: keeps_ids_def)
  then have "quiet s2 s'" using s' by (intro quietI) auto
  then show ?thesis using 1 2 by (simp add: quiet_def keeps_ids_def)
qed

lemma barrier_wait_leave_quiet:
  assumes "det_closed s" "barrier_wait_leave M p l s = Inr s'"
  shows "quiet s s'"
  using assms(2) by (intro quietI [OF assms(1)]) (auto simp: barrier_wait_leave_def rbind_Inr_iff split: if_splits)

lemma join_sleep_keeps:
  assumes "det_closed s" "join_sleep i s = Inr s'"
  shows "keeps_ids s s' \<and> (own_token i s \<or> tokenpos s' = tokenpos s)"
proof -
  obtain t where t: "tokenpos s = Some t"
    and s': "s' = decrFence s \<or> threadindex (entries s t) = i \<and> s' = (decrFence s)\<lparr>tokenpos := nxt (lks s t)\<rparr>"
    using assms(2) by (auto simp: join_sleep_def Let_def rbind_Inr_iff deref_iff split: if_splits)
  have "keeps_ids s s'"
    using s' det_closedD [OF assms(1)]
    by (intro keeps_idsI [OF assms(1)]) (auto dest: det_closed_dest [OF assms(1)])
  then show ?thesis using s' t by (auto simp: own_token_def)
qed

lemma join_wake_keeps:
  assumes "det_closed s" "join_wake g i s = Inr (b, s')"
  shows "keeps_ids s s' \<and> (own_token i s \<or> tokenpos s' = tokenpos s)"
proof -
  have 1: "quiet s (incrFence 1 s)" by (intro quietI [OF assms(1)]) auto
  show ?thesis
  proof (cases "status (entries s g) = STATUS_EXIT")
    case True
    then have s': "s' = upd_entry i (status_update (\<lambda>_. STATUS_READY)) (incrFence 1 s)"
      using assms(2) by (simp add: join_wake_def Let_def)
    have "quiet s s'" unfolding s' by (intro quietI [OF assms(1)]) (auto split: if_splits)
    then show ?thesis by (simp add: quiet_def)
  next
    case False
    then have "join_sleep i (incrFence 1 s) = Inr s'"
      using assms(2) by (auto simp: join_wake_def Let_def rbind_Inr_iff)
    from join_sleep_keeps [OF quiet_closed [OF 1] this] show ?thesis
      using quiet_keeps [OF 1] by (simp add: own_token_def cong: option.case_cong)
  qed
qed

lemma join_enter_keeps:
  assumes "det_closed s" "join_enter g i s = Inr (b, s')" "i \<in> registered s"
  shows "keeps_ids s s' \<and> (\<not> b \<longrightarrow> tokenpos s' = tokenpos s)"
proof (cases "status (entries s g) = STATUS_EXIT")
  case True
  then have s': "s' = upd_entry i (status_update (\<lambda>_. STATUS_READY)) s"
    using assms(2) by (simp add: join_enter_def)
  have "quiet s s'" unfolding s' by (intro quietI [OF assms(1)]) (auto split: if_splits)
  then show ?thesis by (simp add: quiet_def)
next
  case False
  obtain h a where r: "removeEntry (lks s) i (activelist s) = Inr (h, a)"
    using assms(2) False by (auto simp: join_enter_def rbind_Inr_iff)
  define s1 where "s1 = upd_entry i (\<lambda>e. e\<lparr>status := STATUS_JOINING, joinee_thread_index := g\<rparr>) (s\<lparr>lks := h, activelist := a\<rparr>)"
  have "links_in (registered s) h \<and> set_option a \<subseteq> registered s"
    using removeEntry_closed [OF r] det_closedD [OF assms(1)] by blast
  then have 1: "quiet s s1"
    unfolding quiet_def using det_closedD [OF assms(1)] assms(3)
    by (intro conjI keeps_idsI [OF assms(1)]) (auto simp: s1_def split: if_splits)
  have e: "join_enter g i s = (if status (entries s1 g) \<noteq> STATUS_EXIT then rbind (join_sleep i s1) (\<lambda>s2. Inr (True, s2))
      else Inr (False, upd_entry i (status_update (\<lambda>_. STATUS_READY)) s1))"
    using False r by (simp add: join_enter_def s1_def)
  have "status (entries s1 g) \<noteq> STATUS_EXIT" using False by (simp add: s1_def)
  then have "join_sleep i s1 = Inr s' \<and> b" using assms(2) e by (auto simp: rbind_Inr_iff)
  then show ?thesis using join_sleep_keeps [OF quiet_closed [OF 1]] 1 quiet_keeps by blast
qed

lemma deregister_step_keeps:
  assumes "det_closed s" "deregisterThread i s = Inr s'"
  shows "keeps_ids s s'"
proof -
  let ?p = "tid_parent (entries s i)"
  obtain s1 where j: "(if status (entries s ?p) = STATUS_JOINING \<and> joinee_thread_index (entries s ?p) = i
      then rbind (insertHead (lks s) ?p (tokenpos s)) (\<lambda>h. Inr (s\<lparr>lks := h\<rparr>)) else Inr s) = Inr s1"
    using assms(2) by (auto simp: deregisterThread_def Let_def rbind_Inr_iff)
  have 1: "quiet s s1"
  proof (cases "status (entries s ?p) = STATUS_JOINING \<and> joinee_thread_index (entries s ?p) = i")
    case True
    then obtain h where h: "insertHead (lks s) ?p (tokenpos s) = Inr h" "s1 = s\<lparr>lks := h\<rparr>"
      using j by (auto simp: rbind_Inr_iff)
    have "links_in (registered s) h"
      using insertHead_closed [OF h(1)] det_closedD(1,3) [OF assms(1)] det_closedD(6) [OF assms(1), of ?p] True by blast
    then show ?thesis
      unfolding quiet_def using det_closedD [OF assms(1)] by (intro conjI keeps_idsI [OF assms(1)]) (auto simp: h(2))
  next
    case False
    then have "s1 = s" using j by auto
    then show ?thesis using quietI [OF assms(1), of s] by simp
  qed
  define s2 where "s2 = (if 0 < alivethreads s1 then decrFence (s1\<lparr>alivethreads := alivethreads s1 - 1\<rparr>) else s1)"
  have f2: "lks s2 = lks s1" "activelist s2 = activelist s1" "entries s2 = entries s1" "conds s2 = conds s1" "barriers s2 = barriers s1"
    by (simp_all add: s2_def)
  have "rbind (removeEntry (lks s2) i (activelist s2)) (\<lambda>(h, a).
      Inr ((freeThreadEntry i (s2\<lparr>lks := h, activelist := a\<rparr>))\<lparr>tokenpos := nxt (lks s2 i)\<rparr>)) = Inr s'"
    using assms(2) j by (simp add: deregisterThread_def Let_def s2_def)
  then obtain h a where r: "removeEntry (lks s1) i (activelist s1) = Inr (h, a)"
    and s': "s' = (freeThreadEntry i (s2\<lparr>lks := h, activelist := a\<rparr>))\<lparr>tokenpos := nxt (lks s1 i)\<rparr>"
    by (auto simp: f2 rbind_Inr_iff)
  have "links_in (registered s1) h \<and> set_option a \<subseteq> registered s1"
    using removeEntry_closed [OF r] det_closedD [OF quiet_closed [OF 1]] by blast
  then have "keeps_ids s1 s'"
    using det_closedD [OF quiet_closed [OF 1]]
    by (intro keeps_idsI [OF quiet_closed [OF 1]]) (auto simp: s' f2 freeThreadEntry_def split: if_splits)
  then show ?thesis using 1 quiet_keeps by blast
qed


subsection \<open>A step of a process on the scheduler\<close>

text \<open>Without the token, a step leaves it where it is, or with nobody.\<close>

definition leaves_token :: "nat \<Rightarrow> 'm det \<Rightarrow> 'm det \<Rightarrow> bool" where
  "leaves_token i s s' \<longleftrightarrow> tokenpos s = None \<or> own_token i s \<or> tokenpos s' = tokenpos s"

lemma quiet_leaves: "quiet s s' \<Longrightarrow> keeps_ids s s' \<and> leaves_token i s s'"
  by (simp add: quiet_def leaves_token_def)

lemma gives_SomeD: "gives b r = Some x \<Longrightarrow> r = Inr (b, x)"
  by (auto simp: gives_def split: sum.splits if_splits)

lemma ok_SomeD: "ok r = Some x \<Longrightarrow> r = Inr x"
  by (auto simp: ok_def split: sum.splits)

lemma det_call_keeps:
  assumes "det_closed s" "det_call M cores p c s = Some s'" "own_index i c" "\<not> needs_token c"
  shows "quiet s s'"
proof (cases c)
  case (Det_isSingleAliveThread b)
  then show ?thesis using assms(2) quietI [OF assms(1), of s] by (simp split: if_splits)
next
  case (Det_isSingleWorkingThread b)
  then show ?thesis using assms(2) quietI [OF assms(1), of s] by (simp split: if_splits)
next
  case (Det_startFence n)
  then show ?thesis using assms(2) by (intro quietI [OF assms(1)]) (auto simp: startFence_def)
next
  case Det_initialize
  then show ?thesis
    using assms(2) by (intro quietI [OF assms(1)]) (auto simp: determ_initialize_def dest!: ok_SomeD split: if_splits)
next
  case Det_notifyWaitingChildren
  then show ?thesis using assms(2) quietI [OF assms(1), of s] by simp
next
  case (Det_cancel v)
  then show ?thesis using assms(2) cancel_quiet [OF assms(1)] by (auto dest!: ok_SomeD)
next
  case (Det_lock_isowner m b)
  then show ?thesis using assms(2) isowner_quiet [OF assms(1)] by (auto dest!: gives_SomeD)
next
  case (Det_lock_acquire m b)
  then show ?thesis using assms(2) acquire_quiet [OF assms(1)] by (auto dest!: gives_SomeD)
next
  case (Det_lock_release m)
  then show ?thesis using assms(2) release_quiet [OF assms(1)] by (auto dest!: ok_SomeD)
next
  case (Det_cond_signal m)
  then show ?thesis using assms(2) cond_signal_quiet [OF assms(1)] by (auto dest!: ok_SomeD)
next
  case (Det_cond_broadcast m)
  then show ?thesis using assms(2) cond_broadcast_quiet [OF assms(1)] by (auto dest!: ok_SomeD)
qed (use assms in auto)

lemma det_step_keeps:
  assumes "det_closed s" "det_step M cores p i c s = Some s'" "own_index i c"
  shows "keeps_ids s s' \<and> (\<not> needs_token c \<longrightarrow> tokenpos s' = tokenpos s)"
proof (cases "needs_token c")
  case False
  then have "c \<noteq> Det_putToken" by auto
  then have "quiet s s'" using det_call_keeps [OF assms(1) _ assms(3) False] assms(2) by (simp add: det_step_def)
  then show ?thesis using False by (simp add: quiet_def)
next
  case True
  then show ?thesis
    using assms putToken_keeps [OF assms(1)] deregister_step_keeps [OF assms(1)]
    by (cases c) (auto simp: det_step_def dest!: ok_SomeD)
qed

lemma enter_keeps:
  assumes "det_closed s" "enter M p i c s = Some (x, s')" "i \<in> registered s"
  shows "keeps_ids s s' \<and> (\<not> needs_token c \<longrightarrow> tokenpos s' = tokenpos s) \<and>
    (x = None \<longrightarrow> tokenpos s' = tokenpos s \<and> hold True c)"
proof -
  have refl: "quiet s s" using quietI [OF assms(1), of s] by simp
  show ?thesis
  proof (cases c)
    case (Det_waitFence keep)
    then show ?thesis using assms(2) refl by (simp add: quiet_def)
  next
    case Det_getToken
    then show ?thesis using assms(2) refl by (simp add: quiet_def)
  next
    case (Det_join g b)
    then show ?thesis using assms(2) join_enter_keeps [OF assms(1) _ assms(3)] by (auto dest!: ok_SomeD split: if_splits)
  next
    case (Det_cond_wait cv m)
    then show ?thesis using assms(2) cond_wait_enter_keeps [OF assms(1) _ assms(3)] by (auto dest!: ok_SomeD)
  next
    case (Det_barrier_wait b)
    then show ?thesis
      using assms(2) barrier_wait_enter_keeps [OF assms(1) _ assms(3)] by (auto dest!: ok_SomeD simp: bind_eq_Some_conv)
  next
    case (Det_sig_wait r)
    then show ?thesis using assms(2) sig_wait_enter_keeps [OF assms(1)] by (auto dest!: ok_SomeD)
  next
    case Det_waitParentNotify
    then have s': "s' = waitParentNotify_enter s" "x = Some W_parent" using assms(2) by auto
    have "quiet s s'" unfolding s' waitParentNotify_enter_def by (intro quietI [OF assms(1)]) auto
    then show ?thesis using s' Det_waitParentNotify by (simp add: quiet_def)
  next
    case Det_waitChildRegistered
    then have "s' = s \<or> s' = s\<lparr>childregistered := False\<rparr>"
      using assms(2) by (auto simp: waitChildRegistered_enter_def split: if_splits)
    then have "quiet s s'" by (intro quietI [OF assms(1)]) auto
    then show ?thesis using Det_waitChildRegistered by (simp add: quiet_def)
  qed (use assms in auto)
qed

lemma resume_keeps:
  assumes "det_closed s" "resume M p i x s = Some (y, s')" "i \<in> registered s"
  shows "keeps_ids s s' \<and> leaves_token i s s'"
proof -
  have refl: "quiet s s" using quietI [OF assms(1), of s] by simp
  show ?thesis
  proof (cases x)
    case (W_fence keep pc)
    then show ?thesis using assms(2) quiet_leaves [OF fence_quiet [OF assms(1)]] by (auto split: prod.splits)
  next
    case W_own
    then show ?thesis using assms(2) quiet_leaves [OF refl] by (auto split: if_splits)
  next
    case W_index
    then show ?thesis using assms(2) quiet_leaves [OF refl] by (auto split: if_splits)
  next
    case (W_join g)
    then show ?thesis using assms(2) join_wake_keeps [OF assms(1)] by (auto simp: leaves_token_def dest!: ok_SomeD)
  next
    case (W_cond m)
    then show ?thesis using assms(2) quiet_leaves [OF cond_wait_loop_quiet [OF assms(1)]] by (auto dest!: ok_SomeD)
  next
    case (W_mutex m)
    then show ?thesis
      using assms(2) quiet_leaves [OF cond_wait_finish_quiet [OF assms(1)]] by (auto dest!: ok_SomeD split: if_splits)
  next
    case (W_barrier b l f)
    then show ?thesis
      using assms(2) quiet_leaves [OF barrier_wait_leave_quiet [OF assms(1)]] by (auto dest!: ok_SomeD split: if_splits)
  next
    case (W_signal r)
    then show ?thesis
      using assms(2) sig_wait_wake_keeps [OF assms(1) _ assms(3)] by (auto simp: leaves_token_def dest!: ok_SomeD)
  next
    case W_child
    then have s': "s' = s\<lparr>childregistered := False\<rparr>" using assms(2) by (simp add: waitChildRegistered_wake_def)
    show ?thesis unfolding s' by (intro quiet_leaves quietI [OF assms(1)]) auto
  next
    case W_parent
    then show ?thesis using assms(2) quiet_leaves [OF refl] by simp
  qed
qed

end
