(* ===== verification/System_Token.thy ===== *)
theory System_Token
  imports System_Props
begin

text \<open>
  The invariant of the composed system: each process is at a point of its calls where the token the monitor
  says it holds is the token of the scheduler. \<open>T\<close> says which processes hold it.
\<close>

fun awaits :: "bool \<Rightarrow> wait \<Rightarrow> bool" where
  "awaits tok W_own = True"
| "awaits tok W_index = True"
| "awaits tok (W_join g) = True"
| "awaits tok (W_cond m) = True"
| "awaits tok (W_mutex m) = True"
| "awaits tok (W_barrier b l f) = False"
| "awaits tok (W_signal r) = False"
| "awaits tok x = tok"

definition rest_ok :: "bool \<Rightarrow> process \<Rightarrow> call list \<Rightarrow> bool" where
  "rest_ok tok P cs \<longleftrightarrow> holds_ok tok cs \<and> list_all (own_index (thread_index (eng P))) cs \<and>
     (\<not> leaving P \<longrightarrow> token_inv (foldl hold tok cs) (eng P))"

text \<open>A new process registers before it does anything else.\<close>

definition registering :: "int \<Rightarrow> process \<Rightarrow> call list \<Rightarrow> bool" where
  "registering p P cs \<longleftrightarrow> (\<exists>n parent rest. rest_ok False P rest \<and>
     (cs = Det_registerThread (thread_index (eng P)) p parent # rest \<or>
      cs = Sched_update n # Det_registerThread (thread_index (eng P)) p parent # rest))"

definition place_ok :: "(nat \<Rightarrow> int) \<Rightarrow> bool \<Rightarrow> int \<Rightarrow> process \<Rightarrow> bool" where
  "place_ok ids tok p P \<longleftrightarrow> (case at P of
     At cs \<Rightarrow> ids (thread_index (eng P)) = p \<and> rest_ok tok P cs \<or>
       ids (thread_index (eng P)) = 0 \<and> \<not> tok \<and> registering p P cs
   | Blocked x cs \<Rightarrow> ids (thread_index (eng P)) = p \<and> rest_ok (awaits tok x) P cs
   | Forked c parent \<Rightarrow> \<not> tok
   | Gone \<Rightarrow> \<not> tok)"

fun in_use :: "place \<Rightarrow> bool" where
  "in_use (At cs) = True"
| "in_use (Blocked x cs) = True"
| "in_use l = False"

abbreviation index_of :: "process \<Rightarrow> nat" where "index_of P \<equiv> thread_index (eng P)"
abbreviation ids_of :: "'m det \<Rightarrow> nat \<Rightarrow> int" where "ids_of d \<equiv> \<lambda>t. tid (entries d t)"

definition procs_ok :: "nat \<Rightarrow> (nat \<Rightarrow> int) \<Rightarrow> (int \<rightharpoonup> process) \<Rightarrow> bool" where
  "procs_ok n ids F \<longleftrightarrow> (\<forall>t\<ge>n. ids t = 0) \<and>
     (\<forall>t. ids t \<noteq> 0 \<longrightarrow> (\<exists>P. F (ids t) = Some P \<and> (\<forall>c par. at P \<noteq> Forked c par) \<and> index_of P = t)) \<and>
     (\<forall>p P. F p = Some P \<longrightarrow> 0 < p \<and> (in_use (at P) \<longrightarrow> index_of P < n)) \<and>
     (\<forall>p q P Q. F p = Some P \<longrightarrow> F q = Some Q \<longrightarrow> in_use (at P) \<longrightarrow> in_use (at Q) \<longrightarrow> index_of P = index_of Q \<longrightarrow> p = q)"

definition token_ok :: "nat option \<Rightarrow> (nat \<Rightarrow> int) \<Rightarrow> (int \<rightharpoonup> process) \<Rightarrow> (int \<Rightarrow> bool) \<Rightarrow> bool" where
  "token_ok t ids F T \<longleftrightarrow> (\<forall>p P. F p = Some P \<longrightarrow> place_ok ids (T p) p P) \<and>
     (\<forall>p. T p \<longrightarrow> (\<exists>P. F p = Some P \<and> in_use (at P) \<and> t = Some (index_of P) \<and> ids (index_of P) = p))"

definition world_inv :: "world \<Rightarrow> (int \<Rightarrow> bool) \<Rightarrow> bool" where
  "world_inv w T \<longleftrightarrow> det_closed (wdet w) \<and> procs_ok (next_index w) (ids_of (wdet w)) (wproc w) \<and>
     token_ok (tokenpos (wdet w)) (ids_of (wdet w)) (wproc w) T"


subsection \<open>Who has the token\<close>





subsection \<open>A step of one process\<close>




subsection \<open>Steps\<close>




lemma not_registering: "rest_ok tok P (c # cs) \<Longrightarrow> c \<noteq> Det_registerThread i p par"
  by (auto simp: rest_ok_def)


lemma rest_ok_at [simp]: "rest_ok tok (P\<lparr>at := l\<rparr>) cs = rest_ok tok P cs" "registering p (P\<lparr>at := l\<rparr>) cs = registering p P cs"
  by (simp_all add: rest_ok_def registering_def)





lemma in_use_settle [simp]: "in_use (settle x cs)"
  by (cases x) simp_all





text \<open>The memory and the log do not matter.\<close>

lemma det_closed_memory [simp]: "det_closed (d\<lparr>memory := m\<rparr>) = det_closed d"
  by (simp add: det_closed_def registered_def)

lemma inv_memory [simp]:
  "world_inv (w\<lparr>wdet := (wdet w)\<lparr>memory := m\<rparr>\<rparr>) T = world_inv w T" "world_inv (w\<lparr>wlog := l\<rparr>) T = world_inv w T"
  by (simp_all add: world_inv_def)






subsection \<open>Every step keeps the invariant\<close>






subsection \<open>The start\<close>






end
