(* ===== verification/System_Example.thy ===== *)
theory System_Example
  imports System_Token
begin




















end
