(* ===== verification/Library.thy ===== *)
theory Library
  imports Exports System_Props Xmemory_Props Heap_Clients
begin

text \<open>
  The rest of \<^verbatim>\<open>tthread.cpp\<close>: the start and the end of the library in a process, the functions that make
  and destroy synchronization objects, those that only answer, and the mappings of the program.

  What \<open>sync_entry_shared\<close> shows is why \<open>setSyncEntry\<close> of \<^verbatim>\<open>determ.h\<close> writes the pointer twice: the entry of a
  mutex is found by the process that made it and, before that process commits, by the others.
\<close>

subsection \<open>Start and end\<close>

text \<open>The static variables of a process, and the system it is part of.\<close>

record library =
  initialized :: bool
  protect_mmap :: bool
  lib_world :: world

text \<open>
  \<open>g\<close> is what \<open>mmap\<close> returned for \<open>global_data\<close>, which is written without a check; \<open>no_log\<close> and \<open>no_protect\<close>
  say that the variables of the environment are set, \<open>gend\<close> is the end of the globals. \<open>None\<close>: the process
  ends in the constructor.
\<close>

definition layout_of :: "u64 \<Rightarrow> xmemory \<Rightarrow> memorylayout" where
  "layout_of gend m = (case memory_getLayout gend m of (hs, he, gs, ge) \<Rightarrow>
     \<lparr>globalStart = gs, globalEnd = ge, heapStart = hs, heapEnd = he\<rparr>)"

definition initialize ::
  "env \<Rightarrow> int \<Rightarrow> u64 \<Rightarrow> bool \<Rightarrow> bool \<Rightarrow> u64 \<Rightarrow> xmemory \<Rightarrow> kheap \<times> isource store \<Rightarrow> xbitmap \<Rightarrow> library option" where
  "initialize E p g no_log no_protect gend m h b =
     (if g = MAP_FAILED then None
      else map_option (\<lambda>w. \<lparr>initialized = True, protect_mmap = \<not> no_protect, lib_world = w\<rparr>)
             (world_start E p m h b (xlogger_new p (layout_of gend m) (\<not> no_log))))"

definition lib_finalize :: "env \<Rightarrow> int \<Rightarrow> nat \<Rightarrow> xrun \<Rightarrow> library \<Rightarrow> library option" where
  "lib_finalize E p i s lib =
     Option.bind (do_calls E p i (fst (run_finalize s)) (lib_world lib)) (\<lambda>w.
     map_option (\<lambda>m. lib\<lparr>initialized := False, lib_world := w\<lparr>wdet := (wdet w)\<lparr>memory := m\<rparr>\<rparr>\<rparr>)
       (ok (memory_closeProtection p (memory (wdet w)))))"

text \<open>After the end nothing is protected any more, in either region, and no access is private.\<close>

lemma finalize_opens:
  assumes "lib_finalize E p i s lib = Some lib'" "r \<in> {globals, heap_region}"
  defines "l \<equiv> procs (r (memory (wdet (lib_world lib')))) p"
  shows "\<not> initialized lib' \<and> \<not> isCopyOnWrite l \<and> \<not> mapPrivate l \<and> prot l q = Prot_RW \<and> copies l q = None"
proof -
  have "memory_closeProtection p m = Inr m' \<Longrightarrow>
      \<not> isCopyOnWrite (procs (r m') p) \<and> \<not> mapPrivate (procs (r m') p) \<and> prot (procs (r m') p) q = Prot_RW \<and>
      copies (procs (r m') p) q = None" for m m'
    using assms(2) by (auto simp: memory_closeProtection_def on_globals_def on_heap_def closeProtection_def
        setProtection_def share_def heap_region_def set_region_def)
  moreover obtain w m where "memory_closeProtection p (memory (wdet w)) = Inr m"
    "lib' = lib\<lparr>initialized := False, lib_world := w\<lparr>wdet := (wdet w)\<lparr>memory := m\<rparr>\<rparr>\<rparr>"
    using assms(1) by (auto simp: lib_finalize_def bind_eq_Some_conv dest!: ok_SomeD)
  ultimately show ?thesis unfolding l_def by simp
qed

subsection \<open>Functions that only answer\<close>

definition run_id :: "xrun \<Rightarrow> int" where "run_id s = thr_id s"
definition run_threadindex :: "xrun \<Rightarrow> nat" where "run_threadindex s = thread_index s"

definition api_getpid :: "bool \<Rightarrow> xrun \<Rightarrow> int" where "api_getpid init s = (if init then run_id s else 0)"

text \<open>\<open>xrun.h\<close> is compiled with the function above: its own \<open>getpid\<close> is that one. \<open>master\<close> is the answer of the system.\<close>

definition isMaster :: "bool \<Rightarrow> int \<Rightarrow> xrun \<Rightarrow> bool" where "isMaster init master s = (api_getpid init s = master)"

definition pthread_self :: "bool \<Rightarrow> xrun \<Rightarrow> int" where "pthread_self init s = (if init then run_id s else 0)"
definition api_sched_yield :: int where "api_sched_yield = 0"
definition pthread_setconcurrency :: "int \<Rightarrow> int" where "pthread_setconcurrency n = 0"
definition pthread_attr :: int where "pthread_attr = 0"
definition pthread_mutexattr :: int where "pthread_mutexattr = 0"

text \<open>The result and what is stored through the pointer.\<close>

definition pthread_attr_getstacksize :: "int \<times> u64" where "pthread_attr_getstacksize = (0, 1048576)"

subsection \<open>Synchronization objects\<close>

text \<open>The functions of \<^verbatim>\<open>xrun.h\<close>, then the exported ones; \<open>p\<close> is the process.\<close>

definition run_mutex_init :: "'m memops \<Rightarrow> int \<Rightarrow> u64 \<Rightarrow> 'm det \<Rightarrow> (int \<times> 'm det) res" where
  "run_mutex_init M p mutex d = rbind (lock_init M p mutex d) (\<lambda>(e, d1). Inr (0, d1))"

definition run_mutex_destroy :: "'m memops \<Rightarrow> int \<Rightarrow> u64 \<Rightarrow> 'm det \<Rightarrow> (int \<times> 'm det) res" where
  "run_mutex_destroy M p mutex d = rbind (lock_destroy M p mutex d) (\<lambda>d1. Inr (0, d1))"

definition run_cond_init :: "'m memops \<Rightarrow> int \<Rightarrow> u64 \<Rightarrow> 'm det \<Rightarrow> 'm det res" where
  "run_cond_init M p cond d = rbind (cond_init M p cond d) (\<lambda>(e, d1). Inr d1)"

definition run_cond_destroy :: "'m memops \<Rightarrow> int \<Rightarrow> u64 \<Rightarrow> 'm det \<Rightarrow> 'm det res" where
  "run_cond_destroy M p cond d = cond_destroy M p cond d"

definition run_barrier_init :: "'m memops \<Rightarrow> int \<Rightarrow> u64 \<Rightarrow> u32 \<Rightarrow> 'm det \<Rightarrow> (int \<times> 'm det) res" where
  "run_barrier_init M p bar count d = rbind (barrier_init M p bar (scast count) d) (\<lambda>d1. Inr (0, d1))"

definition run_barrier_destroy :: "'m memops \<Rightarrow> int \<Rightarrow> u64 \<Rightarrow> 'm det \<Rightarrow> (int \<times> 'm det) res" where
  "run_barrier_destroy M p bar d = rbind (barrier_destroy M p bar d) (\<lambda>d1. Inr (0, d1))"

definition pthread_mutex_init :: "bool \<Rightarrow> 'm memops \<Rightarrow> int \<Rightarrow> u64 \<Rightarrow> 'm det \<Rightarrow> (int \<times> 'm det) res" where
  "pthread_mutex_init init M p mutex d = (if init then run_mutex_init M p mutex d else Inr (0, d))"

text \<open>The name is misspelt in the source, so \<open>pthread_mutex_destroy\<close> of the C library is not replaced.\<close>

definition pthread_mutex_destory :: "bool \<Rightarrow> 'm memops \<Rightarrow> int \<Rightarrow> u64 \<Rightarrow> 'm det \<Rightarrow> (int \<times> 'm det) res" where
  "pthread_mutex_destory init M p mutex d = (if init then run_mutex_destroy M p mutex d else Inr (0, d))"

definition pthread_cond_init :: "bool \<Rightarrow> 'm memops \<Rightarrow> int \<Rightarrow> u64 \<Rightarrow> 'm det \<Rightarrow> (int \<times> 'm det) res" where
  "pthread_cond_init init M p cond d =
     (if init then rbind (run_cond_init M p cond d) (\<lambda>d1. Inr (0, d1)) else Inr (0, d))"

definition pthread_cond_destroy :: "bool \<Rightarrow> 'm memops \<Rightarrow> int \<Rightarrow> u64 \<Rightarrow> 'm det \<Rightarrow> (int \<times> 'm det) res" where
  "pthread_cond_destroy init M p cond d =
     (if init then rbind (run_cond_destroy M p cond d) (\<lambda>d1. Inr (0, d1)) else Inr (0, d))"

definition pthread_barrier_init :: "bool \<Rightarrow> 'm memops \<Rightarrow> int \<Rightarrow> u64 \<Rightarrow> u32 \<Rightarrow> 'm det \<Rightarrow> (int \<times> 'm det) res" where
  "pthread_barrier_init init M p bar count d = (if init then run_barrier_init M p bar count d else Inr (0, d))"

definition pthread_barrier_destroy :: "bool \<Rightarrow> 'm memops \<Rightarrow> int \<Rightarrow> u64 \<Rightarrow> 'm det \<Rightarrow> (int \<times> 'm det) res" where
  "pthread_barrier_destroy init M p bar d = (if init then run_barrier_destroy M p bar d else Inr (0, d))"

subsection \<open>Mappings and forced commits\<close>

text \<open>\<open>res\<close> is what the system returns, for the call as it is made; without protection it is passed on.\<close>

definition run_mmap :: "int \<Rightarrow> u64 \<Rightarrow> u64 \<Rightarrow> u32 \<Rightarrow> u32 \<Rightarrow> int \<Rightarrow> xmemory \<Rightarrow> (u64 \<times> xmemory) res" where
  "run_mmap p res len pr flags fd m = memory_map p res len pr flags fd m"

definition run_munmap :: "int \<Rightarrow> u64 \<Rightarrow> u64 \<Rightarrow> xmemory \<Rightarrow> int \<times> xmemory" where
  "run_munmap p addr len m = memory_unmap p addr len m"

definition api_mmap :: "library \<Rightarrow> int \<Rightarrow> u64 \<Rightarrow> u64 \<Rightarrow> u32 \<Rightarrow> u32 \<Rightarrow> int \<Rightarrow> xmemory \<Rightarrow> (u64 \<times> xmemory) res" where
  "api_mmap lib p res len pr flags fd m =
     (if initialized lib \<and> protect_mmap lib then run_mmap p res len pr flags fd m else Inr (res, m))"

definition api_munmap :: "library \<Rightarrow> int \<Rightarrow> int \<Rightarrow> u64 \<Rightarrow> u64 \<Rightarrow> xmemory \<Rightarrow> int \<times> xmemory" where
  "api_munmap lib p res addr len m =
     (if initialized lib \<and> protect_mmap lib then run_munmap p addr len m else (res, m))"

text \<open>The end of a transaction after the output is flushed; of the thread to commit, \<open>v\<close> is the \<open>tid\<close>.\<close>

definition flush_atomicEnd :: run_op where
  "flush_atomicEnd s = (if \<not> run_isCopyOnWrite s then ([], s) else ([Mem_commit], s))"

definition forceThreadCommit :: "int \<Rightarrow> int \<Rightarrow> xmemory \<Rightarrow> xmemory res" where
  "forceThreadCommit me v m = memory_forceCommit me v m"


subsection \<open>The word of an object in the memory of the processes\<close>

text \<open>Byte \<open>k\<close> of the globals, as process \<open>p\<close> sees it, and as it is in the file.\<close>

definition seen_byte :: "xpersist \<Rightarrow> int \<Rightarrow> nat \<Rightarrow> u8" where
  "seen_byte r p k = view r p (k div 4096) (k mod 4096)"

definition shared_byte :: "xpersist \<Rightarrow> nat \<Rightarrow> u8" where
  "shared_byte r k = persistent r (k div 4096) (k mod 4096)"

text \<open>The eight bytes at \<open>a\<close> lie in one page of the globals.\<close>

definition word_in_globals :: "xmemory \<Rightarrow> u64 \<Rightarrow> nat \<Rightarrow> bool" where
  "word_in_globals s a off \<longleftrightarrow> (\<forall>k<8. inRange (globals s) (a + of_nat k) \<and> \<not> inRange (heap_region s) (a + of_nat k) \<and>
     unat (a + of_nat k - startaddr (globals s)) = off + k) \<and> off mod 4096 \<le> 4088"

definition same_shape :: "xmemory \<Rightarrow> xmemory \<Rightarrow> bool" where
  "same_shape s s' \<longleftrightarrow> startaddr (globals s') = startaddr (globals s) \<and> pages (globals s') = pages (globals s) \<and>
     startaddr (heap_region s') = startaddr (heap_region s) \<and> pages (heap_region s') = pages (heap_region s)"

lemma same_shape_word: "same_shape s s' \<Longrightarrow> word_in_globals s' a off = word_in_globals s a off"
  by (simp add: same_shape_def word_in_globals_def inRange_def)

lemma one_page:
  assumes "off mod 4096 \<le> (4088 :: nat)" "k < 8"
  shows "(off + k) div 4096 = off div 4096" "(off + k) mod 4096 = off mod 4096 + k"
  using assms by (simp_all add: div_add1_eq [of off k] mod_add_eq [of off 4096 k, symmetric])

lemma word_in_globalsD:
  assumes "word_in_globals s a off" "k < 8"
  shows "inRange (globals s) (a + of_nat k)" "\<not> inRange (heap_region s) (a + of_nat k)"
    "unat (a + of_nat k - startaddr (globals s)) = off + k" "(off + k) div 4096 = off div 4096"
  using assms one_page by (auto simp: word_in_globals_def)

lemma on_globals_id:
  "\<exists>s'. on_globals p (\<lambda>_. Inr (globals s)) s = Inr s' \<and> globals s' = globals s \<and> same_shape s s'"
  by (simp add: on_globals_def same_shape_def heap_region_def set_region_def share_def)

lemma load_byte_open:
  assumes "word_in_globals s a off" "k < 8" "prot (procs (globals s) p) (off div 4096) \<noteq> Prot_None"
  shows "\<exists>s'. load_byte p pc (a + of_nat k) s = Inr (seen_byte (globals s) p (off + k), s') \<and> globals s' = globals s \<and> same_shape s s'"
proof -
  note w = word_in_globalsD [OF assms(1,2)]
  have "region_load p pc (a + of_nat k) (globals s) = Inr (seen_byte (globals s) p (off + k), globals s)"
    using assms(3) unfolding region_load_def w(3) by (simp add: numeral_2_eq_2 seen_byte_def w(4))
  then show ?thesis using on_globals_id [of p s] w(1,2) by (auto simp: load_byte_def)
qed

lemma load_word_open:
  assumes "word_in_globals s a off" "prot (procs (globals s) p) (off div 4096) \<noteq> Prot_None"
  shows "\<exists>s'. load_word p pc a s = Inr (le64 (\<lambda>k. seen_byte (globals s) p (off + k)), s') \<and> globals s' = globals s \<and> same_shape s s'"
proof -
  let ?step = "\<lambda>k (f, s). rbind (load_byte p pc (a + of_nat k) s) (\<lambda>(b, s1). Inr (f(k := b), s1))"
  have "\<exists>f s'. rfold ?step ks (f0, t) = Inr (f, s') \<and> globals s' = globals s \<and> same_shape s s' \<and>
      (\<forall>k. f k = (if k \<in> set ks then seen_byte (globals s) p (off + k) else f0 k))"
    if "set ks \<subseteq> {..<8}" "globals t = globals s" "same_shape s t" for ks f0 t
    using that
  proof (induction ks arbitrary: f0 t)
    case (Cons k ks)
    have "word_in_globals t a off" using Cons.prems(3) assms(1) same_shape_word by blast
    then obtain u where u: "load_byte p pc (a + of_nat k) t = Inr (seen_byte (globals s) p (off + k), u)" "globals u = globals s" "same_shape t u"
      using load_byte_open [of t a off k p pc] Cons.prems(1,2) assms(2) by auto
    then have "same_shape s u" using Cons.prems(3) by (simp add: same_shape_def)
    with Cons.IH [of u "f0(k := seen_byte (globals s) p (off + k))"] u Cons.prems(1) show ?case by auto
  qed auto
  from this [of "[0 ..< 8]" s "\<lambda>_. 0"] obtain f s' where
    f: "rfold ?step [0 ..< 8] (\<lambda>_. 0, s) = Inr (f, s')" "globals s' = globals s" "same_shape s s'"
      "\<forall>k. f k = (if k \<in> set [0 ..< 8] then seen_byte (globals s) p (off + k) else 0)"
    by (auto simp: same_shape_def lessThan_atLeast0)
  have "le64 f = le64 (\<lambda>k. seen_byte (globals s) p (off + k))" by (rule le64_cong) (simp add: f(4))
  then show ?thesis using f(1-3) by (auto simp: load_word_def)
qed

text \<open>What a store changes in the globals: the private copy of the page.\<close>

definition stored_upto :: "int \<Rightarrow> nat \<Rightarrow> u64 \<Rightarrow> nat set \<Rightarrow> xpersist \<Rightarrow> xpersist \<Rightarrow> bool" where
  "stored_upto p off v K g g' \<longleftrightarrow> persistent g' = persistent g \<and> (\<forall>t. t \<noteq> p \<longrightarrow> procs g' t = procs g t) \<and>
     prot (procs g' p) = prot (procs g p) \<and> mapPrivate (procs g' p) = mapPrivate (procs g p) \<and>
     (\<forall>k\<in>K. \<exists>c. copies (procs g' p) (off div 4096) = Some c \<and> c ((off + k) mod 4096) = le_byte v k)"

lemma store_byte_open:
  assumes "word_in_globals s a off" "k < 8" "prot (procs (globals s) p) (off div 4096) = Prot_RW"
    "mapPrivate (procs (globals s) p)"
  shows "\<exists>s'. store_byte p pc (a + of_nat k) v s = Inr s' \<and> globals s' = write_byte p (off + k) v (globals s) \<and> same_shape s s'"
proof -
  note w = word_in_globalsD [OF assms(1,2)]
  have "region_store p pc (a + of_nat k) v (globals s) = Inr (write_byte p (off + k) v (globals s))"
    using assms(3) unfolding region_store_def w(3) by (simp add: numeral_2_eq_2 w(4))
  then show ?thesis using w(1,2)
    by (simp add: store_byte_def on_globals_def same_shape_def heap_region_def set_region_def share_def write_byte_def Let_def)
qed

lemma upto_write:
  assumes "stored_upto p off v K g g'" "k < 8" "K \<subseteq> {..<8}" "off mod 4096 \<le> 4088" "mapPrivate (procs g p)"
  shows "stored_upto p off v (insert k K) g (write_byte p (off + k) (le_byte v k) g')"
proof -
  have "(off + j) mod 4096 = (off + k) mod 4096 \<longleftrightarrow> j = k" if "j < 8" for j
    using that one_page(2) assms(2,4) by simp
  then show ?thesis using assms(1,3,5) one_page(1) [OF assms(4,2)] unfolding stored_upto_def write_byte_def Let_def view_def
    by (fastforce simp: subset_iff)
qed

lemma store_word_open:
  assumes "word_in_globals s a off" "prot (procs (globals s) p) (off div 4096) = Prot_RW" "mapPrivate (procs (globals s) p)"
  shows "\<exists>s'. store_word p pc a v s = Inr s' \<and> same_shape s s' \<and> stored_upto p off v {..<8} (globals s) (globals s')"
proof -
  have "\<exists>s'. rfold (\<lambda>k. store_byte p pc (a + of_nat k) (le_byte v k)) ks t = Inr s' \<and> same_shape s s' \<and>
      stored_upto p off v (K \<union> set ks) (globals s) (globals s')"
    if "set ks \<union> K \<subseteq> {..<8}" "same_shape s t" "stored_upto p off v K (globals s) (globals t)" for ks K t
    using that
  proof (induction ks arbitrary: K t)
    case (Cons k ks)
    have k: "k < 8" "K \<subseteq> {..<8}" using Cons.prems(1) by auto
    have "word_in_globals t a off" "prot (procs (globals t) p) (off div 4096) = Prot_RW" "mapPrivate (procs (globals t) p)"
      using Cons.prems(2,3) assms same_shape_word by (auto simp: stored_upto_def)
    then obtain u where u: "store_byte p pc (a + of_nat k) (le_byte v k) t = Inr u"
      "globals u = write_byte p (off + k) (le_byte v k) (globals t)" "same_shape t u"
      using store_byte_open [OF _ k(1)] by blast
    have "same_shape s u" using u(3) Cons.prems(2) by (simp add: same_shape_def)
    moreover have "stored_upto p off v (insert k K) (globals s) (globals u)"
      unfolding u(2) using upto_write [OF Cons.prems(3) k] assms(1,3) by (simp add: word_in_globals_def)
    ultimately show ?case using Cons.IH [of "insert k K" u] u(1) Cons.prems(1) by auto
  qed auto
  from this [of "[0 ..< 8]" "{}" s] show ?thesis
    by (simp add: store_word_def same_shape_def stored_upto_def lessThan_atLeast0)
qed

text \<open>The write past the protection: the bytes of the file, whatever the copies hold.\<close>

lemma mem_write_open:
  assumes "word_in_globals s a off"
  shows "\<exists>s'. memory_mem_write i a v s = Inr s' \<and> same_shape s s' \<and> procs (globals s') = procs (globals s) \<and>
    (\<forall>k<8. shared_byte (globals s') (off + k) = le_byte v k)"
proof -
  note w = word_in_globalsD [OF assms, of 0, simplified]
  have "shared_byte (mem_write a v (globals s)) (off + k) = le_byte v k" if "k < 8" for k
    using that by (simp add: shared_byte_def mem_write_def w(3) Let_def le_byte_def)
  then show ?thesis using w(1,2)
    by (simp add: memory_mem_write_def on_globals_def same_shape_def heap_region_def set_region_def share_def mem_write_def Let_def)
qed

lemma set_sync_open:
  assumes w: "word_in_globals (memory d) a off" and own: "prot (procs (globals (memory d)) p) (off div 4096) = Prot_RW"
      "mapPrivate (procs (globals (memory d)) p)"
  shows "\<exists>m. setSyncEntry (memory_ops pc) p a e d = Inr (d\<lparr>memory := m\<rparr>) \<and> same_shape (memory d) m \<and>
    (\<forall>k<8. seen_byte (globals m) p (off + k) = le_byte e k \<and> shared_byte (globals m) (off + k) = le_byte e k) \<and>
    (\<forall>t. prot (procs (globals m) t) = prot (procs (globals (memory d)) t)) \<and>
    (\<forall>t. t \<noteq> p \<longrightarrow> copies (procs (globals m) t) = copies (procs (globals (memory d)) t))"
proof -
  obtain s where s: "store_word p pc a e (memory d) = Inr s" "same_shape (memory d) s"
      "stored_upto p off e {..<8} (globals (memory d)) (globals s)"
    using store_word_open [OF assms] by blast
  have ws: "word_in_globals s a off" using s(2) w same_shape_word by blast
  obtain m where m: "memory_mem_write 0 a e s = Inr m" "same_shape s m" "procs (globals m) = procs (globals s)"
      "\<forall>k<8. shared_byte (globals m) (off + k) = le_byte e k"
    using mem_write_open [OF ws] by blast
  have "seen_byte (globals m) p (off + k) = le_byte e k" if "k < 8" for k
    using s(3) word_in_globalsD(4) [OF ws that] that m(3) by (force simp: stored_upto_def seen_byte_def view_def)
  moreover have "prot (procs (globals m) t) = prot (procs (globals (memory d)) t)" for t
    using s(3) m(3) by (cases "t = p") (auto simp: stored_upto_def)
  ultimately show ?thesis using s m
    by (intro exI [of _ m]) (simp add: setSyncEntry_def memory_ops_def same_shape_def stored_upto_def)
qed

lemma get_sync_open:
  assumes "word_in_globals (memory d) a off" "prot (procs (globals (memory d)) t) (off div 4096) \<noteq> Prot_None"
    "\<And>k. k < 8 \<Longrightarrow> seen_byte (globals (memory d)) t (off + k) = le_byte e k"
  shows "\<exists>d'. getSyncEntry (memory_ops pc) t a d = Inr (e, d')"
proof -
  have "le64 (\<lambda>k. seen_byte (globals (memory d)) t (off + k)) = le64 (le_byte e)"
    by (rule le64_cong) (rule assms(3))
  then show ?thesis using load_word_open [OF assms(1,2), of pc]
    by (auto simp: getSyncEntry_def memory_ops_def)
qed

text \<open>
  C6: The entry that \<open>pthread_mutex_init\<close> makes is found by every process. When process \<open>p\<close> initializes a
  mutex whose word lies in one page of the globals that \<open>p\<close> has already opened for writing, privately mapped,
  then a new lock entry, not null, free and with no users, is what \<open>getSyncEntry\<close> returns afterwards to \<open>p\<close>,
  from its private copy, and to every process that may read the page and has no private copy of it, from the
  file, although \<open>p\<close> has not committed. A process that has a private copy of the page keeps what it saw.
\<close>

theorem sync_entry_shared:
  assumes "word_in_globals (memory d) a off" "prot (procs (globals (memory d)) p) (off div 4096) = Prot_RW"
    "mapPrivate (procs (globals (memory d)) p)" "pthread_mutex_init True (memory_ops pc) p a d = Inr (r, d')"
  shows "\<exists>e. e \<noteq> 0 \<and> total_users (locks d' e) = 0 \<and> \<not> is_acquired (locks d' e) \<and> r = 0 \<and>
    (\<forall>t. (t = p \<or> copies (procs (globals (memory d)) t) (off div 4096) = None) \<longrightarrow>
       prot (procs (globals (memory d)) t) (off div 4096) \<noteq> Prot_None \<longrightarrow>
       (\<exists>d''. getSyncEntry (memory_ops pc) t a d' = Inr (e, d''))) \<and>
    (\<forall>t. t \<noteq> p \<longrightarrow> copies (procs (globals (memory d')) t) = copies (procs (globals (memory d)) t))"
proof -
  obtain e s1 where e: "allocSyncEntry sizeof_LockEntry d = Inr (e, s1)"
      "setSyncEntry (memory_ops pc) p a e (upd_lock e (\<lambda>l. l\<lparr>total_users := 0, last_thread := 0, is_acquired := False\<rparr>) s1) = Inr d'"
      "r = 0"
    using assms(4) by (auto simp: pthread_mutex_init_def run_mutex_init_def lock_init_def rbind_Inr_iff Let_def)
  have a: "e \<noteq> 0" "memory s1 = memory d"
    using e(1) by (auto simp: allocSyncEntry_def rbind_Inr_iff dest: internalheap_pp)
  obtain m where m: "d' = (upd_lock e (\<lambda>l. l\<lparr>total_users := 0, last_thread := 0, is_acquired := False\<rparr>) s1)\<lparr>memory := m\<rparr>"
      "same_shape (memory d) m"
      "\<forall>k<8. seen_byte (globals m) p (off + k) = le_byte e k \<and> shared_byte (globals m) (off + k) = le_byte e k"
      "\<forall>t. prot (procs (globals m) t) = prot (procs (globals (memory d)) t)"
      "\<forall>t. t \<noteq> p \<longrightarrow> copies (procs (globals m) t) = copies (procs (globals (memory d)) t)"
    using set_sync_open [of "upd_lock e (\<lambda>l. l\<lparr>total_users := 0, last_thread := 0, is_acquired := False\<rparr>) s1" a off p pc e]
      assms(1-3) a(2) e(2) by auto
  have w: "word_in_globals m a off" using assms(1) m(2) same_shape_word by blast
  have "\<exists>d''. getSyncEntry (memory_ops pc) t a d' = Inr (e, d'')"
    if "t = p \<or> copies (procs (globals (memory d)) t) (off div 4096) = None"
      "prot (procs (globals (memory d)) t) (off div 4096) \<noteq> Prot_None" for t
  proof (rule get_sync_open)
    show "word_in_globals (memory d') a off" "prot (procs (globals (memory d')) t) (off div 4096) \<noteq> Prot_None"
      using w that(2) m(4) by (simp_all add: m(1))
    show "seen_byte (globals (memory d')) t (off + k) = le_byte e k" if "k < 8" for k
    proof (cases "t = p")
      case True
      then show ?thesis using m(3) \<open>k < 8\<close> by (simp add: m(1))
    next
      case False
      have "shared_byte (globals m) (off + k) = le_byte e k" using m(3) \<open>k < 8\<close> by simp
      then show ?thesis using False m(5) \<open>t = p \<or> _\<close> word_in_globalsD(4) [OF w \<open>k < 8\<close>]
        by (simp add: m(1) seen_byte_def shared_byte_def view_def)
    qed
  qed
  then show ?thesis using a(1) e(3) m(1,5) by (auto intro!: exI [of _ e])
qed

text \<open>The internal heap in the middle of its mapping, and a process 1 that has written the first page of the globals.\<close>

definition lib_demo :: "xmemory det" where
  "lib_demo = determ_init (\<lambda>_. zero_entry) (\<lambda>_. \<lparr>prev = None, nxt = None\<rparr>)
     (ex_memory\<lparr>globals := (globals ex_memory)\<lparr>procs := (\<lambda>t. ex_proc\<lparr>prot := (\<lambda>_. if t = 1 then Prot_RW else Prot_Read)\<rparr>)\<rparr>\<rparr>)
     (kheap_init, \<lparr>cells = (\<lambda>_. 0), source = \<lparr>alreadyMalloced = False, mapped = 4096\<rparr>\<rparr>) \<lparr>bm_total = 81920, bm_cur = 1, bm_mem = (\<lambda>_. 0)\<rparr>"

lemma size2Class_16: "size2Class 16 = 1"
  by code_simp

lemma lib_demo_heap:
  "iheap lib_demo = (kheap_init, \<lparr>cells = (\<lambda>_. 0), source = \<lparr>alreadyMalloced = False, mapped = 4096\<rparr>\<rparr>)"
  by (simp add: lib_demo_def determ_init_def)

lemma lib_demo_entry: "\<exists>h. internalheap_malloc 16 (iheap lib_demo) = Inr (4144, h)"
  unfolding lib_demo_heap
  by (simp add: internalheap_malloc_def isource_malloc_def INTERNALHEAP_SIZE_def malloc_run size2Class_16)

lemma all_less_8: "(\<forall>k<8. P k) \<longleftrightarrow> P 0 \<and> P 1 \<and> P 2 \<and> P 3 \<and> P 4 \<and> P 5 \<and> P 6 \<and> P 7" for P :: "nat \<Rightarrow> bool"
  by (simp add: numeral_eq_Suc All_less_Suc conj_ac)

lemma lib_demo_word: "word_in_globals (memory lib_demo) 1048584 8"
  unfolding word_in_globals_def all_less_8
  by (simp add: lib_demo_def determ_init_def inRange_def ex_memory_def heap_region_def ex_region_def)

theorem sync_entry_shared_witness:
  "\<exists>d e. pthread_mutex_init True (memory_ops 0) 1 1048584 lib_demo = Inr (0, d) \<and> e \<noteq> 0 \<and>
     (\<exists>d1 d2. getSyncEntry (memory_ops 0) 1 1048584 d = Inr (e, d1) \<and> getSyncEntry (memory_ops 0) 2 1048584 d = Inr (e, d2))"
proof -
  let ?m = "memory lib_demo"
  have p: "prot (procs (globals ?m) 1) (8 div 4096) = Prot_RW" "mapPrivate (procs (globals ?m) 1)"
    "prot (procs (globals ?m) 2) (8 div 4096) \<noteq> Prot_None" "copies (procs (globals ?m) 2) (8 div 4096) = None"
    by (simp_all add: lib_demo_def determ_init_def ex_proc_def)
  obtain h where h: "internalheap_malloc 16 (iheap lib_demo) = Inr (4144, h)" using lib_demo_entry by blast
  let ?d = "upd_lock 4144 (\<lambda>l. l\<lparr>total_users := 0, last_thread := 0, is_acquired := False\<rparr>) (lib_demo\<lparr>iheap := h\<rparr>)"
  obtain m where "setSyncEntry (memory_ops 0) 1 1048584 4144 ?d = Inr (?d\<lparr>memory := m\<rparr>)"
    using set_sync_open [of ?d 1048584 8 1 0 4144] lib_demo_word p by auto
  then obtain d where d: "pthread_mutex_init True (memory_ops 0) 1 1048584 lib_demo = Inr (0, d)"
    by (simp add: pthread_mutex_init_def run_mutex_init_def lock_init_def allocSyncEntry_def sizeof_LockEntry_def h Let_def)
  show ?thesis using sync_entry_shared [OF lib_demo_word p(1,2) d] p d by auto
qed

end
