(* ===== verification/Thread_Objects.thy ===== *)
theory Thread_Objects
  imports Xmmap
begin

text \<open>
  The status object of a thread (\<open>ThreadStatus\<close> of \<^verbatim>\<open>xthread.h\<close>): a page that the parent maps before the \<open>clone\<close>,
  in which the child leaves its number and its result. Its address is the \<open>pthread_t\<close> of the thread.

  The page is shared, the mapping is not: a process has the mappings its parent had at the \<open>clone\<close>, and those
  it has made since. \<open>vmap\<close> says which object a process sees at an address, so one address may name different
  objects in different processes, and one object may be freed in one and still be read in another.
\<close>

record thread_status =
  ts_tid :: int
  ts_threadIndex :: nat
  ts_retval :: u64

record shared_objects =
  objs :: "nat \<Rightarrow> thread_status"
  vmap :: "int \<Rightarrow> u64 \<Rightarrow> nat option"
  fresh_obj :: nat

subsection \<open>Operations\<close>

text \<open>\<open>v\<close> is what \<open>mmap\<close> returned; it is not checked. The pages of a new anonymous mapping are zero.\<close>

definition allocateSharedObject :: "int \<Rightarrow> u64 \<Rightarrow> shared_objects \<Rightarrow> shared_objects" where
  "allocateSharedObject p v s =
     (if v = MAP_FAILED then s
      else s\<lparr>objs := (objs s)(fresh_obj s := \<lparr>ts_tid = 0, ts_threadIndex = 0, ts_retval = 0\<rparr>),
             vmap := (vmap s)(p := (vmap s p)(v \<mapsto> fresh_obj s)), fresh_obj := Suc (fresh_obj s)\<rparr>)"

definition freeSharedObject :: "int \<Rightarrow> u64 \<Rightarrow> shared_objects \<Rightarrow> shared_objects" where
  "freeSharedObject p v s = s\<lparr>vmap := (vmap s)(p := (vmap s p)(v := None))\<rparr>"

text \<open>An access of process \<open>p\<close> through the pointer \<open>v\<close>.\<close>

definition status_at :: "int \<Rightarrow> u64 \<Rightarrow> shared_objects \<Rightarrow> nat res" where
  "status_at p v s = (case vmap s p v of None \<Rightarrow> Inl Segv | Some i \<Rightarrow> Inr i)"

definition set_status :: "int \<Rightarrow> u64 \<Rightarrow> (thread_status \<Rightarrow> thread_status) \<Rightarrow> shared_objects \<Rightarrow> shared_objects res" where
  "set_status p v f s = rbind (status_at p v s) (\<lambda>i. Inr (s\<lparr>objs := (objs s)(i := f (objs s i))\<rparr>))"

text \<open>
  \<open>spawn\<close> with the parent's part of \<open>forkSpawn\<close>; \<open>child\<close> is what \<open>clone\<close> returned to the parent. When it fails
  the object stays mapped.
\<close>

definition xthread_spawn :: "int \<Rightarrow> u64 \<Rightarrow> int \<Rightarrow> shared_objects \<Rightarrow> u64 \<times> shared_objects" where
  "xthread_spawn p v child s =
     (let s1 = allocateSharedObject p v s in
      if child = - 1 then (0, s1) else (v, s1\<lparr>vmap := (vmap s1)(child := vmap s1 p)\<rparr>))"

text \<open>The child: its two stores after \<open>childRegister\<close>, and the last store of \<open>run_thread\<close>.\<close>

definition store_threadIndex :: "int \<Rightarrow> u64 \<Rightarrow> nat \<Rightarrow> shared_objects \<Rightarrow> shared_objects res" where
  "store_threadIndex c t index s = set_status c t (\<lambda>x. x\<lparr>ts_threadIndex := index\<rparr>) s"

definition store_tid :: "int \<Rightarrow> u64 \<Rightarrow> shared_objects \<Rightarrow> shared_objects res" where
  "store_tid c t s = set_status c t (\<lambda>x. x\<lparr>ts_tid := c\<rparr>) s"

definition run_thread_result :: "int \<Rightarrow> u64 \<Rightarrow> u64 \<Rightarrow> shared_objects \<Rightarrow> shared_objects res" where
  "run_thread_result c t r s = set_status c t (\<lambda>x. x\<lparr>ts_retval := r\<rparr>) s"

definition xthread_getThreadIndex :: "int \<Rightarrow> u64 \<Rightarrow> shared_objects \<Rightarrow> nat res" where
  "xthread_getThreadIndex p v s = rbind (status_at p v s) (\<lambda>i. Inr (ts_threadIndex (objs s i)))"

definition xthread_getThreadPid :: "int \<Rightarrow> u64 \<Rightarrow> shared_objects \<Rightarrow> int res" where
  "xthread_getThreadPid p v s = rbind (status_at p v s) (\<lambda>i. Inr (ts_tid (objs s i)))"

text \<open>\<open>join\<close>: the result, if the caller wants it.\<close>

definition xthread_join :: "int \<Rightarrow> u64 \<Rightarrow> bool \<Rightarrow> shared_objects \<Rightarrow> (u64 option \<times> shared_objects) res" where
  "xthread_join p v want s =
     (if want then rbind (status_at p v s) (\<lambda>i. Inr (Some (ts_retval (objs s i)), freeSharedObject p v s))
      else Inr (None, freeSharedObject p v s))"

text \<open>\<open>cancel\<close> and \<open>thread_kill\<close>: the index of the thread, and the signal and the process it is sent to.\<close>

definition xthread_thread_kill :: "int \<Rightarrow> u64 \<Rightarrow> int \<Rightarrow> shared_objects \<Rightarrow> ((nat \<times> int \<times> int) \<times> shared_objects) res" where
  "xthread_thread_kill p v sig s =
     rbind (status_at p v s) (\<lambda>i.
       Inr ((ts_threadIndex (objs s i), sig, ts_tid (objs s i)), freeSharedObject p v s))"

definition xthread_cancel :: "int \<Rightarrow> u64 \<Rightarrow> shared_objects \<Rightarrow> ((nat \<times> int \<times> int) \<times> shared_objects) res" where
  "xthread_cancel p v s = xthread_thread_kill p v 9 s"

subsection \<open>The objects of a run\<close>

text \<open>
  Where a thread is: the master; a child cloned with the handle \<open>t\<close>, until it has stored its number; running; out of the scheduler with the
  result \<open>r\<close>, which is when a join of it may go on; and after its last store.
\<close>

datatype phase = Th_main | Th_born u64 | Th_running u64 | Th_left u64 u64 | Th_done u64 u64

fun acts :: "phase \<Rightarrow> bool" where
  "acts Th_main = True" | "acts (Th_running t) = True" | "acts _ = False"

fun own_handle :: "phase \<Rightarrow> u64 option" where
  "own_handle Th_main = None" | "own_handle (Th_born t) = Some t" | "own_handle (Th_running t) = Some t"
| "own_handle (Th_left t r) = Some t" | "own_handle (Th_done t r) = Some t"

text \<open>\<open>kid\<close>: the process an object was made for. No thread joins, cancels or kills itself.\<close>

type_synonym obj_state = "shared_objects \<times> (int \<Rightarrow> phase option) \<times> (nat \<Rightarrow> int option)"

inductive obj_step :: "obj_state \<Rightarrow> obj_state \<Rightarrow> bool" where
  spawned: "obj_step (s, ph, kid) (s', ph(c \<mapsto> Th_born v), kid(fresh_obj s \<mapsto> c))"
    if "ph p = Some f" "acts f" "ph c = None" "c \<noteq> - 1" "v \<noteq> MAP_FAILED" "vmap s p v = None" "xthread_spawn p v c s = (w, s')"
| indexed: "obj_step (s, ph, kid) (s', ph, kid)"
    if "ph c = Some (Th_born t)" "store_threadIndex c t index s = Inr s'"
| registered: "obj_step (s, ph, kid) (s', ph(c \<mapsto> Th_running t), kid)"
    if "ph c = Some (Th_born t)" "store_tid c t s = Inr s'"
| deregistered: "obj_step (s, ph, kid) (s, ph(c \<mapsto> Th_left t r), kid)" if "ph c = Some (Th_running t)"
| stored: "obj_step (s, ph, kid) (s', ph(c \<mapsto> Th_done t r), kid)"
    if "ph c = Some (Th_left t r)" "run_thread_result c t r s = Inr s'"
| joined: "obj_step (s, ph, kid) (s', ph, kid)"
    if "ph p = Some f" "acts f" "own_handle f \<noteq> Some v" "xthread_join p v want s = Inr (x, s')"
| killed: "obj_step (s, ph, kid) (s', ph, kid)"
    if "ph p = Some f" "acts f" "own_handle f \<noteq> Some v" "xthread_thread_kill p v sig s = Inr (x, s')"

definition objects_start :: "int \<Rightarrow> obj_state" where
  "objects_start p =
     (\<lparr>objs = (\<lambda>_. \<lparr>ts_tid = 0, ts_threadIndex = 0, ts_retval = 0\<rparr>), vmap = (\<lambda>_ _. None), fresh_obj = 0\<rparr>, [p \<mapsto> Th_main], Map.empty)"

text \<open>What the object of a thread holds.\<close>

fun holds :: "int \<Rightarrow> phase \<Rightarrow> thread_status \<Rightarrow> bool" where
  "holds c Th_main x = False"
| "holds c (Th_born t) x = (ts_tid x = 0 \<and> ts_retval x = 0)"
| "holds c (Th_running t) x = (ts_tid x = c \<and> ts_retval x = 0)"
| "holds c (Th_left t r) x = (ts_tid x = c \<and> ts_retval x = 0)"
| "holds c (Th_done t r) x = (ts_tid x = c \<and> ts_retval x = r)"

definition objects_ok :: "obj_state \<Rightarrow> bool" where
  "objects_ok = (\<lambda>(s, ph, kid).
     (\<forall>p v i. vmap s p v = Some i \<longrightarrow> kid i \<noteq> None) \<and>
     (\<forall>i c. kid i = Some c \<longrightarrow> i < fresh_obj s \<and> (\<exists>f. ph c = Some f \<and> holds c f (objs s i))) \<and>
     (\<forall>i j c. kid i = Some c \<longrightarrow> kid j = Some c \<longrightarrow> i = j) \<and>
     (\<forall>c f t. ph c = Some f \<longrightarrow> own_handle f = Some t \<longrightarrow> (\<exists>i. vmap s c t = Some i \<and> kid i = Some c)))"

lemma objects_okI:
  assumes "\<And>p v i. vmap s p v = Some i \<Longrightarrow> kid i \<noteq> None"
    "\<And>i c. kid i = Some c \<Longrightarrow> i < fresh_obj s \<and> (\<exists>f. ph c = Some f \<and> holds c f (objs s i))"
    "\<And>i j c. kid i = Some c \<Longrightarrow> kid j = Some c \<Longrightarrow> i = j"
    "\<And>c f t. ph c = Some f \<Longrightarrow> own_handle f = Some t \<Longrightarrow> \<exists>i. vmap s c t = Some i \<and> kid i = Some c"
  shows "objects_ok (s, ph, kid)"
  using assms unfolding objects_ok_def by simp

lemma objects_okD:
  assumes "objects_ok (s, ph, kid)"
  shows "vmap s p v = Some i \<Longrightarrow> kid i \<noteq> None"
    "kid i = Some c \<Longrightarrow> i < fresh_obj s" "kid i = Some c \<Longrightarrow> \<exists>f. ph c = Some f \<and> holds c f (objs s i)"
    "kid i = Some c \<Longrightarrow> kid j = Some c \<Longrightarrow> i = j"
    "ph c = Some f \<Longrightarrow> own_handle f = Some t \<Longrightarrow> \<exists>i. vmap s c t = Some i \<and> kid i = Some c"
  using assms unfolding objects_ok_def by simp_all

text \<open>A child that goes from one place to the next, and changes nothing but its own object.\<close>

lemma ok_advance:
  assumes ok: "objects_ok (s, ph, kid)" and c: "ph c = Some f" "own_handle f = Some t" "own_handle g = Some t"
    and s': "set_status c t h s = Inr s'" and h: "\<And>x. holds c f x \<Longrightarrow> holds c g (h x)"
  shows "objects_ok (s', ph(c \<mapsto> g), kid)"
proof -
  note D = objects_okD [OF ok]
  obtain i where i: "vmap s c t = Some i" "kid i = Some c" using D(5) [OF c(1,2)] by blast
  then have e: "s' = s\<lparr>objs := (objs s)(i := h (objs s i))\<rparr>" using s' by (simp add: set_status_def status_at_def)
  show ?thesis
  proof (rule objects_okI)
    show "vmap s' p v = Some j \<Longrightarrow> kid j \<noteq> None" for p v j using D(1) by (simp add: e)
    show "kid j = Some d \<Longrightarrow> j < fresh_obj s' \<and> (\<exists>f. (ph(c \<mapsto> g)) d = Some f \<and> holds d f (objs s' j))" for j d
      using D(2-4) i(2) c(1) h unfolding e by (cases "d = c") fastforce+
    show "kid j = Some d \<Longrightarrow> kid k = Some d \<Longrightarrow> j = k" for j k d using D(4) by blast
    show "(ph(c \<mapsto> g)) d = Some f' \<Longrightarrow> own_handle f' = Some u \<Longrightarrow> \<exists>j. vmap s' d u = Some j \<and> kid j = Some d" for d f' u
      using D(5) i c(3) by (cases "d = c") (auto simp: e)
  qed
qed

lemma ok_free:
  assumes ok: "objects_ok (s, ph, kid)" and p: "ph p = Some f" "own_handle f \<noteq> Some v"
  shows "objects_ok (freeSharedObject p v s, ph, kid)"
  using assms unfolding objects_ok_def freeSharedObject_def by (fastforce split: if_splits)

lemma ok_spawn:
  assumes ok: "objects_ok (s, ph, kid)" and p: "ph p = Some f" "ph c = None" "c \<noteq> - 1" "v \<noteq> MAP_FAILED" "vmap s p v = None"
    and s': "xthread_spawn p v c s = (w, s')"
  shows "objects_ok (s', ph(c \<mapsto> Th_born v), kid(fresh_obj s \<mapsto> c))"
proof -
  note D = objects_okD [OF ok]
  let ?m = "(vmap s p)(v \<mapsto> fresh_obj s)"
  have e: "vmap s' = (vmap s)(p := ?m, c := ?m)" "fresh_obj s' = Suc (fresh_obj s)"
    "objs s' = (objs s)(fresh_obj s := \<lparr>ts_tid = 0, ts_threadIndex = 0, ts_retval = 0\<rparr>)"
    using s' p(3,4) by (auto simp: xthread_spawn_def allocateSharedObject_def Let_def)
  have new: "kid i \<noteq> Some c" for i using D(3) p(2) by fastforce
  have old: "kid i = Some d \<Longrightarrow> i \<noteq> fresh_obj s" for i d using D(2) by fastforce
  show ?thesis
  proof (rule objects_okI)
    show "vmap s' q u = Some i \<Longrightarrow> (kid(fresh_obj s \<mapsto> c)) i \<noteq> None" for q u i
      using D(1) by (auto simp: e split: if_splits)
    show "(kid(fresh_obj s \<mapsto> c)) i = Some d \<Longrightarrow> i < fresh_obj s' \<and> (\<exists>f. (ph(c \<mapsto> Th_born v)) d = Some f \<and> holds d f (objs s' i))" for i d
      using D(2,3) new by (cases "i = fresh_obj s") (fastforce simp: e)+
    show "(kid(fresh_obj s \<mapsto> c)) i = Some d \<Longrightarrow> (kid(fresh_obj s \<mapsto> c)) j = Some d \<Longrightarrow> i = j" for i j d
      using D(4) new by (auto split: if_splits)
    show "(ph(c \<mapsto> Th_born v)) d = Some g \<Longrightarrow> own_handle g = Some t \<Longrightarrow> \<exists>i. vmap s' d t = Some i \<and> (kid(fresh_obj s \<mapsto> c)) i = Some d" for d g t
      using D(5) [of d g t] old p(2,5) by (auto simp: e split: if_splits)
  qed
qed

lemma obj_step_ok:
  assumes "obj_step x y" "objects_ok x"
  shows "objects_ok y"
  using assms
proof cases
  case (indexed ph c t index s s' kid)
  then have "objects_ok (s', ph(c \<mapsto> Th_born t), kid)"
    using ok_advance [of s ph kid c "Th_born t" t "Th_born t"] assms(2) by (auto simp: store_threadIndex_def)
  moreover have "ph(c \<mapsto> Th_born t) = ph" using indexed(3) by auto
  ultimately show ?thesis using indexed(2) by simp
next
  case (registered ph c t s s' kid)
  then show ?thesis using ok_advance [of s ph kid c "Th_born t" t "Th_running t"] assms(2) by (auto simp: store_tid_def)
next
  case (deregistered ph c t s kid r)
  then show ?thesis using assms(2) ok_advance [of s ph kid c "Th_running t" t "Th_left t r" "\<lambda>x. x" s] objects_okD(5) [of s ph kid c]
    by (fastforce simp: set_status_def status_at_def)
next
  case (stored ph c t r s s' kid)
  then show ?thesis using ok_advance [of s ph kid c "Th_left t r" t "Th_done t r"] assms(2) by (auto simp: run_thread_result_def)
next
  case (joined ph p f v want s x s' kid)
  then have "s' = freeSharedObject p v s" by (auto simp: xthread_join_def rbind_Inr_iff split: if_splits)
  then show ?thesis using joined ok_free assms(2) by blast
next
  case (killed ph p f v sig s x s' kid)
  then have "s' = freeSharedObject p v s" by (auto simp: xthread_thread_kill_def rbind_Inr_iff)
  then show ?thesis using killed ok_free assms(2) by blast
qed (use ok_spawn assms(2) in blast)

lemma objects_reach:
  assumes "obj_step\<^sup>*\<^sup>* (objects_start p) x"
  shows "objects_ok x"
  using assms
proof (induction rule: rtranclp_induct)
  case base
  show ?case by (auto simp: objects_start_def objects_ok_def split: if_splits)
qed (rule obj_step_ok)

text \<open>
  C7: What a join returns, in every state that any run of spawns, joins, cancellations and exits reaches: a process
  that has the object of a thread mapped reads the result of that thread if the thread has made its last store,
  and zero if not. In between the thread has left the scheduler, so the join goes on, and no call orders the two:
  \<open>pthread_join\<close> may return zero for a thread with another result. A signal goes to the thread itself once it has
  stored its number, and before that to number 0, which is the whole process group of the sender. Afterwards the
  process has the object no more, so that the next use of the handle faults.
\<close>

theorem join_result:
  assumes "obj_step\<^sup>*\<^sup>* (objects_start p0) (s, ph, kid)" "vmap s p v = Some i" "kid i = Some c"
  shows "\<exists>f s' k. ph c = Some f \<and>
    xthread_join p v True s = Inr (Some (case f of Th_done t r \<Rightarrow> r | _ \<Rightarrow> 0), s') \<and>
    xthread_thread_kill p v sig s = Inr ((k, sig, case f of Th_born t \<Rightarrow> 0 | _ \<Rightarrow> c), s') \<and>
    xthread_join p v True s' = Inl Segv \<and> xthread_thread_kill p v sig s' = Inl Segv"
proof -
  obtain f where f: "ph c = Some f" "holds c f (objs s i)"
    using objects_okD(3) [OF objects_reach [OF assms(1)] assms(3)] by blast
  have "ts_retval (objs s i) = (case f of Th_done t r \<Rightarrow> r | _ \<Rightarrow> 0)"
    "ts_tid (objs s i) = (case f of Th_born t \<Rightarrow> 0 | _ \<Rightarrow> c)"
    using f(2) by (cases f; simp)+
  then show ?thesis using f(1) assms(2)
    by (simp add: xthread_join_def xthread_thread_kill_def status_at_def freeSharedObject_def)
qed

text \<open>A thread with the result 7, joined before and after its last store.\<close>

definition two_objects_run :: "bool \<Rightarrow> shared_objects" where
  "two_objects_run b = \<lparr>objs = (\<lambda>i. if i = 0 then \<lparr>ts_tid = 2, ts_threadIndex = 1, ts_retval = (if b then 7 else 0)\<rparr>
                                  else \<lparr>ts_tid = 0, ts_threadIndex = 0, ts_retval = 0\<rparr>),
     vmap = (\<lambda>p. if p \<in> {1, 2} then [4096 \<mapsto> 0] else Map.empty), fresh_obj = 1\<rparr>"

lemma two_objects_reached:
  "obj_step\<^sup>*\<^sup>* (objects_start 1) (two_objects_run False, [1 \<mapsto> Th_main, 2 \<mapsto> Th_left 4096 7], [0 \<mapsto> 2])"
  "obj_step\<^sup>*\<^sup>* (objects_start 1) (two_objects_run True, [1 \<mapsto> Th_main, 2 \<mapsto> Th_done 4096 7], [0 \<mapsto> 2])"
proof -
  obtain s0 where s0: "objects_start 1 = (s0, [1 \<mapsto> Th_main], Map.empty)" "fresh_obj s0 = 0"
    "s0 = \<lparr>objs = (\<lambda>_. \<lparr>ts_tid = 0, ts_threadIndex = 0, ts_retval = 0\<rparr>), vmap = (\<lambda>_ _. None), fresh_obj = 0\<rparr>"
    by (simp add: objects_start_def)
  obtain s1 s2 where s1: "xthread_spawn 1 4096 2 s0 = (4096, s1)" "store_threadIndex 2 4096 1 s1 = Inr s2"
    "store_tid 2 4096 s2 = Inr (two_objects_run False)"
    by (simp add: s0(3) xthread_spawn_def allocateSharedObject_def MAP_FAILED_def store_threadIndex_def store_tid_def
        set_status_def status_at_def two_objects_run_def fun_eq_iff)
  let ?ph = "[1 \<mapsto> Th_main, 2 \<mapsto> Th_born 4096]"
  have "obj_step (objects_start 1) (s1, ?ph, [0 \<mapsto> 2])"
    using obj_step.spawned [of "[1 \<mapsto> Th_main]" 1 Th_main 2 4096 s0 4096 s1 Map.empty] s1(1) s0 by (simp add: MAP_FAILED_def)
  moreover have "obj_step (s1, ?ph, [0 \<mapsto> 2]) (s2, ?ph, [0 \<mapsto> 2])"
    by (rule obj_step.indexed [OF _ s1(2)]) simp
  moreover have "obj_step (s2, ?ph, [0 \<mapsto> 2]) (two_objects_run False, [1 \<mapsto> Th_main, 2 \<mapsto> Th_running 4096], [0 \<mapsto> 2])"
    using obj_step.registered [of ?ph 2 4096] s1(3) by simp
  moreover have "obj_step (two_objects_run False, [1 \<mapsto> Th_main, 2 \<mapsto> Th_running 4096], [0 \<mapsto> 2])
      (two_objects_run False, [1 \<mapsto> Th_main, 2 \<mapsto> Th_left 4096 7], [0 \<mapsto> 2])"
    using obj_step.deregistered [of "[1 \<mapsto> Th_main, 2 \<mapsto> Th_running 4096]" 2 4096] by simp
  ultimately show l: "obj_step\<^sup>*\<^sup>* (objects_start 1) (two_objects_run False, [1 \<mapsto> Th_main, 2 \<mapsto> Th_left 4096 7], [0 \<mapsto> 2])"
    by (meson converse_rtranclp_into_rtranclp rtranclp.rtrancl_refl)
  have "run_thread_result 2 4096 7 (two_objects_run False) = Inr (two_objects_run True)"
    by (simp add: run_thread_result_def set_status_def status_at_def two_objects_run_def fun_eq_iff)
  from obj_step.stored [OF _ this, of "[1 \<mapsto> Th_main, 2 \<mapsto> Th_left 4096 7]" "[0 \<mapsto> 2]"]
  show "obj_step\<^sup>*\<^sup>* (objects_start 1) (two_objects_run True, [1 \<mapsto> Th_main, 2 \<mapsto> Th_done 4096 7], [0 \<mapsto> 2])"
    using rtranclp.rtrancl_into_rtrancl [OF l] by simp
qed

theorem join_result_witness:
  "\<exists>s s' k. xthread_join 1 4096 True (two_objects_run False) = Inr (Some 0, s) \<and>
     xthread_thread_kill 1 4096 15 (two_objects_run False) = Inr ((k, 15, 2), s) \<and>
     xthread_join 1 4096 True (two_objects_run True) = Inr (Some 7, s') \<and> xthread_join 1 4096 True s' = Inl Segv"
proof -
  have "vmap (two_objects_run b) 1 4096 = Some 0" for b by (simp add: two_objects_run_def)
  then show ?thesis
    using join_result [OF two_objects_reached(1), of 1 4096 0 2 15] join_result [OF two_objects_reached(2), of 1 4096 0 2 15]
    by fastforce
qed

text \<open>\<open>kill\<close> of \<^verbatim>\<open>xrun.h\<close> with \<open>SIGKILL\<close> or \<open>SIGTERM\<close> cancels first: it always faults.\<close>

lemma cancel_then_kill_faults:
  assumes "xthread_cancel p v s = Inr (x, s')"
  shows "xthread_thread_kill p v sig s' = Inl Segv"
  using assms by (auto simp: xthread_cancel_def xthread_thread_kill_def rbind_Inr_iff status_at_def freeSharedObject_def)

text \<open>A process cloned before a thread was created has no mapping of its object: it cannot join it.\<close>

lemma older_sibling_cannot_join:
  assumes "xthread_spawn p v c s = (w, s')" "vmap s q v = None" "q \<noteq> p" "q \<noteq> c"
  shows "xthread_join q v True s' = Inl Segv"
  using assms by (auto simp: xthread_spawn_def allocateSharedObject_def Let_def xthread_join_def status_at_def split: if_splits)

end
