(* ===== verification/Bit_Strings.thy ===== *)
theory Bit_Strings
  imports Prelude
begin

unbundle bit_operations_syntax

text \<open>
  Bit strings of Heap Layers: \<^verbatim>\<open>util/bitstring.h\<close>, a string of \<open>N\<close> bits that gives out runs of free bits, and
  \<^verbatim>\<open>util/bitindex.h\<close>, the first and the last bit of a word. Both are written for words of 32 bits and
  hold them in an \<open>unsigned long\<close>, which has 64 here.
\<close>

subsection \<open>The string\<close>

record bitstring =
  bs_B :: "nat \<Rightarrow> u64"
  firstPos :: nat

definition ALL_ALLOCATED :: u64 where "ALL_ALLOCATED = - 1"
definition bs_ulongs :: "nat \<Rightarrow> nat" where "bs_ulongs N = (N + 31) div 32"

definition bs_clear :: "nat \<Rightarrow> bitstring \<Rightarrow> bitstring" where
  "bs_clear N s = s\<lparr>bs_B := (\<lambda>i. if i < bs_ulongs N then ALL_ALLOCATED else bs_B s i), firstPos := 0\<rparr>"

text \<open>The mask is an \<open>unsigned int\<close>. An index outside the array is undefined.\<close>

definition bs_mask :: "nat \<Rightarrow> u32" where "bs_mask index = push_bit (index mod 32) 1"

definition bs_get :: "nat \<Rightarrow> nat \<Rightarrow> bitstring \<Rightarrow> bool res" where
  "bs_get N index s =
     (if index div 32 < bs_ulongs N then Inr (bs_B s (index div 32) AND ucast (bs_mask index) \<noteq> 0) else Inl Undefined)"

definition bs_set :: "nat \<Rightarrow> nat \<Rightarrow> bitstring \<Rightarrow> bitstring res" where
  "bs_set N index s =
     (if index div 32 < bs_ulongs N
      then Inr (s\<lparr>bs_B := (bs_B s)(index div 32 := bs_B s (index div 32) OR ucast (bs_mask index)),
                  firstPos := min index (firstPos s)\<rparr>)
      else Inl Undefined)"

text \<open>The complement is taken in 32 bits and widened: the upper half of the word is cleared too.\<close>

definition bs_reset :: "nat \<Rightarrow> nat \<Rightarrow> bitstring \<Rightarrow> bitstring res" where
  "bs_reset N index s =
     (if index div 32 < bs_ulongs N
      then Inr (s\<lparr>bs_B := (bs_B s)(index div 32 := bs_B s (index div 32) AND ucast (NOT (bs_mask index)))\<rparr>)
      else Inl Undefined)"

definition bs_free :: "nat \<Rightarrow> nat \<Rightarrow> nat \<Rightarrow> bitstring \<Rightarrow> bitstring res" where
  "bs_free N bitPos len s = rfold (bs_reset N) [bitPos ..< bitPos + len] s"

subsection \<open>allocate\<close>

text \<open>The loop that adjusts for alignment; a remainder by zero is undefined.\<close>

partial_function (option) align_from :: "nat \<Rightarrow> nat \<Rightarrow> nat option" where
  "align_from alignment p = (if p mod alignment \<noteq> 0 then align_from alignment (Suc p) else Some p)"

definition bs_align :: "nat \<Rightarrow> nat \<Rightarrow> nat res option" where
  "bs_align alignment p = (if alignment = 0 then Some (Inl Undefined) else map_option Inr (align_from alignment p))"

text \<open>The first of the bits at \<open>p + j\<close> that is allocated.\<close>

fun bs_scan :: "nat \<Rightarrow> nat \<Rightarrow> nat list \<Rightarrow> bitstring \<Rightarrow> nat option res" where
  "bs_scan N p [] s = Inr None"
| "bs_scan N p (j # js) s = rbind (bs_get N (p + j) s) (\<lambda>b. if b then Inr (Some j) else bs_scan N p js s)"

text \<open>
  One round of the loop at \<open>p < N\<close>: it goes on at another position, or claims the run at \<open>p\<close>.
\<close>

datatype bs_next = Claim | Go_on nat

definition bs_round :: "nat \<Rightarrow> nat \<Rightarrow> nat \<Rightarrow> nat \<Rightarrow> bitstring \<Rightarrow> bs_next res option" where
  "bs_round N len alignment p s =
     (if bs_B s (p div 32) = ALL_ALLOCATED then
        map_option (\<lambda>r. rbind r (\<lambda>q. Inr (Go_on q))) (bs_align alignment (32 * (p div 32 + 1)))
      else case bs_get N p s of
        Inl e \<Rightarrow> Some (Inl e)
      | Inr b \<Rightarrow>
          if b then Some (Inr (Go_on (p + alignment)))
          else case bs_scan N p [0 ..< len] s of
            Inl e \<Rightarrow> Some (Inl e)
          | Inr None \<Rightarrow> Some (Inr Claim)
          | Inr (Some j) \<Rightarrow> map_option (\<lambda>r. rbind r (\<lambda>q. Inr (Go_on q))) (bs_align alignment (p + j)))"

text \<open>The loop of \<open>allocate\<close>; \<open>None\<close> of the result is \<open>-1\<close>.\<close>

partial_function (option) bs_allocate_from ::
    "nat \<Rightarrow> nat \<Rightarrow> nat \<Rightarrow> nat \<Rightarrow> bitstring \<Rightarrow> (nat option \<times> bitstring) res option" where
  "bs_allocate_from N len alignment p s =
     (if N \<le> p then Some (Inr (None, s))
      else Option.bind (bs_round N len alignment p s) (\<lambda>r. case r of
        Inl e \<Rightarrow> Some (Inl e)
      | Inr x \<Rightarrow> (case x of
          Claim \<Rightarrow> Some (rbind (rfold (bs_set N) [p ..< p + len] s) (\<lambda>t. Inr (Some p, t)))
        | Go_on q \<Rightarrow> bs_allocate_from N len alignment q s)))"

definition bs_allocate :: "nat \<Rightarrow> nat \<Rightarrow> nat \<Rightarrow> bitstring \<Rightarrow> (nat option \<times> bitstring) res option" where
  "bs_allocate N len alignment s = bs_allocate_from N len alignment (firstPos s) s"

subsection \<open>The first and the last bit\<close>

definition index32 :: "nat list" where
  "index32 = [0, 1, 28, 2, 29, 14, 24, 3, 30, 22, 20, 15, 25, 17, 4, 8, 31, 27, 13, 23, 21, 19, 16, 7, 26, 12, 18, 6, 11, 5, 10, 9]"

definition debruijn32 :: u64 where "debruijn32 = 0x077CB531"

definition bs_lsb :: "u64 \<Rightarrow> nat res" where
  "bs_lsb b =
     (let i = unat (drop_bit 27 ((b AND (- b)) * debruijn32)) in
      if i < 32 then Inr (index32 ! i) else Inl Undefined)"

text \<open>
  \<open>firstAfter\<close>: the mask \<open>~((1 << m) - 1)\<close> is an \<open>int\<close>, widened with its sign; with \<open>m = 31\<close> the subtraction
  overflows.
\<close>

fun bs_firstAfter_from :: "nat \<Rightarrow> nat \<Rightarrow> nat list \<Rightarrow> bitstring \<Rightarrow> nat option res" where
  "bs_firstAfter_from N indmask [] s = Inr None"
| "bs_firstAfter_from N indmask (i # is) s =
     (let next = bs_firstAfter_from N (indmask - 32) is s; m = indmask mod 32 in
      if bs_B s i \<noteq> 0 then
        if m = 31 then Inl Undefined
        else let bitval = bs_B s i AND scast (NOT (push_bit m 1 - 1 :: u32)) in
             if bitval \<noteq> 0 then rbind (bs_lsb bitval) (\<lambda>l. Inr (Some (i * 32 + l))) else next
      else next)"

definition bs_firstAfter :: "nat \<Rightarrow> nat \<Rightarrow> bitstring \<Rightarrow> nat option res" where
  "bs_firstAfter N index s = bs_firstAfter_from N (index - 32 * (index div 32)) [index div 32 ..< bs_ulongs N] s"

text \<open>
  \<open>BitIndex\<close>. The tables are filled by the constructor: \<open>on\<close> with an \<open>int\<close>, so with its sign, and \<open>index32\<close> at
  places that are an \<open>int\<close> shifted left and right, which is undefined when it overflows.
\<close>

definition bi_on :: "nat \<Rightarrow> u64" where "bi_on i = scast (push_bit i 1 :: u32)"
definition bi_off :: "nat \<Rightarrow> u64" where "bi_off i = NOT (bi_on i)"
definition bi_lgtable :: "nat list" where "bi_lgtable = [0, 0, 1, 1, 2, 2, 2, 2, 3, 3, 3, 3, 3, 3, 3, 3]"

definition bi_setup :: "(nat \<Rightarrow> nat) \<Rightarrow> (nat \<Rightarrow> nat) res" where
  "bi_setup t = rfold (\<lambda>i t. let v = unat debruijn32 * 2 ^ i in
     if 2 ^ 31 \<le> v then Inl Undefined else Inr (t(v div 2 ^ 27 := i))) [0 ..< 32] t"

definition bi_set :: "u64 \<Rightarrow> nat \<Rightarrow> u64" where "bi_set b index = b OR bi_on index"
definition bi_reset :: "u64 \<Rightarrow> nat \<Rightarrow> u64" where "bi_reset b index = b AND bi_off index"

definition bi_lsb :: "(nat \<Rightarrow> nat) \<Rightarrow> u64 \<Rightarrow> nat res" where
  "bi_lsb t b =
     (let i = unat (drop_bit 27 ((b AND (- b)) * debruijn32)) in if i < 32 then Inr (t i) else Inl Undefined)"

definition bi_msb :: "u64 \<Rightarrow> nat res" where
  "bi_msb b =
     (let (l1, b1) = (if 65536 \<le> b then (16, drop_bit 16 b) else (0, b));
          (l2, b2) = (if 256 \<le> b1 then (l1 + 8, drop_bit 8 b1) else (l1, b1));
          (l3, b3) = (if 16 \<le> b2 then (l2 + 4, drop_bit 4 b2) else (l2, b2)) in
      if unat b3 < 16 then Inr (l3 + bi_lgtable ! unat b3) else Inl Undefined)"

subsection \<open>allocate takes the first run\<close>

definition allocated :: "bitstring \<Rightarrow> nat \<Rightarrow> bool" where
  "allocated s i \<longleftrightarrow> bit (bs_B s (i div 32)) (i mod 32)"

lemma find_upt:
  assumes "a \<le> x" "x < n" "P x" "\<And>l. a \<le> l \<Longrightarrow> l < x \<Longrightarrow> \<not> P l"
  shows "find P [a ..< n] = Some x"
  unfolding find_Some_iff using assms by (intro exI [of _ "x - a"]) (simp add: less_diff_conv2)

lemma mask_push: "ucast (bs_mask i) = (push_bit (i mod 32) 1 :: u64)"
  by (rule bit_eqI) (auto simp: bs_mask_def bit_simps)

lemma bs_get_allocated: "i div 32 < bs_ulongs N \<Longrightarrow> bs_get N i s = Inr (allocated s i)"
  unfolding bs_get_def mask_push allocated_def bit_iff_and_push_bit_not_eq_0 by simp

lemma in_array: "i div 32 < bs_ulongs N \<longleftrightarrow> i < 32 * bs_ulongs N" for i :: nat
  by (auto simp: div_less_iff_less_mult mult.commute)

lemma array_covers: "i < N \<Longrightarrow> i < 32 * bs_ulongs N"
  by (simp add: bs_ulongs_def)

lemma bs_set_allocated:
  assumes "i < 32 * bs_ulongs N"
  shows "\<exists>t. bs_set N i s = Inr t \<and> (\<forall>k. allocated t k \<longleftrightarrow> allocated s k \<or> k = i)"
proof -
  have "(k div 32 = i div 32 \<and> k mod 32 = i mod 32) \<longleftrightarrow> k = i" for k by (metis div_mult_mod_eq)
  then show ?thesis using assms unfolding bs_set_def in_array mask_push allocated_def
    by (auto simp: bit_or_iff bit_push_bit_iff bit_1_iff bit_exp_iff)
qed

lemma bs_set_run:
  assumes "p + len \<le> 32 * bs_ulongs N"
  shows "\<exists>t. rfold (bs_set N) [p ..< p + len] s = Inr t \<and> (\<forall>k. allocated t k \<longleftrightarrow> allocated s k \<or> p \<le> k \<and> k < p + len)"
  using assms
proof (induction len arbitrary: p s)
  case (Suc len)
  obtain t where t: "bs_set N p s = Inr t" "\<forall>k. allocated t k \<longleftrightarrow> allocated s k \<or> k = p"
    using bs_set_allocated [of p N s] Suc.prems by auto
  obtain u where u: "rfold (bs_set N) [Suc p ..< Suc p + len] t = Inr u"
    "\<forall>k. allocated u k \<longleftrightarrow> allocated t k \<or> Suc p \<le> k \<and> k < Suc p + len"
    using Suc.IH [of "Suc p" t] Suc.prems by auto
  have "[p ..< p + Suc len] = p # [Suc p ..< Suc p + len]" by (simp add: upt_conv_Cons del: upt_Suc)
  then have "rfold (bs_set N) [p ..< p + Suc len] s = Inr u" using t(1) u(1) by simp
  moreover have "k = p \<or> Suc p \<le> k \<and> k < Suc p + len \<longleftrightarrow> p \<le> k \<and> k < p + Suc len" for k by linarith
  ultimately show ?case using t(2) u(2) by blast
qed auto

lemma align_from_least:
  assumes "p \<le> m" "a dvd m"
  shows "\<exists>q. align_from a p = Some q \<and> p \<le> q \<and> a dvd q \<and> (\<forall>r. p \<le> r \<longrightarrow> r < q \<longrightarrow> \<not> a dvd r)"
  using assms
proof (induction "m - p" arbitrary: p)
  case 0
  then show ?case by (subst align_from.simps) (auto simp: mod_eq_0_iff_dvd)
next
  case (Suc n)
  show ?case
  proof (cases "a dvd p")
    case True
    then show ?thesis by (subst align_from.simps) (auto simp: mod_eq_0_iff_dvd)
  next
    case False
    then have "Suc p \<le> m" using Suc.prems by (metis Suc_leI le_neq_implies_less)
    moreover have "n = m - Suc p" using Suc.hyps(2) by simp
    ultimately obtain q where "align_from a (Suc p) = Some q" "Suc p \<le> q" "a dvd q" "\<forall>r. Suc p \<le> r \<longrightarrow> r < q \<longrightarrow> \<not> a dvd r"
      using Suc.hyps(1) Suc.prems(2) by blast
    moreover from this have "\<forall>r. p \<le> r \<longrightarrow> r < q \<longrightarrow> \<not> a dvd r" using False by (metis Suc_leI le_neq_implies_less)
    ultimately show ?thesis using False by (subst align_from.simps) (auto simp: mod_eq_0_iff_dvd)
  qed
qed

lemma bs_align_least:
  assumes "0 < a"
  shows "\<exists>q. bs_align a p = Some (Inr q) \<and> p \<le> q \<and> a dvd q \<and> (\<forall>r. p \<le> r \<longrightarrow> r < q \<longrightarrow> \<not> a dvd r)"
proof -
  have "p \<le> a * p" using assms by simp
  from align_from_least [OF this dvd_triv_left] show ?thesis using assms by (auto simp: bs_align_def)
qed

text \<open>What the scan of a run finds; \<open>n\<close> is the number of bits of the array.\<close>

lemma bs_scan_run:
  fixes j0 :: nat
  assumes n_def: "n = 32 * bs_ulongs N"
  shows "(\<forall>j. j0 \<le> j \<longrightarrow> j < len \<longrightarrow> p + j < n \<longrightarrow> \<not> allocated s (p + j)) \<Longrightarrow>
      bs_scan N p [j0 ..< len] s = (if j0 < len \<and> n < p + len then Inl Undefined else Inr None) \<or> n < p + j0"
    "j0 \<le> j \<Longrightarrow> j < len \<Longrightarrow> p + j < n \<Longrightarrow> allocated s (p + j) \<Longrightarrow>
      \<exists>i. bs_scan N p [j0 ..< len] s = Inr (Some i) \<and> j0 \<le> i \<and> i < len \<and> p + i < n \<and> allocated s (p + i)"
proof -
  show "bs_scan N p [j0 ..< len] s = (if j0 < len \<and> n < p + len then Inl Undefined else Inr None) \<or> n < p + j0"
    if "\<forall>j. j0 \<le> j \<longrightarrow> j < len \<longrightarrow> p + j < n \<longrightarrow> \<not> allocated s (p + j)"
    using that
  proof (induction "len - j0" arbitrary: j0)
    case (Suc d)
    then have u: "[j0 ..< len] = j0 # [Suc j0 ..< len]" by (simp add: upt_conv_Cons)
    show ?case
    proof (cases "p + j0 < n")
      case True
      then have g: "bs_get N (p + j0) s = Inr False"
        using Suc.prems Suc.hyps(2) bs_get_allocated [of "p + j0" N s] unfolding n_def in_array by simp
      have "bs_scan N p [Suc j0 ..< len] s = (if Suc j0 < len \<and> n < p + len then Inl Undefined else Inr None) \<or> n < p + Suc j0"
        using Suc.hyps Suc.prems by (intro Suc.hyps(1)) auto
      then show ?thesis using u g True Suc.hyps(2) by auto
    next
      case False
      then show ?thesis using u Suc.hyps(2) by (auto simp: bs_get_def in_array n_def)
    qed
  qed simp
  show "\<exists>i. bs_scan N p [j0 ..< len] s = Inr (Some i) \<and> j0 \<le> i \<and> i < len \<and> p + i < n \<and> allocated s (p + i)"
    if "j0 \<le> j" "j < len" "p + j < n" "allocated s (p + j)"
    using that
  proof (induction "len - j0" arbitrary: j0)
    case (Suc d)
    then have u: "[j0 ..< len] = j0 # [Suc j0 ..< len]" by (simp add: upt_conv_Cons)
    have g: "bs_get N (p + j0) s = Inr (allocated s (p + j0))"
      using Suc.prems bs_get_allocated [of "p + j0" N s] unfolding n_def in_array by simp
    show ?case
    proof (cases "allocated s (p + j0)")
      case False
      then have "j0 \<noteq> j" using Suc.prems by blast
      then have "Suc j0 \<le> j" "d = len - Suc j0" using Suc.prems(1) Suc.hyps(2) by simp_all
      then obtain i where "bs_scan N p [Suc j0 ..< len] s = Inr (Some i)" "Suc j0 \<le> i" "i < len" "p + i < n" "allocated s (p + i)"
        using Suc.hyps(1) [of "Suc j0"] Suc.prems by blast
      then show ?thesis using u g False by (intro exI [of _ i]) simp
    qed (use u g Suc in auto)
  qed simp
qed

text \<open>
  Where the search stops: at an aligned free position from which no bit of the run is allocated, as far as there
  are bits.
\<close>

definition bs_stop :: "nat \<Rightarrow> nat \<Rightarrow> nat \<Rightarrow> bitstring \<Rightarrow> nat \<Rightarrow> bool" where
  "bs_stop N len a s p \<longleftrightarrow> a dvd p \<and> \<not> allocated s p \<and> (\<forall>j<len. p + j < 32 * bs_ulongs N \<longrightarrow> \<not> allocated s (p + j))"

lemma full_word:
  assumes "bs_B s j = ALL_ALLOCATED" "32 * j \<le> i" "i < 32 * (j + 1)"
  shows "allocated s i"
proof -
  have "i div 32 = j" "i mod 32 < 64" using assms(2,3) by auto
  then show ?thesis using assms(1) by (simp add: allocated_def ALL_ALLOCATED_def)
qed

lemma round_stop:
  assumes "p < N" "bs_stop N len a s p"
  shows "bs_round N len a p s = Some (if 32 * bs_ulongs N < p + len then Inl Undefined else Inr Claim)"
proof -
  have p: "p < 32 * bs_ulongs N" using array_covers assms(1) .
  have "bs_B s (p div 32) \<noteq> ALL_ALLOCATED"
    using full_word [of s "p div 32" p] assms(2) dividend_less_times_div [of 32 p] by (auto simp: bs_stop_def)
  moreover have "bs_get N p s = Inr False"
    using bs_get_allocated [of p N s] assms(2) p by (simp add: in_array bs_stop_def)
  moreover have "bs_scan N p [0 ..< len] s = (if 0 < len \<and> 32 * bs_ulongs N < p + len then Inl Undefined else Inr None)"
    using bs_scan_run(1) [OF refl, of 0 len p N s] assms(2) p by (simp add: bs_stop_def)
  ultimately show ?thesis using p by (simp add: bs_round_def)
qed

lemma round_goes_on:
  assumes "p < N" "0 < a" "a dvd p" "\<not> bs_stop N len a s p"
  shows "\<exists>q. bs_round N len a p s = Some (Inr (Go_on q)) \<and> p < q \<and> a dvd q \<and> (\<forall>r. p \<le> r \<longrightarrow> r < q \<longrightarrow> \<not> bs_stop N len a s r)"
proof -
  have p: "p < 32 * bs_ulongs N" using array_covers assms(1) .
  then have get: "bs_get N p s = Inr (allocated s p)" by (simp add: bs_get_allocated in_array)
  show ?thesis
  proof (cases "bs_B s (p div 32) = ALL_ALLOCATED")
    case True
    obtain q where q: "bs_align a (32 * (p div 32 + 1)) = Some (Inr q)" "32 * (p div 32 + 1) \<le> q" "a dvd q"
      "\<forall>r. 32 * (p div 32 + 1) \<le> r \<longrightarrow> r < q \<longrightarrow> \<not> a dvd r" using bs_align_least [OF assms(2)] by blast
    have "p < 32 * (p div 32 + 1)" by (simp add: dividend_less_times_div)
    moreover have "\<not> bs_stop N len a s r" if "p \<le> r" "r < q" for r
    proof (cases "r < 32 * (p div 32 + 1)")
      case r: True
      have "32 * (p div 32) \<le> r" using that(1) by (metis times_div_less_eq_dividend order_trans)
      then show ?thesis using full_word [OF True _ r] by (simp add: bs_stop_def)
    next
      case False
      then show ?thesis using q(4) that(2) by (simp add: bs_stop_def)
    qed
    ultimately show ?thesis using True q(1-3) by (intro exI [of _ q]) (simp add: bs_round_def)
  next
    case word: False
    show ?thesis
    proof (cases "allocated s p")
      case True
      have "\<not> bs_stop N len a s r" if "p \<le> r" "r < p + a" for r
      proof (cases "r = p")
        case False
        then have "0 < r - p" "r - p < a" using that by auto
        then have "\<not> a dvd r - p" by (rule nat_dvd_not_less)
        then have "\<not> a dvd r" using assms(3) dvd_diff_nat by blast
        then show ?thesis by (simp add: bs_stop_def)
      qed (use True in \<open>simp add: bs_stop_def\<close>)
      then show ?thesis using word True get assms(2,3) by (intro exI [of _ "p + a"]) (simp add: bs_round_def)
    next
      case False
      then obtain j where j: "j < len" "p + j < 32 * bs_ulongs N" "allocated s (p + j)"
        using assms(3,4) by (auto simp: bs_stop_def)
      then obtain i where i: "bs_scan N p [0 ..< len] s = Inr (Some i)" "i < len" "allocated s (p + i)"
          and pi: "p + i < 32 * bs_ulongs N"
        using bs_scan_run(2) [OF refl, of 0 j len p N s] by auto
      obtain q where q: "bs_align a (p + i) = Some (Inr q)" "p + i \<le> q" "a dvd q" "\<forall>r. p + i \<le> r \<longrightarrow> r < q \<longrightarrow> \<not> a dvd r"
        using bs_align_least [OF assms(2)] by blast
      have "0 < i" using False i(3) by (metis add_0_right neq0_conv)
      have "\<not> bs_stop N len a s r" if "p \<le> r" "r < q" for r
      proof (cases "p + i \<le> r")
        case True
        then show ?thesis using q(4) that(2) by (simp add: bs_stop_def)
      next
        case r: False
        then have "p + i - r < len" "r + (p + i - r) = p + i" using i(2) that(1) by auto
        then show ?thesis using i(3) pi by (auto simp: bs_stop_def intro!: exI [of _ "p + i - r"])
      qed
      then show ?thesis using word False get i(1) q(1-3) \<open>0 < i\<close> by (intro exI [of _ q]) (simp add: bs_round_def)
    qed
  qed
qed

text \<open>
  C35: \<open>allocate\<close>, for any string and any positive alignment: it stops at the first aligned position where every bit of
  the run that the array has is free. If the array has them all it claims exactly these bits and returns the
  position; if the run reaches past the end of the array it reads there, which is undefined; with no such position it
  returns -1 and changes nothing. It always stops.
\<close>

theorem allocate_first_fit:
  assumes "0 < a" "a dvd firstPos s"
  shows "case find (bs_stop N len a s) [firstPos s ..< N] of
      None \<Rightarrow> bs_allocate N len a s = Some (Inr (None, s))
    | Some p \<Rightarrow> if p + len \<le> 32 * bs_ulongs N
        then \<exists>t. bs_allocate N len a s = Some (Inr (Some p, t)) \<and>
               (\<forall>i. allocated t i \<longleftrightarrow> allocated s i \<or> p \<le> i \<and> i < p + len)
        else bs_allocate N len a s = Some (Inl Undefined)"
proof -
  have "case find (bs_stop N len a s) [p ..< N] of
      None \<Rightarrow> bs_allocate_from N len a p s = Some (Inr (None, s))
    | Some p' \<Rightarrow> if p' + len \<le> 32 * bs_ulongs N
        then \<exists>t. bs_allocate_from N len a p s = Some (Inr (Some p', t)) \<and>
               (\<forall>i. allocated t i \<longleftrightarrow> allocated s i \<or> p' \<le> i \<and> i < p' + len)
        else bs_allocate_from N len a p s = Some (Inl Undefined)" if "a dvd p" for p
    using that
  proof (induction "N - p" arbitrary: p rule: less_induct)
    case less
    show ?case
    proof (cases "p < N")
      case False
      then show ?thesis by (simp add: bs_allocate_from.simps)
    next
      case p: True
      then have u: "[p ..< N] = p # [Suc p ..< N]" by (simp add: upt_conv_Cons)
      show ?thesis
      proof (cases "bs_stop N len a s p")
        case True
        note r = round_stop [OF p True]
        show ?thesis
        proof (cases "p + len \<le> 32 * bs_ulongs N")
          case fits: True
          then obtain t where "rfold (bs_set N) [p ..< p + len] s = Inr t" "\<forall>i. allocated t i \<longleftrightarrow> allocated s i \<or> p \<le> i \<and> i < p + len"
            using bs_set_run by blast
          then show ?thesis using u True p r fits by (simp add: bs_allocate_from.simps [of N len a p])
        qed (use u True p r in \<open>simp add: bs_allocate_from.simps [of N len a p] not_le\<close>)
      next
        case False
        obtain q where q: "bs_round N len a p s = Some (Inr (Go_on q))" "p < q" "a dvd q"
          "\<forall>r. p \<le> r \<longrightarrow> r < q \<longrightarrow> \<not> bs_stop N len a s r"
          using round_goes_on [OF p assms(1) less.prems False] by blast
        have "find (bs_stop N len a s) [p ..< N] = find (bs_stop N len a s) [q ..< N]"
        proof (cases "q \<le> N")
          case True
          then have "[p ..< N] = [p ..< q] @ [q ..< N]" using q(2) by (metis le_add_diff_inverse less_imp_le upt_add_eq_append)
          moreover have "find (bs_stop N len a s) ([p ..< q] @ ys) = find (bs_stop N len a s) ys" for ys
          proof -
            have "\<forall>r \<in> set xs. \<not> bs_stop N len a s r \<Longrightarrow> find (bs_stop N len a s) (xs @ ys) = find (bs_stop N len a s) ys" for xs
              by (induction xs) auto
            then show ?thesis using q(4) by simp
          qed
          ultimately show ?thesis by simp
        next
          case False
          then have "find (bs_stop N len a s) [p ..< N] = None" using q(4) by (auto simp: find_None_iff)
          then show ?thesis using False by simp
        qed
        then have e: "find (bs_stop N len a s) [p ..< N] = find (bs_stop N len a s) [q ..< N]"
          "bs_allocate_from N len a p s = bs_allocate_from N len a q s"
          using p q(1) by (simp_all add: bs_allocate_from.simps [of N len a p])
        have "N - q < N - p" using q(2) p by simp
        then show ?thesis unfolding e using q(3) by (rule less.hyps)
      qed
    qed
  qed
  from this [OF assms(2)] show ?thesis unfolding bs_allocate_def .
qed

text \<open>Three bits of every word are allocated: a run that fits, and one that leaves the array.\<close>

definition demo_bits :: bitstring where "demo_bits = \<lparr>bs_B = (\<lambda>_. 7), firstPos = 0\<rparr>"

lemma demo_bits_allocated: "allocated demo_bits i \<longleftrightarrow> i mod 32 < 3"
proof -
  have "(7 :: u64) = mask 3" by (simp add: mask_eq_exp_minus_1)
  then have "bit (7 :: u64) n \<longleftrightarrow> n < 3" for n by (simp only: bit_mask_iff possible_bit_word) auto
  then show ?thesis by (simp add: allocated_def demo_bits_def)
qed

theorem allocate_first_fit_witness:
  "(\<exists>t. bs_allocate 40 4 4 demo_bits = Some (Inr (Some 4, t)) \<and> allocated t 7 \<and> \<not> allocated t 8) \<and>
   bs_allocate 32 33 1 demo_bits = Some (Inl Undefined)"
proof -
  have "find (bs_stop 40 4 4 demo_bits) [0 ..< 40] = Some 4"
    by (rule find_upt) (auto simp: bs_stop_def demo_bits_allocated dest: dvd_imp_le)
  moreover have "find (bs_stop 32 33 1 demo_bits) [0 ..< 32] = Some 3"
    by (rule find_upt) (auto simp: bs_stop_def demo_bits_allocated bs_ulongs_def)
  moreover have "firstPos demo_bits = 0" by (simp add: demo_bits_def)
  ultimately show ?thesis
    using allocate_first_fit [of 4 demo_bits 40 4] allocate_first_fit [of 1 demo_bits 32 33]
    by (auto simp: bs_ulongs_def demo_bits_allocated)
qed

text \<open>
  With a number of bits that does not fill the last word, and the rest of that word allocated, as \<open>clear\<close> leaves it,
  no search leaves the array. \<open>free\<close> makes free exactly the bits it is given.
\<close>

lemma sentinel_in_array:
  assumes "N mod 32 \<noteq> 0" "allocated s N" "bs_stop N len a s p" "p < N"
  shows "p + len \<le> N"
proof (rule ccontr)
  assume "\<not> ?thesis"
  then have "N - p < len" "p + (N - p) = N" using assms(4) by auto
  moreover have "N < 32 * bs_ulongs N" using assms(1) unfolding bs_ulongs_def by presburger
  ultimately show False using assms(2,3) by (metis bs_stop_def)
qed

lemma clear_allocated: "i < 32 * bs_ulongs N \<Longrightarrow> allocated (bs_clear N s) i"
  by (simp add: allocated_def bs_clear_def ALL_ALLOCATED_def in_array)

lemma bs_reset_allocated:
  assumes "i < 32 * bs_ulongs N"
  shows "\<exists>t. bs_reset N i s = Inr t \<and> (\<forall>k. allocated t k \<longleftrightarrow> allocated s k \<and> k \<noteq> i) \<and> firstPos t = firstPos s"
proof -
  have e: "(k div 32 = i div 32 \<and> k mod 32 = i mod 32) \<longleftrightarrow> k = i" for k by (metis div_mult_mod_eq)
  have "bit (ucast (NOT (bs_mask i)) :: u64) (k mod 32) \<longleftrightarrow> k mod 32 \<noteq> i mod 32" for k
    by (auto simp: bs_mask_def bit_unsigned_iff bit_not_iff bit_push_bit_iff bit_1_iff bit_exp_iff)
  then show ?thesis using assms e unfolding bs_reset_def in_array allocated_def by (auto simp: bit_and_iff)
qed

lemma bs_free_allocated:
  assumes "p + len \<le> 32 * bs_ulongs N"
  shows "\<exists>t. bs_free N p len s = Inr t \<and> (\<forall>k. allocated t k \<longleftrightarrow> allocated s k \<and> \<not> (p \<le> k \<and> k < p + len)) \<and> firstPos t = firstPos s"
  using assms unfolding bs_free_def
proof (induction len arbitrary: p s)
  case (Suc len)
  obtain t where t: "bs_reset N p s = Inr t" "\<forall>k. allocated t k \<longleftrightarrow> allocated s k \<and> k \<noteq> p" "firstPos t = firstPos s"
    using bs_reset_allocated [of p N s] Suc.prems by auto
  obtain u where u: "rfold (bs_reset N) [Suc p ..< Suc p + len] t = Inr u"
    "\<forall>k. allocated u k \<longleftrightarrow> allocated t k \<and> \<not> (Suc p \<le> k \<and> k < Suc p + len)" "firstPos u = firstPos t"
    using Suc.IH [of "Suc p" t] Suc.prems by auto
  have "[p ..< p + Suc len] = p # [Suc p ..< Suc p + len]" by (simp add: upt_conv_Cons del: upt_Suc)
  then have "rfold (bs_reset N) [p ..< p + Suc len] s = Inr u" using t(1) u(1) by simp
  moreover have "k = p \<or> Suc p \<le> k \<and> k < Suc p + len \<longleftrightarrow> p \<le> k \<and> k < p + Suc len" for k by linarith
  ultimately show ?case using t(2,3) u(2,3) by (intro exI [of _ u]) (simp, blast)
qed auto

subsection \<open>The first and the last bit of a word\<close>

text \<open>
  The product of the de Bruijn number is taken in 64 bits and not cut to 32: of the words whose lowest bit is not one
  of the first six, the index leaves the table.
\<close>

lemma lowest_bit:
  fixes b :: u64
  assumes "bit b k" "\<And>j. j < k \<Longrightarrow> \<not> bit b j"
  shows "b AND (- b) = push_bit k 1" 
proof -
  let ?c = "drop_bit k b"
  have k: "k < 64" using bit_imp_le_length [OF assms(1)] by simp
  have "bit b n \<Longrightarrow> k \<le> n" for n using assms(2) not_le by blast
  then have b: "b = push_bit k ?c" by (intro bit_eqI) (auto simp: bit_simps)
  have odd: "odd ?c" using assms(1) by (simp add: bit_iff_odd_drop_bit)
  let ?d = "?c div 2"
  have "?c mod 2 = 1" using odd by (simp only: odd_iff_mod_2_eq_one)
  then have "2 * ?d + 1 = ?c" by (metis mult_div_mod_eq)
  then have c: "?c - 1 = push_bit 1 ?d" by (simp add: push_bit_eq_mult algebra_simps)
  have "?c AND (- ?c) = 1"
  proof (rule bit_eqI)
    fix n assume "possible_bit TYPE(u64) n"
    then have n: "n < 64" by simp
    have "bit (- ?c) n \<longleftrightarrow> \<not> (1 \<le> n \<and> bit ?d (n - 1))"
      unfolding minus_eq_not_minus_1 c using n by (simp only: bit_not_iff bit_push_bit_iff possible_bit_word) auto
    moreover have "bit ?c n \<longleftrightarrow> n = 0 \<or> bit ?d (n - 1)" using odd by (cases n) (simp_all add: bit_0 bit_Suc)
    ultimately show "bit (?c AND (- ?c)) n = bit (1 :: u64) n" unfolding bit_and_iff bit_1_iff by auto
  qed
  moreover have "- b = push_bit k (- ?c)" by (subst b) (simp add: push_bit_minus)
  ultimately show ?thesis by (metis b push_bit_and)
qed

lemma debruijn_places:
  "\<forall>k \<in> set [0 ..< 64]. let i = (2 ^ k * 0x077CB531 mod 2 ^ 64) div 2 ^ 27 in (i < 32 \<longleftrightarrow> k \<le> 5) \<and> (k \<le> 5 \<longrightarrow> index32 ! i = k)"
  by (simp add: upt_rec [of _ 64] index32_def Let_def del: set_upt)

lemma debruijn_place:
  assumes "k < 64"
  shows "unat (drop_bit 27 (push_bit k 1 * debruijn32)) = (2 ^ k * 0x077CB531 mod 2 ^ 64) div 2 ^ 27"
proof -
  have e: "push_bit k 1 * debruijn32 = of_nat (2 ^ k * 0x077CB531)" by (simp add: push_bit_eq_mult debruijn32_def)
  have "unat (of_nat (2 ^ k * 0x077CB531) :: u64) = 2 ^ k * 0x077CB531 mod 2 ^ 64" by (simp only: unat_of_nat take_bit_eq_mod) simp
  then show ?thesis unfolding e by (metis unat_drop_bit_eq drop_bit_eq_div)
qed

lemma bs_lsb_lowest:
  assumes "bit b k" "\<And>j. j < k \<Longrightarrow> \<not> bit b j"
  shows "bs_lsb b = (if k \<le> 5 then Inr k else Inl Undefined)"
proof -
  let ?i = "(2 ^ k * 0x077CB531 mod 2 ^ 64) div 2 ^ 27 :: nat"
  have k: "k < 64" using bit_imp_le_length [OF assms(1)] by simp
  then have "(?i < 32 \<longleftrightarrow> k \<le> 5) \<and> (k \<le> 5 \<longrightarrow> index32 ! ?i = k)" using debruijn_places by (simp add: Let_def)
  moreover have "bs_lsb b = (if ?i < 32 then Inr (index32 ! ?i) else Inl Undefined)"
    unfolding bs_lsb_def Let_def using lowest_bit [of b k] assms debruijn_place [OF k] by simp
  ultimately show ?thesis by simp
qed

lemma firstAfter_start:
  assumes "0 < N" "bit (bs_B s 0) k" "\<And>j. j < k \<Longrightarrow> \<not> bit (bs_B s 0) j"
  shows "bs_firstAfter N 0 s = (if k \<le> 5 then Inr (Some k) else Inl Undefined)"
proof -
  have "0 < bs_ulongs N" using assms(1) by (simp add: bs_ulongs_def)
  then have "[0 ..< bs_ulongs N] = 0 # [1 ..< bs_ulongs N]" by (simp add: upt_conv_Cons)
  moreover have "bs_B s 0 \<noteq> 0" using assms(2) by auto
  ultimately show ?thesis using bs_lsb_lowest [OF assms(2,3)] by (simp add: bs_firstAfter_def Let_def)
qed

text \<open>Setting bit 31 sets the upper half of the word.\<close>

lemma bi_set_31: "bi_set b 31 = b OR 0xFFFFFFFF80000000"
proof -
  have "bi_on 31 = 0xFFFFFFFF80000000" by code_simp
  then show ?thesis by (simp add: bi_set_def)
qed

text \<open>The constructor of \<open>BitIndex\<close> leaves the table when it enters the sixth place.\<close>

lemma bi_setup_undefined: "bi_setup t = Inl Undefined"
proof -
  have "[0 ..< 32 :: nat] = [0, 1, 2, 3, 4, 5] @ [6 ..< 32]" by (simp add: upt_rec)
  then show ?thesis by (simp add: bi_setup_def debruijn32_def Let_def)
qed

text \<open>\<open>msb\<close> is right for words of 32 bits, and leaves its table for larger ones.\<close>

lemma lgtable:
  fixes y :: nat
  assumes "0 < y" "y < 16"
  shows "2 ^ (bi_lgtable ! y) \<le> y" "y < 2 ^ Suc (bi_lgtable ! y)"
proof -
  have "list_all (\<lambda>y. 0 < y \<longrightarrow> 2 ^ (bi_lgtable ! y) \<le> y \<and> y < 2 ^ Suc (bi_lgtable ! y)) [0 ..< 16 :: nat]" by code_simp
  then show "2 ^ (bi_lgtable ! y) \<le> y" "y < 2 ^ Suc (bi_lgtable ! y)" using assms unfolding list_all_iff by simp_all
qed

lemma bi_msb_log:
  assumes "b \<noteq> 0"
  shows "if unat b < 2 ^ 32 then \<exists>k. bi_msb b = Inr k \<and> 2 ^ k \<le> unat b \<and> unat b < 2 ^ Suc k else bi_msb b = Inl Undefined"
proof -
  let ?n = "unat b"
  define l1 b1 where 1: "l1 = (if 65536 \<le> b then 16 else 0 :: nat)" "b1 = drop_bit l1 b"
  define l2 b2 where 2: "l2 = (if 256 \<le> b1 then 8 else 0 :: nat)" "b2 = drop_bit l2 b1"
  define l3 b3 where 3: "l3 = (if 16 \<le> b2 then 4 else 0 :: nat)" "b3 = drop_bit l3 b2"
  have m: "bi_msb b = (if unat b3 < 16 then Inr (l1 + l2 + l3 + bi_lgtable ! unat b3) else Inl Undefined)"
    by (simp add: bi_msb_def 1 2 3 Let_def)
  have u: "unat b1 = ?n div 2 ^ l1" "unat b2 = unat b1 div 2 ^ l2" "unat b3 = unat b2 div 2 ^ l3"
    unfolding 1(2) 2(2) 3(2) by (rule trans [OF unat_drop_bit_eq drop_bit_eq_div])+
  have c: "l1 = (if 65536 \<le> ?n then 16 else 0)" "l2 = (if 256 \<le> unat b1 then 8 else 0)" "l3 = (if 16 \<le> unat b2 then 4 else 0)"
    unfolding 1(1) 2(1) 3(1) by (simp_all add: word_le_nat_alt)
  have n: "0 < ?n" using assms by (simp add: unat_gt_0)
  have b1: "0 < unat b1 \<and> (unat b1 < 65536 \<longleftrightarrow> ?n < 2 ^ 32)" using n unfolding u(1) c(1) by (auto simp: div_greater_zero_iff div_less_iff_less_mult)
  have b2: "0 < unat b2 \<and> (unat b2 < 256 \<longleftrightarrow> ?n < 2 ^ 32)" using b1 unfolding u(2) c(2) by (auto simp: div_greater_zero_iff div_less_iff_less_mult)
  have b3: "0 < unat b3 \<and> (unat b3 < 16 \<longleftrightarrow> ?n < 2 ^ 32)" using b2 unfolding u(3) c(3) by (auto simp: div_greater_zero_iff div_less_iff_less_mult)
  have e: "unat b3 = ?n div 2 ^ (l1 + l2 + l3)" unfolding u by (simp add: div_mult2_eq power_add)
  show ?thesis
  proof (cases "?n < 2 ^ 32")
    case True
    let ?k = "bi_lgtable ! unat b3"
    have "2 ^ ?k \<le> ?n div 2 ^ (l1 + l2 + l3)" "?n div 2 ^ (l1 + l2 + l3) < 2 ^ Suc ?k"
      using lgtable [of "unat b3"] b3 True unfolding e by simp_all
    then have "2 ^ (l1 + l2 + l3 + ?k) \<le> ?n" "?n < 2 ^ Suc (l1 + l2 + l3 + ?k)"
      by (simp_all add: less_eq_div_iff_mult_less_eq div_less_iff_less_mult power_add ac_simps)
    then show ?thesis using m b3 True by auto
  qed (use m b3 in simp)
qed

end
