(* ===== verification/Seg_Heap.thy ===== *)
theory Seg_Heap
  imports Heap_Layers Bit_Strings
begin

unbundle bit_operations_syntax

text \<open>
  \<open>SegHeap\<close> of \<^verbatim>\<open>segheap.h\<close>, the segregated heap that the strict one extends: a map of bits says which bins may
  hold an object, and \<open>malloc\<close> looks for one that is large enough through the words of the map. What the template
  takes, the size classes and the heaps below, is a record of functions. \<open>freeAll\<close> of the strict heap is here too.

  The words have 64 bits, of which the code uses 32.
\<close>

record ('l, 'b) seg_params =
  NumBins :: nat
  getSizeClass :: "u64 \<Rightarrow> nat"
  getClassMaxSize :: "nat \<Rightarrow> u64"
  little_malloc :: "u64 \<Rightarrow> 'l \<Rightarrow> u64 \<times> 'l"
  little_free :: "u64 \<Rightarrow> 'l \<Rightarrow> 'l"
  little_clear :: "'l \<Rightarrow> 'l"
  big_malloc :: "u64 \<Rightarrow> 'b \<Rightarrow> u64 \<times> 'b"
  big_free :: "u64 \<Rightarrow> 'b \<Rightarrow> 'b"
  big_clear :: "'b \<Rightarrow> 'b"

record ('l, 'b) segheap =
  binmap :: "nat \<Rightarrow> u64"
  seg_held :: u64
  seg_little :: "nat \<Rightarrow> 'l"
  seg_bigheap :: 'b

definition seg_ulongs :: "('l, 'b) seg_params \<Rightarrow> nat" where
  "seg_ulongs T = (NumBins T + 31) div 32"

definition seg_maxObjectSize :: "('l, 'b) seg_params \<Rightarrow> u64" where
  "seg_maxObjectSize T = getClassMaxSize T (NumBins T - 1)"

subsection \<open>The map of bins\<close>

definition idx2block :: "nat \<Rightarrow> nat" where "idx2block i = i div 32"
definition idx2bit :: "nat \<Rightarrow> u64" where "idx2bit i = ucast (push_bit (i mod 32) 1 :: u32)"

definition get_binmap :: "nat \<Rightarrow> ('l, 'b) segheap \<Rightarrow> bool" where
  "get_binmap i s \<longleftrightarrow> binmap s (idx2block i) AND idx2bit i \<noteq> 0"

definition mark_bin :: "nat \<Rightarrow> ('l, 'b) segheap \<Rightarrow> ('l, 'b) segheap" where
  "mark_bin i s = s\<lparr>binmap := (binmap s)(idx2block i := binmap s (idx2block i) OR idx2bit i)\<rparr>"

definition unmark_bin :: "nat \<Rightarrow> ('l, 'b) segheap \<Rightarrow> ('l, 'b) segheap" where
  "unmark_bin i s = s\<lparr>binmap := (binmap s)(idx2block i := binmap s (idx2block i) AND NOT (idx2bit i))\<rparr>"

definition segheap_new :: "(nat \<Rightarrow> 'l) \<Rightarrow> 'b \<Rightarrow> ('l, 'b) segheap" where
  "segheap_new l b = \<lparr>binmap = (\<lambda>_. 0), seg_held = 0, seg_little = l, seg_bigheap = b\<rparr>"

definition segheap_clear :: "('l, 'b) seg_params \<Rightarrow> ('l, 'b) segheap \<Rightarrow> ('l, 'b) segheap" where
  "segheap_clear T s =
     s\<lparr>seg_little := (\<lambda>i. if i < NumBins T then little_clear T (seg_little s i) else seg_little s i),
       binmap := (\<lambda>j. if j < seg_ulongs T then 0 else binmap s j),
       seg_bigheap := big_clear T (seg_bigheap s), seg_held := 0\<rparr>"

subsection \<open>malloc\<close>

text \<open>
  The inner loops, on the local copies of the code: the next word that is not zero, and the next bit that is set.
  The second need not end.
\<close>

definition next_block :: "nat \<Rightarrow> (nat \<Rightarrow> u64) \<Rightarrow> nat \<Rightarrow> nat option" where
  "next_block n m block = find (\<lambda>j. m j \<noteq> 0) [Suc block ..< n]"

partial_function (option) next_bit :: "u64 \<Rightarrow> u64 \<Rightarrow> nat \<Rightarrow> (u64 \<times> nat) option" where
  "next_bit m b idx = (if b AND m = 0 then next_bit m (push_bit 1 b) (Suc idx) else Some (b, idx))"

text \<open>
  The loop. \<open>None\<close> of the result is \<open>GET_MEMORY\<close>; \<open>Undefined\<close> if a bin past the last is used.
\<close>

partial_function (option) seg_search ::
    "('l, 'b) seg_params \<Rightarrow> u64 \<Rightarrow> nat \<Rightarrow> u64 \<Rightarrow> u64 \<Rightarrow> nat \<Rightarrow> ('l, 'b) segheap \<Rightarrow>
     (u64 option \<times> ('l, 'b) segheap) res option" where
  "seg_search T sz block m b idx s =
     (case (if m < b \<or> b = 0
            then map_option (\<lambda>j. (j, binmap s j, 1, 32 * j)) (next_block (seg_ulongs T) (binmap s) block)
            else Some (block, m, b, idx)) of
        None \<Rightarrow> Some (Inr (None, s))
      | Some (block1, m1, b1, idx1) \<Rightarrow>
          Option.bind (next_bit m1 b1 idx1) (\<lambda>(b2, idx2).
            if NumBins T \<le> idx2 then Some (Inl Undefined)
            else case little_malloc T sz (seg_little s idx2) of (ptr, l) \<Rightarrow>
              let s1 = s\<lparr>seg_little := (seg_little s)(idx2 := l)\<rparr> in
              if ptr = 0 then
                let m2 = m1 AND NOT b2 in
                seg_search T sz block1 m2 (push_bit 1 b2) (Suc idx2) (s1\<lparr>binmap := (binmap s1)(block1 := m2)\<rparr>)
              else Some (Inr (Some ptr, s1))))"

definition seg_get_memory :: "('l, 'b) seg_params \<Rightarrow> u64 \<Rightarrow> ('l, 'b) segheap \<Rightarrow> u64 \<times> ('l, 'b) segheap" where
  "seg_get_memory T sz s = (case big_malloc T sz (seg_bigheap s) of (ptr, b) \<Rightarrow> (ptr, s\<lparr>seg_bigheap := b\<rparr>))"

definition segheap_malloc :: "('l, 'b) seg_params \<Rightarrow> u64 \<Rightarrow> ('l, 'b) segheap \<Rightarrow> (u64 \<times> ('l, 'b) segheap) res option" where
  "segheap_malloc T sz s =
     (if seg_maxObjectSize T < sz then Some (Inr (seg_get_memory T sz s))
      else
        let idx = getSizeClass T sz; block = idx2block idx in
        if seg_ulongs T \<le> block then Some (Inl Undefined)
        else map_option (\<lambda>r. rbind r (\<lambda>(p, s1). Inr (case p of Some ptr \<Rightarrow> (ptr, s1) | None \<Rightarrow> seg_get_memory T sz s1)))
               (seg_search T sz block (binmap s block) (idx2bit idx) idx s))"

subsection \<open>free\<close>

text \<open>
  The largest class that fits into the object. Below class zero the code goes on with negative numbers.
  \<open>objectSize\<close> is what \<open>getSize\<close> says.
\<close>

fun class_down :: "(nat \<Rightarrow> u64) \<Rightarrow> u64 \<Rightarrow> nat \<Rightarrow> nat res" where
  "class_down G sz 0 = (if sz < G 0 then Inl Undefined else Inr 0)"
| "class_down G sz (Suc c) = (if sz < G (Suc c) then class_down G sz c else Inr (Suc c))"

definition segheap_free :: "('l, 'b) seg_params \<Rightarrow> u64 \<Rightarrow> u64 \<Rightarrow> ('l, 'b) segheap \<Rightarrow> ('l, 'b) segheap res" where
  "segheap_free T objectSize ptr s =
     (if objectSize = 0 then Inr s
      else if seg_maxObjectSize T < objectSize then Inr (s\<lparr>seg_bigheap := big_free T ptr (seg_bigheap s)\<rparr>)
      else rbind (class_down (getClassMaxSize T) objectSize (getSizeClass T objectSize)) (\<lambda>c.
        if NumBins T \<le> c then Inl Undefined
        else Inr ((mark_bin c (s\<lparr>seg_little := (seg_little s)(c := little_free T ptr (seg_little s c))\<rparr>))
                    \<lparr>seg_held := seg_held s + objectSize\<rparr>)))"

text \<open>\<open>freeAll\<close>: the bins are emptied into the big heap, which need not end.\<close>

partial_function (option) empty_bin ::
    "('l, 'b) seg_params \<Rightarrow> u64 \<Rightarrow> 'l \<Rightarrow> 'b \<Rightarrow> ('l \<times> 'b) option" where
  "empty_bin T sz l b =
     (case little_malloc T sz l of (ptr, l1) \<Rightarrow> if ptr = 0 then Some (l1, b) else empty_bin T sz l1 (big_free T ptr b))"

fun empty_bins :: "('l, 'b) seg_params \<Rightarrow> nat list \<Rightarrow> ('l, 'b) segheap \<Rightarrow> ('l, 'b) segheap option" where
  "empty_bins T [] s = Some s"
| "empty_bins T (i # is) s =
     Option.bind (empty_bin T (getClassMaxSize T i) (seg_little s i) (seg_bigheap s)) (\<lambda>(l, b).
       empty_bins T is (s\<lparr>seg_little := (seg_little s)(i := l), seg_bigheap := b\<rparr>))"

definition segheap_freeAll :: "('l, 'b) seg_params \<Rightarrow> ('l, 'b) segheap \<Rightarrow> ('l, 'b) segheap option" where
  "segheap_freeAll T s =
     map_option (\<lambda>s1. s1\<lparr>binmap := (\<lambda>j. if j < seg_ulongs T then 0 else binmap s1 j), seg_held := 0\<rparr>)
       (empty_bins T [0 ..< NumBins T] s)"

subsection \<open>What malloc takes\<close>

text \<open>
  The abstract search: the marked bins from the class of the request on, in their order, each unmarked when it turns
  out to be empty.
\<close>

definition marked :: "('l, 'b) seg_params \<Rightarrow> ('l, 'b) segheap \<Rightarrow> nat \<Rightarrow> nat list" where
  "marked T s k = filter (\<lambda>i. get_binmap i s) [k ..< NumBins T]"

fun try_bins :: "('l, 'b) seg_params \<Rightarrow> u64 \<Rightarrow> nat list \<Rightarrow> ('l, 'b) segheap \<Rightarrow> u64 option \<times> ('l, 'b) segheap" where
  "try_bins T sz [] s = (None, s)"
| "try_bins T sz (i # is) s =
     (case little_malloc T sz (seg_little s i) of (ptr, l) \<Rightarrow>
        let s1 = s\<lparr>seg_little := (seg_little s)(i := l)\<rparr> in
        if ptr = 0 then try_bins T sz is (unmark_bin i s1) else (Some ptr, s1))"

text \<open>Only bins that exist are marked, and only in the low halves of the words.\<close>

definition marks_ok :: "('l, 'b) seg_params \<Rightarrow> ('l, 'b) segheap \<Rightarrow> bool" where
  "marks_ok T s \<longleftrightarrow> (\<forall>j k. bit (binmap s j) k \<longrightarrow> k < 32 \<and> 32 * j + k < NumBins T)"

lemma idx2bit_push: "idx2bit i = push_bit (i mod 32) 1"
  by (rule bit_eqI) (auto simp: idx2bit_def bit_simps)

lemma get_binmap_bit: "get_binmap i s \<longleftrightarrow> bit (binmap s (i div 32)) (i mod 32)"
  unfolding get_binmap_def idx2bit_push idx2block_def bit_iff_and_push_bit_not_eq_0 ..

lemma unat_push_1:
  assumes "k < 64"
  shows "unat (push_bit k 1 :: u64) = 2 ^ k"
proof -
  have e: "push_bit k (1 :: u64) = of_nat (2 ^ k)" by (simp add: push_bit_eq_mult)
  have "n < 2 ^ 64 \<Longrightarrow> unat (of_nat n :: u64) = n" for n by (simp add: unat_of_nat take_bit_nat_eq_self)
  moreover have "(2 :: nat) ^ k < 2 ^ 64" using assms by (intro power_strict_increasing) simp_all
  ultimately show ?thesis unfolding e by blast
qed

lemma bit_lt_push:
  assumes "k < 64"
  shows "m < push_bit k (1 :: u64) \<longleftrightarrow> (\<forall>j\<ge>k. \<not> bit m j)"
proof
  assume "m < push_bit k 1"
  then have "unat m < 2 ^ k" unfolding word_less_nat_alt unat_push_1 [OF assms] .
  then have "unat m = take_bit k (unat m)" by (simp add: take_bit_nat_eq_self)
  then have "bit (unat m) j \<Longrightarrow> j < k" for j by (metis bit_take_bit_iff)
  then show "\<forall>j\<ge>k. \<not> bit m j" by (force simp: bit_unsigned_iff bit_imp_le_length)
next
  assume *: "\<forall>j\<ge>k. \<not> bit m j"
  have "m = take_bit k m" by (rule bit_eqI) (use * in \<open>auto simp: bit_simps not_le\<close>)
  then have "unat m = take_bit k (unat m)" by (metis unsigned_take_bit_eq)
  then have "unat m < 2 ^ k" by (metis take_bit_nat_less_exp)
  then show "m < push_bit k 1" unfolding word_less_nat_alt unat_push_1 [OF assms] .
qed

lemma and_push: "push_bit k 1 AND m = 0 \<longleftrightarrow> \<not> bit m k" for m :: u64
  using bit_iff_and_push_bit_not_eq_0 [of m k] by (simp only: and.commute) simp

lemma next_bit_least:
  assumes "bit m j" "k \<le> j" "\<And>i. k \<le> i \<Longrightarrow> i < j \<Longrightarrow> \<not> bit m i"
  shows "next_bit m (push_bit k 1) idx = Some (push_bit j 1, idx + (j - k))"
  using assms(2,3)
proof (induction "j - k" arbitrary: k idx)
  case 0
  then show ?case using assms(1) by (subst next_bit.simps) (simp only: and_push, simp)
next
  case (Suc n)
  have "\<not> bit m k" using Suc.prems(2) [of k] Suc(2) by simp
  moreover have "next_bit m (push_bit (Suc k) 1) (Suc idx) = Some (push_bit j 1, Suc idx + (j - Suc k))"
    using Suc.hyps(2) Suc.prems by (intro Suc.hyps(1)) auto
  moreover have "push_bit 1 (push_bit k (1 :: u64)) = push_bit (Suc k) 1" by (simp only: push_bit_push_bit) simp
  ultimately show ?case using Suc.hyps(2) unfolding next_bit.simps [of m "push_bit k 1"] and_push
    by (simp add: mult.commute)
qed

lemma marks_okD: "marks_ok T s \<Longrightarrow> bit (binmap s j) k \<Longrightarrow> k < 32 \<and> 32 * j + k < NumBins T"
  by (simp add: marks_ok_def)

lemma marked_bit: "i \<in> set (marked T s k) \<longleftrightarrow> k \<le> i \<and> i < NumBins T \<and> bit (binmap s (i div 32)) (i mod 32)"
  by (auto simp: marked_def get_binmap_bit)

lemma marks_ok_block: "marks_ok T s \<Longrightarrow> bit (binmap s j) k \<Longrightarrow> 32 * j + k \<in> set (marked T s 0) \<and> j < seg_ulongs T"
  using marks_okD [of T s j k] by (auto simp: marked_bit seg_ulongs_def)

text \<open>The head of the list is the least marked bin.\<close>

lemma filter_hd:
  assumes "filter P [a ..< n] = i # is"
  shows "a \<le> i \<and> i < n \<and> P i \<and> (\<forall>j. a \<le> j \<longrightarrow> j < i \<longrightarrow> \<not> P j) \<and> is = filter P [Suc i ..< n]"
proof -
  have an: "a \<le> n" using assms by (cases "a \<le> n") auto
  obtain us vs where u: "[a ..< n] = us @ i # vs" "\<forall>u\<in>set us. \<not> P u" "P i" "is = filter P vs"
    using filter_eq_ConsD [OF assms] by blast
  let ?k = "length us"
  have len: "a + ?k < n" using arg_cong [OF u(1), of length] by simp
  have "i = a + ?k" using arg_cong [OF u(1), of "\<lambda>l. l ! ?k"] len by simp
  moreover have "us = [a ..< a + ?k]" using arg_cong [OF u(1), of "take ?k"] len by simp
  moreover have "vs = [Suc (a + ?k) ..< n]" using arg_cong [OF u(1), of "drop (Suc ?k)"] len by simp
  ultimately show ?thesis using u(2-4) len by (metis atLeastLessThan_iff le_add1 set_upt)
qed

text \<open>The place where the loop looks next, and the bit it finds there.\<close>

definition search_pos :: "('l, 'b) seg_params \<Rightarrow> nat \<Rightarrow> u64 \<Rightarrow> u64 \<Rightarrow> nat \<Rightarrow> ('l, 'b) segheap \<Rightarrow> (nat \<times> u64 \<times> u64 \<times> nat) option" where
  "search_pos T block m b idx s =
     (if m < b \<or> b = 0
      then map_option (\<lambda>j. (j, binmap s j, 1, 32 * j)) (next_block (seg_ulongs T) (binmap s) block)
      else Some (block, m, b, idx))"

lemma word_in_block: "idx = 32 * j + k \<Longrightarrow> k < 32 \<Longrightarrow> idx div 32 = (j :: nat) \<and> idx mod 32 = k"
  by simp

lemma search_pos_ok:
  fixes block :: nat
  assumes ok: "marks_ok T s" and k: "k \<le> 32"
    and r_def: "r = search_pos T block (binmap s block) (push_bit k 1) (32 * block + k) s"
  shows "marked T s (32 * block + k) = [] \<Longrightarrow> r = None"
    "marked T s (32 * block + k) = i # is \<Longrightarrow>
       \<exists>b1 idx1. r = Some (i div 32, binmap s (i div 32), b1, idx1) \<and>
         next_bit (binmap s (i div 32)) b1 idx1 = Some (push_bit (i mod 32) 1, i)"
proof -
  let ?m = "binmap s block" and ?M = "marked T s (32 * block + k)"
  have nz: "push_bit k (1 :: u64) \<noteq> 0" using k bit_lt_push [of k 0] by (auto simp: word_neq_0_conv)
  have here: "\<not> ?m < push_bit k 1 \<longleftrightarrow> (\<exists>j\<ge>k. bit ?m j)" using bit_lt_push [of k ?m] k by auto
  have mem: "j \<ge> k \<Longrightarrow> bit ?m j \<Longrightarrow> 32 * block + j \<in> set ?M" for j
    using marks_okD [OF ok, of block j] by (simp add: marked_bit)
  have later: "block < b \<Longrightarrow> bit (binmap s b) j \<Longrightarrow> 32 * b + j \<in> set ?M" for b j
    using marks_okD [OF ok, of b j] k by (simp add: marked_bit)
  show "?M = [] \<Longrightarrow> r = None"
  proof -
    assume e: "?M = []"
    then have "?m < push_bit k 1" using here mem by fastforce
    moreover have "next_block (seg_ulongs T) (binmap s) block = None"
    proof -
      have "binmap s j = 0" if "block < j" for j by (rule bit_eqI) (use e later [OF that] in auto)
      then show ?thesis by (simp add: next_block_def find_None_iff Suc_le_eq)
    qed
    ultimately show ?thesis by (simp add: r_def search_pos_def)
  qed
  assume e: "?M = i # is"
  have "filter (\<lambda>i. get_binmap i s) [32 * block + k ..< NumBins T] = i # is" using e by (simp add: marked_def)
  then have h: "32 * block + k \<le> i" "i < NumBins T" "bit (binmap s (i div 32)) (i mod 32)"
    "\<And>j. 32 * block + k \<le> j \<Longrightarrow> j < i \<Longrightarrow> \<not> bit (binmap s (j div 32)) (j mod 32)"
    using filter_hd unfolding get_binmap_bit by blast+
  have i: "i = 32 * (i div 32) + i mod 32" "i mod 32 < 32" by simp_all
  show "\<exists>b1 idx1. r = Some (i div 32, binmap s (i div 32), b1, idx1) \<and>
         next_bit (binmap s (i div 32)) b1 idx1 = Some (push_bit (i mod 32) 1, i)"
  proof (cases "\<exists>j\<ge>k. bit ?m j")
    case True
    then obtain j where j: "j \<ge> k" "bit ?m j" by blast
    have j32: "j < 32" using marks_okD [OF ok j(2)] by simp
    have "i \<le> 32 * block + j"
    proof (rule ccontr)
      assume "\<not> ?thesis"
      then show False using h(4) [of "32 * block + j"] j word_in_block [OF refl j32, of block] by simp
    qed
    then have "i div 32 = block" using h(1) j32 i by linarith
    moreover have "k \<le> i mod 32" using calculation h(1) i by linarith
    ultimately have b: "i div 32 = block" "k \<le> i mod 32" by blast+
    have least: "\<not> bit ?m l" if "k \<le> l" "l < i mod 32" for l
    proof -
      have "32 * block + l < i" "l < 32" using that(2) i b(1) by linarith+
      then show ?thesis using h(4) [of "32 * block + l"] that(1) word_in_block [OF refl, of l block] by auto
    qed
    have "bit ?m (i mod 32)" using h(3) b(1) by simp
    from next_bit_least [OF this b(2) least, of "32 * block + k"]
    have "next_bit ?m (push_bit k 1) (32 * block + k) = Some (push_bit (i mod 32) 1, i)" using b i(1) by simp
    then show ?thesis using True here nz b(1) by (simp add: r_def search_pos_def)
  next
    case False
    have gt: "block < i div 32"
    proof (rule ccontr)
      assume "\<not> ?thesis"
      then have b: "i div 32 = block" using h(1) k i by linarith
      then have "k \<le> i mod 32" using h(1) i by linarith
      then show False using b False h(3) by auto
    qed
    have "find (\<lambda>j. binmap s j \<noteq> 0) [Suc block ..< seg_ulongs T] = Some (i div 32)"
    proof -
      have "i div 32 < seg_ulongs T" "binmap s (i div 32) \<noteq> 0"
        using h(3) marks_ok_block [OF ok h(3)] by auto
      moreover have "binmap s l = 0" if "block < l" "l < i div 32" for l
      proof (rule bit_eqI)
        fix n
        have "\<not> bit (binmap s l) n"
        proof
          assume n: "bit (binmap s l) n"
          then have "n < 32" using marks_okD [OF ok] by blast
          moreover have "32 * l + n < i" using that(2) i calculation by linarith
          ultimately show False using h(4) [of "32 * l + n"] n that(1) k word_in_block [OF refl, of n l] by auto
        qed
        then show "bit (binmap s l) n = bit 0 n" by simp
      qed
      ultimately show ?thesis using gt by (intro find_upt) (auto simp: Suc_le_eq)
    qed
    moreover have lt: "?m < push_bit k 1" using False here by blast
    ultimately have r: "r = Some (i div 32, binmap s (i div 32), 1, 32 * (i div 32))"
      using lt by (simp add: r_def search_pos_def next_block_def)
    have least: "\<not> bit (binmap s (i div 32)) l" if "0 \<le> l" "l < i mod 32" for l
    proof -
      have "32 * (i div 32) + l < i" "l < 32" using that(2) i by linarith+
      moreover have "32 * block + k \<le> 32 * (i div 32) + l" using gt k by linarith
      ultimately show ?thesis using h(4) [of "32 * (i div 32) + l"] word_in_block [OF refl, of l "i div 32"] by auto
    qed
    have "next_bit (binmap s (i div 32)) 1 (32 * (i div 32)) = Some (push_bit (i mod 32) 1, i)"
      using next_bit_least [of "binmap s (i div 32)" "i mod 32" 0 "32 * (i div 32)"] h(3) least by simp
    then show ?thesis using r by blast
  qed
qed

lemma unmark_marked:
  "marked T (unmark_bin i s) (Suc i) = marked T s (Suc i)"
  unfolding marked_def
proof (rule filter_cong)
  fix j assume "j \<in> set [Suc i ..< NumBins T]"
  then have "\<not> (j div 32 = i div 32 \<and> j mod 32 = i mod 32)" by (metis div_mult_mod_eq less_irrefl atLeastLessThan_iff set_upt Suc_le_eq)
  then show "get_binmap j (unmark_bin i s) = get_binmap j s"
    by (auto simp: get_binmap_bit unmark_bin_def idx2block_def idx2bit_push bit_and_iff bit_not_iff bit_push_bit_iff bit_1_iff bit_exp_iff)
qed simp

lemma unmark_ok: "marks_ok T s \<Longrightarrow> marks_ok T (unmark_bin i s)"
  by (auto simp: marks_ok_def unmark_bin_def bit_and_iff split: if_splits)

lemma little_ok [simp]: "marks_ok T (s\<lparr>seg_little := l\<rparr>) = marks_ok T s"
  by (simp add: marks_ok_def)

lemma little_marked [simp]: "marked T (s\<lparr>seg_little := l\<rparr>) k = marked T s k"
  by (simp add: marked_def get_binmap_def)

lemma seg_search_tries:
  assumes "marks_ok T s" "k \<le> 32"
  shows "seg_search T sz block (binmap s block) (push_bit k 1) (32 * block + k) s =
    Some (Inr (try_bins T sz (marked T s (32 * block + k)) s))"
  using assms
proof (induction "length (marked T s (32 * block + k))" arbitrary: s block k)
  case 0
  then have e: "marked T s (32 * block + k) = []" by simp
  with search_pos_ok(1) [OF 0(2,3) refl] show ?case
    unfolding seg_search.simps [of T sz block] search_pos_def [symmetric] by simp
next
  case (Suc n)
  then obtain i "is" where e: "marked T s (32 * block + k) = i # is" by (cases "marked T s (32 * block + k)") auto
  let ?m = "binmap s (i div 32)"
  obtain b1 idx1 where pos: "search_pos T block (binmap s block) (push_bit k 1) (32 * block + k) s = Some (i div 32, ?m, b1, idx1)"
      "next_bit ?m b1 idx1 = Some (push_bit (i mod 32) 1, i)"
    using search_pos_ok(2) [OF Suc.prems refl e] by blast
  have f: "i < NumBins T" "is = marked T s (Suc i)"
    using filter_hd e unfolding marked_def by blast+
  obtain ptr l where l: "little_malloc T sz (seg_little s i) = (ptr, l)" by fastforce
  let ?s = "unmark_bin i (s\<lparr>seg_little := (seg_little s)(i := l)\<rparr>)"
  have i: "32 * (i div 32) + Suc (i mod 32) = Suc i" "Suc (i mod 32) \<le> 32" by (simp_all add: Suc_leI)
  have "marked T ?s (Suc i) = is" using f(2) by (simp add: unmark_marked)
  then have "seg_search T sz (i div 32) (binmap ?s (i div 32)) (push_bit (Suc (i mod 32)) 1) (Suc i) ?s =
      Some (Inr (try_bins T sz is ?s))"
    using Suc.hyps(1) [of ?s "i div 32" "Suc (i mod 32)"] Suc.hyps(2) Suc.prems(1) i e by (simp add: unmark_ok)
  moreover have "?s = (s\<lparr>seg_little := (seg_little s)(i := l)\<rparr>)\<lparr>binmap := (binmap s)(i div 32 := ?m AND NOT (push_bit (i mod 32) 1))\<rparr>"
    by (simp add: unmark_bin_def idx2block_def idx2bit_push)
  moreover have "push_bit 1 (push_bit (i mod 32) (1 :: u64)) = push_bit (Suc (i mod 32)) 1"
    by (simp only: push_bit_push_bit) simp
  ultimately show ?case
    using pos f(1) l e unfolding seg_search.simps [of T sz block] search_pos_def [symmetric]
    by (simp add: Let_def mult.commute)
qed

lemma segheap_malloc_eq:
  assumes "marks_ok T s" "sz \<le> seg_maxObjectSize T \<Longrightarrow> getSizeClass T sz < NumBins T"
  shows "segheap_malloc T sz s = Some (Inr
    (if seg_maxObjectSize T < sz then seg_get_memory T sz s
     else case try_bins T sz (marked T s (getSizeClass T sz)) s of
       (Some ptr, s1) \<Rightarrow> (ptr, s1) | (None, s1) \<Rightarrow> seg_get_memory T sz s1))"
proof (cases "seg_maxObjectSize T < sz")
  case False
  let ?i = "getSizeClass T sz"
  have "?i div 32 < seg_ulongs T" using assms(2) False by (simp add: seg_ulongs_def not_less)
  moreover have "seg_search T sz (idx2block ?i) (binmap s (idx2block ?i)) (idx2bit ?i) ?i s = Some (Inr (try_bins T sz (marked T s ?i) s))"
    using seg_search_tries [OF assms(1), of "?i mod 32" sz "?i div 32"] unfolding idx2block_def idx2bit_push by simp
  ultimately show ?thesis using False by (simp add: segheap_malloc_def Let_def idx2block_def split: prod.split option.split)
qed (simp add: segheap_malloc_def)

lemma try_bins_ok: "marks_ok T s \<Longrightarrow> marks_ok T (snd (try_bins T sz is s))"
  by (induction "is" arbitrary: s) (auto simp: Let_def unmark_ok split: prod.split)

lemma segheap_malloc_marks:
  assumes "marks_ok T s" "sz \<le> seg_maxObjectSize T \<Longrightarrow> getSizeClass T sz < NumBins T"
    "segheap_malloc T sz s = Some (Inr (ptr, s'))"
  shows "marks_ok T s'"
proof -
  have g: "marks_ok T (snd (seg_get_memory T sz t)) = marks_ok T t" for t
    by (simp add: seg_get_memory_def marks_ok_def split: prod.split)
  obtain p t where t: "try_bins T sz (marked T s (getSizeClass T sz)) s = (p, t)" by fastforce
  then have "marks_ok T t" using try_bins_ok [OF assms(1)] by (metis snd_conv)
  moreover have "s' \<in> {snd (seg_get_memory T sz s), snd (seg_get_memory T sz t), t}"
    using assms(3) t segheap_malloc_eq [of T s sz] assms(1,2) by (cases p) (auto split: if_splits)
  ultimately show ?thesis using g assms(1) by blast
qed

text \<open>A freed object is in a bin whose objects are no larger, which is marked.\<close>

lemma class_down_le: "class_down G sz c = Inr d \<Longrightarrow> d \<le> c \<and> G d \<le> sz \<and> (\<forall>e. d < e \<longrightarrow> e \<le> c \<longrightarrow> sz < G e)"
  by (induction c) (auto simp: not_less le_Suc_eq split: if_splits)

lemma segheap_free_bin:
  assumes "marks_ok T s" "objectSize \<noteq> 0" "objectSize \<le> seg_maxObjectSize T" "segheap_free T objectSize ptr s = Inr s'"
  shows "\<exists>c \<le> getSizeClass T objectSize. getClassMaxSize T c \<le> objectSize \<and> marks_ok T s' \<and> get_binmap c s' \<and>
    seg_little s' = (seg_little s)(c := little_free T ptr (seg_little s c)) \<and> seg_held s' = seg_held s + objectSize"
proof -
  obtain c where c: "class_down (getClassMaxSize T) objectSize (getSizeClass T objectSize) = Inr c" "c < NumBins T"
    "s' = (mark_bin c (s\<lparr>seg_little := (seg_little s)(c := little_free T ptr (seg_little s c))\<rparr>))\<lparr>seg_held := seg_held s + objectSize\<rparr>"
    using assms(2-4) by (auto simp: segheap_free_def rbind_Inr_iff not_less split: if_splits)
  have b: "bit (binmap s' j) k \<longleftrightarrow> bit (binmap s j) k \<or> j = c div 32 \<and> k = c mod 32" for j k
    by (auto simp: c(3) mark_bin_def idx2block_def idx2bit_push bit_or_iff bit_exp_iff)
  have "marks_ok T s'" using assms(1) c(2) unfolding marks_ok_def b by auto
  moreover have "get_binmap c s'" unfolding get_binmap_bit b by simp
  ultimately show ?thesis using class_down_le [OF c(1)] by (auto simp: c(3) mark_bin_def)
qed

text \<open>\<open>freeAll\<close> returns if the bins run out, and nothing is marked then.\<close>

lemma freeAll_returns:
  fixes \<mu> :: "'l \<Rightarrow> nat"
  assumes "\<And>sz l p l1. little_malloc T sz l = (p, l1) \<Longrightarrow> p \<noteq> 0 \<Longrightarrow> \<mu> l1 < \<mu> l" "marks_ok T s"
  shows "\<exists>s'. segheap_freeAll T s = Some s' \<and> (\<forall>i < NumBins T. \<not> get_binmap i s') \<and> seg_held s' = 0"
proof -
  have "\<exists>x. empty_bin T sz l b = Some x" for sz l b
  proof (induction l arbitrary: b rule: measure_induct_rule [of \<mu>])
    case (less l)
    then show ?case using assms(1) by (subst empty_bin.simps) (auto split: prod.split)
  qed
  then have "\<exists>t. empty_bins T is s = Some t" for "is"
  proof (induction "is" arbitrary: s)
    case (Cons i "is")
    obtain l b where "empty_bin T (getClassMaxSize T i) (seg_little s i) (seg_bigheap s) = Some (l, b)"
      using Cons.prems by (metis surj_pair)
    then show ?case using Cons.IH [OF Cons.prems] by simp
  qed simp
  then obtain t where t: "empty_bins T [0 ..< NumBins T] s = Some t" by blast
  have "i div 32 < seg_ulongs T" if "i < NumBins T" for i using that by (simp add: seg_ulongs_def)
  then show ?thesis using t by (simp add: segheap_freeAll_def get_binmap_bit)
qed

text \<open>
  C34: \<open>malloc\<close> of the segregated heap, for every state of its bit map: a request within the classes is served from
  the first marked bin of its class or above that has an object; marked bins found empty on the way are unmarked and
  no other mark changes; with no such bin, or for a larger request, the big heap serves it. The search ends and never
  leaves the map.
\<close>

theorem segheap_malloc_bins:
  assumes "marks_ok T s" "sz \<le> seg_maxObjectSize T \<Longrightarrow> getSizeClass T sz < NumBins T"
  shows "segheap_malloc T sz s = Some (Inr
    (if seg_maxObjectSize T < sz then seg_get_memory T sz s
     else case try_bins T sz (marked T s (getSizeClass T sz)) s of
       (Some ptr, s1) \<Rightarrow> (ptr, s1) | (None, s1) \<Rightarrow> seg_get_memory T sz s1))"
  using segheap_malloc_eq [of T s sz] assms by blast

text \<open>Lists of free objects for bins, and a class for every size.\<close>

definition demo_seg :: "(u64 list, u64) seg_params" where
  "demo_seg = \<lparr>NumBins = 64, getSizeClass = unat, getClassMaxSize = of_nat,
     little_malloc = (\<lambda>sz l. case l of [] \<Rightarrow> (0, []) | x # xs \<Rightarrow> (x, xs)), little_free = (#), little_clear = (\<lambda>_. []),
     big_malloc = (\<lambda>sz b. (b, b + sz)), big_free = (\<lambda>p b. b), big_clear = (\<lambda>b. b)\<rparr>"

definition demo_bins :: "(u64 list, u64) segheap" where
  "demo_bins = mark_bin 40 (mark_bin 2 (segheap_new (\<lambda>i. if i = 40 then [4096] else []) 65536))"

lemma demo_bins_bit: "bit (binmap demo_bins j) k \<longleftrightarrow> j = 0 \<and> k = 2 \<or> j = 1 \<and> k = 8"
  by (auto simp: demo_bins_def mark_bin_def segheap_new_def idx2block_def idx2bit_push bit_or_iff bit_exp_iff
      bit_push_bit_iff bit_1_iff simp del: push_bit_of_1)

theorem segheap_malloc_bins_witness:
  "\<exists>s. segheap_malloc demo_seg 1 demo_bins = Some (Inr (4096, s)) \<and> \<not> get_binmap 2 s \<and> get_binmap 40 s"
proof -
  have ok: "marks_ok demo_seg demo_bins" by (auto simp: marks_ok_def demo_bins_bit demo_seg_def)
  have m: "marked demo_seg demo_bins 1 = [2, 40]"
    unfolding marked_def get_binmap_bit demo_bins_bit by (simp add: demo_seg_def upt_rec [of _ 64])
  have l: "seg_little demo_bins = (\<lambda>i. if i = 40 then [4096] else [])"
    by (simp add: demo_bins_def mark_bin_def segheap_new_def)
  show ?thesis
    using segheap_malloc_bins [OF ok, of 1] m l
    by (simp add: demo_seg_def seg_maxObjectSize_def unmark_bin_def get_binmap_bit demo_bins_bit idx2block_def
        idx2bit_push bit_and_iff bit_not_iff bit_exp_iff)
qed

end
