(* ===== verification/Spec2Isabelle.thy ===== *)
theory Spec2Isabelle
  imports Heap_Clients Fence Xpersist_Owned Log_Props Schedule_Props Xmmap_Props Heap_Api_Props Xrun_Props
    Xmemory_Props Xpersist_Final Exports Execution_Props Numa_Pages_Props System_Example Library Thread_Objects Seg_Heap
begin

text \<open>
  A verification of tthread, a library that replaces the thread functions of a C program so that its
  threads are processes, which see each other's writes at synchronization calls only and in an order
  that does not depend on the machine, and that writes a log of the pages every thread touches between
  two such calls (a thunk). The code is C++ under \<^verbatim>\<open>src/include\<close> and \<^verbatim>\<open>src/tthread\<close>; a second program,
  \<^verbatim>\<open>src/schas\<close>, compiles schedules the library can follow, and a third, \<^verbatim>\<open>src/numasim\<close>, simulates a log on a
  machine whose memory is divided into domains.

  \<^bold>\<open>The program.\<close> A call of the program enters through \<^verbatim>\<open>tthread.cpp\<close> and \<^verbatim>\<open>read.cpp\<close>. A synchronization call
  goes to the engine \<^verbatim>\<open>xrun.h\<close>, which commits the memory (\<^verbatim>\<open>xmemory.h\<close>), asks the scheduler (\<^verbatim>\<open>determ.h\<close>) for
  the token, and begins a new thunk. An allocation goes to the heap (\<^verbatim>\<open>warpheap.h\<close> on \<^verbatim>\<open>xheap.h\<close>). An access
  to a protected page faults; the handler of \<^verbatim>\<open>xmemory.h\<close> sends it to the region (\<^verbatim>\<open>xpersist.h\<close>) or mapping
  (\<^verbatim>\<open>xmmap.h\<close>) it falls in, which opens the page and logs the access (\<^verbatim>\<open>xlogger.h\<close>).

  \<^bold>\<open>Conventions.\<close> A C integer is a word of its width and wraps; a \<open>size_t\<close> index of a table that stays
  within the table is a \<open>nat\<close>, a process id an \<open>int\<close>. A call that can fail has a value of type
  \<open>fault + 'a\<close>: \<open>Abort\<close> is \<open>abort\<close>, \<open>Exit\<close> is \<open>exit\<close>, \<open>Segv\<close> an access to memory the code must not touch
  and \<open>Undefined\<close> behaviour C does not define (\<open>Prelude\<close>). State is passed explicitly, in a record per class with the fields of the class. What the
  system answers (the address of a mapping, whether \<open>clone\<close> succeeds, the number of processors) is an
  argument of a definition. The build modelled has SSE and neither debug output nor assertions, on
  x86-64.

  \<^bold>\<open>Memory for objects.\<close>
  \<^item> \<open>Prelude\<close>: types, faults, the constants of \<^verbatim>\<open>xdefines.h\<close>.
  \<^item> \<open>Size_Class\<close>: \<open>size2Class\<close> of \<^verbatim>\<open>kingsleyheap.h\<close>; it is the least class that fits.
  \<^item> \<open>Heap_Layers\<close>: the allocator layer by layer as the templates compose it, over a store of eight-byte
    cells: arenas (\<^verbatim>\<open>zoneheap.h\<close>), free lists (\<^verbatim>\<open>util/sllist.h\<close>, \<^verbatim>\<open>adapt.h\<close>), object headers (\<^verbatim>\<open>objectheader.h\<close>),
    size classes (\<^verbatim>\<open>segheap.h\<close>), rounding (\<^verbatim>\<open>ansiwrapper.h\<close>), a heap per index (\<^verbatim>\<open>warpheap.h\<close>), and the two
    sources \<^verbatim>\<open>xheap.h\<close> and \<^verbatim>\<open>internalheap.h\<close>.
  \<^item> \<open>Bit_Strings\<close>, \<open>Seg_Heap\<close>: the parts of Heap Layers below and beside: runs of free bits (\<^verbatim>\<open>util/bitstring.h\<close>,
    \<^verbatim>\<open>util/bitindex.h\<close>) and the segregated heap with its map of bins, of which tthread uses the strict variant;
    both searches are first fit.
  \<^item> \<open>Heap_Safety\<close>: the locales \<open>free_dictionary\<close>, the contract of the free lists, and \<open>source_heap\<close>, the
    contract of a source, and the invariant of the allocator on every source that meets it.
  \<^item> \<open>Heap_Clients\<close>: both sources meet the contract; what any threads can reach by \<open>malloc\<close>, \<open>free\<close> and
    writes into their objects keeps objects apart, aligned and in the region.
  \<^item> \<open>Heap_Api\<close>, \<open>Heap_Api_Props\<close>: \<open>realloc\<close>, \<open>calloc\<close>, \<open>memalign\<close> and the exported functions, with the
    table of mappings that serves calls before the initialisation.

  \<^bold>\<open>The scheduler.\<close>
  \<^item> \<open>Link_List\<close>: \<^verbatim>\<open>list.h\<close>, circular lists as pointers, and what they do to the sequence of a ring.
  \<^item> \<open>Determ\<close>: every operation of \<^verbatim>\<open>determ.h\<close> as a step between two points where it waits.
  \<^item> \<open>Determ_Queues\<close>, \<open>Determ_Sched\<close>, \<open>Determ_Props\<close>: the queues as sequences, the invariant of all
    states that \<open>sched_step\<close> reaches, each operation as an operation on sequences, the rotation of the token,
    exclusion, and the runs that lose a thread or a lock. \<open>sched_step\<close> has every call of the scheduler, in any
    order, but for three cases in which the code breaks its queues: the only active thread sleeps or exits,
    a thread that waits for a condition variable is cancelled, an object with waiters is destroyed. In
    \<open>lock_step\<close> only the holder of a lock releases it; \<open>wakeup_frees_foreign_lock\<close> is a run of the code that
    does not keep to that.
  \<^item> \<open>Fence\<close>: \<open>waitFence\<close> as an interleaving of its critical sections; it is a barrier, and it does not
    get stuck. The sleepers of its condition variable are a set (\<open>fence_cond\<close>) that a broadcast empties, and
    a spurious wakeup is a step.
  \<^item> \<open>Schedule\<close>, \<open>Schedule_Props\<close>: \<^verbatim>\<open>schas.cpp\<close> from text to bytes and \<^verbatim>\<open>xsched.cpp\<close> from bytes to a
    processor; the round trip, and that the search ends.

  \<^bold>\<open>Memory of processes.\<close>
  \<^item> \<open>Page_Tables\<close>: \<^verbatim>\<open>xbitmap.h\<close>, \<^verbatim>\<open>xpageentry.h\<close>, \<^verbatim>\<open>xpageinfo.h\<close>, \<^verbatim>\<open>xatomic.h\<close>.
  \<^item> \<open>Xpersist\<close>: every operation of \<^verbatim>\<open>xpersist.h\<close> on protections, private copies and the shared file, and
    loads and stores that fault. \<open>Xpersist_Commit\<close>: the difference of pages, a commit as a merge.
    The table of the blocks a process owns overflows with the 257th (\<open>owned_table_overflows\<close>).
    \<open>Xpersist_Round\<close>: a round of parallel work and ordered commits gives a result that does not depend on
    the interleaving. \<open>Xpersist_Owned\<close>, \<open>Xpersist_Final\<close>: pages that belong to one process, how they are
    handed over, and the last commit.
  \<^item> \<open>Xmmap\<close>, \<open>Xmmap_Props\<close>: the mappings of the program, \<^verbatim>\<open>xmmap.h\<close>, \<^verbatim>\<open>mmappage.h\<close>, \<^verbatim>\<open>accessedmmappages.h\<close>; the
    vector of pages refines a map, within the limits of \<open>acts_ok\<close>, beyond which it does not.
  \<^item> \<open>Xmemory\<close>, \<open>Xmemory_Props\<close>: \<^verbatim>\<open>xmemory.h\<close>, the regions, the heap and the mappings together; when the fault
    handler makes progress, and the one write that faults for ever (\<open>owned_write_livelock\<close>). The heap on its region is a third instance of \<open>source_heap\<close>.

  \<^bold>\<open>The engine and the log.\<close>
  \<^item> \<open>Xrun\<close>, \<open>Xrun_Props\<close>: \<^verbatim>\<open>xrun.h\<close> and \<^verbatim>\<open>xthread.cpp\<close> as the calls they make on the other parts; thunks are
    numbered and closed in order, and two ways to commit without the token.
  \<^item> \<open>Exports\<close>: the thread functions of \<^verbatim>\<open>tthread.cpp\<close>, and what its file functions and \<^verbatim>\<open>read.cpp\<close> touch.
  \<^item> \<open>Bytes\<close>, \<open>Xlogger\<close>, \<open>Log_Props\<close>: the log as bytes of a file seen through windows, \<^verbatim>\<open>xlogger.h\<close>, \<^verbatim>\<open>log.cpp\<close>,
    \<^verbatim>\<open>logevent.h\<close>; what is written is what is read.

  \<^bold>\<open>Executions.\<close>
  \<^item> \<open>Interleaving\<close>: the locale \<open>commuting\<close>, steps of processes that do not disturb each other; all runs that
    finish have the same length and end.
  \<^item> \<open>Execution\<close>, \<open>Execution_Props\<close>: programs that load, store and synchronize, on the region of \<^verbatim>\<open>xpersist.h\<close>
    under the token of \<^verbatim>\<open>determ.h\<close>, composed as in \<^verbatim>\<open>xrun.h\<close>. Their instructions between two fences are an
    instance of \<open>commuting\<close>, so a whole execution has one possible end. The turns of a round (\<open>turns\<close>, a
    composition made here of commits and \<open>putToken\<close>) are the commits in the order of the ring. A program in a critical section
    runs under the token alone; \<open>mutex_unlock\<close> starts the next transaction after it has passed the token,
    which makes no difference (\<open>begin_after_putToken\<close>). Pages that belong to a process are left out here.

  \<^bold>\<open>The system.\<close>
  \<^item> \<open>System\<close>: all parts composed. Processes run the calls their engines make (\<open>Xrun\<close>) on one scheduler (\<open>Determ\<close>,
    \<open>Fence\<close>), whose pointers lie in the memory of the processes (\<open>Xmemory\<close>), and on the log (\<open>Xlogger\<close>): \<open>world_step\<close>
    is one call, or one section, spin or wakeup of a call that blocks, an access of the program, the \<open>clone\<close>, birth
    or death of a process; \<open>world_start\<close> runs the constructor of \<^verbatim>\<open>xrun.h\<close> on zeroed tables. Its first argument
    is a rule for the calls a process may begin: the code has none (\<open>\<lambda>_ _. True\<close>); \<open>op_ok\<close>, under which commits are
    exclusive, asks with the fence on that a wait for a condition variable and a spawn begin with the token
    and a join, a barrier and a \<open>sigwait\<close> without it. \<open>run_kill\<close> is no call of the system: no exported function
    makes it.
  \<^item> \<open>System_Props\<close>, \<open>System_Token\<close>, \<open>System_Example\<close>: what each call does to the token and the pointers of the
    scheduler; under the rule \<open>op_ok\<close>, the invariant that who the engine believes to hold the token holds it, so
    commits are exclusive; a run. The system follows a process to its exit or to the join after which it is alone.
  \<^item> \<open>Thread_Objects\<close>: the shared page of a thread (\<^verbatim>\<open>xthread.cpp\<close>), which processes see through mappings of their own;
    what a join returns, whoever joins and whenever.
  \<^item> \<open>Library\<close>: the rest of \<^verbatim>\<open>tthread.cpp\<close>, the start and end of the library, the making of synchronization objects
    and the mappings; the entry of a mutex is found by all processes before the one that made it commits.

  \<^bold>\<open>The simulator.\<close>
  \<^item> \<open>Numa_Graph\<close>, \<open>Numa_Graph_Props\<close>: \<^verbatim>\<open>read_tsv.cpp\<close>, from the characters of a log to the graph of its thunks;
    the graph follows the log, and the logs for which it loses dependencies.
  \<^item> \<open>Numa_Pages\<close>, \<open>Numa_Pages_Props\<close>: \<^verbatim>\<open>numasim.cpp\<close>, the placement of pages and the loop of the simulation; pages
    are placed where they are used first, and the loop ends. SimGrid is a record of functions of the calls
    made so far, with its documented laws as hypotheses: \<open>simgrid_ok\<close> for the graph, \<open>sim_ok\<close> for the states a
    task goes through and what \<open>SD_simulate\<close> returns. Instances meet them (\<open>demo_grid\<close>, and \<open>twice_grid\<close>, which
    returns every task when it starts and again when it is done). There is no build file for this program; its assertions are on.

  \<^bold>\<open>Bounds.\<close> The properties of the heap are about requests of at most \<open>lim\<close> bytes with \<open>lim\<close> some
  thousand bytes below \<open>2 ^ 64\<close>, and say what happens above. \<open>load\<close> and \<open>store\<close> of \<open>Xpersist\<close> try an access a
  number of times; two are enough, by \<open>fault_progress\<close> and \<open>round_deterministic\<close>. The search of \<open>xsched.cpp\<close>
  and the loop that touches a buffer are partial functions; their properties include that they return.
  The loop over a range of pages in the simulator is partial too; it ends unless the range ends at the
  largest number (\<open>insert_range_returns\<close>). The turn of a process has fuel for its instructions under the
  token; more fuel gives the same result (\<open>turn_more\<close>). \<open>getLockAgain\<close> follows a list of answers, one for each time the lock was asked for.

  \<^bold>\<open>Not modelled.\<close> The system calls; how processes wait inside the mutexes and condition variables of the
  C library (a wait is a point of a transition system, a critical section a step; but for the fence the
  sleepers of a condition variable may wake at any time, as after a broadcast or spuriously); the lock of
  \<^verbatim>\<open>warpheap.h\<close>, which is commented out: \<open>malloc\<close> and \<open>free\<close> are one step each, although threads whose
  indices agree modulo 32 share a heap; the log event of the page a last commit reads; the signal a
  process gets when it is killed while it waits for the owner of a page; counters, timers and debug
  output (\<^verbatim>\<open>prof.h\<close>, \<^verbatim>\<open>debug.h\<close>, \<^verbatim>\<open>xtime.h\<close>); wrappers that only forward (\<^verbatim>\<open>real.cpp\<close>, \<^verbatim>\<open>privateheap.h\<close>,
  \<^verbatim>\<open>xplock.h\<close>); layers of Heap Layers no instance uses (\<^verbatim>\<open>freelistheap.h\<close> and others); the command line
  and the output of the simulator; the Python tools, the benchmarks and the tests. The cells in which the allocator keeps its headers and lists and the bytes of the pages
  of its region are the same memory in the program and two states of the model: the allocator is
  verified as if its writes were seen at once. In the program headers and links lie in protected pages,
  and a thread sees those another thread has written after the next commit only.
\<close>

end
